(* ===== verification/Prelude.thy ===== *)
theory Prelude
  imports Main "HOL-Library.Word" "HOL-Library.Multiset"
begin

text \<open>
  Shared vocabulary of the development: the Go types the components name, the slice
  idioms they repeat (deleting and inserting at an index, the index search that
  returns \<open>-1\<close>), and the lemmas about them that the component proofs use through
  the collections \<open>go_slice\<close> and \<open>find_idx_facts\<close>.

  Conventions. A Go slice is a list, a Go \<open>string\<close> is a list of bytes
  (\<open>char list\<close>), \<open>uint32\<close> is \<open>32 word\<close> and wraps.  Go's \<open>int\<close> is 64 bits wide; it
  is modelled by \<open>int\<close> where it only ever holds an index or a length of a slice, which
  never comes near \<open>2^63\<close>.  A panic (an index out of range, a nil dereference) is the
  value \<open>None\<close> or the constructor \<open>Panic\<close> of the component's own result type.
\<close>

named_theorems go_slice
named_theorems find_idx_facts

type_synonym uid = string
type_synonym u32 = "32 word"

subsection \<open>Slices\<close>

text \<open>\<open>append(xs[:i], xs[i+1:]...)\<close>\<close>

definition slice_delete :: "'a list \<Rightarrow> nat \<Rightarrow> 'a list" where
  "slice_delete xs i = take i xs @ drop (Suc i) xs"

text \<open>\<open>slices.Insert(xs, i, x)\<close>\<close>

definition slice_insert :: "'a list \<Rightarrow> nat \<Rightarrow> 'a \<Rightarrow> 'a list" where
  "slice_insert xs i x = take i xs @ x # drop i xs"

lemma length_slice_delete [simp, go_slice]:
  "i < length xs \<Longrightarrow> length (slice_delete xs i) = length xs - 1"
  by (simp add: slice_delete_def)

lemma length_slice_insert [simp, go_slice]:
  "length (slice_insert xs i x) = Suc (length xs)"
  by (simp add: slice_insert_def min_def)

lemma set_slice_delete_subset [go_slice]: "set (slice_delete xs i) \<subseteq> set xs"
  unfolding slice_delete_def using set_take_subset[of i xs] set_drop_subset[of "Suc i" xs] by auto

lemma set_slice_insert [simp, go_slice]: "set (slice_insert xs i x) = insert x (set xs)"
proof -
  have "set xs = set (take i xs) \<union> set (drop i xs)"
    by (metis append_take_drop_id set_append)
  then show ?thesis by (simp add: slice_insert_def)
qed

lemma mset_slice_delete [go_slice]:
  assumes "i < length xs"
  shows "mset xs = add_mset (xs ! i) (mset (slice_delete xs i))"
proof -
  have "xs = take i xs @ xs ! i # drop (Suc i) xs"
    using assms by (rule id_take_nth_drop)
  then have "mset xs = mset (take i xs @ xs ! i # drop (Suc i) xs)" by simp
  then show ?thesis by (simp add: slice_delete_def)
qed

lemma distinct_slice_delete [go_slice]:
  assumes "distinct xs" "i < length xs"
  shows "distinct (slice_delete xs i)"
    and "set (slice_delete xs i) = set xs - {xs ! i}"
proof -
  have eq: "xs = take i xs @ xs ! i # drop (Suc i) xs"
    using assms(2) by (rule id_take_nth_drop)
  then have "distinct (take i xs @ xs ! i # drop (Suc i) xs)" using assms(1) by simp
  then show "distinct (slice_delete xs i)" by (auto simp: slice_delete_def)
  have "set xs = insert (xs ! i) (set (slice_delete xs i))"
    using arg_cong[OF eq, of set] by (simp add: slice_delete_def)
  moreover have "xs ! i \<notin> set (slice_delete xs i)"
    using \<open>distinct (take i xs @ xs ! i # drop (Suc i) xs)\<close> by (simp add: slice_delete_def)
  ultimately show "set (slice_delete xs i) = set xs - {xs ! i}" by auto
qed

lemma sorted_slice_delete [go_slice]:
  fixes xs :: "'a::linorder list"
  assumes "sorted xs"
  shows "sorted (slice_delete xs i)"
proof -
  have "sorted (take i xs @ drop i xs)" using assms by simp
  then have "sorted (take i xs)" "sorted (drop i xs)"
    and ord: "\<forall>x\<in>set (take i xs). \<forall>y\<in>set (drop i xs). x \<le> y"
    unfolding sorted_append by blast+
  moreover have "sorted (drop (Suc i) xs)" using assms by (rule sorted_wrt_drop)
  moreover have "set (drop (Suc i) xs) \<subseteq> set (drop i xs)"
    by (rule set_drop_subset_set_drop) simp
  ultimately show ?thesis by (auto simp: slice_delete_def sorted_append)
qed

lemma nth_slice_delete [go_slice]:
  assumes "i < length xs" "k < length xs - 1"
  shows "slice_delete xs i ! k = (if k < i then xs ! k else xs ! Suc k)"
  using assms by (auto simp: slice_delete_def nth_append min_def)

subsection \<open>The index search that returns -1\<close>

text \<open>
  The loop \<open>for i, x := range xs { if P(x) { return i } }; return -1\<close>, which the
  code writes out wherever it looks a value up by position.
\<close>

fun find_idx :: "('a \<Rightarrow> bool) \<Rightarrow> 'a list \<Rightarrow> int" where
  "find_idx P [] = -1"
| "find_idx P (x # xs) =
     (if P x then 0 else (let r = find_idx P xs in if r < 0 then -1 else r + 1))"

lemma find_idx_lower [simp, find_idx_facts]: "-1 \<le> find_idx P xs"
  by (induction xs) (auto simp: Let_def)

lemma find_idx_upper [simp, find_idx_facts]: "find_idx P xs < int (length xs)"
  by (induction xs) (auto simp: Let_def)

lemma find_idx_neg_iff [find_idx_facts]: "find_idx P xs < 0 \<longleftrightarrow> (\<forall>x\<in>set xs. \<not> P x)"
  by (induction xs) (auto simp: Let_def)

lemma find_idx_minus_one_iff [find_idx_facts]:
  "find_idx P xs = -1 \<longleftrightarrow> (\<forall>x\<in>set xs. \<not> P x)"
  using find_idx_lower[of P xs] find_idx_neg_iff[of P xs] by linarith

lemma find_idx_nonneg_iff [find_idx_facts]: "0 \<le> find_idx P xs \<longleftrightarrow> (\<exists>x\<in>set xs. P x)"
  using find_idx_neg_iff[of P xs] by force

lemma find_idx_hit [find_idx_facts]: "0 \<le> find_idx P xs \<Longrightarrow> P (xs ! nat (find_idx P xs))"
proof (induction xs)
  case Nil
  then show ?case by simp
next
  case (Cons x xs)
  show ?case
  proof (cases "P x")
    case True
    then show ?thesis by simp
  next
    case False
    with Cons.prems have r: "0 \<le> find_idx P xs" by (auto simp: Let_def split: if_splits)
    then have "nat (find_idx P xs + 1) = Suc (nat (find_idx P xs))" by simp
    with False r Cons.IH show ?thesis by (simp add: Let_def)
  qed
qed

lemma find_idx_first [find_idx_facts]:
  "int k < find_idx P xs \<Longrightarrow> \<not> P (xs ! k)"
proof (induction xs arbitrary: k)
  case Nil
  then show ?case by simp
next
  case (Cons x xs)
  then have nx: "\<not> P x" and r: "0 \<le> find_idx P xs" "int k < find_idx P xs + 1"
    by (auto simp: Let_def split: if_splits)
  show ?case
  proof (cases k)
    case 0
    with nx show ?thesis by simp
  next
    case (Suc j)
    with r have "int j < find_idx P xs" by simp
    with Cons.IH Suc show ?thesis by simp
  qed
qed

text \<open>In a slice without repetitions the search finds the position of an element.\<close>

lemma find_idx_distinct [find_idx_facts]:
  assumes "distinct xs" "i < length xs"
  shows "find_idx (\<lambda>y. y = xs ! i) xs = int i"
proof -
  let ?r = "find_idx (\<lambda>y. y = xs ! i) xs"
  have r: "0 \<le> ?r" using assms(2) by (auto simp: find_idx_nonneg_iff)
  then have "xs ! nat ?r = xs ! i" by (rule find_idx_hit)
  moreover have "nat ?r < length xs" using r find_idx_upper[of _ xs] by (metis nat_less_iff)
  ultimately have "nat ?r = i" using assms by (simp add: nth_eq_iff_index_eq)
  with r show ?thesis by simp
qed

end
