(* ===== verification/Unicode.thy ===== *)
theory Unicode
  imports Prelude
begin

text \<open>
  Go's strings as text: the runes of a byte string as \<open>range\<close> and \<open>utf8.DecodeRune\<close> read them, the
  encoding of a rune, and the case of runes by the tables of Unicode 15.0 that Go's package
  \<open>unicode\<close> holds.  \<open>strings.ToLower\<close> is the map over the runes, also for bytes that are no UTF-8, which
  become the replacement character.  Lower-casing twice is lower-casing once.
\<close>

subsection \<open>UTF-8\<close>

definition byte_of :: "char \<Rightarrow> nat" where "byte_of c = of_char c"

definition cont_byte :: "nat \<Rightarrow> bool" where "cont_byte b \<longleftrightarrow> 128 \<le> b \<and> b \<le> 191"

text \<open>
  The rune that begins with byte \<open>b\<close> and the number of bytes it takes after it; a byte that begins no
  rune is the replacement character on its own.
\<close>

definition rune_at :: "nat \<Rightarrow> nat list \<Rightarrow> nat \<times> nat" where
  "rune_at b bs =
     (if b < 128 then (b, 0)
      else case bs of [] \<Rightarrow> (65533, 0)
      | b1 # bs1 \<Rightarrow>
          if 194 \<le> b \<and> b \<le> 223 then
            (if cont_byte b1 then ((b - 192) * 64 + (b1 - 128), 1) else (65533, 0))
          else (case bs1 of [] \<Rightarrow> (65533, 0)
          | b2 # bs2 \<Rightarrow>
              if 224 \<le> b \<and> b \<le> 239 then
                (if (if b = 224 then 160 else 128) \<le> b1 \<and> b1 \<le> (if b = 237 then 159 else 191) \<and> cont_byte b2
                 then ((b - 224) * 4096 + (b1 - 128) * 64 + (b2 - 128), 2) else (65533, 0))
              else (case bs2 of [] \<Rightarrow> (65533, 0)
              | b3 # bs3 \<Rightarrow>
                  if 240 \<le> b \<and> b \<le> 244
                    \<and> (if b = 240 then 144 else 128) \<le> b1 \<and> b1 \<le> (if b = 244 then 143 else 191)
                    \<and> cont_byte b2 \<and> cont_byte b3
                  then ((b - 240) * 262144 + (b1 - 128) * 4096 + (b2 - 128) * 64 + (b3 - 128), 3)
                  else (65533, 0))))"

function runes_of :: "nat list \<Rightarrow> nat list" where
  "runes_of [] = []"
| "runes_of (b # bs) = fst (rune_at b bs) # runes_of (drop (snd (rune_at b bs)) bs)"
  by pat_completeness auto
termination by (relation "measure length") auto

definition utf8_runes :: "string \<Rightarrow> nat list" where
  "utf8_runes s = runes_of (map byte_of s)"

definition encode_rune :: "nat \<Rightarrow> nat list" where
  "encode_rune r =
     (if r < 128 then [r]
      else if r < 2048 then [192 + r div 64, 128 + r mod 64]
      else if r < 65536 then [224 + r div 4096, 128 + r div 64 mod 64, 128 + r mod 64]
      else [240 + r div 262144, 128 + r div 4096 mod 64, 128 + r div 64 mod 64, 128 + r mod 64])"

definition utf8_string :: "nat list \<Rightarrow> string" where
  "utf8_string rs = map char_of (concat (map encode_rune rs))"

definition valid_rune :: "nat \<Rightarrow> bool" where
  "valid_rune r \<longleftrightarrow> r < 55296 \<or> 57344 \<le> r \<and> r < 1114112"

subsection \<open>Case tables\<close>

text \<open>
  Ranges above ASCII as first and last rune, step, and the distance to the lower case, in blocks with
  their bounds; then the upper-case letters (category Lu).
\<close>

definition lower_blocks :: "(nat \<times> nat \<times> (nat \<times> nat \<times> nat \<times> int) list) list" where
  "lower_blocks =
     [
      (192, 390, [(192, 214, 1, 32), (216, 222, 1, 32), (256, 302, 2, 1), (304, 304, 1, -199),
        (306, 310, 2, 1), (313, 327, 2, 1), (330, 374, 2, 1), (376, 376, 1, -121),
        (377, 381, 2, 1), (385, 385, 1, 210), (386, 388, 2, 1), (390, 390, 1, 206)]),
      (391, 408, [(391, 391, 1, 1), (393, 394, 1, 205), (395, 395, 1, 1), (398, 398, 1, 79),
        (399, 399, 1, 202), (400, 400, 1, 203), (401, 401, 1, 1), (403, 403, 1, 205),
        (404, 404, 1, 207), (406, 406, 1, 211), (407, 407, 1, 209), (408, 408, 1, 1)]),
      (412, 437, [(412, 412, 1, 211), (413, 413, 1, 213), (415, 415, 1, 214), (416, 420, 2, 1),
        (422, 422, 1, 218), (423, 423, 1, 1), (425, 425, 1, 218), (428, 428, 1, 1),
        (430, 430, 1, 218), (431, 431, 1, 1), (433, 434, 1, 217), (435, 437, 2, 1)]),
      (439, 500, [(439, 439, 1, 219), (440, 440, 1, 1), (444, 444, 1, 1), (452, 452, 1, 2),
        (453, 453, 1, 1), (455, 455, 1, 2), (456, 456, 1, 1), (458, 458, 1, 2),
        (459, 475, 2, 1), (478, 494, 2, 1), (497, 497, 1, 2), (498, 500, 2, 1)]),
      (502, 580, [(502, 502, 1, -97), (503, 503, 1, -56), (504, 542, 2, 1), (544, 544, 1, -130),
        (546, 562, 2, 1), (570, 570, 1, 10795), (571, 571, 1, 1), (573, 573, 1, -163),
        (574, 574, 1, 10792), (577, 577, 1, 1), (579, 579, 1, -195), (580, 580, 1, 69)]),
      (581, 975, [(581, 581, 1, 71), (582, 590, 2, 1), (880, 882, 2, 1), (886, 886, 1, 1),
        (895, 895, 1, 116), (902, 902, 1, 38), (904, 906, 1, 37), (908, 908, 1, 64),
        (910, 911, 1, 63), (913, 929, 1, 32), (931, 939, 1, 32), (975, 975, 1, 8)]),
      (984, 1229, [(984, 1006, 2, 1), (1012, 1012, 1, -60), (1015, 1015, 1, 1), (1017, 1017, 1, -7),
        (1018, 1018, 1, 1), (1021, 1023, 1, -130), (1024, 1039, 1, 80), (1040, 1071, 1, 32),
        (1120, 1152, 2, 1), (1162, 1214, 2, 1), (1216, 1216, 1, 15), (1217, 1229, 2, 1)]),
      (1232, 7934, [(1232, 1326, 2, 1), (1329, 1366, 1, 48), (4256, 4293, 1, 7264), (4295, 4295, 1, 7264),
        (4301, 4301, 1, 7264), (5024, 5103, 1, 38864), (5104, 5109, 1, 8), (7312, 7354, 1, -3008),
        (7357, 7359, 1, -3008), (7680, 7828, 2, 1), (7838, 7838, 1, -7615), (7840, 7934, 2, 1)]),
      (7944, 8123, [(7944, 7951, 1, -8), (7960, 7965, 1, -8), (7976, 7983, 1, -8), (7992, 7999, 1, -8),
        (8008, 8013, 1, -8), (8025, 8031, 2, -8), (8040, 8047, 1, -8), (8072, 8079, 1, -8),
        (8088, 8095, 1, -8), (8104, 8111, 1, -8), (8120, 8121, 1, -8), (8122, 8123, 1, -74)]),
      (8124, 8486, [(8124, 8124, 1, -9), (8136, 8139, 1, -86), (8140, 8140, 1, -9), (8152, 8153, 1, -8),
        (8154, 8155, 1, -100), (8168, 8169, 1, -8), (8170, 8171, 1, -112), (8172, 8172, 1, -7),
        (8184, 8185, 1, -128), (8186, 8187, 1, -126), (8188, 8188, 1, -9), (8486, 8486, 1, -7517)]),
      (8490, 11371, [(8490, 8490, 1, -8383), (8491, 8491, 1, -8262), (8498, 8498, 1, 28), (8544, 8559, 1, 16),
        (8579, 8579, 1, 1), (9398, 9423, 1, 26), (11264, 11311, 1, 48), (11360, 11360, 1, 1),
        (11362, 11362, 1, -10743), (11363, 11363, 1, -3814), (11364, 11364, 1, -10727), (11367, 11371, 2, 1)]),
      (11373, 42650, [(11373, 11373, 1, -10780), (11374, 11374, 1, -10749), (11375, 11375, 1, -10783), (11376, 11376, 1, -10782),
        (11378, 11378, 1, 1), (11381, 11381, 1, 1), (11390, 11391, 1, -10815), (11392, 11490, 2, 1),
        (11499, 11501, 2, 1), (11506, 11506, 1, 1), (42560, 42604, 2, 1), (42624, 42650, 2, 1)]),
      (42786, 42924, [(42786, 42798, 2, 1), (42802, 42862, 2, 1), (42873, 42875, 2, 1), (42877, 42877, 1, -35332),
        (42878, 42886, 2, 1), (42891, 42891, 1, 1), (42893, 42893, 1, -42280), (42896, 42898, 2, 1),
        (42902, 42920, 2, 1), (42922, 42922, 1, -42308), (42923, 42923, 1, -42319), (42924, 42924, 1, -42315)]),
      (42925, 42960, [(42925, 42925, 1, -42305), (42926, 42926, 1, -42308), (42928, 42928, 1, -42258), (42929, 42929, 1, -42282),
        (42930, 42930, 1, -42261), (42931, 42931, 1, 928), (42932, 42946, 2, 1), (42948, 42948, 1, -48),
        (42949, 42949, 1, -42307), (42950, 42950, 1, -35384), (42951, 42953, 2, 1), (42960, 42960, 1, 1)]),
      (42966, 93791, [(42966, 42968, 2, 1), (42997, 42997, 1, 1), (65313, 65338, 1, 32), (66560, 66599, 1, 40),
        (66736, 66771, 1, 40), (66928, 66938, 1, 39), (66940, 66954, 1, 39), (66956, 66962, 1, 39),
        (66964, 66965, 1, 39), (68736, 68786, 1, 64), (71840, 71871, 1, 32), (93760, 93791, 1, 32)]),
      (125184, 125217, [(125184, 125217, 1, 34)])]"

definition lower_table :: "(nat \<times> nat \<times> nat \<times> int) list" where
  "lower_table = concat (map (snd \<circ> snd) lower_blocks)"

definition upper_table :: "(nat \<times> nat \<times> nat) list" where
  "upper_table =
     [
      (192, 214, 1), (216, 222, 1), (256, 310, 2), (313, 327, 2),
      (330, 376, 2), (377, 381, 2), (385, 386, 1), (388, 390, 2),
      (391, 393, 2), (394, 395, 1), (398, 401, 1), (403, 404, 1),
      (406, 408, 1), (412, 413, 1), (415, 416, 1), (418, 422, 2),
      (423, 425, 2), (428, 430, 2), (431, 433, 2), (434, 435, 1),
      (437, 439, 2), (440, 440, 1), (444, 444, 1), (452, 452, 1),
      (455, 455, 1), (458, 458, 1), (461, 475, 2), (478, 494, 2),
      (497, 497, 1), (500, 502, 2), (503, 504, 1), (506, 562, 2),
      (570, 571, 1), (573, 574, 1), (577, 579, 2), (580, 582, 1),
      (584, 590, 2), (880, 882, 2), (886, 886, 1), (895, 895, 1),
      (902, 904, 2), (905, 906, 1), (908, 910, 2), (911, 913, 2),
      (914, 929, 1), (931, 939, 1), (975, 975, 1), (978, 980, 1),
      (984, 1006, 2), (1012, 1012, 1), (1015, 1017, 2), (1018, 1018, 1),
      (1021, 1071, 1), (1120, 1152, 2), (1162, 1216, 2), (1217, 1229, 2),
      (1232, 1326, 2), (1329, 1366, 1), (4256, 4293, 1), (4295, 4295, 1),
      (4301, 4301, 1), (5024, 5109, 1), (7312, 7354, 1), (7357, 7359, 1),
      (7680, 7828, 2), (7838, 7934, 2), (7944, 7951, 1), (7960, 7965, 1),
      (7976, 7983, 1), (7992, 7999, 1), (8008, 8013, 1), (8025, 8031, 2),
      (8040, 8047, 1), (8120, 8123, 1), (8136, 8139, 1), (8152, 8155, 1),
      (8168, 8172, 1), (8184, 8187, 1), (8450, 8450, 1), (8455, 8455, 1),
      (8459, 8461, 1), (8464, 8466, 1), (8469, 8469, 1), (8473, 8477, 1),
      (8484, 8490, 2), (8491, 8493, 1), (8496, 8499, 1), (8510, 8511, 1),
      (8517, 8517, 1), (8579, 8579, 1), (11264, 11311, 1), (11360, 11362, 2),
      (11363, 11364, 1), (11367, 11373, 2), (11374, 11376, 1), (11378, 11378, 1),
      (11381, 11381, 1), (11390, 11392, 1), (11394, 11490, 2), (11499, 11501, 2),
      (11506, 11506, 1), (42560, 42604, 2), (42624, 42650, 2), (42786, 42798, 2),
      (42802, 42862, 2), (42873, 42877, 2), (42878, 42886, 2), (42891, 42893, 2),
      (42896, 42898, 2), (42902, 42922, 2), (42923, 42926, 1), (42928, 42932, 1),
      (42934, 42948, 2), (42949, 42951, 1), (42953, 42953, 1), (42960, 42960, 1),
      (42966, 42968, 2), (42997, 42997, 1), (65313, 65338, 1), (66560, 66599, 1),
      (66736, 66771, 1), (66928, 66938, 1), (66940, 66954, 1), (66956, 66962, 1),
      (66964, 66965, 1), (68736, 68786, 1), (71840, 71871, 1), (93760, 93791, 1),
      (119808, 119833, 1), (119860, 119885, 1), (119912, 119937, 1), (119964, 119966, 2),
      (119967, 119967, 1), (119970, 119970, 1), (119973, 119974, 1), (119977, 119980, 1),
      (119982, 119989, 1), (120016, 120041, 1), (120068, 120069, 1), (120071, 120074, 1),
      (120077, 120084, 1), (120086, 120092, 1), (120120, 120121, 1), (120123, 120126, 1),
      (120128, 120132, 1), (120134, 120134, 1), (120138, 120144, 1), (120172, 120197, 1),
      (120224, 120249, 1), (120276, 120301, 1), (120328, 120353, 1), (120380, 120405, 1),
      (120432, 120457, 1), (120488, 120512, 1), (120546, 120570, 1), (120604, 120628, 1),
      (120662, 120686, 1), (120720, 120744, 1), (120778, 120778, 1), (125184, 125217, 1)]"

definition in_stride :: "nat \<Rightarrow> nat \<Rightarrow> nat \<Rightarrow> nat \<Rightarrow> bool" where
  "in_stride lo hi step r \<longleftrightarrow> lo \<le> r \<and> r \<le> hi \<and> (r - lo) mod step = 0"

definition lower_rune :: "nat \<Rightarrow> nat" where
  "lower_rune r =
     (if r < 128 then (if 65 \<le> r \<and> r \<le> 90 then r + 32 else r)
      else (case find (\<lambda>(lo, hi, step, d). in_stride lo hi step r) lower_table of
              None \<Rightarrow> r
            | Some (lo, hi, step, d) \<Rightarrow> nat (int r + d)))"

definition is_upper_rune :: "nat \<Rightarrow> bool" where
  "is_upper_rune r =
     (if r < 128 then 65 \<le> r \<and> r \<le> 90
      else list_ex (\<lambda>(lo, hi, step). in_stride lo hi step r) upper_table)"

subsection \<open>Lower case\<close>

definition is_ascii :: "char \<Rightarrow> bool" where "is_ascii c \<longleftrightarrow> (of_char c :: nat) < 128"

definition lower_char :: "char \<Rightarrow> char" where
  "lower_char c =
     (let n = (of_char c :: nat) in if 65 \<le> n \<and> n \<le> 90 then char_of (n + 32) else c)"

text \<open>\<open>strings.ToLower\<close>, with its short way for ASCII text.\<close>

definition to_lower :: "string \<Rightarrow> string" where
  "to_lower s =
     (if list_all is_ascii s then map lower_char s
      else utf8_string (map lower_rune (utf8_runes s)))"

subsection \<open>Decoding what was encoded\<close>

lemma div_mod_64: "(n::nat) div 64 * 64 + n mod 64 = n" by simp

lemma rune_at_encode:
  assumes "valid_rune r"
  shows "\<exists>b bs. encode_rune r = b # bs \<and> rune_at b (bs @ rest) = (r, length bs)"
proof -
  consider "r < 128" | "128 \<le> r" "r < 2048" | "2048 \<le> r" "r < 65536" | "65536 \<le> r" by linarith
  then show ?thesis
  proof cases
    case 1
    then show ?thesis by (simp add: encode_rune_def rune_at_def)
  next
    case 2
    define q c where "q = r div 64" and "c = r mod 64"
    have r: "r = q * 64 + c" "c < 64" by (simp_all add: q_def c_def)
    have l: "2 \<le> q" "q \<le> 31" using 2 r by linarith+
    have "encode_rune r = [192 + q, 128 + c]" using 2 by (simp add: encode_rune_def q_def c_def)
    moreover have "rune_at (192 + q) ([128 + c] @ rest) = (q * 64 + c, 1)"
      using l r(2) by (simp add: rune_at_def cont_byte_def)
    ultimately show ?thesis using r(1) by simp
  next
    case 3
    define q c where "q = r div 64" and "c = r mod 64"
    define a b where "a = q div 64" and "b = q mod 64"
    have r: "r = q * 64 + c" "q = a * 64 + b" "b < 64" "c < 64" by (simp_all add: q_def c_def a_def b_def)
    have e: "r div 4096 = a" "r div 64 mod 64 = b" "r mod 64 = c"
      by (simp_all add: q_def c_def a_def b_def div_mult2_eq[symmetric])
    have d: "a \<le> 15" "a = 0 \<Longrightarrow> 32 \<le> b" "a = 13 \<Longrightarrow> b \<le> 31"
      using 3 assms r unfolding valid_rune_def by linarith+
    have "encode_rune r = [224 + a, 128 + b, 128 + c]" using 3 by (simp add: encode_rune_def e)
    moreover have "rune_at (224 + a) ([128 + b, 128 + c] @ rest) = (a * 4096 + b * 64 + c, 2)"
      using d r(3,4) by (simp add: rune_at_def cont_byte_def)
    ultimately show ?thesis using r(1,2) by simp
  next
    case 4
    define q c where "q = r div 64" and "c = r mod 64"
    define p b where "p = q div 64" and "b = q mod 64"
    define a d where "a = p div 64" and "d = p mod 64"
    have r: "r = q * 64 + c" "q = p * 64 + b" "p = a * 64 + d" "b < 64" "c < 64" "d < 64"
      by (simp_all add: q_def c_def a_def b_def p_def d_def)
    have e: "r div 262144 = a" "r div 4096 mod 64 = d" "r div 64 mod 64 = b" "r mod 64 = c"
      by (simp_all add: q_def c_def a_def b_def p_def d_def div_mult2_eq[symmetric])
    have l: "a \<le> 4" "a = 0 \<Longrightarrow> 16 \<le> d" "a = 4 \<Longrightarrow> d \<le> 15"
      using 4 assms r unfolding valid_rune_def by linarith+
    have "encode_rune r = [240 + a, 128 + d, 128 + b, 128 + c]" using 4 by (simp add: encode_rune_def e)
    moreover have "rune_at (240 + a) ([128 + d, 128 + b, 128 + c] @ rest) = (a * 262144 + d * 4096 + b * 64 + c, 3)"
      using l r(4-6) by (simp add: rune_at_def cont_byte_def)
    ultimately show ?thesis using r(1-3) by simp
  qed
qed


lemma runes_of_encode: "\<forall>r\<in>set rs. valid_rune r \<Longrightarrow> runes_of (concat (map encode_rune rs)) = rs"
proof (induction rs)
  case (Cons r rs)
  obtain b bs where b: "encode_rune r = b # bs" "rune_at b (bs @ concat (map encode_rune rs)) = (r, length bs)"
    using rune_at_encode[of r "concat (map encode_rune rs)"] Cons.prems by auto
  then show ?case using Cons by simp
qed simp

lemma encode_bytes: "valid_rune r \<Longrightarrow> \<forall>b\<in>set (encode_rune r). b < 256"
proof -
  assume "valid_rune r"
  then have "r < 1114112" by (auto simp: valid_rune_def)
  then have "r div 262144 < 5" by (simp add: less_mult_imp_div_less)
  moreover have "r < 65536 \<Longrightarrow> r div 4096 < 16" by (simp add: less_mult_imp_div_less)
  moreover have "r < 2048 \<Longrightarrow> r div 64 < 32" by (simp add: less_mult_imp_div_less)
  moreover have "r div 64 mod 64 < 64" "r mod 64 < 64" "r div 4096 mod 64 < 64" by simp_all
  ultimately show ?thesis by (auto simp: encode_rune_def)
qed

lemma utf8_runes_string:
  assumes "\<forall>r\<in>set rs. valid_rune r"
  shows "utf8_runes (utf8_string rs) = rs"
proof -
  have "\<forall>b\<in>set (concat (map encode_rune rs)). b < 256" using assms encode_bytes by fastforce
  then have "map (byte_of \<circ> char_of) (concat (map encode_rune rs)) = concat (map encode_rune rs)"
    by (intro map_idI) (auto simp: byte_of_def)
  then show ?thesis
    unfolding utf8_runes_def utf8_string_def map_map using runes_of_encode[OF assms] by simp
qed

lemma valid_two: "b \<le> 223 \<Longrightarrow> 128 \<le> b1 \<Longrightarrow> b1 \<le> 191 \<Longrightarrow> valid_rune ((b - 192) * 64 + (b1 - 128))"
  unfolding valid_rune_def by linarith

lemma valid_three: "b \<le> 239 \<Longrightarrow> 128 \<le> b1 \<Longrightarrow> 128 \<le> b2 \<Longrightarrow> b1 \<le> (if b = 237 then 159 else 191) \<Longrightarrow> b2 \<le> 191 \<Longrightarrow>
   valid_rune ((b - 224) * 4096 + (b1 - 128) * 64 + (b2 - 128))"
  unfolding valid_rune_def by (cases "b \<le> 236"; cases "b = 237"; simp) linarith+

lemma valid_four: "240 \<le> b \<Longrightarrow> b \<le> 244 \<Longrightarrow> (if b = 240 then 144 else 128) \<le> b1 \<Longrightarrow> b1 \<le> (if b = 244 then 143 else 191) \<Longrightarrow>
   b2 \<le> 191 \<Longrightarrow> b3 \<le> 191 \<Longrightarrow> valid_rune ((b - 240) * 262144 + (b1 - 128) * 4096 + (b2 - 128) * 64 + (b3 - 128))"
  unfolding valid_rune_def by (cases "b = 240"; cases "b = 244"; simp) linarith+

lemma valid_replacement: "valid_rune 65533" by (simp add: valid_rune_def)

lemma rune_at_valid: "valid_rune (fst (rune_at b bs))"
proof (cases "b < 128")
  case True
  then show ?thesis by (simp add: rune_at_def valid_rune_def)
next
  case False
  show ?thesis
  proof (cases bs)
    case Nil
    then show ?thesis using False valid_replacement by (simp add: rune_at_def)
  next
    case (Cons b1 bs1)
    show ?thesis
    proof (cases "194 \<le> b \<and> b \<le> 223")
      case True
      then show ?thesis using False Cons valid_replacement valid_two[of b b1] by (simp add: rune_at_def cont_byte_def)
    next
      case two: False
      show ?thesis
      proof (cases bs1)
        case Nil
        then show ?thesis using False Cons two valid_replacement by (auto simp: rune_at_def)
      next
        case c2: (Cons b2 bs2)
        show ?thesis
        proof (cases "224 \<le> b \<and> b \<le> 239")
          case True
          then show ?thesis
            using False Cons c2 two valid_replacement valid_three[of b b1 b2] unfolding rune_at_def cont_byte_def by (auto split: if_splits)
        next
          case three: False
          show ?thesis
          proof (cases bs2)
            case Nil
            then show ?thesis using False Cons c2 two three valid_replacement unfolding rune_at_def by auto
          next
            case (Cons b3 bs3)
            then show ?thesis
              using False \<open>bs = b1 # bs1\<close> c2 two three valid_replacement valid_four[of b b1 b2 b3]
              unfolding rune_at_def cont_byte_def by (auto split: if_splits)
          qed
        qed
      qed
    qed
  qed
qed

lemma utf8_runes_valid: "\<forall>r\<in>set (utf8_runes s). valid_rune r"
proof -
  have "\<forall>r\<in>set (runes_of bs). valid_rune r" for bs
    by (induction bs rule: runes_of.induct) (auto simp: rune_at_valid)
  then show ?thesis by (simp add: utf8_runes_def)
qed


subsection \<open>Lower-casing twice\<close>

definition lower_valid :: "(nat \<times> nat \<times> nat \<times> int) \<Rightarrow> bool" where
  "lower_valid e =
     (case e of (lo, hi, st, d) \<Rightarrow>
        128 \<le> lo \<and> (97 \<le> int lo + d \<and> int hi + d < 55296 \<or> 57344 \<le> int lo + d \<and> int hi + d < 1114112))"

text \<open>The ranges of lower case letters, and whether all of a range has the parity of its start.\<close>

definition lower_target :: "(nat \<times> nat \<times> nat \<times> int) \<Rightarrow> nat \<times> nat \<times> bool" where
  "lower_target e = (case e of (lo, hi, st, d) \<Rightarrow> (nat (int lo + d), nat (int hi + d), st = 2 \<or> lo = hi))"

definition target_apart :: "nat \<times> nat \<times> bool \<Rightarrow> nat \<times> nat \<times> nat \<Rightarrow> bool" where
  "target_apart t f =
     (case t of (a, b, w) \<Rightarrow> case f of (lo, hi, st) \<Rightarrow> b < lo \<or> hi < a \<or> st = 2 \<and> w \<and> (a + lo) mod 2 = 1)"

lemma target_apart_simp [simp]:
  "target_apart (a, b, w) (lo, hi, st) = (if b < lo then True else if hi < a then True else st = 2 \<and> w \<and> (a + lo) mod 2 = 1)"
  by (simp add: target_apart_def)

definition lower_targets :: "(nat \<times> nat \<times> bool) list" where "lower_targets = map lower_target lower_table"

definition source_of :: "(nat \<times> nat \<times> nat \<times> int) \<Rightarrow> nat \<times> nat \<times> nat" where
  "source_of e = (case e of (lo, hi, st, d) \<Rightarrow> (lo, hi, st))"

definition source_blocks :: "(nat \<times> nat \<times> (nat \<times> nat \<times> nat) list) list" where
  "source_blocks = map (\<lambda>(mn, mx, es). (mn, mx, map source_of es)) lower_blocks"

definition apart_from_block :: "nat \<times> nat \<times> bool \<Rightarrow> nat \<times> nat \<times> (nat \<times> nat \<times> nat) list \<Rightarrow> bool" where
  "apart_from_block t bl =
     (case bl of (mn, mx, es) \<Rightarrow> case t of (a, b, w) \<Rightarrow> b < mn \<or> mx < a \<or> list_all (target_apart t) es)"

lemma apart_from_block_simp [simp]:
  "apart_from_block (a, b, w) (mn, mx, es) = (if b < mn then True else if mx < a then True else list_all (target_apart (a, b, w)) es)"
  by (simp add: apart_from_block_def)

lemmas lower_table_list = lower_table_def[unfolded lower_blocks_def, simplified]
lemmas lower_targets_list = lower_targets_def[unfolded lower_table_list, simplified lower_target_def list.map prod.case, simplified]
lemmas source_blocks_list = source_blocks_def[unfolded lower_blocks_def, simplified source_of_def list.map prod.case]

lemma lower_table_valid: "list_all lower_valid lower_table"
  by (simp add: lower_table_list lower_valid_def)

lemma source_blocks_bounds: "list_all (\<lambda>(mn, mx, es). list_all (\<lambda>(lo, hi, st). mn \<le> lo \<and> hi \<le> mx) es) source_blocks"
  by (simp add: source_blocks_list)

lemma lower_targets_apart: "list_all (\<lambda>t. list_all (apart_from_block t) source_blocks) lower_targets"
  by (simp add: lower_targets_list source_blocks_list)

lemma target_not_source:
  assumes "target_apart (lower_target (lo, hi, st, d)) (lo', hi', st')" "in_stride lo hi st r" "lower_valid (lo, hi, st, d)"
  shows "\<not> in_stride lo' hi' st' (nat (int r + d))"
proof
  assume i: "in_stride lo' hi' st' (nat (int r + d))"
  have v: "0 \<le> int lo + d" using assms(3) by (auto simp: lower_valid_def)
  have r: "lo \<le> r" "r \<le> hi" "(r - lo) mod st = 0" using assms(2) by (simp_all add: in_stride_def)
  define a where "a = nat (int lo + d)"
  have a: "int a = int lo + d" "nat (int r + d) = a + (r - lo)" "nat (int hi + d) = a + (hi - lo)"
    using v r by (simp_all add: a_def nat_add_distrib)
  have i': "lo' \<le> a + (r - lo)" "a + (r - lo) \<le> hi'" "(a + (r - lo) - lo') mod st' = 0"
    using i unfolding in_stride_def a(2) by simp_all
  have apart: "a + (hi - lo) < lo' \<or> hi' < a \<or> st' = 2 \<and> (st = 2 \<or> lo = hi) \<and> (a + lo') mod 2 = 1"
    using assms(1) by (simp add: lower_target_def a_def[symmetric] a(3) split: if_splits)
  define k where "k = r - lo"
  have k: "k \<le> hi - lo" "st = 2 \<or> lo = hi \<Longrightarrow> k mod 2 = 0" using r by (auto simp: k_def)
  have odd: "k mod 2 = 0 \<Longrightarrow> (a + lo') mod 2 = 1 \<Longrightarrow> (a + k - lo') mod 2 = 0 \<Longrightarrow> lo' \<le> a + k \<Longrightarrow> False"
    by presburger
  show False using apart i' k odd unfolding k_def[symmetric] by auto
qed

lemma lower_target_apart:
  assumes "e \<in> set lower_table" "f \<in> set lower_table"
  shows "target_apart (lower_target e) (source_of f)"
proof -
  obtain mn mx es where bl: "(mn, mx, es) \<in> set lower_blocks" "f \<in> set es"
    using assms(2) by (auto simp: lower_table_def)
  then have sb: "(mn, mx, map source_of es) \<in> set source_blocks" unfolding source_blocks_def by force
  have "lower_target e \<in> set lower_targets" using assms(1) by (simp add: lower_targets_def)
  then have ap: "apart_from_block (lower_target e) (mn, mx, map source_of es)"
    using lower_targets_apart sb by (fastforce simp: list_all_iff simp del: apart_from_block_simp)
  obtain lo hi st where f: "source_of f = (lo, hi, st)" by (cases "source_of f")
  have "mn \<le> lo \<and> hi \<le> mx"
    using source_blocks_bounds sb bl(2) f by (fastforce simp: list_all_iff)
  then show ?thesis
    using ap bl(2) f by (cases "lower_target e") (auto simp: list_all_iff split: if_splits)
qed

lemma lower_rune_cases:
  assumes "128 \<le> r"
  shows "lower_rune r = r \<and> (\<forall>(lo, hi, st, d)\<in>set lower_table. \<not> in_stride lo hi st r) \<or>
    (\<exists>lo hi st d. (lo, hi, st, d) \<in> set lower_table \<and> in_stride lo hi st r \<and> lower_rune r = nat (int r + d))"
proof (cases "find (\<lambda>(lo, hi, step, d). in_stride lo hi step r) lower_table")
  case None
  have "lower_rune r = r" using None assms by (simp add: lower_rune_def)
  then show ?thesis using None by (auto simp: find_None_iff)
next
  case (Some e)
  obtain lo hi st d where e: "e = (lo, hi, st, d)" by (cases e)
  have "lower_rune r = nat (int r + d)" using Some assms by (simp add: lower_rune_def e)
  moreover have "e \<in> set lower_table" "in_stride lo hi st r"
    using Some unfolding find_Some_iff e in_set_conv_nth by auto
  ultimately show ?thesis unfolding e by blast
qed

lemma lower_entry_valid: "(lo, hi, st, d) \<in> set lower_table \<Longrightarrow> lower_valid (lo, hi, st, d)"
  using lower_table_valid by (auto simp: list_all_iff)

lemma lower_rune_idem: "lower_rune (lower_rune r) = lower_rune r"
proof (cases "r < 128")
  case True
  then show ?thesis by (simp add: lower_rune_def)
next
  case False
  then consider "lower_rune r = r" | lo hi st d where "(lo, hi, st, d) \<in> set lower_table" "in_stride lo hi st r" "lower_rune r = nat (int r + d)"
    using lower_rune_cases[of r] by auto
  then show ?thesis
  proof cases
    case (2 lo hi st d)
    have v: "lower_valid (lo, hi, st, d)" by (rule lower_entry_valid[OF 2(1)])
    then have n: "97 \<le> int r + d" using 2(2) by (auto simp: lower_valid_def in_stride_def)
    have no: "\<not> in_stride lo' hi' st' (lower_rune r)" if "(lo', hi', st', d') \<in> set lower_table" for lo' hi' st' d'
      using target_not_source[OF _ 2(2) v] lower_target_apart[OF 2(1) that] by (simp add: 2(3) source_of_def)
    show ?thesis
    proof (cases "lower_rune r < 128")
      case True
      moreover have "97 \<le> lower_rune r" using n by (simp add: 2(3))
      ultimately show ?thesis unfolding lower_rune_def[of "lower_rune r"] by simp
    next
      case False
      then show ?thesis using lower_rune_cases[of "lower_rune r"] no by auto
    qed
  qed simp
qed

lemma lower_rune_valid: "valid_rune r \<Longrightarrow> valid_rune (lower_rune r)"
proof (cases "r < 128")
  case True
  then show ?thesis by (simp add: lower_rune_def valid_rune_def)
next
  case False
  assume r: "valid_rune r"
  from False consider "lower_rune r = r" | lo hi st d where "(lo, hi, st, d) \<in> set lower_table" "in_stride lo hi st r" "lower_rune r = nat (int r + d)"
    using lower_rune_cases[of r] by auto
  then show ?thesis
  proof cases
    case (2 lo hi st d)
    have "lower_valid (lo, hi, st, d)" by (rule lower_entry_valid[OF 2(1)])
    then show ?thesis using 2(2) unfolding 2(3) by (auto simp: lower_valid_def in_stride_def valid_rune_def)
  qed (simp add: r)
qed

lemma lower_char_rune: "is_ascii c \<Longrightarrow> byte_of (lower_char c) = lower_rune (byte_of c)"
  by (auto simp: is_ascii_def lower_char_def lower_rune_def byte_of_def Let_def)

lemma lower_char_idem [simp]: "lower_char (lower_char c) = lower_char c"
  by (auto simp: lower_char_def Let_def)

lemma is_ascii_lower [simp]: "is_ascii c \<Longrightarrow> is_ascii (lower_char c)"
  by (auto simp: lower_char_def is_ascii_def Let_def)

lemma runes_of_ascii: "\<forall>b\<in>set bs. b < 128 \<Longrightarrow> runes_of bs = bs"
  by (induction bs) (simp_all add: rune_at_def)

lemma utf8_runes_ascii: "list_all is_ascii s \<Longrightarrow> utf8_runes s = map byte_of s"
  unfolding utf8_runes_def by (rule runes_of_ascii) (auto simp: list_all_iff is_ascii_def byte_of_def)

text \<open>The short way and the long way agree.\<close>

lemma to_lower_runes: "to_lower s = utf8_string (map lower_rune (utf8_runes s))"
proof (cases "list_all is_ascii s")
  case True
  have "map char_of (concat (map encode_rune (map (lower_rune \<circ> byte_of) s))) = map lower_char s"
    using True
  proof (induction s)
    case (Cons c s)
    have c: "is_ascii c" using Cons.prems by simp
    have "lower_rune (byte_of c) < 128"
      using lower_char_rune[OF c] is_ascii_lower[OF c] by (simp add: is_ascii_def byte_of_def)
    moreover have "char_of (lower_rune (byte_of c)) = lower_char c"
      using arg_cong[OF lower_char_rune[OF c], of char_of] by (simp add: byte_of_def)
    ultimately have "map char_of (encode_rune (lower_rune (byte_of c))) = [lower_char c]"
      by (simp add: encode_rune_def)
    then show ?case using Cons by simp
  qed simp
  then show ?thesis using True by (simp add: to_lower_def utf8_string_def utf8_runes_ascii)
qed (simp add: to_lower_def)

lemma to_lower_idem [simp]: "to_lower (to_lower s) = to_lower s"
proof -
  have v: "\<forall>r\<in>set (map lower_rune (utf8_runes s)). valid_rune r" using utf8_runes_valid lower_rune_valid by auto
  show ?thesis
    unfolding to_lower_runes utf8_runes_string[OF v] by (simp add: o_def lower_rune_idem)
qed

lemma to_lower_Nil [simp]: "to_lower [] = []"
  by (simp add: to_lower_def)

lemma is_ascii_Char [simp]: "is_ascii (Char b0 b1 b2 b3 b4 b5 b6 b7) = (\<not> b7)"
  by (cases b7) (simp_all add: is_ascii_def of_char_Char)

lemma to_lower_ascii: "list_all is_ascii s \<Longrightarrow> to_lower s = map lower_char s"
  by (simp add: to_lower_def)

end
