(* ===== verification/GoStrings.thy ===== *)
theory GoStrings
  imports Unicode "HOL-Library.Char_ord" "HOL-Library.List_Lexorder" "HOL-Library.Sublist"
begin

text \<open>
  The functions of Go's \<open>strings\<close> and \<open>strconv\<close> packages that the modelled code calls,
  on byte strings, byte for byte.  \<open>strings.ToLower\<close> is \<open>to_lower\<close> of the theory of runes.
\<close>

named_theorems go_string

declare to_lower_idem [go_string]

subsection \<open>Prefixes, suffixes and substrings\<close>

definition has_prefix :: "string \<Rightarrow> string \<Rightarrow> bool" where
  "has_prefix s p \<longleftrightarrow> take (length p) s = p"

definition has_suffix :: "string \<Rightarrow> string \<Rightarrow> bool" where
  "has_suffix s p \<longleftrightarrow> length p \<le> length s \<and> drop (length s - length p) s = p"

definition trim_prefix :: "string \<Rightarrow> string \<Rightarrow> string" where
  "trim_prefix s p = (if has_prefix s p then drop (length p) s else s)"

definition trim_suffix :: "string \<Rightarrow> string \<Rightarrow> string" where
  "trim_suffix s p = (if has_suffix s p then take (length s - length p) s else s)"

text \<open>\<open>strings.Index\<close>: the first position where \<open>p\<close> occurs, \<open>-1\<close> if there is none.\<close>

fun str_index :: "string \<Rightarrow> string \<Rightarrow> int" where
  "str_index [] p = (if p = [] then 0 else -1)"
| "str_index (c # s) p =
     (if has_prefix (c # s) p then 0
      else (let r = str_index s p in if r < 0 then -1 else r + 1))"

definition str_contains :: "string \<Rightarrow> string \<Rightarrow> bool" where
  "str_contains s p \<longleftrightarrow> 0 \<le> str_index s p"

text \<open>\<open>strings.Cut\<close> around the first occurrence of the separator.\<close>

definition str_cut :: "string \<Rightarrow> string \<Rightarrow> string \<times> string \<times> bool" where
  "str_cut s sep =
     (let i = str_index s sep
      in if i < 0 then (s, [], False)
         else (take (nat i) s, drop (nat i + length sep) s, True))"

lemma has_prefix_append [simp, go_string]: "has_prefix (p @ s) p"
  by (simp add: has_prefix_def)

lemma has_prefix_iff [go_string]: "has_prefix s p \<longleftrightarrow> (\<exists>t. s = p @ t)"
  unfolding has_prefix_def by (metis append_eq_conv_conj append_take_drop_id)

lemma has_prefix_prefix: "has_prefix s p \<longleftrightarrow> prefix p s"
  by (auto simp: has_prefix_iff prefix_def)

lemma has_suffix_iff [go_string]: "has_suffix s p \<longleftrightarrow> (\<exists>t. s = t @ p)"
proof
  assume "has_suffix s p"
  then have "s = take (length s - length p) s @ p"
    unfolding has_suffix_def by (metis append_take_drop_id)
  then show "\<exists>t. s = t @ p" by blast
next
  assume "\<exists>t. s = t @ p"
  then show "has_suffix s p" by (auto simp: has_suffix_def)
qed

lemma has_suffix_append [simp, go_string]: "has_suffix (t @ p) p"
  by (auto simp: has_suffix_iff)

lemma trim_prefix_append [simp, go_string]: "trim_prefix (p @ s) p = s"
  by (simp add: trim_prefix_def)

lemma trim_suffix_append [simp, go_string]: "trim_suffix (s @ p) p = s"
  by (simp add: trim_suffix_def)

lemma str_index_lower [simp, go_string]: "-1 \<le> str_index s p"
  by (induction s) (auto simp: Let_def)

lemma str_index_first_char:
  "c \<notin> set s \<Longrightarrow> str_index (s @ c # t) [c] = int (length s)"
  by (induction s) (auto simp: has_prefix_def Let_def)

lemma str_index_absent:
  "c \<notin> set s \<Longrightarrow> str_index s [c] = -1"
  by (induction s) (auto simp: has_prefix_def Let_def)

lemma str_cut_first [go_string]: "c \<notin> set s \<Longrightarrow> str_cut (s @ c # t) [c] = (s, t, True)"
  by (simp add: str_cut_def str_index_first_char)

lemma str_cut_absent [go_string]: "c \<notin> set s \<Longrightarrow> str_cut s [c] = (s, [], False)"
  by (simp add: str_cut_def str_index_absent)

subsection \<open>Join and split on one byte\<close>

fun str_join :: "string \<Rightarrow> string list \<Rightarrow> string" where
  "str_join sep [] = []"
| "str_join sep [x] = x"
| "str_join sep (x # y # xs) = x @ sep @ str_join sep (y # xs)"

fun str_split1 :: "char \<Rightarrow> string \<Rightarrow> string list" where
  "str_split1 c [] = [[]]"
| "str_split1 c (d # s) =
     (if d = c then [] # str_split1 c s
      else (case str_split1 c s of [] \<Rightarrow> [[d]] | x # xs \<Rightarrow> (d # x) # xs))"

lemma str_split1_ne [simp]: "str_split1 c s \<noteq> []"
  by (induction s) (auto split: list.splits)

lemma str_split1_sep_free: "x \<in> set (str_split1 c s) \<Longrightarrow> c \<notin> set x"
proof (induction s arbitrary: x)
  case Nil
  then show ?case by simp
next
  case (Cons d s)
  obtain y ys where "str_split1 c s = y # ys" by (cases "str_split1 c s") auto
  then show ?case using Cons by (auto split: if_splits)
qed

lemma str_join_split1 [go_string]: "str_join [c] (str_split1 c s) = s"
proof (induction s)
  case Nil
  then show ?case by simp
next
  case (Cons d s)
  obtain y ys where y: "str_split1 c s = y # ys" by (cases "str_split1 c s") auto
  show ?case using Cons y by (cases ys) auto
qed

subsection \<open>Decimal numbers\<close>

definition digit_char :: "nat \<Rightarrow> char" where
  "digit_char d = char_of (48 + d)"

definition is_digit :: "char \<Rightarrow> bool" where
  "is_digit c \<longleftrightarrow> 48 \<le> (of_char c :: nat) \<and> (of_char c :: nat) \<le> 57"

definition digit_val :: "char \<Rightarrow> nat" where
  "digit_val c = of_char c - 48"

fun itoa :: "nat \<Rightarrow> string" where
  "itoa n = (if n < 10 then [digit_char n] else itoa (n div 10) @ [digit_char (n mod 10)])"

declare itoa.simps [simp del]

text \<open>\<open>%0wd\<close>\<close>

definition itoa_pad :: "nat \<Rightarrow> nat \<Rightarrow> string" where
  "itoa_pad w n = replicate (w - length (itoa n)) (digit_char 0) @ itoa n"

text \<open>
  \<open>strconv.ParseUint(s, 10, bits)\<close> with its error dropped, as the callers do: 0 for a
  string that is not a number, the largest value for one that is out of range.  The
  scan is from the left, so an overflow is reported before a later bad byte.
\<close>

fun parse_digits :: "nat \<Rightarrow> nat \<Rightarrow> string \<Rightarrow> nat" where
  "parse_digits mx acc [] = acc"
| "parse_digits mx acc (c # s) =
     (if \<not> is_digit c then 0
      else (let n = acc * 10 + digit_val c in if n > mx then mx else parse_digits mx n s))"

definition parse_uint :: "nat \<Rightarrow> string \<Rightarrow> nat" where
  "parse_uint bits s = (if s = [] then 0 else parse_digits (2 ^ bits - 1) 0 s)"

lemma digit_char_digit [simp, go_string]: "d < 10 \<Longrightarrow> is_digit (digit_char d)"
  by (simp add: is_digit_def digit_char_def)

lemma digit_val_char [simp, go_string]: "d < 10 \<Longrightarrow> digit_val (digit_char d) = d"
  by (simp add: digit_val_def digit_char_def)

lemma itoa_ne [simp]: "itoa n \<noteq> []"
  by (subst itoa.simps) simp

lemma itoa_digits [go_string]: "c \<in> set (itoa n) \<Longrightarrow> is_digit c"
proof (induction n rule: itoa.induct)
  case (1 n)
  show ?case
  proof (cases "n < 10")
    case True
    with "1.prems" show ?thesis by (simp add: itoa.simps[of n])
  next
    case False
    with "1.prems" have "c \<in> set (itoa (n div 10)) \<or> c = digit_char (n mod 10)"
      by (auto simp: itoa.simps[of n])
    with False "1.IH" show ?thesis by auto
  qed
qed

lemma parse_digits_append:
  assumes "\<forall>c\<in>set s. is_digit c" "parse_digits mx acc s < mx \<or> s = []"
  shows "parse_digits mx acc (s @ t) = parse_digits mx (parse_digits mx acc s) t"
  using assms
proof (induction s arbitrary: acc)
  case Nil
  then show ?case by simp
next
  case (Cons c s)
  show ?case
  proof (cases "acc * 10 + digit_val c > mx")
    case True
    then show ?thesis using Cons.prems by (auto simp: Let_def)
  next
    case False
    then have "parse_digits mx (acc * 10 + digit_val c) s < mx \<or> s = []"
      using Cons.prems by (auto simp: Let_def split: if_splits)
    with Cons.IH Cons.prems(1) False show ?thesis by (simp add: Let_def)
  qed
qed

lemma parse_digits_itoa: "n \<le> mx \<Longrightarrow> parse_digits mx 0 (itoa n) = n"
proof (induction n rule: itoa.induct)
  case (1 n)
  show ?case
  proof (cases "n < 10")
    case True
    then show ?thesis using "1.prems" by (simp add: itoa.simps[of n] Let_def)
  next
    case False
    then have IH: "parse_digits mx 0 (itoa (n div 10)) = n div 10"
      using "1.IH" "1.prems" by simp
    have dig: "\<forall>c\<in>set (itoa (n div 10)). is_digit c" by (simp add: itoa_digits)
    have "n div 10 < mx" using False "1.prems" by simp
    with IH have "parse_digits mx 0 (itoa (n div 10) @ [digit_char (n mod 10)])
        = parse_digits mx (n div 10) [digit_char (n mod 10)]"
      using parse_digits_append[OF dig, of mx 0] by simp
    also have "\<dots> = n" using "1.prems" by (simp add: Let_def)
    finally show ?thesis using False by (simp add: itoa.simps[of n])
  qed
qed

lemma parse_digits_zeros: "parse_digits mx 0 (replicate k (digit_char 0) @ s) = parse_digits mx 0 s"
  by (induction k) (auto simp: Let_def)

lemma parse_uint_itoa_pad [go_string]:
  "n < 2 ^ bits \<Longrightarrow> parse_uint bits (itoa_pad w n) = n"
proof -
  assume n: "n < 2 ^ bits"
  have "itoa_pad w n \<noteq> []" by (simp add: itoa_pad_def)
  moreover have "n \<le> 2 ^ bits - 1" using n by simp
  ultimately show ?thesis
    by (simp add: parse_uint_def itoa_pad_def parse_digits_zeros parse_digits_itoa)
qed

lemma parse_uint_bound: "parse_uint bits s < 2 ^ bits"
proof -
  have "acc \<le> mx \<Longrightarrow> parse_digits mx acc s \<le> mx" for mx acc
    by (induction s arbitrary: acc) (auto simp: Let_def)
  from this[of 0 "2 ^ bits - 1"] show ?thesis
    by (auto simp: parse_uint_def intro: le_less_trans)
qed

subsection \<open>Replacing\<close>

text \<open>\<open>strings.Replace(s, p, r, 1)\<close> and \<open>strings.ReplaceAll\<close>, for \<open>p\<close> that is not empty.\<close>

definition str_replace1 :: "string \<Rightarrow> string \<Rightarrow> string \<Rightarrow> string" where
  "str_replace1 s p r =
     (let i = str_index s p in if i < 0 then s else take (nat i) s @ r @ drop (nat i + length p) s)"

function str_replace_all :: "string \<Rightarrow> string \<Rightarrow> string \<Rightarrow> string" where
  "str_replace_all s p r =
     (if s = [] \<or> p = [] then s
      else if has_prefix s p then r @ str_replace_all (drop (length p) s) p r
      else hd s # str_replace_all (tl s) p r)"
  by pat_completeness auto
termination by (relation "measure (\<lambda>(s, p, r). length s)") auto

declare str_replace_all.simps [simp del]

lemma has_prefix_length: "has_prefix s p \<Longrightarrow> length p \<le> length s"
  unfolding has_prefix_def by (metis length_take min.cobounded1)

lemma str_index_found:
  "0 \<le> str_index s p \<Longrightarrow> has_prefix (drop (nat (str_index s p)) s) p \<and> nat (str_index s p) \<le> length s"
proof (induction s)
  case Nil
  then show ?case by (auto simp: has_prefix_def split: if_splits)
next
  case (Cons c s)
  show ?case
  proof (cases "has_prefix (c # s) p")
    case True
    then show ?thesis by simp
  next
    case False
    with Cons.prems have r: "0 \<le> str_index s p" by (auto simp: Let_def split: if_splits)
    with False have "str_index (c # s) p = str_index s p + 1" by (simp add: Let_def)
    moreover have "nat (str_index s p + 1) = Suc (nat (str_index s p))" using r by simp
    ultimately show ?thesis using Cons.IH[OF r] by simp
  qed
qed

lemma str_replace_all_shorter:
  assumes "length r < length p"
  shows "length (str_replace_all s p r) \<le> length s \<and>
    (str_contains s p \<longrightarrow> length (str_replace_all s p r) < length s)"
proof (induction s rule: length_induct)
  case (1 s)
  show ?case
  proof (cases s)
    case Nil
    then show ?thesis using assms by (auto simp: str_replace_all.simps[of "[]"] str_contains_def)
  next
    case (Cons c t)
    have p: "p \<noteq> []" using assms by auto
    show ?thesis
    proof (cases "has_prefix s p")
      case True
      then have "str_replace_all s p r = r @ str_replace_all (drop (length p) s) p r"
        using Cons p by (simp add: str_replace_all.simps[of "c # t"])
      moreover have "length (str_replace_all (drop (length p) s) p r) \<le> length (drop (length p) s)"
        using "1.IH"[rule_format, of "drop (length p) s"] Cons p by simp
      ultimately have "length (str_replace_all s p r) < length s"
        using assms has_prefix_length[OF True] by (simp only: length_append length_drop)
      then show ?thesis by simp
    next
      case False
      then have e: "str_replace_all s p r = c # str_replace_all t p r"
        using Cons p by (simp add: str_replace_all.simps[of "c # t"])
      have "str_contains s p \<Longrightarrow> str_contains t p"
        using False Cons by (auto simp: str_contains_def Let_def split: if_splits)
      then show ?thesis using "1.IH" Cons e by auto
    qed
  qed
qed

end
