(* ===== verification/SeqMap.thy ===== *)
theory SeqMap
  imports Prelude
begin

text \<open>
  \<open>worker/imap/seqmap.go\<close>: the slice that maps IMAP sequence numbers (1-based) to
  message UIDs.  The state is the slice itself; every operation of the Go type is a
  function here that returns the new slice with its results.  Sequence numbers and
  UIDs keep their 32 bits, so the conversion of a slice index to a sequence number
  wraps as \<open>uint32(num) + 1\<close> does.

  The invariant \<open>seqmap_wf\<close> (sorted, no repetition, fewer than \<open>2^32\<close> entries) is
  kept by every operation.  \<open>Snapshot\<close> is shown to be what its comment says: it returns
  exactly the entries of the given UIDs under the numbers they have now, the least of
  these numbers, and leaves exactly the other UIDs.
\<close>

type_synonym seqmap = "u32 list"

definition seqmap_sort :: "seqmap \<Rightarrow> seqmap" where
  "seqmap_sort m = sort m"

definition seqmap_Initialize :: "u32 list \<Rightarrow> seqmap" where
  "seqmap_Initialize uids = seqmap_sort uids"

definition seqmap_Size :: "seqmap \<Rightarrow> int" where
  "seqmap_Size m = int (length m)"

definition seqmap_Get :: "seqmap \<Rightarrow> u32 \<Rightarrow> u32 \<times> bool" where
  "seqmap_Get m seqnum =
     (if uint seqnum > seqmap_Size m \<or> seqnum < 1 then (0, False)
      else (m ! unat (seqnum - 1), True))"

definition seqmap_Put :: "seqmap \<Rightarrow> u32 \<Rightarrow> seqmap" where
  "seqmap_Put m uid =
     (if uid \<in> set m then m
      else seqmap_sort (m @ [uid]))"

definition seqmap_Pop :: "seqmap \<Rightarrow> u32 \<Rightarrow> seqmap \<times> u32 \<times> bool" where
  "seqmap_Pop m seqnum =
     (if uint seqnum > int (length m) \<or> seqnum < 1 then (m, 0, False)
      else (slice_delete m (unat (seqnum - 1)), m ! unat (seqnum - 1), True))"

text \<open>
  The first loop of \<open>Snapshot\<close>: \<open>num\<close> is the index, the accumulator holds the snapshot,
  the least sequence number and the numbers found so far.  The Go map is an association
  list with the newest entry first.
\<close>

definition seq_num :: "nat \<Rightarrow> u32" where
  "seq_num num = word_of_nat num + 1"

fun snapshot_scan ::
  "u32 list \<Rightarrow> nat \<Rightarrow> seqmap \<Rightarrow> (u32 \<times> u32) list \<Rightarrow> u32 \<Rightarrow> u32 list
     \<Rightarrow> (u32 \<times> u32) list \<times> u32 \<times> u32 list" where
  "snapshot_scan uids num [] snap mn nums = (snap, mn, nums)"
| "snapshot_scan uids num (uid # m) snap mn nums =
     (if uid \<in> set uids then
        (let seqNum = seq_num num
         in snapshot_scan uids (Suc num) m ((seqNum, uid) # snap)
              (if mn = 0 then seqNum else mn) (nums @ [seqNum]))
      else snapshot_scan uids (Suc num) m snap mn nums)"

text \<open>The second loop: pop the numbers found, from the last one to the first.\<close>

fun snapshot_pops :: "seqmap \<Rightarrow> u32 list \<Rightarrow> seqmap" where
  "snapshot_pops m [] = m"
| "snapshot_pops m (n # ns) = fst (seqmap_Pop (snapshot_pops m ns) n)"

definition seqmap_Snapshot ::
  "seqmap \<Rightarrow> u32 list \<Rightarrow> seqmap \<times> (u32 \<times> u32) list \<times> u32" where
  "seqmap_Snapshot m uids =
     (let (snap, mn, nums) = snapshot_scan uids 0 m [] 0 []
      in (snapshot_pops m nums, snap, mn))"

subsection \<open>The invariant\<close>

definition seqmap_wf :: "seqmap \<Rightarrow> bool" where
  "seqmap_wf m \<longleftrightarrow> sorted m \<and> distinct m \<and> length m < 2 ^ 32"

lemma distinct_u32_length:
  fixes xs :: "u32 list"
  assumes "distinct xs"
  shows "length xs \<le> 2 ^ 32"
proof -
  have "length xs = card (set xs)" using assms by (simp add: distinct_card)
  also have "\<dots> \<le> card (UNIV :: u32 set)" by (rule card_mono) auto
  also have "\<dots> = 2 ^ 32" by (simp add: card_word)
  finally show ?thesis .
qed

lemma seqmap_wf_Initialize:
  "distinct uids \<Longrightarrow> length uids < 2 ^ 32 \<Longrightarrow> seqmap_wf (seqmap_Initialize uids)"
  by (simp add: seqmap_wf_def seqmap_Initialize_def seqmap_sort_def)

lemma seqmap_wf_Put:
  "seqmap_wf m \<Longrightarrow> Suc (length m) < 2 ^ 32 \<Longrightarrow> seqmap_wf (seqmap_Put m uid)"
  by (auto simp: seqmap_wf_def seqmap_Put_def seqmap_sort_def)

lemma set_seqmap_Put [simp]: "set (seqmap_Put m uid) = insert uid (set m)"
  by (auto simp: seqmap_Put_def seqmap_sort_def)

text \<open>A sequence number is valid when its unsigned value is a 1-based position.\<close>

lemma seqnum_invalid_iff:
  fixes n :: u32
  shows "uint n > int L \<or> n < 1 \<longleftrightarrow> \<not> (0 < unat n \<and> unat n \<le> L)"
proof -
  have "n < 1 \<longleftrightarrow> unat n = 0" by (simp add: word_less_nat_alt)
  moreover have "uint n > int L \<longleftrightarrow> unat n > L" by (metis of_nat_less_iff uint_nat)
  ultimately show ?thesis by linarith
qed

lemma unat_pred_seqnum: "0 < unat n \<Longrightarrow> unat (n - 1 :: u32) = unat n - 1"
proof -
  assume "0 < unat n"
  then have "n \<noteq> 0" by auto
  then show ?thesis by (rule unat_minus_one)
qed

lemma seqmap_Pop_eq:
  "seqmap_Pop m n =
     (if 0 < unat n \<and> unat n \<le> length m
      then (slice_delete m (unat n - 1), m ! (unat n - 1), True) else (m, 0, False))"
  unfolding seqmap_Pop_def seqnum_invalid_iff by (simp add: unat_pred_seqnum)

lemma seqmap_Get_eq:
  "seqmap_Get m n =
     (if 0 < unat n \<and> unat n \<le> length m then (m ! (unat n - 1), True) else (0, False))"
  unfolding seqmap_Get_def seqmap_Size_def seqnum_invalid_iff by (simp add: unat_pred_seqnum)

lemma seqmap_wf_Pop: "seqmap_wf m \<Longrightarrow> seqmap_wf (fst (seqmap_Pop m n))"
  using sorted_slice_delete[of m "unat n - 1"] distinct_slice_delete(1)[of m "unat n - 1"]
    length_slice_delete[of "unat n - 1" m]
  by (auto simp: seqmap_Pop_eq seqmap_wf_def)

subsection \<open>What Snapshot computes\<close>

text \<open>
  The numbers, with their UIDs, that the scan finds from index \<open>k\<close> on, in the order of
  the slice.
\<close>

fun hits :: "u32 list \<Rightarrow> nat \<Rightarrow> seqmap \<Rightarrow> (u32 \<times> u32) list" where
  "hits uids k [] = []"
| "hits uids k (u # m) =
     (if u \<in> set uids then (seq_num k, u) # hits uids (Suc k) m
      else hits uids (Suc k) m)"

lemma unat_seq_num: "Suc k < 2 ^ 32 \<Longrightarrow> unat (seq_num k) = Suc k"
proof -
  assume "Suc k < 2 ^ 32"
  then have "unat (word_of_nat (Suc k) :: u32) = Suc k"
    by (subst unat_of_nat) simp
  then show ?thesis by (simp add: seq_num_def add.commute)
qed

lemma snapshot_scan_hits:
  "k + length m < 2 ^ 32 \<Longrightarrow>
   snapshot_scan uids k m snap mn nums =
     (rev (hits uids k m) @ snap,
      (if mn = 0 \<and> hits uids k m \<noteq> [] then fst (hd (hits uids k m)) else mn),
      nums @ map fst (hits uids k m))"
proof (induction m arbitrary: k snap mn nums)
  case Nil
  then show ?case by simp
next
  case (Cons u m)
  have "unat (seq_num k) = Suc k"
    using Cons.prems by (simp add: unat_seq_num)
  then have nz: "seq_num k \<noteq> 0" by (metis unat_0 nat.distinct(1))
  have "Suc k + length m < 2 ^ 32" using Cons.prems by simp
  note IH = Cons.IH[OF this]
  show ?case using nz
    by (simp add: IH Let_def)
qed

lemma hits_bounds:
  "(n, u) \<in> set (hits uids k m) \<Longrightarrow> k + length m < 2 ^ 32 \<Longrightarrow>
     k < unat n \<and> unat n \<le> k + length m \<and> m ! (unat n - Suc k) = u \<and> u \<in> set uids"
proof (induction m arbitrary: k)
  case Nil
  then show ?case by simp
next
  case (Cons v m)
  have un: "unat (seq_num k) = Suc k"
    using Cons.prems(2) by (simp add: unat_seq_num)
  show ?case
  proof (cases "n = seq_num k \<and> u = v \<and> v \<in> set uids")
    case True
    then show ?thesis using un by simp
  next
    case False
    then have "(n, u) \<in> set (hits uids (Suc k) m)" using Cons.prems(1) by (auto split: if_splits)
    from Cons.IH[OF this] Cons.prems(2)
    have IH: "Suc k < unat n \<and> unat n \<le> Suc k + length m \<and> m ! (unat n - Suc (Suc k)) = u \<and> u \<in> set uids"
      by simp
    then have "unat n - Suc k = Suc (unat n - Suc (Suc k))" by linarith
    with IH show ?thesis by simp
  qed
qed

lemma hits_complete:
  "i < length m \<Longrightarrow> m ! i \<in> set uids \<Longrightarrow>
     (seq_num (k + i), m ! i) \<in> set (hits uids k m)"
proof (induction m arbitrary: i k)
  case Nil
  then show ?case by simp
next
  case (Cons v m)
  show ?case
  proof (cases i)
    case 0
    then show ?thesis using Cons.prems by simp
  next
    case (Suc j)
    then have "(seq_num (Suc k + j), m ! j) \<in> set (hits uids (Suc k) m)"
      using Cons.IH[of j "Suc k"] Cons.prems by simp
    then show ?thesis using Suc by simp
  qed
qed

lemma hits_sorted:
  "k + length m < 2 ^ 32 \<Longrightarrow> sorted_wrt (<) (map (unat \<circ> fst) (hits uids k m))"
proof (induction m arbitrary: k)
  case Nil
  then show ?case by simp
next
  case (Cons v m)
  have un: "unat (seq_num k) = Suc k"
    using Cons.prems by (simp add: unat_seq_num)
  have "\<forall>p\<in>set (hits uids (Suc k) m). Suc k < unat (fst p)"
    using hits_bounds[where k = "Suc k" and m = m and uids = uids] Cons.prems by force
  with Cons un show ?case by auto
qed

lemma length_hits: "length (hits uids k m) \<le> length m"
  by (induction m arbitrary: k) (auto intro: le_SucI)

text \<open>Popping the numbers found, last first, removes exactly the given UIDs.\<close>

lemma snapshot_pops_hits:
  "length pre + length m < 2 ^ 32 \<Longrightarrow>
   snapshot_pops (pre @ m) (map fst (hits uids (length pre) m))
     = pre @ filter (\<lambda>u. u \<notin> set uids) m"
proof (induction m arbitrary: pre)
  case Nil
  then show ?case by simp
next
  case (Cons v m)
  have IH: "snapshot_pops (pre @ v # m) (map fst (hits uids (Suc (length pre)) m))
      = pre @ v # filter (\<lambda>u. u \<notin> set uids) m"
    using Cons.IH[of "pre @ [v]"] Cons.prems by simp
  have un: "unat (seq_num (length pre)) = Suc (length pre)"
    using Cons.prems by (simp add: unat_seq_num)
  show ?case
  proof (cases "v \<in> set uids")
    case True
    then show ?thesis
      using IH un by (simp add: seqmap_Pop_eq slice_delete_def)
  next
    case False
    then show ?thesis using IH by simp
  qed
qed

lemma seqmap_Snapshot_eq:
  assumes "length m < 2 ^ 32"
  shows "seqmap_Snapshot m uids =
    (filter (\<lambda>u. u \<notin> set uids) m, rev (hits uids 0 m),
     (if hits uids 0 m = [] then 0 else fst (hd (hits uids 0 m))))"
  using snapshot_scan_hits[of 0 m uids "[]" 0 "[]"] snapshot_pops_hits[of "[]" m uids] assms
  by (simp add: seqmap_Snapshot_def)

lemma seqmap_wf_Snapshot: "seqmap_wf m \<Longrightarrow> seqmap_wf (fst (seqmap_Snapshot m uids))"
  unfolding seqmap_wf_def
  by (auto simp: seqmap_Snapshot_eq sorted_wrt_filter intro: le_less_trans[OF length_filter_le])

end
