(* ===== verification/Expunge.thy ===== *)
theory Expunge
  imports SeqMap "HOL-Library.AList"
begin

text \<open>
  \<open>worker/imap/expungehandler.go\<close>: the translation of the sequence numbers in EXPUNGE
  replies to UIDs, under three policies.  The handler's \<open>items\<close> map is an association
  list.  The second half specifies the two server behaviours that the file's comment
  describes and shows that the handler resolves every reply of either of them.
\<close>

datatype expunge_policy =
  ExpungePolicyAuto | ExpungePolicyLowToHigh | ExpungePolicyStable

record expunge_handler =
  eh_policy :: expunge_policy
  eh_items :: "(u32 \<times> u32) list"
  eh_minNum :: u32
  eh_forDelete :: bool
  eh_gotFirst :: bool

text \<open>The handler takes its snapshot out of the worker's map, which is returned changed.\<close>

definition NewExpungeHandler ::
  "seqmap \<Rightarrow> expunge_policy \<Rightarrow> u32 list \<Rightarrow> bool \<Rightarrow> seqmap \<times> expunge_handler" where
  "NewExpungeHandler m policy uids forDelete =
     (let (m', snapshot, mn) = seqmap_Snapshot m uids
      in (m', \<lparr>eh_policy = policy, eh_items = snapshot, eh_minNum = mn,
               eh_forDelete = forDelete, eh_gotFirst = False\<rparr>))"

text \<open>The first reply fixes an automatic policy.\<close>

definition deduce_policy :: "expunge_handler \<Rightarrow> u32 \<Rightarrow> expunge_handler" where
  "deduce_policy h seqNum =
     (if \<not> eh_gotFirst h then
        (let h = h\<lparr>eh_gotFirst := True\<rparr>
         in if eh_policy h = ExpungePolicyAuto then
              (if seqNum = eh_minNum h
               then h\<lparr>eh_policy := ExpungePolicyLowToHigh\<rparr>
               else h\<lparr>eh_policy := ExpungePolicyStable\<rparr>)
            else h)
      else h)"

text \<open>
  The loop that builds \<open>newSeq\<close>: every key goes down by one, modulo \<open>2^32\<close>.  Distinct
  keys stay distinct, so the order in which Go walks the map does not matter.
\<close>

definition decrement_keys :: "(u32 \<times> u32) list \<Rightarrow> (u32 \<times> u32) list" where
  "decrement_keys items = map (\<lambda>(s, uid). (s - 1, uid)) items"

definition PopSequenceNumber ::
  "expunge_handler \<Rightarrow> u32 \<Rightarrow> expunge_handler \<times> u32 \<times> bool" where
  "PopSequenceNumber h0 seqNum =
     (let h = deduce_policy h0 seqNum;
          found = map_of (eh_items h) seqNum;
          uid = (case found of None \<Rightarrow> 0 | Some u \<Rightarrow> u);
          ok = (found \<noteq> None);
          h = h\<lparr>eh_items := AList.delete seqNum (eh_items h)\<rparr>;
          h = (if ok \<and> eh_policy h = ExpungePolicyLowToHigh
               then h\<lparr>eh_items := decrement_keys (eh_items h)\<rparr> else h)
      in (h, uid, ok))"

definition ForDelete :: "expunge_handler \<Rightarrow> bool" where
  "ForDelete h = eh_forDelete h"

definition IsExpungingForDelete :: "expunge_handler \<Rightarrow> u32 \<Rightarrow> bool" where
  "IsExpungingForDelete h uid =
     (if \<not> eh_forDelete h then False else list_ex (\<lambda>(_, u). u = uid) (eh_items h))"

text \<open>A handler answering a sequence of replies.\<close>

fun pop_replies ::
  "expunge_handler \<Rightarrow> u32 list \<Rightarrow> expunge_handler \<times> (u32 \<times> bool) list" where
  "pop_replies h [] = (h, [])"
| "pop_replies h (n # ns) =
     (let (h', u, ok) = PopSequenceNumber h n; (h'', rs) = pop_replies h' ns
      in (h'', (u, ok) # rs))"

subsection \<open>The servers\<close>

text \<open>
  A server that deletes the messages \<open>uids\<close> of mailbox \<open>m\<close> by increasing number, each
  reply numbered in the mailbox as it is at that moment: the position does not move past
  a deleted message, because the ones behind it move up.
\<close>

fun replies_low_to_high :: "u32 list \<Rightarrow> nat \<Rightarrow> seqmap \<Rightarrow> u32 list" where
  "replies_low_to_high uids k [] = []"
| "replies_low_to_high uids k (u # m) =
     (if u \<in> set uids then seq_num k # replies_low_to_high uids k m
      else replies_low_to_high uids (Suc k) m)"

text \<open>
  A server that never renumbers while it deletes: its replies are the numbers the messages
  have in the mailbox before the first deletion, in any order.
\<close>

definition replies_stable :: "u32 list \<Rightarrow> seqmap \<Rightarrow> u32 list \<Rightarrow> bool" where
  "replies_stable uids m ns \<longleftrightarrow> mset ns = mset (map fst (hits uids 0 m))"

subsection \<open>Low to high\<close>

lemma map_of_rev_hits:
  assumes "k + length m < 2 ^ 32"
  shows "map_of (rev (hits uids k m)) = map_of (hits uids k m)"
proof (rule map_of_inject_set[THEN iffD2])
  have "distinct (map (unat \<circ> fst) (hits uids k m))"
    using hits_sorted[OF assms, of uids] by (simp add: strict_sorted_iff)
  then have "distinct (map unat (map fst (hits uids k m)))" by (simp only: map_map)
  then show d: "distinct (map fst (hits uids k m))" by (simp only: distinct_map[of unat])
  then show "distinct (map fst (rev (hits uids k m)))" by (simp add: rev_map[symmetric])
qed simp

lemma hits_keys_above:
  assumes "k + length m < 2 ^ 32" "j < k"
  shows "seq_num j \<notin> fst ` set (hits uids k m)"
proof
  assume "seq_num j \<in> fst ` set (hits uids k m)"
  then obtain u where "(seq_num j, u) \<in> set (hits uids k m)" by auto
  from hits_bounds[OF this assms(1)] have "k < unat (seq_num j)" by simp
  moreover have "unat (seq_num j) = Suc j" using assms by (simp add: unat_seq_num)
  ultimately show False using assms(2) by simp
qed

lemma decrement_hits:
  "k + length m < 2 ^ 32 \<Longrightarrow>
     decrement_keys (hits uids (Suc k) m) = hits uids k m"
  by (induction m arbitrary: k) (auto simp: decrement_keys_def seq_num_def)

lemma decrement_rev: "decrement_keys (rev xs) = rev (decrement_keys xs)"
  by (simp add: decrement_keys_def rev_map)

lemma pop_first_low_to_high:
  assumes "Suc k + length m < 2 ^ 32" "eh_items h = rev ((seq_num k, u) # hits uids (Suc k) m)"
    and "eh_policy (deduce_policy h (seq_num k)) = ExpungePolicyLowToHigh"
  shows "PopSequenceNumber h (seq_num k)
     = ((deduce_policy h (seq_num k))\<lparr>eh_items := rev (hits uids k m)\<rparr>, u, True)"
proof -
  have items: "eh_items (deduce_policy h n) = eh_items h" for n
    by (simp add: deduce_policy_def Let_def)
  have fresh: "seq_num k \<notin> fst ` set (hits uids (Suc k) m)"
    using assms(1) by (intro hits_keys_above) auto
  then have fresh': "seq_num k \<notin> fst ` set (rev (hits uids (Suc k) m))" by simp
  have lookup: "map_of (eh_items h) (seq_num k) = Some u"
    using map_of_eq_None_iff[THEN iffD2, OF fresh'] by (simp add: assms(2) map_add_def)
  have "AList.delete (seq_num k) (eh_items h) = rev (hits uids (Suc k) m)"
    using AList.delete_id[OF fresh'] by (simp add: assms(2) AList.delete_eq)
  moreover have "decrement_keys (rev (hits uids (Suc k) m)) = rev (hits uids k m)"
    using assms(1) by (simp add: decrement_rev decrement_hits)
  ultimately show ?thesis
    using lookup assms(3) by (simp add: PopSequenceNumber_def items Let_def)
qed

lemma pop_replies_low_to_high_running:
  assumes "k + length m < 2 ^ 32" "eh_items h = rev (hits uids k m)"
    and "eh_gotFirst h" "eh_policy h = ExpungePolicyLowToHigh"
  shows "snd (pop_replies h (replies_low_to_high uids k m))
           = map (\<lambda>u. (u, True)) (filter (\<lambda>u. u \<in> set uids) m)
       \<and> eh_items (fst (pop_replies h (replies_low_to_high uids k m))) = []"
  using assms
proof (induction m arbitrary: k h)
  case Nil
  then show ?case by simp
next
  case (Cons u m)
  show ?case
  proof (cases "u \<in> set uids")
    case False
    then show ?thesis using Cons.IH[of "Suc k" h] Cons.prems by simp
  next
    case True
    have ded: "deduce_policy h n = h" for n
      using Cons.prems(3) by (simp add: deduce_policy_def)
    have pop: "PopSequenceNumber h (seq_num k) = (h\<lparr>eh_items := rev (hits uids k m)\<rparr>, u, True)"
      using pop_first_low_to_high[of k m h u uids] Cons.prems True by (simp add: ded)
    show ?thesis
      using Cons.IH[of k "h\<lparr>eh_items := rev (hits uids k m)\<rparr>"] Cons.prems True
      by (auto simp: pop split: prod.splits)
  qed
qed

lemma pop_replies_low_to_high_fresh:
  assumes "k + length m < 2 ^ 32" "eh_items h = rev (hits uids k m)"
    and "eh_policy h \<noteq> ExpungePolicyStable"
    and "\<not> eh_gotFirst h" "hits uids k m \<noteq> [] \<Longrightarrow> eh_minNum h = fst (hd (hits uids k m))"
  shows "snd (pop_replies h (replies_low_to_high uids k m))
           = map (\<lambda>u. (u, True)) (filter (\<lambda>u. u \<in> set uids) m)
       \<and> eh_items (fst (pop_replies h (replies_low_to_high uids k m))) = []"
  using assms
proof (induction m arbitrary: k h)
  case Nil
  then show ?case by simp
next
  case (Cons u m)
  show ?case
  proof (cases "u \<in> set uids")
    case False
    then show ?thesis using Cons.IH[of "Suc k" h] Cons.prems by simp
  next
    case True
    let ?h = "(deduce_policy h (seq_num k))\<lparr>eh_items := rev (hits uids k m)\<rparr>"
    have ded: "eh_policy (deduce_policy h (seq_num k)) = ExpungePolicyLowToHigh"
      "eh_gotFirst (deduce_policy h (seq_num k))"
      using Cons.prems(3-5) True by (cases "eh_policy h"; simp add: deduce_policy_def Let_def)+
    have pop: "PopSequenceNumber h (seq_num k) = (?h, u, True)"
      using Cons.prems(1,2) True ded(1) by (intro pop_first_low_to_high) auto
    have "k + length m < 2 ^ 32" using Cons.prems(1) by simp
    from pop_replies_low_to_high_running[OF this, of ?h uids] ded
    show ?thesis using True by (auto simp: pop split: prod.splits)
  qed
qed

subsection \<open>Stable numbering\<close>

lemma pop_stable:
  assumes "eh_gotFirst h" "eh_policy h = ExpungePolicyStable" "map_of (eh_items h) n = Some u"
  shows "PopSequenceNumber h n = (h\<lparr>eh_items := AList.delete n (eh_items h)\<rparr>, u, True)"
  using assms by (simp add: PopSequenceNumber_def deduce_policy_def Let_def)

lemma pop_replies_stable_running:
  assumes "eh_gotFirst h" "eh_policy h = ExpungePolicyStable"
    and "distinct ns" "set ns = fst ` set (eh_items h)"
  shows "snd (pop_replies h ns) = map (\<lambda>n. (the (map_of (eh_items h) n), True)) ns
       \<and> eh_items (fst (pop_replies h ns)) = []"
  using assms
proof (induction ns arbitrary: h)
  case Nil
  then show ?case by simp
next
  case (Cons n ns)
  from Cons.prems(4) have "n \<in> fst ` set (eh_items h)" by auto
  then obtain u where u: "map_of (eh_items h) n = Some u"
    by (metis map_of_eq_None_iff not_None_eq)
  let ?h = "h\<lparr>eh_items := AList.delete n (eh_items h)\<rparr>"
  have "fst ` set (eh_items ?h) = fst ` set (eh_items h) - {n}"
    using arg_cong[OF AList.delete_keys[of n "eh_items h"], of set] by simp
  then have keys: "set ns = fst ` set (eh_items ?h)"
    using Cons.prems(3) by (auto simp: Cons.prems(4)[symmetric])
  have others: "map_of (eh_items ?h) x = map_of (eh_items h) x" if "x \<in> set ns" for x
    using that Cons.prems(3) by (auto simp: AList.delete_conv')
  show ?case
    using Cons.IH[of ?h] Cons.prems(1-3) keys others u
    by (auto simp: pop_stable[OF Cons.prems(1,2) u] split: prod.splits)
qed

lemma NewExpungeHandler_eq:
  assumes "length m < 2 ^ 32"
  shows "NewExpungeHandler m policy uids fd =
    (filter (\<lambda>u. u \<notin> set uids) m,
     \<lparr>eh_policy = policy, eh_items = rev (hits uids 0 m),
      eh_minNum = (if hits uids 0 m = [] then 0 else fst (hd (hits uids 0 m))),
      eh_forDelete = fd, eh_gotFirst = False\<rparr>)"
  using seqmap_Snapshot_eq[OF assms, of uids] by (simp add: NewExpungeHandler_def)

text \<open>The first reply of a stable server settles the policy and is then answered as any other.\<close>

lemma pop_first_stable:
  assumes "eh_policy (deduce_policy h n) = ExpungePolicyStable"
  shows "PopSequenceNumber h n = PopSequenceNumber (deduce_policy h n) n"
  using assms by (simp add: PopSequenceNumber_def deduce_policy_def Let_def)

lemma pop_replies_stable_fresh:
  assumes "\<not> eh_gotFirst h"
    and "eh_policy h = ExpungePolicyStable
      \<or> eh_policy h = ExpungePolicyAuto \<and> (ns \<noteq> [] \<longrightarrow> hd ns \<noteq> eh_minNum h)"
    and "distinct ns" "set ns = fst ` set (eh_items h)"
  shows "snd (pop_replies h ns) = map (\<lambda>n. (the (map_of (eh_items h) n), True)) ns
       \<and> eh_items (fst (pop_replies h ns)) = []"
proof (cases ns)
  case Nil
  then show ?thesis using assms(4) by simp
next
  case (Cons n ns')
  let ?h = "deduce_policy h n"
  have st: "eh_policy ?h = ExpungePolicyStable" "eh_gotFirst ?h" "eh_items ?h = eh_items h"
    using assms(1,2) Cons by (auto simp: deduce_policy_def Let_def)
  have "pop_replies h ns = pop_replies ?h ns"
    unfolding Cons by (simp add: pop_first_stable[OF st(1)])
  then show ?thesis
    using pop_replies_stable_running[of ?h ns] st assms(3,4) by simp
qed

subsection \<open>When the numbering is taken for low to high\<close>

lemma hits_distinct:
  assumes "seqmap_wf m"
  shows "distinct (map fst (hits uids 0 m))"
proof -
  have len: "0 + length m < 2 ^ 32" using assms(1) by (simp add: seqmap_wf_def)
  have "distinct (map (unat \<circ> fst) (hits uids 0 m))"
    using hits_sorted[OF len, of uids] by (simp add: strict_sorted_iff)
  then have "distinct (map unat (map fst (hits uids 0 m)))" by (simp only: map_map)
  then show ?thesis by (simp only: distinct_map[of unat])
qed

lemma hits_apart:
  assumes "seqmap_wf m" "(n + 1, m ! (unat n - 1)) \<in> set (hits uids 0 m)" "n \<in> fst ` set (hits uids 0 m)"
  shows False
proof -
  have len: "0 + length m < 2 ^ 32" using assms(1) by (simp add: seqmap_wf_def)
  from assms(3) obtain u where u: "(n, u) \<in> set (hits uids 0 m)" by force
  note b1 = hits_bounds[OF assms(2) len] and b2 = hits_bounds[OF u len]
  have "unat n - 1 < length m" "unat (n + 1) - 1 < length m" using b1 b2 by auto
  moreover have "distinct m" using assms(1) by (simp add: seqmap_wf_def)
  moreover have "m ! (unat (n + 1) - 1) = m ! (unat n - 1)" using b1 by simp
  ultimately have "unat (n + 1) - 1 = unat n - 1" by (metis nth_eq_iff_index_eq)
  then have "unat (n + 1) = unat n" using b1 b2 by linarith
  then have "n + 1 = n" by (simp only: word_unat_eq_iff[symmetric])
  then show False by simp
qed

text \<open>The second reply is then looked up one too high.\<close>

lemma second_reply_wrong:
  assumes wf: "seqmap_wf m" and h: "eh_items h = rev (hits uids 0 m)" "\<not> eh_gotFirst h"
    and pol: "eh_policy (deduce_policy h n1) = ExpungePolicyLowToHigh"
    and ns: "n1 \<in> fst ` set (hits uids 0 m)" "n2 \<in> fst ` set (hits uids 0 m)"
  shows "snd (pop_replies h (n1 # n2 # ns)) \<noteq> map (\<lambda>n. (m ! (unat n - 1), True)) (n1 # n2 # ns)"
proof -
  have items: "eh_items (deduce_policy h n) = eh_items h" for n
    by (simp add: deduce_policy_def Let_def)
  have "n1 \<in> fst ` set (eh_items h)" using ns(1) by (simp add: h)
  then obtain u1 where u1: "map_of (eh_items h) n1 = Some u1" by (metis map_of_eq_None_iff not_None_eq)
  define h1 where "h1 = fst (PopSequenceNumber h n1)"
  have i1: "eh_items h1 = decrement_keys (AList.delete n1 (eh_items h))"
    using u1 pol by (simp add: h1_def PopSequenceNumber_def Let_def items)
  have g1: "deduce_policy h1 n2 = h1"
    by (simp add: h1_def PopSequenceNumber_def deduce_policy_def Let_def)
  have second: "snd (pop_replies h (n1 # n2 # ns)) ! 1 = snd (PopSequenceNumber h1 n2)"
    by (simp add: h1_def case_prod_unfold Let_def)
  have "snd (PopSequenceNumber h1 n2) \<noteq> (m ! (unat n2 - 1), True)"
  proof
    assume "snd (PopSequenceNumber h1 n2) = (m ! (unat n2 - 1), True)"
    then have "map_of (eh_items h1) n2 = Some (m ! (unat n2 - 1))"
      by (auto simp: PopSequenceNumber_def Let_def g1 split: option.splits)
    then have "(n2, m ! (unat n2 - 1)) \<in> set (decrement_keys (AList.delete n1 (eh_items h)))"
      unfolding i1 by (rule map_of_SomeD)
    then obtain k where "(k, m ! (unat n2 - 1)) \<in> set (eh_items h)" "n2 = k - 1"
      by (auto simp: decrement_keys_def AList.delete_eq)
    then have "(n2 + 1, m ! (unat n2 - 1)) \<in> set (hits uids 0 m)" by (simp add: h)
    then show False using hits_apart[OF wf _ ns(2)] by blast
  qed
  moreover have "snd (pop_replies h (n1 # n2 # ns)) ! 1 = (m ! (unat n2 - 1), True)"
    if "snd (pop_replies h (n1 # n2 # ns)) = map (\<lambda>n. (m ! (unat n - 1), True)) (n1 # n2 # ns)"
    unfolding that by simp
  ultimately show ?thesis unfolding second by blast
qed

lemma single_reply:
  assumes "eh_items h = [(n, u)]"
  shows "snd (pop_replies h [n]) = [(u, True)] \<and> eh_items (fst (pop_replies h [n])) = []"
proof -
  have i: "eh_items (deduce_policy h n) = [(n, u)]" using assms by (simp add: deduce_policy_def Let_def)
  have "snd (PopSequenceNumber h n) = (u, True)" "eh_items (fst (PopSequenceNumber h n)) = []"
    by (auto simp: PopSequenceNumber_def Let_def i decrement_keys_def)
  then show ?thesis by (cases "PopSequenceNumber h n") simp
qed

subsection \<open>Properties\<close>

text \<open>
  C8. Deleting the messages \<open>uids\<close> on a server that expunges from low to high: unless the
  configuration says the numbers are stable, a new handler resolves the whole sequence of
  replies, each to the UID the server deleted and in the server's order, has no mapping
  left at the end, and the mailbox's sequence map is exactly the messages not deleted.
\<close>

theorem expunge_low_to_high:
  assumes "seqmap_wf m" "policy \<noteq> ExpungePolicyStable"
    and "NewExpungeHandler m policy uids fd = (m', h)"
  shows "m' = filter (\<lambda>u. u \<notin> set uids) m
    \<and> snd (pop_replies h (replies_low_to_high uids 0 m))
        = map (\<lambda>u. (u, True)) (filter (\<lambda>u. u \<in> set uids) m)
    \<and> eh_items (fst (pop_replies h (replies_low_to_high uids 0 m))) = []"
proof -
  have len: "length m < 2 ^ 32" using assms(1) by (simp add: seqmap_wf_def)
  note new = NewExpungeHandler_eq[OF len, of policy uids fd]
  have "0 + length m < 2 ^ 32" using len by simp
  from pop_replies_low_to_high_fresh[OF this, of h uids] assms(2,3) show ?thesis
    unfolding new by auto
qed

lemma expunge_low_to_high_witness:
  "\<exists>m' h. NewExpungeHandler [3, 5, 8, 9] ExpungePolicyAuto [9, 5, 8] True = (m', h)
     \<and> replies_low_to_high [9, 5, 8] 0 [3, 5, 8, 9] = [2, 2, 2]
     \<and> m' = [3] \<and> snd (pop_replies h [2, 2, 2]) = [(5, True), (8, True), (9, True)]"
proof -
  let ?r = "NewExpungeHandler [3, 5, 8, 9] ExpungePolicyAuto [9, 5, 8] True"
  have r: "replies_low_to_high [9, 5, 8] 0 [3, 5, 8, 9] = [2, 2, 2]"
    by (simp add: seq_num_def)
  have wf: "seqmap_wf [3, 5, 8, 9]"
    by (simp add: seqmap_wf_def word_le_nat_alt)
  obtain m' h where mh: "?r = (m', h)" by (cases ?r)
  from expunge_low_to_high[OF wf _ mh] show ?thesis using r mh by auto
qed

text \<open>
  C9. On a server that does not renumber while it deletes, whatever the order of its replies: every
  reply is resolved to the UID that had the number when the command was issued exactly when there
  is at most one reply, the handler is configured as stable, or it is automatic and the first reply is
  not the lowest number; and then no mapping is left at the end.  In every other case the
  handler counts on renumbering and answers some reply wrongly.
\<close>

theorem expunge_stable:
  assumes "seqmap_wf m" "NewExpungeHandler m policy uids fd = (m', h)"
    and "replies_stable uids m ns"
  defines "settled \<equiv> length ns \<le> 1 \<or> policy = ExpungePolicyStable
      \<or> policy = ExpungePolicyAuto \<and> hd ns \<noteq> eh_minNum h"
  shows "(snd (pop_replies h ns) = map (\<lambda>n. (m ! (unat n - 1), True)) ns \<longleftrightarrow> settled)
    \<and> (settled \<longrightarrow> eh_items (fst (pop_replies h ns)) = [])"
proof -
  have len: "0 + length m < 2 ^ 32" using assms(1) by (simp add: seqmap_wf_def)
  then have len': "length m < 2 ^ 32" by simp
  have h: "eh_items h = rev (hits uids 0 m)" "eh_policy h = policy" "\<not> eh_gotFirst h"
    using NewExpungeHandler_eq[OF len', of policy uids fd] assms(2) by auto
  have ms: "mset ns = mset (map fst (hits uids 0 m))"
    using assms(3) by (simp add: replies_stable_def)
  have dh: "distinct (map fst (hits uids 0 m))" by (rule hits_distinct[OF assms(1)])
  then have d: "distinct ns" using mset_eq_imp_distinct_iff[OF ms] by simp
  have hs: "set ns = fst ` set (hits uids 0 m)" using mset_eq_setD[OF ms] by simp
  then have keys: "set ns = fst ` set (eh_items h)" by (simp add: h)
  have val: "the (map_of (eh_items h) n) = m ! (unat n - 1)" if n: "n \<in> set ns" for n
  proof -
    from n keys obtain u where u: "(n, u) \<in> set (hits uids 0 m)" by (auto simp: h)
    have "map_of (eh_items h) n = Some u"
      using map_of_is_SomeI[OF dh u] map_of_rev_hits[OF len, of uids] by (simp add: h)
    then show ?thesis using hits_bounds[OF u len] by simp
  qed
  have right: "snd (pop_replies h ns) = map (\<lambda>n. (m ! (unat n - 1), True)) ns \<and> eh_items (fst (pop_replies h ns)) = []"
    if settled
  proof (cases "length ns \<le> 1")
    case True
    then consider "ns = []" | n where "ns = [n]" by (cases ns) auto
    then show ?thesis
    proof cases
      case 1
      then show ?thesis using keys by simp
    next
      case (2 n)
      have "length (eh_items h) = 1" using arg_cong[OF ms, of size] 2 by (simp add: h)
      then obtain k u where e: "eh_items h = [(k, u)]" by (cases "eh_items h") auto
      then have "k = n" using keys 2 by simp
      then show ?thesis using single_reply[of h n u] e val[of n] 2 by simp
    qed
  next
    case False
    then show ?thesis
      using pop_replies_stable_fresh[OF h(3) _ d keys] that val by (auto simp: h(2) settled_def)
  qed
  have wrong: "snd (pop_replies h ns) \<noteq> map (\<lambda>n. (m ! (unat n - 1), True)) ns" if no: "\<not> settled"
  proof -
    obtain n1 n2 ns' where ns: "ns = n1 # n2 # ns'"
      using no by (cases ns; cases "tl ns") (auto simp: settled_def)
    have "eh_policy (deduce_policy h n1) = ExpungePolicyLowToHigh"
      using no h(2,3) by (cases policy) (auto simp: settled_def ns deduce_policy_def Let_def)
    then show ?thesis
      using second_reply_wrong[OF assms(1) h(1,3), of n1 n2 ns'] hs unfolding ns by auto
  qed
  show ?thesis using right wrong by blast
qed

lemma expunge_stable_witness:
  "\<exists>m' h. NewExpungeHandler [3, 5, 8, 9] ExpungePolicyAuto [9, 5, 8] True = (m', h)
     \<and> snd (pop_replies h [4, 2, 3]) = [(9, True), (5, True), (8, True)]
     \<and> snd (pop_replies h [2, 3, 4]) \<noteq> [(5, True), (8, True), (9, True)]"
proof -
  let ?r = "NewExpungeHandler [3, 5, 8, 9] ExpungePolicyAuto [9, 5, 8] True"
  have wf: "seqmap_wf [3, 5, 8, 9]"
    by (simp add: seqmap_wf_def word_le_nat_alt)
  have rs: "replies_stable [9, 5, 8] [3, 5, 8, 9] [4, 2, 3]" "replies_stable [9, 5, 8] [3, 5, 8, 9] [2, 3, 4]"
    by (simp_all add: replies_stable_def seq_num_def)
  obtain m' h where mh: "?r = (m', h)" by (cases ?r)
  have "eh_minNum h = 2"
    using mh NewExpungeHandler_eq[of "[3, 5, 8, 9]" ExpungePolicyAuto "[9, 5, 8]" True]
    by (auto simp: seq_num_def)
  with expunge_stable[OF wf mh rs(1)] expunge_stable[OF wf mh rs(2)] mh show ?thesis by simp
qed

end
