(* ===== verification/Models.thy ===== *)
theory Models
  imports GoStrings
begin

unbundle bit_operations_syntax

text \<open>
  The data types of \<open>models/models.go\<close>: the flag set, directory roles, capabilities,
  message information and MIME structure.  A Go pointer that may be nil is an \<open>option\<close>;
  \<open>time.Time\<close> is the number of nanoseconds since its zero value, so \<open>IsZero\<close> is \<open>= 0\<close>.
  The header of a message is the type \<open>'h\<close> of the third-party \<open>go-message\<close> package; the
  functions that read it take what they call of it as an argument.
\<close>

type_synonym go_time = int

definition time_IsZero :: "go_time \<Rightarrow> bool" where
  "time_IsZero t \<longleftrightarrow> t = 0"

subsection \<open>Flags\<close>

type_synonym flags = u32

text \<open>\<open>1 << iota\<close> from \<open>SeenFlag\<close> on.\<close>

definition SeenFlag :: flags where "SeenFlag = push_bit 0 1"
definition RecentFlag :: flags where "RecentFlag = push_bit 1 1"
definition AnsweredFlag :: flags where "AnsweredFlag = push_bit 2 1"
definition ForwardedFlag :: flags where "ForwardedFlag = push_bit 3 1"
definition DeletedFlag :: flags where "DeletedFlag = push_bit 4 1"
definition FlaggedFlag :: flags where "FlaggedFlag = push_bit 5 1"
definition DraftFlag :: flags where "DraftFlag = push_bit 6 1"

lemmas flag_defs = SeenFlag_def RecentFlag_def AnsweredFlag_def ForwardedFlag_def
  DeletedFlag_def FlaggedFlag_def DraftFlag_def

definition flags_Has :: "flags \<Rightarrow> flags \<Rightarrow> bool" where
  "flags_Has f fl \<longleftrightarrow> f AND fl = fl"

lemma flags_Has_bits: "flags_Has f fl \<longleftrightarrow> (\<forall>n. bit fl n \<longrightarrow> bit f n)"
  unfolding flags_Has_def bit_eq_iff
  using bit_imp_le_length[of fl] by (auto simp: bit_and_iff)

lemma flags_Has_refl [simp]: "flags_Has f f"
  by (simp add: flags_Has_def)

lemma flags_Has_zero [simp]: "flags_Has f 0"
  by (simp add: flags_Has_def)

text \<open>A single-bit flag is one bit of the word.\<close>

lemma flags_Has_single: "k < 32 \<Longrightarrow> flags_Has f (push_bit k 1) \<longleftrightarrow> bit f k"
  by (auto simp: flags_Has_bits push_bit_eq_mult bit_exp_iff)

subsection \<open>Roles, directories and capabilities\<close>

definition Roles :: "(string \<times> string) list" where
  "Roles = [(''all'', ''all''), (''archive'', ''archive''), (''drafts'', ''drafts''),
     (''inbox'', ''inbox''), (''junk'', ''junk''), (''sent'', ''sent''),
     (''trash'', ''trash''), (''query'', ''query'')]"

definition QueryRole :: string where "QueryRole = ''query''"
definition VirtualRole :: string where "VirtualRole = ''virtual''"

record directory =
  dir_Name :: string
  dir_Uid :: string
  dir_Exists :: int
  dir_Recent :: int
  dir_Unseen :: int
  dir_Role :: string

record capabilities =
  cap_Sort :: bool
  cap_Thread :: bool
  cap_Extensions :: "string list"

definition capabilities_Has :: "capabilities \<Rightarrow> string \<Rightarrow> bool" where
  "capabilities_Has c s \<longleftrightarrow> s \<in> set (cap_Extensions c)"

subsection \<open>MIME structure\<close>

datatype body_structure = BodyStructure
  (bs_MIMEType: string)
  (bs_MIMESubType: string)
  (bs_Params: "(string \<times> string) list")
  (bs_Description: string)
  (bs_Encoding: string)
  (bs_Parts: "body_structure list")
  (bs_Disposition: string)
  (bs_DispositionParams: "(string \<times> string) list")
  (bs_ContentID: string)

datatype part_error = NotOneBased | TooManyLevels | BadIndexNonMultipart int | BadIndex int int

fun PartAtIndex :: "body_structure \<Rightarrow> int list \<Rightarrow> part_error + body_structure" where
  "PartAtIndex bs [] = Inr bs"
| "PartAtIndex bs (cur # rest) =
     (let curidx = cur - 1
      in if curidx < 0 then Inl NotOneBased
         else if bs_Parts bs = [] then
           (if rest \<noteq> [] then Inl TooManyLevels
            else if cur = 1 then Inr bs
            else Inl (BadIndexNonMultipart cur))
         else if cur > int (length (bs_Parts bs)) then Inl (BadIndex cur (int (length (bs_Parts bs))))
         else PartAtIndex (bs_Parts bs ! nat curidx) rest)"

definition FullMIMEType :: "body_structure \<Rightarrow> string" where
  "FullMIMEType bs = to_lower (bs_MIMEType bs @ ''/'' @ bs_MIMESubType bs)"

definition FileName :: "body_structure \<Rightarrow> string" where
  "FileName bs =
     (case map_of (bs_DispositionParams bs) ''filename'' of
        Some filename \<Rightarrow> filename
      | None \<Rightarrow> (case map_of (bs_Params bs) ''name'' of
                   Some filename \<Rightarrow> filename
                 | None \<Rightarrow> ''''))"

subsection \<open>Messages\<close>

record address =
  addr_Name :: string
  addr_Address :: string

record envelope =
  env_Date :: go_time
  env_Subject :: string
  env_From :: "address list"
  env_ReplyTo :: "address list"
  env_Sender :: "address list"
  env_To :: "address list"
  env_Cc :: "address list"
  env_Bcc :: "address list"
  env_MessageId :: string
  env_InReplyTo :: string

record 'h message_info =
  mi_BodyStructure :: "body_structure option"
  mi_Envelope :: "envelope option"
  mi_Flags :: flags
  mi_Directory :: string
  mi_Labels :: "string list"
  mi_Filenames :: "string list"
  mi_InternalDate :: go_time
  mi_RFC822Headers :: "'h option"
  mi_Refs :: "string list option"
  mi_Size :: u32
  mi_Uid :: uid
  mi_Index :: "int option"
  mi_Error :: "string option"

datatype info_error = MsgIsNil | EnvelopeIsNil | HeaderIsNil | NoResults

definition mi_MsgId :: "'h message_info option \<Rightarrow> info_error + string" where
  "mi_MsgId mi =
     (case mi of None \<Rightarrow> Inl MsgIsNil
      | Some m \<Rightarrow> (case mi_Envelope m of None \<Rightarrow> Inl EnvelopeIsNil
                    | Some e \<Rightarrow> Inr (env_MessageId e)))"

text \<open>\<open>msgIDList\<close> stands for \<open>parse.MsgIDList\<close>, which reads the third-party header.\<close>

definition mi_InReplyTo ::
  "('h \<Rightarrow> string \<Rightarrow> string list) \<Rightarrow> 'h message_info option \<Rightarrow> info_error + string" where
  "mi_InReplyTo msgIDList mi =
     (case mi of None \<Rightarrow> Inl MsgIsNil
      | Some m \<Rightarrow>
          (case mi_Envelope m of
             Some e \<Rightarrow> if env_InReplyTo e \<noteq> '''' then Inr (env_InReplyTo e)
               else (case mi_RFC822Headers m of None \<Rightarrow> Inl HeaderIsNil
                     | Some h \<Rightarrow> (case msgIDList h ''In-Reply-To'' of
                                    [] \<Rightarrow> Inl NoResults | x # _ \<Rightarrow> Inr x))
           | None \<Rightarrow> (case mi_RFC822Headers m of None \<Rightarrow> Inl HeaderIsNil
                     | Some h \<Rightarrow> (case msgIDList h ''In-Reply-To'' of
                                    [] \<Rightarrow> Inl NoResults | x # _ \<Rightarrow> Inr x))))"

definition mi_References ::
  "('h \<Rightarrow> string \<Rightarrow> string list) \<Rightarrow> 'h message_info option \<Rightarrow> info_error + string list" where
  "mi_References msgIDList mi =
     (case mi of None \<Rightarrow> Inl MsgIsNil
      | Some m \<Rightarrow>
          (case mi_Refs m of
             Some refs \<Rightarrow> Inr refs
           | None \<Rightarrow> (case mi_RFC822Headers m of None \<Rightarrow> Inl HeaderIsNil
                     | Some h \<Rightarrow> (case msgIDList h ''References'' of
                                    [] \<Rightarrow> Inl NoResults | x # xs \<Rightarrow> Inr (x # xs)))))"

text \<open>A message with nothing but its UID and message id, for the examples.\<close>

definition sample_message :: "uid \<Rightarrow> unit message_info" where
  "sample_message u =
     \<lparr>mi_BodyStructure = None,
      mi_Envelope = Some \<lparr>env_Date = 0, env_Subject = [], env_From = [], env_ReplyTo = [],
        env_Sender = [], env_To = [], env_Cc = [], env_Bcc = [], env_MessageId = u, env_InReplyTo = []\<rparr>,
      mi_Flags = 0, mi_Directory = [], mi_Labels = [], mi_Filenames = [], mi_InternalDate = 0,
      mi_RFC822Headers = None, mi_Refs = None, mi_Size = 0, mi_Uid = u, mi_Index = None, mi_Error = None\<rparr>"

end
