(* ===== verification/BodyParts.thy ===== *)
theory BodyParts
  imports Models
begin

text \<open>
  \<open>lib/structure_helpers.go\<close>: the searches for a part in a MIME tree, which return the
  1-based path of the part, and \<open>PartAtIndex\<close> (\<open>models/models.go\<close>), which follows such a
  path.  A nil path is the empty list: every path a search returns is non-empty.  The
  lemmas show that the two agree: a returned path leads to a part of the wanted kind.
\<close>

definition is_multipart :: "body_structure \<Rightarrow> bool" where
  "is_multipart bs \<longleftrightarrow> to_lower (bs_MIMEType bs) = ''multipart''"

text \<open>The loops over \<open>bs.Parts\<close>, with the index \<open>i\<close> of the part they are at.\<close>

fun FindMIMEPart :: "string \<Rightarrow> body_structure \<Rightarrow> int list \<Rightarrow> int list"
  and find_mime_parts :: "string \<Rightarrow> body_structure list \<Rightarrow> nat \<Rightarrow> int list \<Rightarrow> int list" where
  "FindMIMEPart mime (BodyStructure _ _ _ _ _ parts _ _ _) path = find_mime_parts mime parts 0 path"
| "find_mime_parts mime [] i path = []"
| "find_mime_parts mime (part # parts) i path =
     (let cur = path @ [int i + 1]
      in if FullMIMEType part = mime then cur
         else if is_multipart part then
           (let sub = FindMIMEPart mime part cur
            in if sub \<noteq> [] then sub else find_mime_parts mime parts (Suc i) path)
         else find_mime_parts mime parts (Suc i) path)"

definition FindPlaintext :: "body_structure \<Rightarrow> int list \<Rightarrow> int list" where
  "FindPlaintext bs path = FindMIMEPart ''text/plain'' bs path"

definition FindCalendartext :: "body_structure \<Rightarrow> int list \<Rightarrow> int list" where
  "FindCalendartext bs path = FindMIMEPart ''text/calendar'' bs path"

fun FindFirstNonMultipart :: "body_structure \<Rightarrow> int list \<Rightarrow> int list"
  and find_first_parts :: "body_structure list \<Rightarrow> nat \<Rightarrow> int list \<Rightarrow> int list" where
  "FindFirstNonMultipart (BodyStructure _ _ _ _ _ parts _ _ _) path = find_first_parts parts 0 path"
| "find_first_parts [] i path = []"
| "find_first_parts (part # parts) i path =
     (let cur = path @ [int i + 1]
      in if \<not> is_multipart part then cur
         else (let sub = FindFirstNonMultipart part cur
               in if sub \<noteq> [] then sub else find_first_parts parts (Suc i) path))"

fun FindAllNonMultipart :: "body_structure \<Rightarrow> int list \<Rightarrow> int list list \<Rightarrow> int list list"
  and find_all_parts :: "body_structure list \<Rightarrow> nat \<Rightarrow> int list \<Rightarrow> int list list \<Rightarrow> int list list" where
  "FindAllNonMultipart (BodyStructure _ _ _ _ _ parts _ _ _) path pathlist =
     find_all_parts parts 0 path pathlist"
| "find_all_parts [] i path pathlist = pathlist"
| "find_all_parts (part # parts) i path pathlist =
     (let cur = path @ [int i + 1]
      in if \<not> is_multipart part then find_all_parts parts (Suc i) path (pathlist @ [cur])
         else (let sub = FindAllNonMultipart part cur []
               in find_all_parts parts (Suc i) path (pathlist @ sub)))"

fun EqualParts :: "int list \<Rightarrow> int list \<Rightarrow> bool" where
  "EqualParts [] [] = True"
| "EqualParts (a # as) (b # bs) = (length as = length bs \<and> a = b \<and> EqualParts as bs)"
| "EqualParts _ _ = False"

lemma EqualParts_eq: "EqualParts a b \<longleftrightarrow> a = b"
  by (induction a b rule: EqualParts.induct) auto

subsection \<open>Paths and parts\<close>

text \<open>One step down, for a container that has the part.\<close>

lemma PartAtIndex_child:
  "i < length (bs_Parts bs) \<Longrightarrow>
     PartAtIndex bs ((int i + 1) # rest) = PartAtIndex (bs_Parts bs ! i) rest"
  by (auto simp: Let_def)

text \<open>
  The accumulated prefix is only carried along: a search returns it followed by the path
  relative to the container.
\<close>

lemma find_mime_sound:
  "FindMIMEPart mime bs path \<noteq> [] \<Longrightarrow>
     \<exists>rel part. FindMIMEPart mime bs path = path @ rel \<and> rel \<noteq> []
        \<and> PartAtIndex bs rel = Inr part \<and> FullMIMEType part = mime"
  "find_mime_parts mime parts i path \<noteq> [] \<Longrightarrow>
     \<exists>j rel part. j < length parts \<and> find_mime_parts mime parts i path = path @ (int (i + j) + 1) # rel
        \<and> PartAtIndex (parts ! j) rel = Inr part \<and> FullMIMEType part = mime"
proof (induction mime bs path and mime parts i path rule: FindMIMEPart_find_mime_parts.induct)
  case (1 mime a b c d e parts f g h path)
  from 1 obtain j rel part where j: "j < length parts"
      and eq: "find_mime_parts mime parts 0 path = path @ (int j + 1) # rel"
      and part: "PartAtIndex (parts ! j) rel = Inr part" "FullMIMEType part = mime"
    by auto
  have "PartAtIndex (BodyStructure a b c d e parts f g h) ((int j + 1) # rel) = Inr part"
    using PartAtIndex_child[of j "BodyStructure a b c d e parts f g h" rel] j part by simp
  with eq part show ?case by auto
next
  case (2 mime i path)
  then show ?case by simp
next
  case (3 mime part parts i path)
  let ?cur = "path @ [int i + 1]"
  show ?case
  proof (cases "FullMIMEType part = mime")
    case True
    then show ?thesis by (intro exI[of _ 0] exI[of _ "[]"] exI[of _ part]) (simp add: Let_def)
  next
    case no: False
    show ?thesis
    proof (cases "is_multipart part \<and> FindMIMEPart mime part ?cur \<noteq> []")
      case True
      then obtain rel q where "FindMIMEPart mime part ?cur = ?cur @ rel"
          "PartAtIndex part rel = Inr q" "FullMIMEType q = mime"
        using "3.IH"(1)[OF refl no] by auto
      then show ?thesis using True no
        by (intro exI[of _ 0] exI[of _ rel] exI[of _ q]) (simp add: Let_def)
    next
      case False
      then have eq: "find_mime_parts mime (part # parts) i path = find_mime_parts mime parts (Suc i) path"
        using no by (auto simp: Let_def)
      then have "\<exists>j rel q. j < length parts
          \<and> find_mime_parts mime parts (Suc i) path = path @ (int (Suc i + j) + 1) # rel
          \<and> PartAtIndex (parts ! j) rel = Inr q \<and> FullMIMEType q = mime"
        using "3.IH"(2,3) "3.prems" no False by (cases "is_multipart part") auto
      then obtain j rel q where "j < length parts"
          "find_mime_parts mime parts (Suc i) path = path @ (int (Suc i + j) + 1) # rel"
          "PartAtIndex (parts ! j) rel = Inr q" "FullMIMEType q = mime" by blast
      then show ?thesis unfolding eq
        by (intro exI[of _ "Suc j"] exI[of _ rel] exI[of _ q]) simp
    qed
  qed
qed

subsection \<open>The leaves of a tree\<close>

text \<open>
  The reference: the paths of the non-multipart parts reachable through multiparts, in
  the order of a walk of the tree, built without accumulators.
\<close>

fun leaf_paths :: "body_structure \<Rightarrow> int list list"
  and leaf_paths_list :: "body_structure list \<Rightarrow> nat \<Rightarrow> int list list" where
  "leaf_paths (BodyStructure _ _ _ _ _ parts _ _ _) = leaf_paths_list parts 0"
| "leaf_paths_list [] i = []"
| "leaf_paths_list (part # parts) i =
     (if is_multipart part then map ((#) (int i + 1)) (leaf_paths part) else [[int i + 1]])
       @ leaf_paths_list parts (Suc i)"

lemma leaf_paths_nonempty:
  "r \<in> set (leaf_paths bs) \<Longrightarrow> r \<noteq> []"
  "r \<in> set (leaf_paths_list parts i) \<Longrightarrow> r \<noteq> []"
  by (induction bs and parts i rule: leaf_paths_leaf_paths_list.induct) (auto split: if_splits)

lemma find_all_leaf_paths:
  "FindAllNonMultipart bs path acc = acc @ map ((@) path) (leaf_paths bs)"
  "find_all_parts parts i path acc = acc @ map ((@) path) (leaf_paths_list parts i)"
  by (induction bs path acc and parts i path acc rule: FindAllNonMultipart_find_all_parts.induct)
    (auto simp: Let_def)

lemma find_first_leaf_paths:
  "FindFirstNonMultipart bs path = (case leaf_paths bs of [] \<Rightarrow> [] | r # _ \<Rightarrow> path @ r)"
  "find_first_parts parts i path = (case leaf_paths_list parts i of [] \<Rightarrow> [] | r # _ \<Rightarrow> path @ r)"
proof (induction bs path and parts i path rule: FindFirstNonMultipart_find_first_parts.induct)
  case (3 part parts i path)
  then show ?case by (cases "leaf_paths part") (auto simp: Let_def)
qed auto

lemma leaf_paths_sound:
  "r \<in> set (leaf_paths bs) \<Longrightarrow> \<exists>part. PartAtIndex bs r = Inr part \<and> \<not> is_multipart part"
  "r \<in> set (leaf_paths_list parts i) \<Longrightarrow>
     \<exists>j rel part. j < length parts \<and> r = (int (i + j) + 1) # rel
       \<and> PartAtIndex (parts ! j) rel = Inr part \<and> \<not> is_multipart part"
proof (induction bs and parts i arbitrary: r and r rule: leaf_paths_leaf_paths_list.induct)
  case (1 a b c d e parts f g h)
  from 1 obtain j rel part where j: "j < length parts" and r: "r = (int j + 1) # rel"
      and part: "PartAtIndex (parts ! j) rel = Inr part" "\<not> is_multipart part"
    by force
  show ?case
    using PartAtIndex_child[of j "BodyStructure a b c d e parts f g h" rel] j r part by simp
next
  case (2 i)
  then show ?case by simp
next
  case (3 part parts i)
  consider "is_multipart part" "r \<in> (#) (int i + 1) ` set (leaf_paths part)"
    | "\<not> is_multipart part" "r = [int i + 1]" | "r \<in> set (leaf_paths_list parts (Suc i))"
    using "3.prems" by (auto split: if_splits)
  then show ?case
  proof cases
    case 1
    then show ?thesis using "3.IH"(1) by fastforce
  next
    case 2
    then show ?thesis by fastforce
  next
    case 3
    from "3.IH"(2)[OF this] obtain j rel q where "j < length parts" "r = (int (Suc i + j) + 1) # rel"
        "PartAtIndex (parts ! j) rel = Inr q" "\<not> is_multipart q" by blast
    then show ?thesis by (intro exI[of _ "Suc j"] exI[of _ rel] exI[of _ q]) simp
  qed
qed

lemma leaf_paths_list_index: "r \<in> set (leaf_paths_list parts i) \<Longrightarrow> int i < hd r"
  by (induction parts arbitrary: i) (fastforce split: if_splits)+

lemma distinct_leaf_paths:
  "distinct (leaf_paths bs)"
  "distinct (leaf_paths_list parts i)"
proof (induction bs and parts i rule: leaf_paths_leaf_paths_list.induct)
  case (3 part parts i)
  then show ?case
    using leaf_paths_list_index[of _ parts "Suc i"] by (fastforce simp: distinct_map)
qed auto

subsection \<open>Properties\<close>

text \<open>
  C10. A search by MIME type that returns a path returns one that \<open>PartAtIndex\<close> follows,
  inside the given structure, to a part of exactly that type.
\<close>

theorem FindMIMEPart_sound:
  assumes "FindMIMEPart mime bs [] \<noteq> []"
  shows "\<exists>part. PartAtIndex bs (FindMIMEPart mime bs []) = Inr part \<and> FullMIMEType part = mime"
  using find_mime_sound(1)[OF assms] by auto

definition sample_leaf :: "string \<Rightarrow> string \<Rightarrow> body_structure" where
  "sample_leaf t st = BodyStructure t st [] [] [] [] [] [] []"

definition sample_tree :: body_structure where
  "sample_tree = BodyStructure ''multipart'' ''mixed'' [] [] []
     [sample_leaf ''application'' ''pdf'',
      BodyStructure ''Multipart'' ''alternative'' [] [] []
        [sample_leaf ''text'' ''html'', sample_leaf ''TEXT'' ''plain''] [] [] []] [] [] []"

lemma FindMIMEPart_sound_witness:
  "FindMIMEPart ''text/plain'' sample_tree [] = [2, 2]
   \<and> (\<exists>part. PartAtIndex sample_tree [2, 2] = Inr part \<and> FullMIMEType part = ''text/plain'')"
proof -
  have f: "FindMIMEPart ''text/plain'' sample_tree [] = [2, 2]" by code_simp
  then show ?thesis using FindMIMEPart_sound[of "''text/plain''" sample_tree] by simp
qed

text \<open>
  C11. The list of all non-multipart paths has no repetition, each of its paths leads
  \<open>PartAtIndex\<close> to a part that is not a multipart, and the first of them is what the
  search for the first non-multipart part returns.
\<close>

theorem FindAllNonMultipart_leaves:
  "distinct (FindAllNonMultipart bs [] [])
   \<and> (\<forall>p\<in>set (FindAllNonMultipart bs [] []).
        p \<noteq> [] \<and> (\<exists>part. PartAtIndex bs p = Inr part \<and> \<not> is_multipart part))
   \<and> FindFirstNonMultipart bs []
       = (case FindAllNonMultipart bs [] [] of [] \<Rightarrow> [] | p # _ \<Rightarrow> p)"
  using distinct_leaf_paths(1)[of bs] leaf_paths_sound(1)[of _ bs] leaf_paths_nonempty(1)[of _ bs]
  by (auto simp: find_all_leaf_paths find_first_leaf_paths distinct_map inj_on_def split: list.splits)

lemma FindAllNonMultipart_leaves_witness:
  "FindAllNonMultipart sample_tree [] [] = [[1], [2, 1], [2, 2]]
   \<and> FindFirstNonMultipart sample_tree [] = [1]
   \<and> (\<exists>part. PartAtIndex sample_tree [2, 1] = Inr part \<and> \<not> is_multipart part)"
proof -
  have f: "FindAllNonMultipart sample_tree [] [] = [[1], [2, 1], [2, 2]]" by code_simp
  then show ?thesis using FindAllNonMultipart_leaves[of sample_tree] by simp
qed

end
