(* ===== verification/Marker.thy ===== *)
theory Marker
  imports Prelude
begin

text \<open>
  \<open>lib/marker/marker.go\<close>: the marks of a message list and the visual marking mode.
  \<open>Remark\<close> makes \<open>marked\<close> and \<open>lastMarked\<close> the same Go map, so the two fields are
  addresses in a store of sets; \<open>visualBase\<close> is only ever a fresh copy and is kept as its
  value.  The UID provider (\<open>MessageStore\<close> in \<open>lib/msgstore.go\<close>) is the pair of its
  answers \<open>uids\<close> and \<open>sel\<close>; its contract is the locale \<open>uid_provider\<close>.  Where Go would
  slice beyond the list of UIDs the result is \<open>None\<close>.
\<close>

record marker =
  mk_store :: "uid set list"
  mk_marked :: nat
  mk_lastMarked :: nat
  mk_visualStartUID :: uid
  mk_visualMarkMode :: bool
  mk_visualBase :: "uid set"

definition marker_New :: marker where
  "marker_New = \<lparr>mk_store = [{}, {}], mk_marked = 0, mk_lastMarked = 1,
     mk_visualStartUID = [], mk_visualMarkMode = False, mk_visualBase = {}\<rparr>"

text \<open>The contents of the two maps, an update in place, and an allocation.\<close>

definition marked_set :: "marker \<Rightarrow> uid set" where
  "marked_set mc = mk_store mc ! mk_marked mc"

definition lastMarked_set :: "marker \<Rightarrow> uid set" where
  "lastMarked_set mc = mk_store mc ! mk_lastMarked mc"

definition write_marked :: "marker \<Rightarrow> uid set \<Rightarrow> marker" where
  "write_marked mc S = mc\<lparr>mk_store := (mk_store mc)[mk_marked mc := S]\<rparr>"

definition alloc_marked :: "marker \<Rightarrow> uid set \<Rightarrow> marker" where
  "alloc_marked mc S = mc\<lparr>mk_store := mk_store mc @ [S], mk_marked := length (mk_store mc)\<rparr>"

definition resetMark :: "marker \<Rightarrow> marker" where
  "resetMark mc = alloc_marked (mc\<lparr>mk_lastMarked := mk_marked mc\<rparr>) {}"

definition ClearVisualMark :: "marker \<Rightarrow> marker" where
  "ClearVisualMark mc = (resetMark mc)\<lparr>mk_visualMarkMode := False, mk_visualStartUID := []\<rparr>"

definition Mark :: "uid \<Rightarrow> marker \<Rightarrow> marker" where
  "Mark uid mc =
     (if mk_visualMarkMode mc then mc else write_marked mc (insert uid (marked_set mc)))"

definition Unmark :: "uid \<Rightarrow> marker \<Rightarrow> marker" where
  "Unmark uid mc =
     (if mk_visualMarkMode mc then ClearVisualMark mc
      else write_marked mc (marked_set mc - {uid}))"

definition Remark :: "marker \<Rightarrow> marker" where
  "Remark mc = mc\<lparr>mk_marked := mk_lastMarked mc\<rparr>"

definition IsMarked :: "marker \<Rightarrow> uid \<Rightarrow> bool" where
  "IsMarked mc uid \<longleftrightarrow> uid \<in> marked_set mc"

definition ToggleMark :: "uid \<Rightarrow> marker \<Rightarrow> marker" where
  "ToggleMark uid mc =
     (if mk_visualMarkMode mc then mc
      else if IsMarked mc uid then Unmark uid mc else Mark uid mc)"

definition removeStaleUID :: "uid list \<Rightarrow> marker \<Rightarrow> marker" where
  "removeStaleUID uids mc = write_marked mc {mark \<in> marked_set mc. mark \<in> set uids}"

text \<open>Go returns the marked UIDs in the unspecified order of its map: a set.\<close>

definition Marked :: "uid list \<Rightarrow> marker \<Rightarrow> marker \<times> uid set" where
  "Marked uids mc = (let mc' = removeStaleUID uids mc in (mc', marked_set mc'))"

definition IsVisualMark :: "marker \<Rightarrow> bool" where
  "IsVisualMark mc = mk_visualMarkMode mc"

definition ToggleVisualMark :: "uid list \<Rightarrow> int \<Rightarrow> bool \<Rightarrow> marker \<Rightarrow> marker" where
  "ToggleVisualMark uids sel clear mc0 =
     (let mc = mc0\<lparr>mk_visualMarkMode := \<not> mk_visualMarkMode mc0\<rparr>
      in if \<not> mk_visualMarkMode mc then mc
         else
           (let mc = (if clear then resetMark mc else mc)
            in if 0 \<le> sel \<and> sel < int (length uids) then
                 (let start = uids ! nat sel;
                      mc = mc\<lparr>mk_visualStartUID := start\<rparr>;
                      mc = write_marked mc (insert start (marked_set mc))
                  in mc\<lparr>mk_visualBase := marked_set mc\<rparr>)
               else mc))"

definition visualStartIdx :: "uid list \<Rightarrow> marker \<Rightarrow> int" where
  "visualStartIdx uids mc = find_idx (\<lambda>u. u = mk_visualStartUID mc) uids"

text \<open>\<open>xs[a:b]\<close>\<close>

definition go_slice_of :: "'a list \<Rightarrow> int \<Rightarrow> int \<Rightarrow> 'a list option" where
  "go_slice_of xs a b =
     (if 0 \<le> a \<and> a \<le> b \<and> b \<le> int (length xs)
      then Some (take (nat b - nat a) (drop (nat a) xs)) else None)"

definition UpdateVisualMark :: "uid list \<Rightarrow> int \<Rightarrow> marker \<Rightarrow> marker option" where
  "UpdateVisualMark uids sel mc =
     (if \<not> mk_visualMarkMode mc then Some mc
      else
        (let startIdx = visualStartIdx uids mc
         in if startIdx < 0 then Some (ClearVisualMark mc)
            else if sel < 0 then Some mc
            else
              (case (if sel > startIdx then go_slice_of uids startIdx (sel + 1)
                     else go_slice_of uids sel (startIdx + 1)) of
                 None \<Rightarrow> None
               | Some visUids \<Rightarrow>
                   Some (alloc_marked mc (mk_visualBase mc \<union> set visUids)))))"

subsection \<open>The store\<close>

definition marker_wf :: "marker \<Rightarrow> bool" where
  "marker_wf mc \<longleftrightarrow> mk_marked mc < length (mk_store mc) \<and> mk_lastMarked mc < length (mk_store mc)"

named_theorems marker_simps

lemma marked_write [simp, marker_simps]: "marker_wf mc \<Longrightarrow> marked_set (write_marked mc S) = S"
  by (simp add: marked_set_def write_marked_def marker_wf_def)

lemma last_write [simp, marker_simps]:
  "marker_wf mc \<Longrightarrow> lastMarked_set (write_marked mc S) =
     (if mk_marked mc = mk_lastMarked mc then S else lastMarked_set mc)"
  by (simp add: lastMarked_set_def write_marked_def marker_wf_def)

lemma marked_alloc [simp, marker_simps]: "marked_set (alloc_marked mc S) = S"
  by (simp add: marked_set_def alloc_marked_def)

lemma last_alloc [simp, marker_simps]:
  "marker_wf mc \<Longrightarrow> lastMarked_set (alloc_marked mc S) = lastMarked_set mc"
  by (simp add: lastMarked_set_def alloc_marked_def marker_wf_def nth_append)

lemma write_fields [simp]:
  "mk_marked (write_marked mc S) = mk_marked mc"
  "mk_lastMarked (write_marked mc S) = mk_lastMarked mc"
  "mk_visualStartUID (write_marked mc S) = mk_visualStartUID mc"
  "mk_visualMarkMode (write_marked mc S) = mk_visualMarkMode mc"
  "mk_visualBase (write_marked mc S) = mk_visualBase mc"
  "length (mk_store (write_marked mc S)) = length (mk_store mc)"
  by (simp_all add: write_marked_def)

lemma alloc_fields [simp]:
  "mk_marked (alloc_marked mc S) = length (mk_store mc)"
  "mk_lastMarked (alloc_marked mc S) = mk_lastMarked mc"
  "mk_visualStartUID (alloc_marked mc S) = mk_visualStartUID mc"
  "mk_visualMarkMode (alloc_marked mc S) = mk_visualMarkMode mc"
  "mk_visualBase (alloc_marked mc S) = mk_visualBase mc"
  "length (mk_store (alloc_marked mc S)) = Suc (length (mk_store mc))"
  by (simp_all add: alloc_marked_def)

lemma marked_set_fields [simp]:
  "marked_set (mc\<lparr>mk_visualMarkMode := b\<rparr>) = marked_set mc"
  "marked_set (mc\<lparr>mk_visualStartUID := u\<rparr>) = marked_set mc"
  "marked_set (mc\<lparr>mk_visualBase := B\<rparr>) = marked_set mc"
  "marked_set (mc\<lparr>mk_lastMarked := l\<rparr>) = marked_set mc"
  "marker_wf (mc\<lparr>mk_visualMarkMode := b\<rparr>) = marker_wf mc"
  "marker_wf (mc\<lparr>mk_visualStartUID := u\<rparr>) = marker_wf mc"
  "marker_wf (mc\<lparr>mk_visualBase := B\<rparr>) = marker_wf mc"
  by (simp_all add: marked_set_def marker_wf_def)

lemma marker_wf_write [simp]: "marker_wf (write_marked mc S) = marker_wf mc"
  by (simp add: marker_wf_def)

lemma marker_wf_alloc [simp]: "marker_wf mc \<Longrightarrow> marker_wf (alloc_marked mc S)"
  by (simp add: marker_wf_def)

lemma marker_wf_reset [simp]: "marker_wf mc \<Longrightarrow> marker_wf (resetMark mc)"
  by (simp add: resetMark_def marker_wf_def)

lemma marked_reset [simp]: "marked_set (resetMark mc) = {}"
  by (simp add: resetMark_def)

lemma last_reset [simp]: "marker_wf mc \<Longrightarrow> lastMarked_set (resetMark mc) = marked_set mc"
  by (simp add: resetMark_def lastMarked_set_def alloc_marked_def marker_wf_def nth_append marked_set_def)

lemma reset_fields [simp]:
  "mk_visualStartUID (resetMark mc) = mk_visualStartUID mc"
  "mk_visualMarkMode (resetMark mc) = mk_visualMarkMode mc"
  "mk_visualBase (resetMark mc) = mk_visualBase mc"
  by (simp_all add: resetMark_def)

lemma marker_wf_ops:
  "marker_wf marker_New"
  "marker_wf mc \<Longrightarrow> marker_wf (Mark u mc)"
  "marker_wf mc \<Longrightarrow> marker_wf (Unmark u mc)"
  "marker_wf mc \<Longrightarrow> marker_wf (ToggleMark u mc)"
  "marker_wf mc \<Longrightarrow> marker_wf (Remark mc)"
  "marker_wf mc \<Longrightarrow> marker_wf (ClearVisualMark mc)"
  "marker_wf mc \<Longrightarrow> marker_wf (removeStaleUID uids mc)"
  "marker_wf mc \<Longrightarrow> marker_wf (ToggleVisualMark uids sel clear mc)"
  "marker_wf mc \<Longrightarrow> UpdateVisualMark uids sel mc = Some mc' \<Longrightarrow> marker_wf mc'"
  by (auto simp: marker_New_def Mark_def Unmark_def ToggleMark_def Remark_def ClearVisualMark_def
      removeStaleUID_def ToggleVisualMark_def UpdateVisualMark_def Let_def
      split: if_splits option.splits)
    (simp_all add: marker_wf_def)

subsection \<open>The visual mode\<close>

text \<open>The cursor moves through the positions \<open>ts\<close> while the visual mode is on.\<close>

fun visual_moves :: "uid list \<Rightarrow> int list \<Rightarrow> marker \<Rightarrow> marker option" where
  "visual_moves uids [] mc = Some mc"
| "visual_moves uids (t # ts) mc =
     (case UpdateVisualMark uids t mc of None \<Rightarrow> None | Some mc' \<Rightarrow> visual_moves uids ts mc')"

definition range_uids :: "uid list \<Rightarrow> int \<Rightarrow> int \<Rightarrow> uid set" where
  "range_uids uids a b = {uids ! k | k. min a b \<le> int k \<and> int k \<le> max a b}"

lemma set_go_slice_of:
  assumes "0 \<le> a" "a \<le> b" "b < int (length xs)"
  shows "\<exists>ys. go_slice_of xs a (b + 1) = Some ys
    \<and> set ys = {xs ! k | k. a \<le> int k \<and> int k \<le> b}"
proof -
  have "set (take (nat (b + 1) - nat a) (drop (nat a) xs)) = {xs ! k | k. nat a \<le> k \<and> k \<le> nat b}"
  proof (rule set_eqI, rule iffI)
    fix x assume "x \<in> set (take (nat (b + 1) - nat a) (drop (nat a) xs))"
    then obtain i where "i < nat (b + 1) - nat a" "nat a + i < length xs" "x = xs ! (nat a + i)"
      by (auto simp: in_set_conv_nth)
    then show "x \<in> {xs ! k | k. nat a \<le> k \<and> k \<le> nat b}" using assms
      by (intro CollectI exI[of _ "nat a + i"]) auto
  next
    fix x assume "x \<in> {xs ! k | k. nat a \<le> k \<and> k \<le> nat b}"
    then obtain k where k: "nat a \<le> k" "k \<le> nat b" "x = xs ! k" by auto
    then have "k < length xs" using assms by linarith
    with k assms show "x \<in> set (take (nat (b + 1) - nat a) (drop (nat a) xs))"
      by (auto simp: in_set_conv_nth intro!: exI[of _ "k - nat a"])
  qed
  moreover have "nat a \<le> k \<and> k \<le> nat b \<longleftrightarrow> a \<le> int k \<and> int k \<le> b" for k
    using assms by auto
  ultimately show ?thesis using assms by (simp add: go_slice_of_def)
qed

text \<open>One update, with the start found at \<open>s\<close>.\<close>

lemma UpdateVisualMark_range:
  assumes "mk_visualMarkMode mc" "visualStartIdx uids mc = s" "0 \<le> s"
    and "0 \<le> t" "t < int (length uids)"
  shows "\<exists>mc'. UpdateVisualMark uids t mc = Some mc'
    \<and> mc' = alloc_marked mc (mk_visualBase mc \<union> range_uids uids s t)"
proof -
  have s: "s < int (length uids)" using assms(2) find_idx_upper[of _ uids] by (metis visualStartIdx_def)
  show ?thesis
  proof (cases "t > s")
    case True
    then show ?thesis using set_go_slice_of[of s t uids] assms s
      by (auto simp: UpdateVisualMark_def range_uids_def)
  next
    case False
    then show ?thesis using set_go_slice_of[of t s uids] assms s
      by (auto simp: UpdateVisualMark_def range_uids_def)
  qed
qed

lemma visual_moves_range:
  assumes "mk_visualMarkMode mc" "visualStartIdx uids mc = s" "0 \<le> s"
    and "\<forall>t\<in>set ts. 0 \<le> t \<and> t < int (length uids)" "ts \<noteq> []" "marker_wf mc"
  shows "\<exists>mc'. visual_moves uids ts mc = Some mc' \<and> mk_visualMarkMode mc'
    \<and> marked_set mc' = mk_visualBase mc \<union> range_uids uids s (last ts)
    \<and> lastMarked_set mc' = lastMarked_set mc"
  using assms
proof (induction ts arbitrary: mc)
  case Nil
  then show ?case by simp
next
  case (Cons t ts)
  let ?mc = "alloc_marked mc (mk_visualBase mc \<union> range_uids uids s t)"
  from UpdateVisualMark_range[of mc uids s t] Cons.prems
  have step: "UpdateVisualMark uids t mc = Some ?mc" by auto
  show ?case
  proof (cases ts)
    case Nil
    then show ?thesis using step Cons.prems by simp
  next
    case (Cons t' ts')
    have "visualStartIdx uids ?mc = s" using Cons.prems(2) by (simp add: visualStartIdx_def)
    then show ?thesis using Cons.IH[of ?mc] Cons.prems step local.Cons by simp
  qed
qed

text \<open>The provider's contract: the selected index lies in the list, or is negative.\<close>

locale uid_provider =
  fixes Uids :: "'p \<Rightarrow> uid list" and SelectedIndex :: "'p \<Rightarrow> int"
  assumes selected_bound: "SelectedIndex p < int (length (Uids p))"
begin

lemma UpdateVisualMark_returns: "\<exists>mc'. UpdateVisualMark (Uids p) (SelectedIndex p) mc = Some mc'"
proof (cases "mk_visualMarkMode mc \<and> 0 \<le> visualStartIdx (Uids p) mc \<and> 0 \<le> SelectedIndex p")
  case True
  then show ?thesis
    using UpdateVisualMark_range[OF _ refl, of mc "Uids p" "SelectedIndex p"] selected_bound[of p]
    by blast
next
  case False
  then show ?thesis by (auto simp: UpdateVisualMark_def Let_def)
qed

lemma ToggleVisualMark_marks_selection:
  assumes "marker_wf mc" "\<not> mk_visualMarkMode mc" "0 \<le> SelectedIndex p"
  shows "IsMarked (ToggleVisualMark (Uids p) (SelectedIndex p) clear mc) (Uids p ! nat (SelectedIndex p))"
  using assms selected_bound[of p]
  by (simp add: ToggleVisualMark_def IsMarked_def Let_def)

end

subsection \<open>Properties\<close>

text \<open>
  C12. In a list of distinct UIDs, entering the visual mode at position \<open>s\<close> and moving the
  cursor through any positions marks, besides what was marked on entry (nothing when the
  marks are cleared), exactly the messages between \<open>s\<close> and the last position: the path
  taken does not matter.  The marks that were cleared are the ones \<open>Remark\<close> restores.
\<close>

theorem visual_mark_range:
  assumes "marker_wf mc" "\<not> IsVisualMark mc" "distinct uids"
    and "0 \<le> s" "s < int (length uids)"
    and "ts \<noteq> []" "\<forall>t\<in>set ts. 0 \<le> t \<and> t < int (length uids)"
  shows "\<exists>mc'. visual_moves uids ts (ToggleVisualMark uids s clear mc) = Some mc'
    \<and> IsVisualMark mc'
    \<and> marked_set mc' = (if clear then {} else marked_set mc) \<union> {uids ! nat s} \<union> range_uids uids s (last ts)
    \<and> (clear \<longrightarrow> marked_set (Remark mc') = marked_set mc)"
proof -
  let ?t = "ToggleVisualMark uids s clear mc"
  have t: "mk_visualMarkMode ?t" "mk_visualStartUID ?t = uids ! nat s" "marker_wf ?t"
      "mk_visualBase ?t = insert (uids ! nat s) (if clear then {} else marked_set mc)"
    using assms by (auto simp: ToggleVisualMark_def IsVisualMark_def Let_def)
  have last: "lastMarked_set ?t = marked_set mc" if clear
    using that assms last_reset[of "mc\<lparr>mk_visualMarkMode := True\<rparr>"]
    by (simp add: ToggleVisualMark_def IsVisualMark_def Let_def)
       (simp add: resetMark_def marker_wf_def lastMarked_set_def marked_set_def write_marked_def
        alloc_marked_def nth_append)
  have "visualStartIdx uids ?t = int (nat s)"
    unfolding visualStartIdx_def t(2) using assms(3-5) by (intro find_idx_distinct) auto
  then have "visualStartIdx uids ?t = s" using assms(4) by simp
  from visual_moves_range[OF t(1) this assms(4,7,6) t(3)] obtain mc' where
    "visual_moves uids ts ?t = Some mc'" "mk_visualMarkMode mc'"
    "marked_set mc' = mk_visualBase ?t \<union> range_uids uids s (last ts)"
    "lastMarked_set mc' = lastMarked_set ?t" by blast
  then show ?thesis using t last
    by (auto simp: IsVisualMark_def Remark_def marked_set_def lastMarked_set_def)
qed

lemma visual_mark_range_witness:
  "\<exists>mc'. visual_moves [''a'', ''b'', ''c'', ''d''] [3, 0] (ToggleVisualMark [''a'', ''b'', ''c'', ''d''] 1 True
       (Mark ''d'' marker_New)) = Some mc'
     \<and> marked_set mc' = {''a'', ''b''} \<and> marked_set (Remark mc') = {''d''}"
proof -
  have ab: "{''b''} \<union> range_uids [''a'', ''b'', ''c'', ''d''] 1 0 = {''a'', ''b''}"
  proof -
    have "min 1 0 \<le> int k \<and> int k \<le> max 1 0 \<longleftrightarrow> k = 0 \<or> k = 1" for k by auto
    then have "range_uids xs 1 0 = {xs ! k | k. k = 0 \<or> k = 1}" for xs
      unfolding range_uids_def by (simp only:)
    moreover have "{xs ! k | k. k = 0 \<or> k = 1} = {xs ! 0, xs ! 1}" for xs :: "uid list"
      by auto
    ultimately have r: "range_uids xs 1 0 = {xs ! 0, xs ! 1}" for xs by simp
    have e: "[''a'', ''b'', ''c'', ''d''] ! 0 = ''a''" "[''a'', ''b'', ''c'', ''d''] ! 1 = ''b''"
      by simp_all
    show ?thesis unfolding r e by blast
  qed
  let ?u = "[''a'', ''b'', ''c'', ''d'']" and ?m = "Mark ''d'' marker_New"
  have m: "marker_wf ?m" "\<not> IsVisualMark ?m" "marked_set ?m = {''d''}"
    by (simp_all add: Mark_def marker_New_def marker_wf_def IsVisualMark_def write_marked_def marked_set_def)
  have d: "distinct ?u" "(0::int) \<le> 1" "(1::int) < int (length ?u)" "[3, 0::int] \<noteq> []"
    "\<forall>t\<in>set [3, 0]. 0 \<le> t \<and> t < int (length ?u)"
    by simp_all
  from visual_mark_range[OF m(1,2) d, of True] obtain mc' where
    "visual_moves ?u [3, 0] (ToggleVisualMark ?u 1 True ?m) = Some mc'"
    "marked_set mc' = {} \<union> {?u ! nat 1} \<union> range_uids ?u 1 (last [3, 0])"
    "marked_set (Remark mc') = marked_set ?m" by metis
  then show ?thesis using ab m(3) by (intro exI[of _ mc']) simp
qed

text \<open>The marking operations outside the visual mode.\<close>

datatype mark_op = OpMark uid | OpUnmark uid | OpToggle uid

fun mark_ops :: "mark_op list \<Rightarrow> marker \<Rightarrow> marker" where
  "mark_ops [] mc = mc"
| "mark_ops (OpMark u # ops) mc = mark_ops ops (Mark u mc)"
| "mark_ops (OpUnmark u # ops) mc = mark_ops ops (Unmark u mc)"
| "mark_ops (OpToggle u # ops) mc = mark_ops ops (ToggleMark u mc)"

lemma mark_ops_last:
  assumes "marker_wf mc" "\<not> mk_visualMarkMode mc" "mk_marked mc \<noteq> mk_lastMarked mc"
  shows "lastMarked_set (mark_ops ops mc) = lastMarked_set mc"
  using assms
  by (induction ops mc rule: mark_ops.induct) (auto simp: Mark_def Unmark_def ToggleMark_def)

text \<open>
  What clearing the marks set aside comes back: whatever is marked, unmarked or toggled
  after \<open>ClearVisualMark\<close>, \<open>Remark\<close> restores the marks as they were before the clearing.
\<close>

lemma Remark_restores:
  assumes "marker_wf mc"
  shows "marked_set (Remark (mark_ops ops (ClearVisualMark mc))) = marked_set mc"
proof -
  have "lastMarked_set (mark_ops ops (ClearVisualMark mc)) = lastMarked_set (ClearVisualMark mc)"
    using assms by (intro mark_ops_last)
      (auto simp: ClearVisualMark_def resetMark_def alloc_marked_def marker_wf_def)
  also have "\<dots> = marked_set mc"
    using assms last_reset[OF assms] by (simp add: ClearVisualMark_def lastMarked_set_def)
  finally show ?thesis by (simp add: Remark_def marked_set_def lastMarked_set_def)
qed

lemma Remark_restores_witness:
  "marked_set (Remark (mark_ops [OpMark ''x'', OpToggle ''y'', OpUnmark ''x'']
      (ClearVisualMark (Mark ''a'' marker_New)))) = {''a''}"
proof -
  have "marker_wf (Mark ''a'' marker_New)" "marked_set (Mark ''a'' marker_New) = {''a''}"
    by (simp_all add: Mark_def marker_New_def marker_wf_def write_marked_def marked_set_def)
  then show ?thesis
    using Remark_restores[of "Mark ''a'' marker_New" "[OpMark ''x'', OpToggle ''y'', OpUnmark ''x'']"]
    by simp
qed

text \<open>
  A restored set is not set aside again: after \<open>Remark\<close> the two maps are one, so a
  message unmarked then is missing from every later \<open>Remark\<close>.
\<close>

lemma Remark_shares_map:
  assumes "marker_wf mc" "\<not> IsVisualMark mc"
  shows "marked_set (Remark (Unmark u (Remark mc))) = lastMarked_set mc - {u}"
  using assms
  by (simp add: Remark_def Unmark_def IsVisualMark_def write_marked_def marked_set_def
      lastMarked_set_def marker_wf_def)

lemma Remark_shares_map_witness:
  "marked_set (Remark (Unmark ''a'' (Remark (ClearVisualMark (Mark ''a'' marker_New))))) = {}"
proof -
  let ?m = "ClearVisualMark (Mark ''a'' marker_New)"
  have "marker_wf ?m" "\<not> IsVisualMark ?m" "lastMarked_set ?m = {''a''}"
    by (simp_all add: Mark_def marker_New_def marker_wf_def write_marked_def marked_set_def
      ClearVisualMark_def IsVisualMark_def resetMark_def alloc_marked_def lastMarked_set_def)
  then show ?thesis using Remark_shares_map[of ?m "''a''"] by simp
qed

end
