(* ===== verification/Tabs.thy ===== *)
theory Tabs
  imports Prelude
begin

text \<open>
  \<open>lib/ui/tab.go\<close>: the open tabs, the selected one, the selection history and the pinned
  tabs.  A \<open>*Tab\<close> is a record with its address \<open>tab_id\<close>; the history holds addresses,
  since the code only compares its entries as pointers.  \<open>curIndex\<close> is only assigned
  indices that have been checked, never a negative one, and is a \<open>nat\<close>.  The calls of
  \<open>Show\<close> and \<open>Focus\<close> on the contents are recorded in the sets of shown and focused
  contents.  A panic (no tab to index) is \<open>None\<close>.
\<close>

record drawable =
  dr_id :: nat
  dr_Visible :: bool
  dr_Focusable :: bool

record tab =
  tab_id :: nat
  tab_Content :: drawable
  tab_Name :: string
  tab_pinned :: bool
  tab_indexBeforePin :: int
  tab_title :: string

record tabs =
  ts_tabs :: "tab list"
  ts_curIndex :: nat
  ts_history :: "nat list"
  ts_next :: nat
  ts_shown :: "nat set"
  ts_focused :: "nat set"

definition SetTitle :: "string \<Rightarrow> tab \<Rightarrow> tab" where
  "SetTitle s t = t\<lparr>tab_title := s\<rparr>"

definition displayName :: "tab \<Rightarrow> string \<Rightarrow> string" where
  "displayName t pinMarker =
     (let name = (if tab_title t \<noteq> [] then tab_title t else tab_Name t)
      in if tab_pinned t then pinMarker @ name else name)"

definition NewTabs :: tabs where
  "NewTabs = \<lparr>ts_tabs = [], ts_curIndex = 0, ts_history = [], ts_next = 0,
     ts_shown = {}, ts_focused = {}\<rparr>"

text \<open>\<open>if vis, ok := content.(Visible); ok { vis.Show(b) }\<close>, and the same for \<open>Focus\<close>.\<close>

definition show_content :: "drawable \<Rightarrow> bool \<Rightarrow> tabs \<Rightarrow> tabs" where
  "show_content c b t =
     (let t = (if dr_Visible c
               then t\<lparr>ts_shown := (if b then insert (dr_id c) (ts_shown t) else ts_shown t - {dr_id c})\<rparr>
               else t)
      in if dr_Focusable c
         then t\<lparr>ts_focused := (if b then insert (dr_id c) (ts_focused t) else ts_focused t - {dr_id c})\<rparr>
         else t)"

definition maxHistory :: nat where "maxHistory = 256"

definition pushHistory :: "tab \<Rightarrow> tabs \<Rightarrow> tabs" where
  "pushHistory tb t =
     (let h = ts_history t @ [tab_id tb]
      in t\<lparr>ts_history := (if length h > maxHistory then tl h else h)\<rparr>)"

definition popHistory :: "tabs \<Rightarrow> tabs \<times> int \<times> bool" where
  "popHistory t =
     (if ts_history t = [] then (t, -1, False)
      else
        (let tb = last (ts_history t);
             t' = t\<lparr>ts_history := butlast (ts_history t)\<rparr>;
             index = find_idx (\<lambda>x. tab_id x = tb) (ts_tabs t')
         in if index = -1 then (t', -1, False) else (t', index, True)))"

definition removeHistory :: "tab \<Rightarrow> tabs \<Rightarrow> tabs" where
  "removeHistory tb t = t\<lparr>ts_history := filter (\<lambda>item. item \<noteq> tab_id tb) (ts_history t)\<rparr>"

definition selectPriv :: "int \<Rightarrow> bool \<Rightarrow> tabs \<Rightarrow> tabs \<times> bool" where
  "selectPriv index unselectPrev t =
     (if index < 0 \<or> index \<ge> int (length (ts_tabs t)) then (t, False)
      else
        (let t = (if unselectPrev \<and> ts_curIndex t < length (ts_tabs t) then
                    (let prev = ts_tabs t ! ts_curIndex t
                     in pushHistory prev (show_content (tab_Content prev) False t))
                  else t);
             nxt = ts_tabs t ! nat index;
             t = show_content (tab_Content nxt) True t
         in (t\<lparr>ts_curIndex := nat index\<rparr>, True)))"

definition Add :: "drawable \<Rightarrow> string \<Rightarrow> bool \<Rightarrow> tabs \<Rightarrow> tabs" where
  "Add content name background t =
     (let tb = \<lparr>tab_id = ts_next t, tab_Content = content, tab_Name = name, tab_pinned = False,
                tab_indexBeforePin = 0, tab_title = []\<rparr>;
          t = t\<lparr>ts_tabs := ts_tabs t @ [tb], ts_next := Suc (ts_next t)\<rparr>
      in if \<not> background then fst (selectPriv (int (length (ts_tabs t)) - 1) True t) else t)"

definition Names :: "tabs \<Rightarrow> string list" where
  "Names t = map tab_Name (ts_tabs t)"

definition Remove :: "drawable \<Rightarrow> tabs \<Rightarrow> tabs" where
  "Remove content t =
     (let index = find_idx (\<lambda>tb. tab_Content tb = content) (ts_tabs t)
      in if index = -1 then t
         else
           (let tb = ts_tabs t ! nat index;
                t = show_content (tab_Content tb) False t;
                t = t\<lparr>ts_tabs := slice_delete (ts_tabs t) (nat index)\<rparr>;
                t = removeHistory tb t
            in if index = int (ts_curIndex t) then
                 (case popHistory t of (t, prevIndex, ok) \<Rightarrow>
                   (let prevIndex =
                          (if \<not> ok then
                             (if ts_curIndex t < length (ts_tabs t) then int (ts_curIndex t)
                              else int (length (ts_tabs t)) - 1)
                           else prevIndex)
                    in fst (selectPriv prevIndex False t)))
               else if index < int (ts_curIndex t) then
                 fst (selectPriv (int (ts_curIndex t) - 1) False t)
               else t))"

definition Replace :: "drawable \<Rightarrow> drawable \<Rightarrow> string \<Rightarrow> tabs \<Rightarrow> tabs" where
  "Replace src target name t =
     (let i = find_idx (\<lambda>tb. tab_Content tb = src) (ts_tabs t)
      in if i = -1 then t
         else
           (let tb = ts_tabs t ! nat i;
                t = show_content (tab_Content tb) False t;
                t = t\<lparr>ts_tabs := (ts_tabs t)[nat i := tb\<lparr>tab_Content := target, tab_title := name\<rparr>]\<rparr>
            in fst (selectPriv i False t)))"

definition Get :: "int \<Rightarrow> tabs \<Rightarrow> tab option" where
  "Get index t =
     (if index < 0 \<or> index \<ge> int (length (ts_tabs t)) then None else Some (ts_tabs t ! nat index))"

definition Selected :: "tabs \<Rightarrow> tab option" where
  "Selected t = (if ts_curIndex t \<ge> length (ts_tabs t) then None else Some (ts_tabs t ! ts_curIndex t))"

definition Select :: "int \<Rightarrow> tabs \<Rightarrow> tabs \<times> bool" where
  "Select index t = selectPriv index True t"

definition SelectName :: "string \<Rightarrow> tabs \<Rightarrow> tabs \<times> bool" where
  "SelectName name t =
     (let i = find_idx (\<lambda>tb. tab_Name tb = name) (ts_tabs t)
      in if i = -1 then (t, False) else selectPriv i True t)"

definition SelectPrevious :: "tabs \<Rightarrow> tabs \<times> bool" where
  "SelectPrevious t =
     (case popHistory t of (t, index, ok) \<Rightarrow> if \<not> ok then (t, False) else selectPriv index True t)"

text \<open>Go's \<open>%\<close> truncates towards zero; a zero divisor panics.\<close>

definition go_rem :: "int \<Rightarrow> int \<Rightarrow> int" where
  "go_rem a b = (if a < 0 then - ((- a) mod abs b) else a mod abs b)"

definition SelectOffset :: "int \<Rightarrow> tabs \<Rightarrow> tabs option" where
  "SelectOffset offset t =
     (let tabCount = int (length (ts_tabs t))
      in if tabCount = 0 then None
         else (let newIndex = go_rem (int (ts_curIndex t) + offset) tabCount;
                   newIndex = (if newIndex < 0 then newIndex + tabCount else newIndex)
               in Some (fst (selectPriv newIndex True t))))"

definition move_target :: "int \<Rightarrow> bool \<Rightarrow> tabs \<Rightarrow> int" where
  "move_target to0 relative t =
     (let to1 = (if relative then int (ts_curIndex t) + to0 else to0);
          to2 = (if to1 < 0 then 0 else to1)
      in if to2 \<ge> int (length (ts_tabs t)) then int (length (ts_tabs t)) - 1 else to2)"

definition moveTabPriv :: "int \<Rightarrow> bool \<Rightarrow> tabs \<Rightarrow> tabs option" where
  "moveTabPriv to0 relative t =
     (let from = ts_curIndex t; to = move_target to0 relative t
      in if to < 0 \<or> from \<ge> length (ts_tabs t) then None
         else Some (t\<lparr>ts_tabs := (ts_tabs t)[from := ts_tabs t ! nat to, nat to := ts_tabs t ! from],
                      ts_curIndex := nat to\<rparr>))"

definition pin_end :: "tab list \<Rightarrow> nat" where
  "pin_end xs = (let i = find_idx (\<lambda>tb. \<not> tab_pinned tb) xs in if i < 0 then length xs else nat i)"

definition PinTab :: "tabs \<Rightarrow> tabs option" where
  "PinTab t =
     (if ts_curIndex t \<ge> length (ts_tabs t) then None
      else if tab_pinned (ts_tabs t ! ts_curIndex t) then Some t
      else
        (let cur = ts_curIndex t;
             pinEnd = pin_end (ts_tabs t);
             ts = map (\<lambda>tb. if tab_pinned tb \<and> tab_indexBeforePin tb > int cur - int pinEnd
                             then tb\<lparr>tab_indexBeforePin := tab_indexBeforePin tb - 1\<rparr> else tb) (ts_tabs t);
             ts = ts[cur := (ts ! cur)\<lparr>tab_pinned := True, tab_indexBeforePin := int cur - int pinEnd\<rparr>]
         in moveTabPriv (int pinEnd) False (t\<lparr>ts_tabs := ts\<rparr>)))"

text \<open>
  The loop of \<open>UnpinTab\<close>: it shifts the positions remembered by the pinned tabs it walks
  over and stops at the first tab that is not pinned.
\<close>

fun unpin_shift :: "nat \<Rightarrow> int \<Rightarrow> nat \<Rightarrow> tab list \<Rightarrow> tab list" where
  "unpin_shift cur before i [] = []"
| "unpin_shift cur before i (tb # ts) =
     (let tb' = (if i \<noteq> cur \<and> tab_pinned tb \<and> tab_indexBeforePin tb > before
                 then tb\<lparr>tab_indexBeforePin := tab_indexBeforePin tb + 1\<rparr> else tb)
      in if \<not> tab_pinned tb then tb' # ts else tb' # unpin_shift cur before (Suc i) ts)"

definition UnpinTab :: "tabs \<Rightarrow> tabs option" where
  "UnpinTab t =
     (if ts_curIndex t \<ge> length (ts_tabs t) then None
      else if \<not> tab_pinned (ts_tabs t ! ts_curIndex t) then Some t
      else
        (let cur = ts_curIndex t;
             before = tab_indexBeforePin (ts_tabs t ! cur);
             pinEnd = pin_end (ts_tabs t);
             ts = unpin_shift cur before 0 (ts_tabs t);
             ts = ts[cur := (ts ! cur)\<lparr>tab_pinned := False\<rparr>]
         in moveTabPriv (tab_indexBeforePin (ts ! cur) + int pinEnd - 1) False (t\<lparr>ts_tabs := ts\<rparr>)))"

definition NextTab :: "tabs \<Rightarrow> tabs" where
  "NextTab t =
     (let nxt = ts_curIndex t + 1;
          nxt = (if nxt \<ge> length (ts_tabs t) then 0 else nxt)
      in fst (selectPriv (int nxt) True t))"

definition PrevTab :: "tabs \<Rightarrow> tabs" where
  "PrevTab t =
     (let nxt = int (ts_curIndex t) - 1;
          nxt = (if nxt < 0 then int (length (ts_tabs t)) - 1 else nxt)
      in fst (selectPriv nxt True t))"

text \<open>
  The tab strip under the mouse.  \<open>width\<close> is the number of cells of a tab's truncated name
  (third-party \<open>runewidth\<close>), \<open>closeTab\<close> the callback the application installs.
\<close>

fun strip_clicked :: "(tab \<Rightarrow> int) \<Rightarrow> tab list \<Rightarrow> int \<Rightarrow> int \<Rightarrow> nat \<Rightarrow> nat option" where
  "strip_clicked width [] mouseX x i = None"
| "strip_clicked width (tb # ts) mouseX x i =
     (let len = width tb + 2
      in if x \<le> mouseX \<and> mouseX < x + len then Some i
         else strip_clicked width ts mouseX (x + len) (Suc i))"

datatype mouse_button = MouseLeft | MouseMiddle | MouseWheelDown | MouseWheelUp | MouseOther

definition change_focus :: "bool \<Rightarrow> tabs \<Rightarrow> tabs option" where
  "change_focus b t =
     (if ts_curIndex t \<ge> length (ts_tabs t) then None
      else (let c = tab_Content (ts_tabs t ! ts_curIndex t)
            in Some (if dr_Focusable c
                     then t\<lparr>ts_focused := (if b then insert (dr_id c) (ts_focused t)
                                           else ts_focused t - {dr_id c})\<rparr>
                     else t)))"

definition strip_MouseEvent ::
  "(tab \<Rightarrow> int) \<Rightarrow> (nat \<Rightarrow> tabs \<Rightarrow> tabs option) \<Rightarrow> mouse_button \<Rightarrow> int \<Rightarrow> tabs \<Rightarrow> tabs option" where
  "strip_MouseEvent width closeTab button localX t =
     (case button of
        MouseLeft \<Rightarrow>
          (case strip_clicked width (ts_tabs t) localX 0 0 of
             None \<Rightarrow> Some t
           | Some sel \<Rightarrow>
               if sel = ts_curIndex t then Some t
               else (case change_focus False t of None \<Rightarrow> None
                     | Some t \<Rightarrow> change_focus True (fst (selectPriv (int sel) True t))))
      | MouseWheelDown \<Rightarrow>
          (case change_focus False t of None \<Rightarrow> None | Some t \<Rightarrow> change_focus True (NextTab t))
      | MouseWheelUp \<Rightarrow>
          (case change_focus False t of None \<Rightarrow> None | Some t \<Rightarrow> change_focus True (PrevTab t))
      | MouseMiddle \<Rightarrow>
          (case strip_clicked width (ts_tabs t) localX 0 0 of
             None \<Rightarrow> Some t
           | Some sel \<Rightarrow>
               (case change_focus False t of None \<Rightarrow> None
                | Some t \<Rightarrow> (case closeTab sel t of None \<Rightarrow> None | Some t \<Rightarrow> change_focus True t)))
      | MouseOther \<Rightarrow> Some t)"

subsection \<open>The invariant\<close>

text \<open>
  \<open>tabs_base\<close> is what holds at every point of an operation: the addresses of the open
  tabs are distinct and allocated, the history only holds open tabs and is bounded.
  Between operations the selected index is in range (or 0 when there is no tab).
\<close>

definition tab_ids :: "tabs \<Rightarrow> nat list" where
  "tab_ids t = map tab_id (ts_tabs t)"

definition tabs_base :: "tabs \<Rightarrow> bool" where
  "tabs_base t \<longleftrightarrow> distinct (tab_ids t) \<and> (\<forall>i\<in>set (tab_ids t). i < ts_next t)
     \<and> set (ts_history t) \<subseteq> set (tab_ids t) \<and> length (ts_history t) \<le> maxHistory"

definition tabs_wf :: "tabs \<Rightarrow> bool" where
  "tabs_wf t \<longleftrightarrow> tabs_base t \<and>
     (if ts_tabs t = [] then ts_curIndex t = 0 else ts_curIndex t < length (ts_tabs t))"

lemma show_content_fields [simp]:
  "ts_tabs (show_content c b t) = ts_tabs t"
  "ts_curIndex (show_content c b t) = ts_curIndex t"
  "ts_history (show_content c b t) = ts_history t"
  "ts_next (show_content c b t) = ts_next t"
  "tab_ids (show_content c b t) = tab_ids t"
  "tabs_base (show_content c b t) = tabs_base t"
  by (simp_all add: show_content_def Let_def tabs_base_def tab_ids_def)

lemma tabs_base_push:
  assumes "tabs_base t" "tab_id tb \<in> set (tab_ids t)"
  shows "tabs_base (pushHistory tb t)"
proof -
  have "set (tl (ts_history t @ [tab_id tb])) \<subseteq> set (ts_history t @ [tab_id tb])"
    by (cases "ts_history t") auto
  then show ?thesis
    using assms unfolding tabs_base_def pushHistory_def tab_ids_def Let_def by auto
qed

lemma pushHistory_fields [simp]:
  "ts_tabs (pushHistory tb t) = ts_tabs t" "ts_curIndex (pushHistory tb t) = ts_curIndex t"
  "ts_next (pushHistory tb t) = ts_next t" "ts_shown (pushHistory tb t) = ts_shown t"
  "ts_focused (pushHistory tb t) = ts_focused t"
  by (simp_all add: pushHistory_def Let_def)

lemma selectPriv_tabs [simp]:
  "ts_tabs (fst (selectPriv i b t)) = ts_tabs t" "ts_next (fst (selectPriv i b t)) = ts_next t"
  "tab_ids (fst (selectPriv i b t)) = tab_ids t"
  by (simp_all add: selectPriv_def Let_def tab_ids_def)

lemma selectPriv_base:
  assumes "tabs_base t"
  shows "tabs_base (fst (selectPriv i b t))"
proof -
  have cur: "tabs_base (t\<lparr>ts_curIndex := k\<rparr>) = tabs_base t" for k t
    by (simp add: tabs_base_def tab_ids_def)
  show ?thesis using assms
    by (auto simp: selectPriv_def Let_def cur tab_ids_def intro!: tabs_base_push)
qed

lemma selectPriv_cur:
  "ts_curIndex (fst (selectPriv i b t)) =
     (if 0 \<le> i \<and> i < int (length (ts_tabs t)) then nat i else ts_curIndex t)"
  by (simp add: selectPriv_def Let_def)

lemma selectPriv_wf: "tabs_wf t \<Longrightarrow> tabs_wf (fst (selectPriv i b t))"
  by (auto simp: tabs_wf_def selectPriv_base selectPriv_cur)

lemma popHistory_tabs [simp]:
  "ts_tabs (fst (popHistory t)) = ts_tabs t" "ts_curIndex (fst (popHistory t)) = ts_curIndex t"
  "tab_ids (fst (popHistory t)) = tab_ids t" "ts_next (fst (popHistory t)) = ts_next t"
  "ts_shown (fst (popHistory t)) = ts_shown t" "ts_focused (fst (popHistory t)) = ts_focused t"
  by (simp_all add: popHistory_def Let_def tab_ids_def)

lemma popHistory_base: "tabs_base t \<Longrightarrow> tabs_base (fst (popHistory t))"
  by (auto simp: popHistory_def Let_def tabs_base_def tab_ids_def dest: in_set_butlastD)

text \<open>Every entry of the history is found.\<close>

lemma popHistory_found:
  assumes "tabs_base t" "ts_history t \<noteq> []"
  shows "\<exists>i < length (ts_tabs t). tab_id (ts_tabs t ! i) = last (ts_history t)
    \<and> popHistory t = (t\<lparr>ts_history := butlast (ts_history t)\<rparr>, int i, True)"
proof -
  let ?P = "\<lambda>x. tab_id x = last (ts_history t)"
  let ?r = "find_idx ?P (ts_tabs t)"
  have "last (ts_history t) \<in> set (tab_ids t)"
    using assms last_in_set by (auto simp: tabs_base_def)
  then have r: "0 \<le> ?r" by (auto simp: find_idx_nonneg_iff tab_ids_def)
  then have "?P (ts_tabs t ! nat ?r)" by (rule find_idx_hit)
  moreover have "nat ?r < length (ts_tabs t)" using r find_idx_upper by (metis nat_less_iff)
  ultimately show ?thesis
    using assms(2) r by (intro exI[of _ "nat ?r"]) (simp add: popHistory_def Let_def)
qed

lemma tab_ids_index:
  assumes "distinct (tab_ids t)" "i < length (ts_tabs t)"
  shows "find_idx (\<lambda>x. tab_id x = tab_id (ts_tabs t ! i)) (ts_tabs t) = int i"
proof -
  let ?P = "\<lambda>x. tab_id x = tab_id (ts_tabs t ! i)"
  let ?r = "find_idx ?P (ts_tabs t)"
  have r: "0 \<le> ?r" using assms(2) by (auto simp: find_idx_nonneg_iff)
  then have "?P (ts_tabs t ! nat ?r)" by (rule find_idx_hit)
  moreover have lr: "nat ?r < length (ts_tabs t)" using r find_idx_upper by (metis nat_less_iff)
  ultimately have "tab_ids t ! nat ?r = tab_ids t ! i" using assms(2) by (simp add: tab_ids_def)
  then have "nat ?r = i"
    using nth_eq_iff_index_eq[OF assms(1), of "nat ?r" i] lr assms(2) by (simp add: tab_ids_def)
  with r show ?thesis by simp
qed

lemma popHistory_fail: "ts_history t = [] \<Longrightarrow> popHistory t = (t, -1, False)"
  by (simp add: popHistory_def)

subsection \<open>Every operation keeps the invariant\<close>

lemma Add_wf: "tabs_wf t \<Longrightarrow> tabs_wf (Add c n b t)"
proof -
  assume wf: "tabs_wf t"
  let ?tb = "\<lparr>tab_id = ts_next t, tab_Content = c, tab_Name = n, tab_pinned = False,
                tab_indexBeforePin = 0, tab_title = []\<rparr>"
  have "tabs_wf (t\<lparr>ts_tabs := ts_tabs t @ [?tb], ts_next := Suc (ts_next t)\<rparr>)"
    using wf by (auto simp: tabs_wf_def tabs_base_def tab_ids_def split: if_splits)
  then show ?thesis by (simp add: Add_def Let_def selectPriv_wf)
qed

lemma find_content_range:
  "find_idx P (ts_tabs t) \<noteq> -1 \<Longrightarrow> 0 \<le> find_idx P (ts_tabs t) \<and> nat (find_idx P (ts_tabs t)) < length (ts_tabs t)"
  using find_idx_lower[of P "ts_tabs t"] find_idx_upper[of P "ts_tabs t"] by linarith

text \<open>The state of \<open>Remove\<close> once the tab at \<open>i\<close> is out of the list and of the history.\<close>

definition removed :: "nat \<Rightarrow> tabs \<Rightarrow> tabs" where
  "removed i t = removeHistory (ts_tabs t ! i)
     ((show_content (tab_Content (ts_tabs t ! i)) False t)\<lparr>ts_tabs := slice_delete (ts_tabs t) i\<rparr>)"

lemma removed_fields [simp]:
  "ts_tabs (removed i t) = slice_delete (ts_tabs t) i"
  "ts_curIndex (removed i t) = ts_curIndex t"
  "ts_history (removed i t) = filter (\<lambda>x. x \<noteq> tab_id (ts_tabs t ! i)) (ts_history t)"
  by (simp_all add: removed_def removeHistory_def)

lemma removed_base:
  assumes "tabs_base t" "i < length (ts_tabs t)"
  shows "tabs_base (removed i t)"
proof -
  have ids: "tab_ids (removed i t) = slice_delete (tab_ids t) i"
    by (simp add: tab_ids_def slice_delete_def take_map drop_map)
  have i: "i < length (tab_ids t)" "tab_ids t ! i = tab_id (ts_tabs t ! i)"
    using assms(2) by (simp_all add: tab_ids_def)
  have d: "distinct (tab_ids t)" using assms(1) by (simp add: tabs_base_def)
  have "ts_next (removed i t) = ts_next t" by (simp add: removed_def removeHistory_def)
  then show ?thesis
    using distinct_slice_delete[OF d i(1)] assms(1) i(2)
    by (auto simp: tabs_base_def ids intro: order_trans[OF length_filter_le])
qed

lemma Remove_eq:
  "Remove content t =
     (let index = find_idx (\<lambda>tb. tab_Content tb = content) (ts_tabs t); i = nat index; r = removed i t
      in if index = -1 then t
         else if i = ts_curIndex t then
           (case popHistory r of (r, prevIndex, ok) \<Rightarrow>
              fst (selectPriv (if \<not> ok then (if ts_curIndex r < length (ts_tabs r) then int (ts_curIndex r)
                               else int (length (ts_tabs r)) - 1) else prevIndex) False r))
         else if i < ts_curIndex t then fst (selectPriv (int (ts_curIndex t) - 1) False r)
         else r)"
proof (cases "find_idx (\<lambda>tb. tab_Content tb = content) (ts_tabs t) = -1")
  case True
  then show ?thesis by (simp add: Remove_def)
next
  case False
  then obtain i where i: "find_idx (\<lambda>tb. tab_Content tb = content) (ts_tabs t) = int i"
    using find_content_range nat_eq_iff2 by metis
  have r: "removeHistory (ts_tabs t ! i)
     ((show_content (tab_Content (ts_tabs t ! i)) False t)\<lparr>ts_tabs := slice_delete (ts_tabs t) i\<rparr>) = removed i t"
    by (simp add: removed_def)
  show ?thesis unfolding Remove_def Let_def i show_content_fields nat_int r
    by (simp add: int_eq_iff)
qed

lemma Remove_wf:
  assumes wf: "tabs_wf t"
  shows "tabs_wf (Remove content t)"
proof -
  let ?x = "find_idx (\<lambda>tb. tab_Content tb = content) (ts_tabs t)"
  define i where "i = nat ?x"
  define r where "r = removed i t"
  note eq = Remove_eq[of content t, unfolded Let_def, folded i_def, folded r_def]
  show ?thesis
  proof (cases "?x = -1")
    case True
    then show ?thesis using wf by (simp add: eq)
  next
    case False
    then have i: "i < length (ts_tabs t)" unfolding i_def using find_content_range by blast
    then have cur: "ts_curIndex t < length (ts_tabs t)" using wf by (auto simp: tabs_wf_def split: if_splits)
    have base: "tabs_base r" using wf i by (simp add: r_def tabs_wf_def removed_base)
    have len: "length (ts_tabs r) = length (ts_tabs t) - 1" "ts_curIndex r = ts_curIndex t"
      using i by (simp_all add: r_def)
    have sel: "tabs_wf (fst (selectPriv k False u))"
      if "tabs_base u" "0 \<le> k" "k < int (length (ts_tabs u))" for k u
      using that selectPriv_base[of u k False] by (auto simp: tabs_wf_def selectPriv_cur)
    consider "i = ts_curIndex t" "ts_history r = []" | "i = ts_curIndex t" "ts_history r \<noteq> []"
      | "i < ts_curIndex t" | "ts_curIndex t < i"
      by linarith
    then show ?thesis
    proof cases
      case 1
      show ?thesis
      proof (cases "length (ts_tabs r) = 0")
        case True
        then have "ts_curIndex t = 0" using cur len by linarith
        then show ?thesis
          using 1 False True base len by (simp add: eq popHistory_fail selectPriv_def tabs_wf_def)
      next
        case nonempty: False
        then show ?thesis using 1 False len(2)
          by (auto simp: eq popHistory_fail intro!: sel[OF base])
      qed
    next
      case 2
      obtain k where k: "k < length (ts_tabs r)"
        "popHistory r = (r\<lparr>ts_history := butlast (ts_history r)\<rparr>, int k, True)"
        using popHistory_found[OF base 2(2)] by blast
      have "tabs_base (r\<lparr>ts_history := butlast (ts_history r)\<rparr>)"
        using popHistory_base[OF base] by (simp add: k(2))
      from sel[OF this, of "int k"] k show ?thesis using 2 False by (simp add: eq)
    next
      case 3
      then show ?thesis
        using sel[OF base, of "int (ts_curIndex t) - 1"] cur len False by (simp add: eq)
    next
      case 4
      then have "ts_curIndex t < length (ts_tabs r)" using i len by linarith
      then have "tabs_wf r" using base len(2) by (auto simp: tabs_wf_def)
      then show ?thesis using 4 False by (simp add: eq)
    qed
  qed
qed

lemma tabs_wf_update_tab:
  assumes "tabs_wf t" "i < length (ts_tabs t)" "tab_id tb = tab_id (ts_tabs t ! i)"
  shows "tabs_wf (t\<lparr>ts_tabs := (ts_tabs t)[i := tb]\<rparr>)"
proof -
  have "map tab_id ((ts_tabs t)[i := tb]) = map tab_id (ts_tabs t)"
    using assms(2,3) by (simp add: map_update list_update_same_conv)
  then show ?thesis using assms(1) by (auto simp: tabs_wf_def tabs_base_def tab_ids_def)
qed

lemma tabs_wf_show [simp]: "tabs_wf (show_content c b t) = tabs_wf t"
  by (simp add: tabs_wf_def)

lemma Replace_wf: "tabs_wf t \<Longrightarrow> tabs_wf (Replace a b n t)"
proof -
  assume wf: "tabs_wf t"
  let ?x = "find_idx (\<lambda>tb. tab_Content tb = a) (ts_tabs t)"
  show ?thesis
  proof (cases "?x = -1")
    case True
    then show ?thesis using wf by (simp add: Replace_def)
  next
    case False
    then have "nat ?x < length (ts_tabs t)" using find_content_range by blast
    then show ?thesis
      using tabs_wf_update_tab[of "show_content (tab_Content (ts_tabs t ! nat ?x)) False t" "nat ?x"] wf False
      by (simp add: Replace_def Let_def selectPriv_wf)
  qed
qed

lemma tabs_wf_map_tabs:
  assumes "tabs_wf t" "map tab_id ts = map tab_id (ts_tabs t)"
  shows "tabs_wf (t\<lparr>ts_tabs := ts\<rparr>)"
proof -
  have "length ts = length (ts_tabs t)" "ts = [] \<longleftrightarrow> ts_tabs t = []"
    using assms(2) by (metis length_map, metis map_is_Nil_conv)
  then show ?thesis using assms by (auto simp: tabs_wf_def tabs_base_def tab_ids_def)
qed

lemma move_target_upper: "k < length (ts_tabs t) \<Longrightarrow> nat (move_target to0 rel t) < length (ts_tabs t)"
  by (auto simp: move_target_def Let_def)

lemma moveTabPriv_wf:
  assumes "tabs_wf t" "moveTabPriv to0 rel t = Some t'"
  shows "tabs_wf t'"
proof -
  let ?f = "ts_curIndex t"
  let ?k = "nat (move_target to0 rel t)"
  have k: "?k < length (ts_tabs t)" "?f < length (ts_tabs t)"
    using assms(2) move_target_upper[of ?f t to0 rel]
    by (auto simp: moveTabPriv_def Let_def split: if_splits)
  have t': "t' = t\<lparr>ts_tabs := (ts_tabs t)[?f := ts_tabs t ! ?k, ?k := ts_tabs t ! ?f], ts_curIndex := ?k\<rparr>"
    using assms(2) by (auto simp: moveTabPriv_def Let_def split: if_splits)
  have "mset (map tab_id ((ts_tabs t)[?f := ts_tabs t ! ?k, ?k := ts_tabs t ! ?f])) = mset (map tab_id (ts_tabs t))"
    using mset_swap[OF k] by simp
  moreover have "tab_ids t' = map tab_id ((ts_tabs t)[?f := ts_tabs t ! ?k, ?k := ts_tabs t ! ?f])"
    by (simp add: tab_ids_def t')
  ultimately have ms: "mset (tab_ids t') = mset (tab_ids t)" by (simp only: tab_ids_def)
  have "distinct (tab_ids t') = distinct (tab_ids t)" "set (tab_ids t') = set (tab_ids t)"
    using mset_eq_imp_distinct_iff[OF ms] mset_eq_setD[OF ms] by simp_all
  moreover have "ts_next t' = ts_next t" "ts_history t' = ts_history t" by (simp_all add: t')
  ultimately have "tabs_base t'" using assms(1) by (simp add: tabs_wf_def tabs_base_def)
  moreover have "length (ts_tabs t') = length (ts_tabs t)" "ts_curIndex t' = ?k" by (simp_all add: t')
  ultimately show ?thesis using k(1) by (auto simp: tabs_wf_def)
qed

lemma unpin_shift_ids: "map tab_id (unpin_shift cur before i ts) = map tab_id ts"
  by (induction ts arbitrary: i) (auto simp: Let_def)

lemma map_id_update: "map tab_id ts = ids \<Longrightarrow> k < length ts \<Longrightarrow> tab_id tb = tab_id (ts ! k)
    \<Longrightarrow> map tab_id (ts[k := tb]) = ids"
  by (auto simp: map_update list_update_same_conv)

lemma PinTab_wf:
  assumes "tabs_wf t" "PinTab t = Some t'"
  shows "tabs_wf t'"
proof (cases "tab_pinned (ts_tabs t ! ts_curIndex t)")
  case True
  then show ?thesis using assms by (auto simp: PinTab_def split: if_splits)
next
  case False
  let ?m = "map (\<lambda>tb. if tab_pinned tb \<and> tab_indexBeforePin tb > int (ts_curIndex t) - int (pin_end (ts_tabs t))
             then tb\<lparr>tab_indexBeforePin := tab_indexBeforePin tb - 1\<rparr> else tb) (ts_tabs t)"
  let ?b = "int (ts_curIndex t) - int (pin_end (ts_tabs t))"
  have cur: "ts_curIndex t < length (ts_tabs t)" using assms(2) by (auto simp: PinTab_def split: if_splits)
  have ids: "map tab_id ?m = map tab_id (ts_tabs t)" by simp
  have "tabs_wf (t\<lparr>ts_tabs := ?m[ts_curIndex t := (?m ! ts_curIndex t)\<lparr>tab_pinned := True, tab_indexBeforePin := ?b\<rparr>]\<rparr>)"
    using cur by (intro tabs_wf_map_tabs[OF assms(1)] map_id_update[OF ids]) auto
  from moveTabPriv_wf[OF this] assms(2) False cur show ?thesis
    unfolding PinTab_def Let_def by auto
qed

lemma UnpinTab_wf:
  assumes "tabs_wf t" "UnpinTab t = Some t'"
  shows "tabs_wf t'"
proof (cases "tab_pinned (ts_tabs t ! ts_curIndex t)")
  case False
  then show ?thesis using assms by (auto simp: UnpinTab_def split: if_splits)
next
  case True
  let ?u = "unpin_shift (ts_curIndex t) (tab_indexBeforePin (ts_tabs t ! ts_curIndex t)) 0 (ts_tabs t)"
  have cur: "ts_curIndex t < length (ts_tabs t)" using assms(2) by (auto simp: UnpinTab_def split: if_splits)
  have ids: "map tab_id ?u = map tab_id (ts_tabs t)" by (rule unpin_shift_ids)
  then have len: "length ?u = length (ts_tabs t)" by (metis length_map)
  have "tabs_wf (t\<lparr>ts_tabs := ?u[ts_curIndex t := (?u ! ts_curIndex t)\<lparr>tab_pinned := False\<rparr>]\<rparr>)"
    using cur len by (intro tabs_wf_map_tabs[OF assms(1)] map_id_update[OF ids]) auto
  from moveTabPriv_wf[OF this] assms(2) True cur show ?thesis
    unfolding UnpinTab_def Let_def by auto
qed

subsection \<open>Sequences of operations\<close>

datatype tabs_op =
    OAdd drawable string bool
  | ORemove drawable
  | OReplace drawable drawable string
  | OSelect int
  | OSelectName string
  | OSelectPrevious
  | OSelectOffset int
  | OMoveTab int bool
  | OPinTab
  | OUnpinTab
  | ONextTab
  | OPrevTab

fun tabs_step :: "tabs_op \<Rightarrow> tabs \<Rightarrow> tabs option" where
  "tabs_step (OAdd c n b) t = Some (Add c n b t)"
| "tabs_step (ORemove c) t = Some (Remove c t)"
| "tabs_step (OReplace a b n) t = Some (Replace a b n t)"
| "tabs_step (OSelect i) t = Some (fst (Select i t))"
| "tabs_step (OSelectName n) t = Some (fst (SelectName n t))"
| "tabs_step OSelectPrevious t = Some (fst (SelectPrevious t))"
| "tabs_step (OSelectOffset k) t = SelectOffset k t"
| "tabs_step (OMoveTab k rel) t = moveTabPriv k rel t"
| "tabs_step OPinTab t = PinTab t"
| "tabs_step OUnpinTab t = UnpinTab t"
| "tabs_step ONextTab t = Some (NextTab t)"
| "tabs_step OPrevTab t = Some (PrevTab t)"

fun tabs_run :: "tabs_op list \<Rightarrow> tabs \<Rightarrow> tabs option" where
  "tabs_run [] t = Some t"
| "tabs_run (op # ops) t = (case tabs_step op t of None \<Rightarrow> None | Some t' \<Rightarrow> tabs_run ops t')"

lemma SelectPrevious_wf: "tabs_wf t \<Longrightarrow> tabs_wf (fst (SelectPrevious t))"
proof -
  assume wf: "tabs_wf t"
  have "tabs_wf (fst (popHistory t))"
    using wf popHistory_base[of t] by (auto simp: tabs_wf_def)
  then show ?thesis
    by (auto simp: SelectPrevious_def selectPriv_wf split: prod.splits)
qed

lemma tabs_step_wf: "tabs_wf t \<Longrightarrow> tabs_step op t = Some t' \<Longrightarrow> tabs_wf t'"
  by (cases op)
    (auto simp: Add_wf Remove_wf Replace_wf selectPriv_wf Select_def SelectName_def SelectPrevious_wf
      SelectOffset_def NextTab_def PrevTab_def Let_def split: if_splits
      dest: moveTabPriv_wf PinTab_wf UnpinTab_wf)

lemma tabs_run_wf: "tabs_wf t \<Longrightarrow> tabs_run ops t = Some t' \<Longrightarrow> tabs_wf t'"
  by (induction ops arbitrary: t) (auto split: option.splits dest: tabs_step_wf)

lemma NewTabs_wf: "tabs_wf NewTabs"
  by (simp add: NewTabs_def tabs_wf_def tabs_base_def tab_ids_def)

lemma moveTabPriv_returns: "ts_curIndex t < length (ts_tabs t) \<Longrightarrow> \<exists>t'. moveTabPriv k rel t = Some t'"
  by (auto simp: moveTabPriv_def move_target_def Let_def)

lemma length_unpin_shift [simp]: "length (unpin_shift cur before i ts) = length ts"
  by (metis unpin_shift_ids length_map)

lemma tabs_step_returns:
  assumes "tabs_wf t" "ts_tabs t \<noteq> []"
  shows "\<exists>t'. tabs_step op t = Some t'"
proof -
  have "ts_curIndex t < length (ts_tabs t)" using assms by (simp add: tabs_wf_def)
  then show ?thesis
    using assms(2)
    by (cases op) (auto simp: SelectOffset_def PinTab_def UnpinTab_def Let_def intro: moveTabPriv_returns)
qed

subsection \<open>What is shown\<close>

definition sel_content :: "tabs \<Rightarrow> drawable option" where
  "sel_content t = map_option tab_Content (Selected t)"

text \<open>Of the contents but those in \<open>L\<close>, only \<open>c\<close> is shown and has the focus.\<close>

definition only_shown :: "nat set \<Rightarrow> drawable option \<Rightarrow> tabs \<Rightarrow> bool" where
  "only_shown L c t \<longleftrightarrow>
     ts_shown t \<subseteq> L \<union> (case c of None \<Rightarrow> {} | Some d \<Rightarrow> if dr_Visible d then {dr_id d} else {})
     \<and> ts_focused t \<subseteq> L \<union> (case c of None \<Rightarrow> {} | Some d \<Rightarrow> if dr_Focusable d then {dr_id d} else {})"

lemma only_shown_hide: "only_shown L (Some c) t \<Longrightarrow> only_shown L None (show_content c False t)"
  by (auto simp: only_shown_def show_content_def Let_def split: if_splits)

lemma only_shown_hide_other: "only_shown L d t \<Longrightarrow> only_shown L d (show_content c False t)"
  by (auto simp: only_shown_def show_content_def Let_def)

lemma only_shown_show: "only_shown L None t \<or> only_shown L (Some c) t \<Longrightarrow> only_shown L (Some c) (show_content c True t)"
  by (auto simp: only_shown_def show_content_def Let_def)

lemma only_shown_None: "only_shown L None t \<Longrightarrow> only_shown L c t"
  by (auto simp: only_shown_def)

lemma only_shown_fields [simp]:
  "only_shown L c (t\<lparr>ts_tabs := ts\<rparr>) = only_shown L c t"
  "only_shown L c (t\<lparr>ts_next := n\<rparr>) = only_shown L c t"
  "only_shown L c (t\<lparr>ts_history := h\<rparr>) = only_shown L c t"
  "only_shown L c (t\<lparr>ts_curIndex := k\<rparr>) = only_shown L c t"
  "only_shown L c (pushHistory tb t) = only_shown L c t"
  "only_shown L c (fst (popHistory t)) = only_shown L c t"
  "only_shown L c (removeHistory tb t) = only_shown L c t"
  by (simp_all add: only_shown_def removeHistory_def)

lemma sel_content_nth: "ts_curIndex t < length (ts_tabs t) \<Longrightarrow>
    sel_content t = Some (tab_Content (ts_tabs t ! ts_curIndex t))"
  by (simp add: sel_content_def Selected_def)

lemma sel_content_selectPriv:
  "0 \<le> i \<Longrightarrow> i < int (length (ts_tabs t)) \<Longrightarrow>
     sel_content (fst (selectPriv i b t)) = Some (tab_Content (ts_tabs t ! nat i))"
  by (simp add: sel_content_def Selected_def selectPriv_cur nat_less_iff)

text \<open>Selecting shows one content only, when nothing else was shown or the previous one is hidden.\<close>

lemma selectPriv_only_shown:
  assumes "only_shown L None t \<or> (b \<and> ts_curIndex t < length (ts_tabs t) \<and> only_shown L (sel_content t) t)
     \<or> (0 \<le> i \<and> i < int (length (ts_tabs t)) \<and> only_shown L (Some (tab_Content (ts_tabs t ! nat i))) t)"
    and "0 \<le> i" "i < int (length (ts_tabs t))"
  shows "only_shown L (sel_content (fst (selectPriv i b t))) (fst (selectPriv i b t))"
proof -
  let ?c = "tab_Content (ts_tabs t ! nat i)"
  let ?prev = "tab_Content (ts_tabs t ! ts_curIndex t)"
  let ?u = "if b \<and> ts_curIndex t < length (ts_tabs t)
            then pushHistory (ts_tabs t ! ts_curIndex t) (show_content ?prev False t) else t"
  have "only_shown L None ?u \<or> only_shown L (Some ?c) ?u"
    using assms(1) by (auto simp: sel_content_nth only_shown_hide only_shown_hide_other)
  then have "only_shown L (Some ?c) (show_content ?c True ?u)" by (rule only_shown_show)
  moreover have eq: "fst (selectPriv i b t) = (show_content ?c True ?u)\<lparr>ts_curIndex := nat i\<rparr>"
    using assms(2,3) by (auto simp: selectPriv_def Let_def)
  ultimately have "only_shown L (Some ?c) (fst (selectPriv i b t))"
    unfolding eq only_shown_fields(4) by simp
  then show ?thesis using assms(2,3) by (simp add: sel_content_selectPriv)
qed

lemma selectPriv_keeps_only_shown:
  assumes "only_shown L (sel_content t) t" "tabs_wf t"
  shows "only_shown L (sel_content (fst (selectPriv i True t))) (fst (selectPriv i True t))"
proof (cases "0 \<le> i \<and> i < int (length (ts_tabs t))")
  case True
  then have "ts_curIndex t < length (ts_tabs t)" using assms(2) by (auto simp: tabs_wf_def split: if_splits)
  then show ?thesis using True assms(1) by (intro selectPriv_only_shown) auto
next
  case False
  then show ?thesis using assms(1) by (auto simp: selectPriv_def)
qed

lemma Add_only_shown:
  assumes "only_shown L (sel_content t) t" "tabs_wf t"
  shows "only_shown L (sel_content (Add c n b t)) (Add c n b t)"
proof -
  let ?tb = "\<lparr>tab_id = ts_next t, tab_Content = c, tab_Name = n, tab_pinned = False,
                tab_indexBeforePin = 0, tab_title = []\<rparr>"
  let ?u = "t\<lparr>ts_tabs := ts_tabs t @ [?tb], ts_next := Suc (ts_next t)\<rparr>"
  have "only_shown L (sel_content ?u) ?u"
  proof (cases "ts_tabs t = []")
    case True
    then have "only_shown L None t" using assms(1) by (simp add: sel_content_def Selected_def)
    then show ?thesis by (simp add: only_shown_None)
  next
    case False
    then have "ts_curIndex t < length (ts_tabs t)" using assms(2) by (simp add: tabs_wf_def)
    then show ?thesis using assms(1) by (simp add: sel_content_nth nth_append)
  qed
  moreover have "tabs_wf ?u"
    using assms(2) by (auto simp: tabs_wf_def tabs_base_def tab_ids_def split: if_splits)
  ultimately show ?thesis
    by (auto simp: Add_def Let_def intro!: selectPriv_keeps_only_shown)
qed

lemma Remove_only_shown:
  assumes "only_shown L (sel_content t) t" "tabs_wf t"
  shows "only_shown L (sel_content (Remove content t)) (Remove content t)"
proof -
  let ?x = "find_idx (\<lambda>tb. tab_Content tb = content) (ts_tabs t)"
  define i where "i = nat ?x"
  define r where "r = removed i t"
  note eq = Remove_eq[of content t, unfolded Let_def, folded i_def, folded r_def]
  show ?thesis
  proof (cases "?x = -1")
    case True
    then show ?thesis using assms by (simp add: eq)
  next
    case False
    then have i: "i < length (ts_tabs t)" unfolding i_def using find_content_range by blast
    then have cur: "ts_curIndex t < length (ts_tabs t)" using assms(2) by (auto simp: tabs_wf_def split: if_splits)
    have len: "length (ts_tabs r) = length (ts_tabs t) - 1" "ts_curIndex r = ts_curIndex t"
      using i by (simp_all add: r_def)
    show ?thesis
    proof (cases "i = ts_curIndex t")
      case True
      have none: "only_shown L None r"
        using assms(1) only_shown_hide[of L "tab_Content (ts_tabs t ! i)" t]
        by (simp add: r_def removed_def sel_content_nth[OF cur] True)
      have any: "only_shown L (sel_content (fst (selectPriv k False u))) (fst (selectPriv k False u))"
        if "only_shown L None u" for k u
        using that selectPriv_only_shown[of L u False k]
        by (cases "0 \<le> k \<and> k < int (length (ts_tabs u))") (auto simp: selectPriv_def only_shown_None)
      obtain u p ok where pop: "popHistory r = (u, p, ok)" by (cases "popHistory r")
      have "only_shown L None u" using none only_shown_fields(6)[of L None r] by (simp add: pop)
      then show ?thesis using any[of u] False True by (simp add: eq pop)
    next
      case other: False
      have sel: "only_shown L (Some (tab_Content (ts_tabs t ! ts_curIndex t))) r"
        using assms(1) by (simp add: r_def removed_def sel_content_nth[OF cur] only_shown_hide_other)
      show ?thesis
      proof (cases "i < ts_curIndex t")
        case True
        then have "ts_tabs r ! (ts_curIndex t - 1) = ts_tabs t ! ts_curIndex t"
          using i cur by (simp add: r_def nth_slice_delete)
        then have "ts_tabs r ! nat (int (ts_curIndex t) - 1) = ts_tabs t ! ts_curIndex t"
          using True by (simp add: nat_diff_distrib)
        then show ?thesis using sel True other False cur len
          by (simp add: eq) (rule selectPriv_only_shown, auto)
      next
        case no: False
        then have lt: "ts_curIndex t < length (ts_tabs r)" using i other len by linarith
        have "ts_tabs r ! ts_curIndex t = ts_tabs t ! ts_curIndex t"
          using i no other lt len by (simp add: r_def nth_slice_delete)
        then have "sel_content r = Some (tab_Content (ts_tabs t ! ts_curIndex t))"
          using sel_content_nth[of r] lt len(2) by simp
        then show ?thesis using sel no other False by (simp add: eq)
      qed
    qed
  qed
qed

text \<open>
  \<open>Replace\<close> selects the tab it replaces without hiding the selected one: when that is another tab,
  its content is left behind.
\<close>

lemma only_shown_mono: "only_shown L c t \<Longrightarrow> L \<subseteq> L' \<Longrightarrow> only_shown L' c t"
  by (auto simp: only_shown_def)

definition left_by_replace :: "drawable \<Rightarrow> tabs \<Rightarrow> nat set" where
  "left_by_replace src t =
     (if src \<in> set (map tab_Content (ts_tabs t)) \<and> sel_content t \<noteq> Some src
      then set_option (map_option dr_id (sel_content t)) else {})"

lemma Replace_only_shown:
  assumes "only_shown L (sel_content t) t" "tabs_wf t"
  shows "only_shown (L \<union> left_by_replace src t) (sel_content (Replace src target n t)) (Replace src target n t)"
proof -
  let ?x = "find_idx (\<lambda>tb. tab_Content tb = src) (ts_tabs t)"
  let ?L = "L \<union> left_by_replace src t"
  show ?thesis
  proof (cases "?x = -1")
    case True
    then show ?thesis using only_shown_mono[OF assms(1), of ?L] by (simp add: Replace_def)
  next
    case False
    then have x: "0 \<le> ?x" "nat ?x < length (ts_tabs t)" using find_content_range by blast+
    have src: "tab_Content (ts_tabs t ! nat ?x) = src" using find_idx_hit[OF x(1)] .
    have "only_shown ?L None (show_content src False t)"
    proof (cases "sel_content t = Some src")
      case True
      then show ?thesis using only_shown_mono[OF only_shown_hide, of L src t ?L] assms(1) by simp
    next
      case other: False
      have "src \<in> set (map tab_Content (ts_tabs t))" using src x(2) by (metis nth_map nth_mem length_map)
      then have "only_shown ?L None t"
        using assms(1) other by (auto simp: left_by_replace_def only_shown_def split: option.splits if_splits)
      then show ?thesis by (rule only_shown_hide_other)
    qed
    then show ?thesis using False x src
      by (auto simp: Replace_def Let_def intro!: selectPriv_only_shown)
  qed
qed

lemma moveTabPriv_sel:
  assumes "moveTabPriv k rel t = Some t'"
  shows "sel_content t' = sel_content t \<and> ts_shown t' = ts_shown t \<and> ts_focused t' = ts_focused t"
proof -
  let ?k = "nat (move_target k rel t)" let ?f = "ts_curIndex t"
  have k: "?k < length (ts_tabs t)" "?f < length (ts_tabs t)"
    using assms move_target_upper[of ?f t k rel]
    by (auto simp: moveTabPriv_def Let_def split: if_splits)
  have "t' = t\<lparr>ts_tabs := (ts_tabs t)[?f := ts_tabs t ! ?k, ?k := ts_tabs t ! ?f], ts_curIndex := ?k\<rparr>"
    using assms by (auto simp: moveTabPriv_def Let_def split: if_splits)
  then show ?thesis using k by (simp add: sel_content_def Selected_def)
qed

lemma unpin_shift_content:
  "map tab_Content (unpin_shift cur before i ts) = map tab_Content ts"
  by (induction ts arbitrary: i) (auto simp: Let_def)

lemma only_shown_cong: "ts_shown t = ts_shown u \<Longrightarrow> ts_focused t = ts_focused u \<Longrightarrow> only_shown L c t = only_shown L c u"
  by (simp add: only_shown_def)

lemma PinTab_sel:
  assumes "PinTab t = Some t'"
  shows "sel_content t' = sel_content t \<and> ts_shown t' = ts_shown t \<and> ts_focused t' = ts_focused t"
  using assms
  by (auto simp: PinTab_def Let_def sel_content_def Selected_def split: if_splits dest!: moveTabPriv_sel)

lemma UnpinTab_sel:
  assumes "UnpinTab t = Some t'"
  shows "sel_content t' = sel_content t \<and> ts_shown t' = ts_shown t \<and> ts_focused t' = ts_focused t"
proof -
  have "tab_Content (unpin_shift cur before 0 (ts_tabs t) ! k) = tab_Content (ts_tabs t ! k)"
    if "k < length (ts_tabs t)" for cur before k
    using arg_cong[OF unpin_shift_content[of cur before 0 "ts_tabs t"], of "\<lambda>xs. xs ! k"] that by simp
  then show ?thesis using assms
    by (auto simp: UnpinTab_def Let_def sel_content_def Selected_def split: if_splits dest!: moveTabPriv_sel)
qed

text \<open>
  What an operation leaves behind: the content of the selected tab, when another one is replaced.
\<close>

fun op_left :: "tabs_op \<Rightarrow> tabs \<Rightarrow> nat set" where
  "op_left (OReplace a b n) t = left_by_replace a t"
| "op_left _ t = {}"

fun ops_left :: "tabs_op list \<Rightarrow> tabs \<Rightarrow> nat set" where
  "ops_left [] t = {}"
| "ops_left (op # ops) t = op_left op t \<union> (case tabs_step op t of None \<Rightarrow> {} | Some t' \<Rightarrow> ops_left ops t')"

lemma tabs_step_only_shown:
  assumes "tabs_step op t = Some t'" "tabs_wf t" and "only_shown L (sel_content t) t"
  shows "only_shown (L \<union> op_left op t) (sel_content t') t'"
proof -
  have mv: "only_shown L (sel_content t') t'"
    if "sel_content t' = sel_content t \<and> ts_shown t' = ts_shown t \<and> ts_focused t' = ts_focused t"
    using that assms(3) by (simp add: only_shown_def)
  show ?thesis
  proof (cases op)
    case OSelectPrevious
    obtain u i ok where pop: "popHistory t = (u, i, ok)" by (cases "popHistory t")
    have u: "ts_tabs u = ts_tabs t" "ts_curIndex u = ts_curIndex t" "only_shown L (sel_content t) u"
      using popHistory_tabs(1,2)[of t] only_shown_fields(6)[of L "sel_content t" t] assms(3) by (simp_all add: pop)
    then have "sel_content u = sel_content t" by (simp add: sel_content_def Selected_def)
    moreover have "tabs_wf u"
      using assms(2) popHistory_base[of t] u by (simp add: tabs_wf_def pop)
    ultimately show ?thesis
      using OSelectPrevious assms(1) u selectPriv_keeps_only_shown[of L u i]
      by (auto simp: SelectPrevious_def pop)
  qed (use assms mv in \<open>auto simp: Select_def SelectName_def SelectOffset_def NextTab_def PrevTab_def Let_def
        Add_only_shown Remove_only_shown Replace_only_shown selectPriv_keeps_only_shown
        moveTabPriv_sel PinTab_sel UnpinTab_sel split: if_splits\<close>)
qed

lemma tabs_run_only_shown:
  assumes "tabs_run ops t = Some t'" "tabs_wf t" and "only_shown L (sel_content t) t"
  shows "only_shown (L \<union> ops_left ops t) (sel_content t') t'"
  using assms
proof (induction ops arbitrary: t L)
  case Nil
  then show ?case by simp
next
  case (Cons op ops)
  then obtain u where u: "tabs_step op t = Some u" "tabs_run ops u = Some t'"
    by (auto split: option.splits)
  then show ?case
    using Cons.IH[of u "L \<union> op_left op t"] tabs_step_only_shown[OF u(1), of L]
      tabs_step_wf[of t op u] Cons.prems(2,3) by (simp add: Un_assoc)
qed

subsection \<open>Properties\<close>

text \<open>
  C6. From a new tab bar, whatever operations follow one another: a tab is selected as long
  as one is open, the history is bounded and only holds open tabs, no two tabs share an
  address, and no operation panics while a tab is open.
\<close>

theorem tabs_always_selected:
  assumes "tabs_run ops NewTabs = Some t"
  shows "(Selected t = None \<longleftrightarrow> ts_tabs t = [])
    \<and> length (ts_history t) \<le> maxHistory \<and> set (ts_history t) \<subseteq> set (tab_ids t)
    \<and> distinct (tab_ids t) \<and> (ts_tabs t \<noteq> [] \<longrightarrow> (\<forall>op. \<exists>t'. tabs_step op t = Some t'))"
proof -
  have "tabs_wf t" using tabs_run_wf[OF NewTabs_wf assms] .
  then show ?thesis
    using tabs_step_returns[of t]
    by (auto simp: tabs_wf_def tabs_base_def Selected_def split: if_splits)
qed

definition sample_content :: "nat \<Rightarrow> drawable" where
  "sample_content i = \<lparr>dr_id = i, dr_Visible = True, dr_Focusable = True\<rparr>"

definition sample_ops :: "tabs_op list" where
  "sample_ops = [OAdd (sample_content 0) ''inbox'' False, OAdd (sample_content 1) ''msg'' False,
     OAdd (sample_content 2) ''compose'' False, OSelectPrevious, ORemove (sample_content 1)]"

lemma tabs_always_selected_witness:
  "\<exists>t. tabs_run sample_ops NewTabs = Some t \<and> length (ts_tabs t) = 2 \<and> Selected t \<noteq> None"
proof -
  have "map_option (length \<circ> ts_tabs) (tabs_run sample_ops NewTabs) = Some 2" by code_simp
  then obtain t where t: "tabs_run sample_ops NewTabs = Some t" "length (ts_tabs t) = 2" by auto
  then have "ts_tabs t \<noteq> []" by auto
  then show ?thesis using tabs_always_selected[OF t(1)] t by blast
qed

text \<open>
  C13. After any operations nothing is shown or has the focus but the content of the selected tab
  and the contents that operations left behind: those that were selected when \<open>Replace\<close> changed the
  content of another tab.  Without such a replacement only the selected content is shown.
\<close>

theorem only_selected_shown:
  assumes "tabs_run ops NewTabs = Some t"
  shows "ts_shown t \<union> ts_focused t \<subseteq> set_option (map_option dr_id (sel_content t)) \<union> ops_left ops NewTabs
    \<and> (ops_left ops NewTabs = {} \<longrightarrow> only_shown {} (sel_content t) t)"
  using tabs_run_only_shown[OF assms NewTabs_wf, of "{}"]
  by (auto simp: NewTabs_def only_shown_def split: option.splits if_splits)

definition background_ops :: "tabs_op list" where
  "background_ops = [OAdd (sample_content 0) ''inbox'' False, OAdd (sample_content 1) ''msg'' False,
     OReplace (sample_content 0) (sample_content 2) ''next'']"

lemma only_selected_shown_witness:
  "(\<exists>t. tabs_run sample_ops NewTabs = Some t \<and> ops_left sample_ops NewTabs = {} \<and> only_shown {} (sel_content t) t)
   \<and> (\<exists>t. tabs_run background_ops NewTabs = Some t \<and> sel_content t = Some (sample_content 2) \<and> ts_shown t = {1, 2}
        \<and> ts_shown t \<subseteq> {2} \<union> ops_left background_ops NewTabs)"
proof
  have "map_option ts_shown (tabs_run sample_ops NewTabs) = Some {2}" by code_simp
  then obtain t where t: "tabs_run sample_ops NewTabs = Some t" "ts_shown t = {2}" by auto
  have "ops_left sample_ops NewTabs = {}" by code_simp
  then show "\<exists>t. tabs_run sample_ops NewTabs = Some t \<and> ops_left sample_ops NewTabs = {} \<and> only_shown {} (sel_content t) t"
    using only_selected_shown[OF t(1)] t by blast
next
  have "map_option (\<lambda>t. (ts_shown t, sel_content t)) (tabs_run background_ops NewTabs) = Some ({1, 2}, Some (sample_content 2))"
    by code_simp
  then obtain t where t: "tabs_run background_ops NewTabs = Some t" "ts_shown t = {1, 2}" "sel_content t = Some (sample_content 2)"
    by auto
  then show "\<exists>t. tabs_run background_ops NewTabs = Some t \<and> sel_content t = Some (sample_content 2) \<and> ts_shown t = {1, 2}
        \<and> ts_shown t \<subseteq> {2} \<union> ops_left background_ops NewTabs"
    using only_selected_shown[OF t(1)] by (auto simp: sample_content_def)
qed

text \<open>
  \<open>SelectPrevious\<close> goes back to the tab last selected, and a second one comes back: the
  selection and the history are what they were.
\<close>

lemma SelectPrevious_twice:
  assumes "tabs_wf t" "ts_history t \<noteq> []"
  shows "map_option tab_id (Selected (fst (SelectPrevious t))) = Some (last (ts_history t))
    \<and> ts_curIndex (fst (SelectPrevious (fst (SelectPrevious t)))) = ts_curIndex t
    \<and> ts_history (fst (SelectPrevious (fst (SelectPrevious t)))) = ts_history t"
proof -
  have b: "tabs_base t" using assms(1) by (simp add: tabs_wf_def)
  let ?u = "t\<lparr>ts_history := butlast (ts_history t)\<rparr>"
  obtain i where i: "i < length (ts_tabs t)" "tab_id (ts_tabs t ! i) = last (ts_history t)"
    and pop: "popHistory t = (?u, int i, True)" using popHistory_found[OF b assms(2)] by blast
  have cur: "ts_curIndex t < length (ts_tabs t)" using assms(1) i(1) by (auto simp: tabs_wf_def split: if_splits)
  let ?v = "fst (SelectPrevious t)"
  have v: "ts_tabs ?v = ts_tabs t" "ts_curIndex ?v = i"
    "ts_history ?v = butlast (ts_history t) @ [tab_id (ts_tabs t ! ts_curIndex t)]"
    using i cur b assms(2)
    by (simp_all add: SelectPrevious_def pop selectPriv_def pushHistory_def tabs_base_def Let_def)
  have "tabs_base ?v" using SelectPrevious_wf[OF assms(1)] by (simp add: tabs_wf_def)
  from popHistory_found[OF this] v obtain j where j: "j < length (ts_tabs t)"
      "tab_id (ts_tabs t ! j) = tab_id (ts_tabs t ! ts_curIndex t)"
      "popHistory ?v = (?v\<lparr>ts_history := butlast (ts_history t)\<rparr>, int j, True)" by auto
  have "j = ts_curIndex t"
    using nth_eq_iff_index_eq[of "tab_ids t" j "ts_curIndex t"] j(1,2) cur b
    by (simp add: tab_ids_def tabs_base_def)
  then have "ts_curIndex (fst (SelectPrevious ?v)) = ts_curIndex t"
    "ts_history (fst (SelectPrevious ?v)) = butlast (ts_history t) @ [last (ts_history t)]"
    using j v i cur b assms(2)
    by (simp_all add: SelectPrevious_def[of ?v] selectPriv_def pushHistory_def tabs_base_def Let_def)
  then show ?thesis using i v assms(2) by (simp add: Selected_def)
qed

lemma SelectPrevious_twice_witness:
  "\<exists>t. tabs_run (take 3 sample_ops) NewTabs = Some t \<and> ts_curIndex t = 2
     \<and> map_option tab_id (Selected (fst (SelectPrevious t))) = Some 1
     \<and> ts_curIndex (fst (SelectPrevious (fst (SelectPrevious t)))) = 2"
proof -
  have "map_option (\<lambda>t. (ts_curIndex t, ts_history t)) (tabs_run (take 3 sample_ops) NewTabs)
      = Some (2, [0, 0, 1])" by code_simp
  then obtain t where t: "tabs_run (take 3 sample_ops) NewTabs = Some t" "ts_curIndex t = 2"
    "ts_history t = [0, 0, 1]" by auto
  have "tabs_wf t" using tabs_run_wf[OF NewTabs_wf t(1)] .
  from SelectPrevious_twice[OF this] t show ?thesis by simp
qed

text \<open>
  Pinned tabs do not stay together on the left.  With three tabs \<open>a b c\<close>, pinning \<open>c\<close>,
  then \<open>b\<close>, and unpinning \<open>c\<close> swaps \<open>c\<close> with the unpinned \<open>a\<close>, which lands on the left
  of the pinned \<open>b\<close>.
\<close>

lemma unpin_breaks_prefix:
  "map_option (\<lambda>t. map (\<lambda>tb. (tab_Name tb, tab_pinned tb)) (ts_tabs t))
     (tabs_run [OAdd (sample_content 0) ''a'' False, OAdd (sample_content 1) ''b'' False,
        OAdd (sample_content 2) ''c'' False, OPinTab, OSelectName ''b'', OPinTab,
        OSelectName ''c'', OUnpinTab] NewTabs)
   = Some [(''a'', False), (''b'', True), (''c'', False)]"
  by code_simp

end
