(* ===== verification/TextInput.thy ===== *)
theory TextInput
  imports GoStrings
begin

text \<open>
  \<open>lib/ui/textinput.go\<close>: the line editor behind every prompt, with its completion popover.
  The text is the list of graphemes (\<open>vaxis.Character\<close>); splitting a string into them is
  the third-party \<open>vaxis.Characters\<close>, the argument \<open>chars\<close>.  Which key an event matches is
  decided by \<open>vaxis\<close> too, so a key event is the branch of \<open>Event\<close> it takes.  The drawing
  context only matters through its width (\<open>None\<close> before the first drawing).  The
  registered callbacks, the completion timer and the completer are not modelled: their
  results arrive through \<open>show_completions\<close>.
\<close>

record completion =
  cmp_Value :: string
  cmp_Description :: string

record text_input =
  ti_text :: "string list"
  ti_index :: nat
  ti_scroll :: int
  ti_width :: "int option"
  ti_prompt :: string
  ti_focus :: bool
  ti_completions :: "completion list"
  ti_prefix :: string
  ti_completeIndex :: int

definition NewTextInput :: "(string \<Rightarrow> string list) \<Rightarrow> string \<Rightarrow> text_input" where
  "NewTextInput chars txt =
     \<lparr>ti_text = chars txt, ti_index = length (chars txt), ti_scroll = 0, ti_width = None,
      ti_prompt = [], ti_focus = False, ti_completions = [], ti_prefix = [], ti_completeIndex = 0\<rparr>"

definition Prompt :: "string \<Rightarrow> text_input \<Rightarrow> text_input" where
  "Prompt p ti = ti\<lparr>ti_prompt := p\<rparr>"

definition charactersToString :: "string list \<Rightarrow> string" where
  "charactersToString cs = foldl (@) [] cs"

definition ti_String :: "text_input \<Rightarrow> string" where
  "ti_String ti = charactersToString (ti_text ti)"

definition StringLeft :: "text_input \<Rightarrow> text_input \<times> string" where
  "StringLeft ti =
     (let ti = (if ti_index ti > length (ti_text ti) then ti\<lparr>ti_index := length (ti_text ti)\<rparr> else ti)
      in (ti, charactersToString (take (ti_index ti) (ti_text ti))))"

definition StringRight :: "text_input \<Rightarrow> string" where
  "StringRight ti =
     (if ti_index ti \<ge> length (ti_text ti) then []
      else charactersToString (drop (ti_index ti) (ti_text ti)))"

definition ti_Set :: "(string \<Rightarrow> string list) \<Rightarrow> string \<Rightarrow> text_input \<Rightarrow> text_input" where
  "ti_Set chars v ti = ti\<lparr>ti_text := chars v, ti_index := length (chars v), ti_scroll := 0\<rparr>"

definition ensureScroll :: "text_input \<Rightarrow> text_input" where
  "ensureScroll ti =
     (case ti_width ti of None \<Rightarrow> ti
      | Some width \<Rightarrow>
          (let w = width - int (length (ti_prompt ti));
               ti = (if int (ti_index ti) \<ge> ti_scroll ti + w
                     then ti\<lparr>ti_scroll := int (ti_index ti) - w + 1\<rparr> else ti)
           in if int (ti_index ti) < ti_scroll ti then ti\<lparr>ti_scroll := int (ti_index ti)\<rparr> else ti))"

text \<open>Drawing with the focus scrolls to the cursor first and remembers the context.\<close>

definition ti_Draw :: "int \<Rightarrow> text_input \<Rightarrow> text_input" where
  "ti_Draw width ti = (if ti_focus ti then ensureScroll ti else ti)\<lparr>ti_width := Some width\<rparr>"

definition ti_MouseLeft :: "int \<Rightarrow> text_input \<Rightarrow> text_input" where
  "ti_MouseLeft localX ti =
     (if localX \<ge> int (length (ti_prompt ti)) + 1
         \<and> localX \<le> int (length (drop (nat (ti_scroll ti)) (ti_text ti))) + int (length (ti_prompt ti)) + 1
      then ensureScroll (ti\<lparr>ti_index := nat (localX - int (length (ti_prompt ti)) - 1)\<rparr>)
      else ti)"

definition ti_insert :: "string \<Rightarrow> text_input \<Rightarrow> text_input" where
  "ti_insert ch ti =
     (let left = take (ti_index ti) (ti_text ti); right = drop (ti_index ti) (ti_text ti)
      in ensureScroll (ti\<lparr>ti_text := left @ ([ch] @ right), ti_index := ti_index ti + 1\<rparr>))"

subsection \<open>Words\<close>

text \<open>The separators \<open>/\<close>, the apostrophe and the double quote; a grapheme is one when the string contains it.\<close>

definition separators :: string where
  "separators = [CHR ''/'', CHR 0x27, CHR 0x22]"

definition is_space :: "string \<Rightarrow> bool" where "is_space g \<longleftrightarrow> g = '' ''"
definition is_sep :: "string \<Rightarrow> bool" where "is_sep g \<longleftrightarrow> str_contains separators g"
definition is_sep_space :: "string \<Rightarrow> bool" where "is_sep_space g \<longleftrightarrow> str_contains (separators @ '' '') g"

text \<open>
  \<open>for i >= 0 && P(text[i]) { i-- }\<close>, with the argument and the result one above \<open>i\<close>, and
  \<open>for i < len(text) && P(text[i]) { i++ }\<close>.
\<close>

fun back_while :: "('a \<Rightarrow> bool) \<Rightarrow> 'a list \<Rightarrow> nat \<Rightarrow> nat" where
  "back_while P xs 0 = 0"
| "back_while P xs (Suc i) = (if P (xs ! i) then back_while P xs i else Suc i)"

function forth_while :: "('a \<Rightarrow> bool) \<Rightarrow> 'a list \<Rightarrow> nat \<Rightarrow> nat" where
  "forth_while P xs i = (if i < length xs \<and> P (xs ! i) then forth_while P xs (Suc i) else i)"
  by pat_completeness auto
termination by (relation "measure (\<lambda>(P, xs, i). length xs - i)") auto

declare forth_while.simps [simp del]

definition wordStart :: "text_input \<Rightarrow> nat" where
  "wordStart ti =
     (if ti_text ti = [] \<or> ti_index ti = 0 then ti_index ti
      else
        (let i = back_while is_space (ti_text ti) (ti_index ti)
         in if i > 0 \<and> is_sep (ti_text ti ! (i - 1))
            then back_while is_sep (ti_text ti) i
            else back_while (\<lambda>g. \<not> is_sep_space g) (ti_text ti) i))"

definition nextWordStart :: "text_input \<Rightarrow> nat" where
  "nextWordStart ti =
     (if ti_text ti = [] \<or> ti_index ti \<ge> length (ti_text ti) then ti_index ti
      else
        (let i = ti_index ti;
             i = (if is_sep (ti_text ti ! i) then forth_while is_sep (ti_text ti) i
                  else forth_while (\<lambda>g. \<not> is_sep_space g) (ti_text ti) i);
             i = forth_while is_space (ti_text ti) i
         in if i = length (ti_text ti) \<and> \<not> is_space (ti_text ti ! ti_index ti)
            then back_while is_space (ti_text ti) i else i))"

subsection \<open>Deletions\<close>

definition deleteWord :: "text_input \<Rightarrow> text_input" where
  "deleteWord ti =
     (if ti_text ti = [] \<or> ti_index ti = 0 then ti
      else (let i = wordStart ti
            in ensureScroll (ti\<lparr>ti_text := take i (ti_text ti) @ drop (ti_index ti) (ti_text ti), ti_index := i\<rparr>)))"

definition deleteLineForward :: "text_input \<Rightarrow> text_input" where
  "deleteLineForward ti =
     (if ti_text ti = [] \<or> length (ti_text ti) = ti_index ti then ti
      else ensureScroll (ti\<lparr>ti_text := take (ti_index ti) (ti_text ti)\<rparr>))"

definition deleteLineBackward :: "text_input \<Rightarrow> text_input" where
  "deleteLineBackward ti =
     (if ti_text ti = [] \<or> ti_index ti = 0 then ti
      else ensureScroll (ti\<lparr>ti_text := drop (ti_index ti) (ti_text ti), ti_index := 0\<rparr>))"

definition deleteChar :: "text_input \<Rightarrow> text_input" where
  "deleteChar ti =
     (if ti_text ti \<noteq> [] \<and> ti_index ti \<noteq> length (ti_text ti)
      then ensureScroll (ti\<lparr>ti_text := slice_delete (ti_text ti) (ti_index ti)\<rparr>) else ti)"

definition backspace :: "text_input \<Rightarrow> text_input" where
  "backspace ti =
     (if ti_text ti \<noteq> [] \<and> ti_index ti \<noteq> 0
      then ensureScroll (ti\<lparr>ti_text := take (ti_index ti - 1) (ti_text ti) @ drop (ti_index ti) (ti_text ti),
                            ti_index := ti_index ti - 1\<rparr>) else ti)"

subsection \<open>Key events\<close>

datatype ti_key =
    KBackspace | KDelete | KLeft | KRight | KWordLeft | KWordRight | KHome | KEnd
  | KKillForward | KKillWord | KKillBackward | KEsc
  | KText "string list"
  | KOther

definition invalidateCompletions :: "text_input \<Rightarrow> text_input" where
  "invalidateCompletions ti = ti\<lparr>ti_completions := []\<rparr>"

text \<open>\<open>KText\<close> carries the graphemes of the key's text, inserted one after the other.\<close>

fun ti_key_branch :: "ti_key \<Rightarrow> text_input \<Rightarrow> text_input" where
  "ti_key_branch KBackspace ti = backspace ti"
| "ti_key_branch KDelete ti = deleteChar ti"
| "ti_key_branch KLeft ti =
     (if ti_index ti > 0 then ensureScroll (ti\<lparr>ti_index := ti_index ti - 1\<rparr>) else ti)"
| "ti_key_branch KRight ti =
     (if ti_index ti < length (ti_text ti) then ensureScroll (ti\<lparr>ti_index := ti_index ti + 1\<rparr>) else ti)"
| "ti_key_branch KWordLeft ti = ensureScroll (ti\<lparr>ti_index := wordStart ti\<rparr>)"
| "ti_key_branch KWordRight ti = ensureScroll (ti\<lparr>ti_index := nextWordStart ti\<rparr>)"
| "ti_key_branch KHome ti = ensureScroll (ti\<lparr>ti_index := 0\<rparr>)"
| "ti_key_branch KEnd ti = ensureScroll (ti\<lparr>ti_index := length (ti_text ti)\<rparr>)"
| "ti_key_branch KKillForward ti = deleteLineForward ti"
| "ti_key_branch KKillWord ti = deleteWord ti"
| "ti_key_branch KKillBackward ti = deleteLineBackward ti"
| "ti_key_branch KEsc ti = ti"
| "ti_key_branch (KText cs) ti = foldl (\<lambda>ti ch. ti_insert ch ti) ti cs"
| "ti_key_branch KOther ti = ti"

definition ti_Event :: "ti_key \<Rightarrow> text_input \<Rightarrow> text_input" where
  "ti_Event k ti = ti_key_branch k (invalidateCompletions ti)"

subsection \<open>The completion popover\<close>

text \<open>\<open>None\<close> is the panic of an index out of range.\<close>

definition executeCompletion :: "(string \<Rightarrow> string list) \<Rightarrow> text_input \<Rightarrow> text_input option" where
  "executeCompletion chars ti =
     (if ti_completions ti = [] then Some ti
      else if ti_completeIndex ti < 0 \<or> ti_completeIndex ti \<ge> int (length (ti_completions ti)) then None
      else Some (ti_Set chars (ti_prefix ti @ cmp_Value (ti_completions ti ! nat (ti_completeIndex ti))
                               @ StringRight ti) ti))"

text \<open>What \<open>showCompletions\<close> does with the completer's answer.\<close>

definition show_completions ::
  "(string \<Rightarrow> string list) \<Rightarrow> bool \<Rightarrow> completion list \<Rightarrow> string \<Rightarrow> text_input \<Rightarrow> text_input option" where
  "show_completions chars explicit matches pfx ti =
     (let ti = ti\<lparr>ti_completions := matches, ti_prefix := pfx\<rparr>
      in if explicit \<and> length matches = 1 then
           map_option invalidateCompletions (executeCompletion chars (ti\<lparr>ti_completeIndex := 0\<rparr>))
         else Some (ti\<lparr>ti_completeIndex := -1\<rparr>))"

definition cmp_next :: "text_input \<Rightarrow> text_input" where
  "cmp_next ti =
     (let index = ti_completeIndex ti + 1;
          index = (if index \<ge> int (length (ti_completions ti)) then -1 else index)
      in ti\<lparr>ti_completeIndex := index\<rparr>)"

definition cmp_prev :: "text_input \<Rightarrow> text_input" where
  "cmp_prev ti =
     (let index = ti_completeIndex ti - 1;
          index = (if index < -1 then int (length (ti_completions ti)) - 1 else index)
      in ti\<lparr>ti_completeIndex := index\<rparr>)"

definition cmp_exec :: "(string \<Rightarrow> string list) \<Rightarrow> text_input \<Rightarrow> text_input option" where
  "cmp_exec chars ti = map_option invalidateCompletions (executeCompletion chars ti)"

text \<open>
  The longest common prefix, rune by rune: \<open>n\<close> is \<open>stemLen - 1\<close>.  The words are lists of
  runes (for ASCII text these are the bytes of the string).
\<close>

function find_stem_from :: "'r list \<Rightarrow> 'r list list \<Rightarrow> nat \<Rightarrow> 'r list \<Rightarrow> 'r list" where
  "find_stem_from firstWord others n stem =
     (if length firstWord \<le> n then stem
      else if \<exists>runes\<in>set others. length runes \<le> n \<or> runes ! n \<noteq> firstWord ! n then stem
      else find_stem_from firstWord others (Suc n) (stem @ [firstWord ! n]))"
  by pat_completeness auto
termination by (relation "measure (\<lambda>(f, os, n, s). length f - n)") auto

declare find_stem_from.simps [simp del]

definition findStem :: "'r list list \<Rightarrow> 'r list" where
  "findStem words =
     (case words of [] \<Rightarrow> [] | [w] \<Rightarrow> w | w # ws \<Rightarrow> find_stem_from w ws 0 [])"

definition needsStem :: "string \<Rightarrow> text_input \<Rightarrow> bool" where
  "needsStem stem ti =
     (if stem = [] \<or> ti_completeIndex ti \<ge> 0 then False
      else length stem + length (ti_prefix ti) > length (snd (StringLeft ti)))"

definition cmp_stem :: "(string \<Rightarrow> string list) \<Rightarrow> string \<Rightarrow> text_input \<Rightarrow> text_input" where
  "cmp_stem chars stem ti =
     (ti_Set chars (ti_prefix ti @ stem @ StringRight ti) ti)\<lparr>ti_index := length (chars (ti_prefix ti @ stem))\<rparr>"

datatype cmp_key = CKComplete | CKNext | CKPrev | CKAccept | CKOther

definition cmp_Event :: "(string \<Rightarrow> string list) \<Rightarrow> cmp_key \<Rightarrow> text_input \<Rightarrow> (text_input \<times> bool) option" where
  "cmp_Event chars k ti =
     (case k of
        CKComplete \<Rightarrow>
          (if length (ti_completions ti) = 1 then
             map_option (\<lambda>ti. (ti, True)) (cmp_exec chars (ti\<lparr>ti_completeIndex := 0\<rparr>))
           else
             (let stem = findStem (map cmp_Value (ti_completions ti));
                  ti = (if needsStem stem ti then cmp_stem chars stem (fst (StringLeft ti)) else ti)
              in Some (cmp_next ti, True)))
      | CKNext \<Rightarrow> Some (cmp_next ti, True)
      | CKPrev \<Rightarrow> Some (cmp_prev ti, True)
      | CKAccept \<Rightarrow> (if ti_completeIndex ti \<ge> 0 then map_option (\<lambda>ti. (ti, True)) (cmp_exec chars ti)
                     else Some (ti, False))
      | CKOther \<Rightarrow> Some (ti, False))"

text \<open>\<open>strings.ReplaceAll\<close>, for a non-empty \<open>old\<close>, and the display form of a completion.\<close>

function replace_all :: "string \<Rightarrow> string \<Rightarrow> string \<Rightarrow> string" where
  "replace_all old new [] = []"
| "replace_all old new (c # cs) =
     (if old \<noteq> [] \<and> has_prefix (c # cs) old then new @ replace_all old new (drop (length old) (c # cs))
      else c # replace_all old new cs)"
  by pat_completeness auto
termination by (relation "measure (\<lambda>(old, new, s). length s)") auto

definition unquote :: "string \<Rightarrow> string option" where
  "unquote s =
     (if has_prefix s [CHR 0x27] \<and> has_suffix s [CHR 0x27] then
        (if length s < 2 then None
         else Some (replace_all [CHR 0x27, CHR 0x22, CHR 0x27, CHR 0x22, CHR 0x27] [CHR 0x27]
                      (take (length s - 2) (drop 1 s))))
      else Some s)"

subsection \<open>The scans\<close>

lemma back_while_le: "back_while P xs n \<le> n"
  by (induction n) auto

lemma take_back_while:
  "n \<le> length xs \<Longrightarrow> take (back_while P xs n) xs = rev (dropWhile P (rev (take n xs)))"
  by (induction n) (auto simp: take_Suc_conv_app_nth)

lemma back_while_length:
  "n \<le> length xs \<Longrightarrow> back_while P xs n = length (dropWhile P (rev (take n xs)))"
  using arg_cong[OF take_back_while[of n xs P], of length] back_while_le[of P xs n] by simp

lemma forth_while_takeWhile:
  "i \<le> length xs \<Longrightarrow> forth_while P xs i = i + length (takeWhile P (drop i xs))"
proof (induction P xs i rule: forth_while.induct)
  case (1 P xs i)
  show ?case
  proof (cases "i < length xs \<and> P (xs ! i)")
    case True
    then have "drop i xs = xs ! i # drop (Suc i) xs" by (simp add: Cons_nth_drop_Suc)
    then show ?thesis using True "1.IH" by (simp add: forth_while.simps[of P xs i])
  next
    case False
    then have "takeWhile P (drop i xs) = []"
      by (cases "i < length xs") (simp_all add: Cons_nth_drop_Suc[symmetric])
    then show ?thesis using False by (auto simp: forth_while.simps[of P xs i])
  qed
qed

lemma is_sep_not_space: "is_sep g \<Longrightarrow> \<not> is_space g"
proof -
  have "\<not> is_sep '' ''" by code_simp
  then show "is_sep g \<Longrightarrow> \<not> is_space g" by (auto simp: is_space_def)
qed

lemma is_space_sep_space: "is_space g \<Longrightarrow> is_sep_space g"
proof -
  have "is_sep_space '' ''" by code_simp
  then show "is_space g \<Longrightarrow> is_sep_space g" by (auto simp: is_space_def)
qed

subsection \<open>The specification: text left and right of the cursor\<close>

text \<open>
  A line editor as a pair of the text on the left and on the right of the cursor, without
  an index.  \<open>drop_word\<close> removes the word before the cursor: spaces, then a run of
  separators or a run of other graphemes.  \<open>skip_word\<close> is the number of graphemes a move to
  the next word passes: a run, with the spaces behind it, unless these end the text.
\<close>

type_synonym zipper = "string list \<times> string list"

definition drop_word :: "string list \<Rightarrow> string list" where
  "drop_word l =
     (let r = dropWhile is_space (rev l)
      in if r \<noteq> [] \<and> is_sep (hd r) then rev (dropWhile is_sep r)
         else rev (dropWhile (\<lambda>g. \<not> is_sep_space g) r))"

definition skip_word :: "string list \<Rightarrow> nat" where
  "skip_word r =
     (if r = [] then 0
      else (let w = takeWhile (if is_sep (hd r) then is_sep else (\<lambda>g. \<not> is_sep_space g)) r;
                sp = takeWhile is_space (drop (length w) r)
            in if length w + length sp = length r \<and> \<not> is_space (hd r) then length w
               else length w + length sp))"

fun zip_key :: "ti_key \<Rightarrow> zipper \<Rightarrow> zipper" where
  "zip_key KBackspace (l, r) = (butlast l, r)"
| "zip_key KDelete (l, r) = (l, tl r)"
| "zip_key KLeft (l, r) = (if l = [] then (l, r) else (butlast l, last l # r))"
| "zip_key KRight (l, r) = (case r of [] \<Rightarrow> (l, r) | c # r' \<Rightarrow> (l @ [c], r'))"
| "zip_key KWordLeft (l, r) = (drop_word l, drop (length (drop_word l)) l @ r)"
| "zip_key KWordRight (l, r) = (l @ take (skip_word r) r, drop (skip_word r) r)"
| "zip_key KHome (l, r) = ([], l @ r)"
| "zip_key KEnd (l, r) = (l @ r, [])"
| "zip_key KKillForward (l, r) = (l, [])"
| "zip_key KKillWord (l, r) = (drop_word l, r)"
| "zip_key KKillBackward (l, r) = ([], r)"
| "zip_key KEsc (l, r) = (l, r)"
| "zip_key (KText cs) (l, r) = (l @ cs, r)"
| "zip_key KOther (l, r) = (l, r)"

definition ti_zip :: "text_input \<Rightarrow> zipper" where
  "ti_zip ti = (take (ti_index ti) (ti_text ti), drop (ti_index ti) (ti_text ti))"

definition ti_wf :: "text_input \<Rightarrow> bool" where
  "ti_wf ti \<longleftrightarrow> ti_index ti \<le> length (ti_text ti) \<and> 0 \<le> ti_scroll ti
     \<and> -1 \<le> ti_completeIndex ti"

lemma ensureScroll_fields [simp]:
  "ti_text (ensureScroll ti) = ti_text ti" "ti_index (ensureScroll ti) = ti_index ti"
  "ti_width (ensureScroll ti) = ti_width ti" "ti_prompt (ensureScroll ti) = ti_prompt ti"
  "ti_completions (ensureScroll ti) = ti_completions ti"
  "ti_completeIndex (ensureScroll ti) = ti_completeIndex ti" "ti_zip (ensureScroll ti) = ti_zip ti"
  by (auto simp: ensureScroll_def ti_zip_def Let_def split: option.splits)

lemma ensureScroll_nonneg: "0 \<le> ti_scroll ti \<Longrightarrow> 0 \<le> ti_scroll (ensureScroll ti)"
  by (auto simp: ensureScroll_def Let_def split: option.splits)

text \<open>The cursor is inside the window once \<open>ensureScroll\<close> has run.\<close>

lemma ensureScroll_visible:
  assumes "ti_width ti = Some width" "0 < width - int (length (ti_prompt ti))"
  shows "ti_scroll (ensureScroll ti) \<le> int (ti_index ti)
    \<and> int (ti_index ti) < ti_scroll (ensureScroll ti) + (width - int (length (ti_prompt ti)))"
  using assms by (auto simp: ensureScroll_def Let_def)

lemma wordStart_le: "wordStart ti \<le> ti_index ti"
  using back_while_le[of is_space "ti_text ti" "ti_index ti"]
    back_while_le[of is_sep "ti_text ti" "back_while is_space (ti_text ti) (ti_index ti)"]
    back_while_le[of "\<lambda>g. \<not> is_sep_space g" "ti_text ti" "back_while is_space (ti_text ti) (ti_index ti)"]
  by (auto simp: wordStart_def Let_def)

lemma take_wordStart:
  assumes "ti_index ti \<le> length (ti_text ti)"
  shows "take (wordStart ti) (ti_text ti) = drop_word (take (ti_index ti) (ti_text ti))"
proof (cases "ti_text ti = [] \<or> ti_index ti = 0")
  case True
  then show ?thesis by (auto simp: wordStart_def drop_word_def)
next
  case False
  let ?i = "back_while is_space (ti_text ti) (ti_index ti)"
  let ?r = "dropWhile is_space (rev (take (ti_index ti) (ti_text ti)))"
  have i: "take ?i (ti_text ti) = rev ?r" "?i \<le> length (ti_text ti)"
    using take_back_while[OF assms] back_while_le[of is_space "ti_text ti" "ti_index ti"] assms by auto
  then have r: "?r = rev (take ?i (ti_text ti))" "length ?r = ?i" by (simp, metis length_rev length_take min.absorb2)
  have hd: "?i > 0 \<and> is_sep (ti_text ti ! (?i - 1)) \<longleftrightarrow> ?r \<noteq> [] \<and> is_sep (hd ?r)"
    using r i(2) by (cases "?i") (auto simp: take_Suc_conv_app_nth hd_rev)
  have "take (back_while P (ti_text ti) ?i) (ti_text ti) = rev (dropWhile P ?r)" for P
    using take_back_while[OF i(2), of P] r(1) by simp
  then show ?thesis using False hd by (simp add: wordStart_def drop_word_def Let_def)
qed

lemma nextWordStart_skip:
  assumes "ti_index ti \<le> length (ti_text ti)"
  shows "nextWordStart ti = ti_index ti + skip_word (drop (ti_index ti) (ti_text ti))"
proof (cases "ti_index ti = length (ti_text ti)")
  case True
  then show ?thesis by (auto simp: nextWordStart_def skip_word_def)
next
  case False
  let ?k = "ti_index ti" let ?xs = "ti_text ti" let ?r = "drop ?k ?xs"
  let ?P = "if is_sep (hd ?r) then is_sep else (\<lambda>g. \<not> is_sep_space g)"
  let ?w = "takeWhile ?P ?r"
  let ?sp = "takeWhile is_space (drop (length ?w) ?r)"
  have lt: "?k < length ?xs" and ne: "?xs \<noteq> []" using False assms by auto
  then have hd: "hd ?r = ?xs ! ?k" "?r \<noteq> []" by (simp_all add: hd_drop_conv_nth)
  have lw: "length ?w \<le> length ?r" by (rule length_takeWhile_le)
  have wl: "?k + length ?w \<le> length ?xs" using lw lt by simp
  have f1: "forth_while ?P ?xs ?k = ?k + length ?w"
    using forth_while_takeWhile[of ?k ?xs ?P] lt by simp
  have f2: "forth_while is_space ?xs (?k + length ?w) = ?k + length ?w + length ?sp"
    using forth_while_takeWhile[OF wl, of is_space] by (simp add: add.commute)
  have end_eq: "?k + length ?w + length ?sp = length ?xs \<longleftrightarrow> length ?w + length ?sp = length ?r"
    using lt by auto
  have back_eq: "back_while is_space ?xs (length ?xs) = ?k + length ?w"
    if e: "length ?w + length ?sp = length ?r" and nsp: "\<not> is_space (hd ?r)"
  proof -
    have hw: "?w \<noteq> []"
    proof
      assume "?w = []"
      then have "length (takeWhile is_space ?r) = length ?r" using e by simp
      then have "takeWhile is_space ?r = ?r" by (metis takeWhile_eq_take take_all_iff order_refl)
      then show False using nsp hd(2) by (cases ?r) (auto split: if_splits)
    qed
    have sp_all: "drop (length ?w) ?r = ?sp"
      using e lw by (metis length_drop takeWhile_eq_take take_all_iff order_refl add_diff_cancel_left')
    have "?r = ?w @ ?sp" using sp_all by (metis append_take_drop_id takeWhile_eq_take)
    then have xs: "?xs = take ?k ?xs @ ?w @ ?sp" by (metis append_take_drop_id)
    have "\<not> is_space (last ?w)"
      using hw set_takeWhileD[of "last ?w" ?P ?r] last_in_set[OF hw] is_sep_not_space is_space_sep_space
      by (auto split: if_splits)
    moreover have "dropWhile is_space (rev ?sp @ ys) = dropWhile is_space ys" for ys
      by (intro dropWhile_append2) (auto dest: set_takeWhileD)
    ultimately have "dropWhile is_space (rev ?xs) = rev ?w @ rev (take ?k ?xs)"
      using hw by (subst xs) (simp add: dropWhile_append3 rev_eq_Cons_iff dropWhile_eq_self_iff hd_append hd_rev)
    then show ?thesis using back_while_length[of "length ?xs" ?xs is_space] lt by simp
  qed
  have nws: "nextWordStart ti =
     (if forth_while is_space ?xs (forth_while ?P ?xs ?k) = length ?xs \<and> \<not> is_space (hd ?r)
      then back_while is_space ?xs (forth_while is_space ?xs (forth_while ?P ?xs ?k))
      else forth_while is_space ?xs (forth_while ?P ?xs ?k))"
    using ne lt by (cases "is_sep (hd ?r)") (simp_all add: nextWordStart_def Let_def hd(1))
  have skip: "skip_word ?r =
     (if length ?w + length ?sp = length ?r \<and> \<not> is_space (hd ?r) then length ?w
      else length ?w + length ?sp)"
    using hd(2) by (simp only: skip_word_def Let_def if_False)
  show ?thesis
  proof (cases "length ?w + length ?sp = length ?r \<and> \<not> is_space (hd ?r)")
    case True
    then have "?k + length ?w + length ?sp = length ?xs" using end_eq by blast
    then show ?thesis unfolding nws skip f1 f2 if_P[OF True] using True back_eq by (simp only: simp_thms if_True)
  next
    case no: False
    then show ?thesis unfolding nws skip f1 f2 if_not_P[OF no] end_eq by (simp only: if_False add.assoc)
  qed
qed

subsection \<open>Refinement\<close>

lemma ti_zip_update:
  "i \<le> length xs \<Longrightarrow> ti_zip (ti\<lparr>ti_text := xs, ti_index := i\<rparr>) = (take i xs, drop i xs)"
  by (simp add: ti_zip_def)

lemma drop_append_take: "i \<le> n \<Longrightarrow> n \<le> length xs \<Longrightarrow> drop i xs = drop i (take n xs) @ drop n xs"
  by (simp add: drop_take) (metis append_take_drop_id drop_drop le_add_diff_inverse2)

lemma ti_insert_zip:
  assumes "ti_index ti \<le> length (ti_text ti)" "ti_zip ti = (l, r)"
  shows "ti_zip (ti_insert ch ti) = (l @ [ch], r)"
    "ti_index (ti_insert ch ti) \<le> length (ti_text (ti_insert ch ti))"
  using assms by (auto simp: ti_insert_def ti_zip_def Let_def)

lemma ti_inserts_zip:
  "ti_index ti \<le> length (ti_text ti) \<Longrightarrow> ti_zip ti = (l, r) \<Longrightarrow>
     ti_zip (foldl (\<lambda>ti ch. ti_insert ch ti) ti cs) = (l @ cs, r)
     \<and> ti_index (foldl (\<lambda>ti ch. ti_insert ch ti) ti cs) \<le> length (ti_text (foldl (\<lambda>ti ch. ti_insert ch ti) ti cs))"
proof (induction cs arbitrary: ti l)
  case Nil
  then show ?case by simp
next
  case (Cons c cs)
  then show ?case
    using Cons.IH[of "ti_insert c ti" "l @ [c]"] ti_insert_zip[of ti l r c] by simp
qed

lemma length_drop_word:
  assumes "ti_index ti \<le> length (ti_text ti)"
  shows "length (drop_word (take (ti_index ti) (ti_text ti))) = wordStart ti"
  using arg_cong[OF take_wordStart[OF assms], of length] wordStart_le[of ti] assms by simp

lemma ti_key_branch_zip:
  assumes "ti_index ti \<le> length (ti_text ti)"
  shows "ti_zip (ti_key_branch k ti) = zip_key k (ti_zip ti)
    \<and> ti_index (ti_key_branch k ti) \<le> length (ti_text (ti_key_branch k ti))"
proof (cases k)
  case KBackspace
  then show ?thesis using assms
    by (auto simp: backspace_def ti_zip_def butlast_take)
next
  case KDelete
  then show ?thesis using assms
    by (auto simp: deleteChar_def ti_zip_def slice_delete_def drop_Suc tl_drop)
next
  case KLeft
  then show ?thesis using assms
    by (cases "ti_index ti") (auto simp: ti_zip_def butlast_take take_Suc_conv_app_nth Cons_nth_drop_Suc)
next
  case KRight
  then show ?thesis using assms
    by (auto simp: ti_zip_def take_Suc_conv_app_nth split: list.splits)
      (metis Cons_nth_drop_Suc list.inject, metis Cons_nth_drop_Suc list.inject)
next
  case KWordLeft
  then show ?thesis
    using assms wordStart_le[of ti] take_wordStart[OF assms] length_drop_word[OF assms]
      drop_append_take[of "wordStart ti" "ti_index ti" "ti_text ti"]
    by (simp add: ti_zip_def)
next
  case KWordRight
  let ?r = "drop (ti_index ti) (ti_text ti)"
  have "skip_word ?r \<le> length ?r"
  proof -
    let ?w = "takeWhile (if is_sep (hd ?r) then is_sep else (\<lambda>g. \<not> is_sep_space g)) ?r"
    have "length (takeWhile is_space (drop (length ?w) ?r)) \<le> length (drop (length ?w) ?r)"
      "length ?w \<le> length ?r" by (rule length_takeWhile_le)+
    then have "length ?w + length (takeWhile is_space (drop (length ?w) ?r)) \<le> length ?r"
      by (simp only: length_drop)
    then show ?thesis unfolding skip_word_def Let_def by (cases "?r = []") (simp_all only: if_True if_False split: if_split, auto)
  qed
  then show ?thesis using KWordRight assms nextWordStart_skip[OF assms]
    by (auto simp: ti_zip_def take_add add.commute)
next
  case KKillWord
  show ?thesis
  proof (cases "ti_text ti = [] \<or> ti_index ti = 0")
    case True
    moreover have "drop_word [] = []" by (simp add: drop_word_def)
    ultimately show ?thesis using KKillWord assms by (auto simp: deleteWord_def ti_zip_def)
  next
    case False
    then show ?thesis
      using KKillWord assms wordStart_le[of ti] take_wordStart[OF assms] length_drop_word[OF assms]
      by (auto simp: deleteWord_def ti_zip_def Let_def)
  qed
next
  case (KText cs)
  then show ?thesis using ti_inserts_zip[OF assms, of _ _ cs] by (cases "ti_zip ti") simp
qed (use assms in \<open>auto simp: ti_zip_def deleteLineForward_def deleteLineBackward_def\<close>)

lemma ti_Event_zip:
  assumes "ti_index ti \<le> length (ti_text ti)"
  shows "ti_zip (ti_Event k ti) = zip_key k (ti_zip ti)
    \<and> ti_index (ti_Event k ti) \<le> length (ti_text (ti_Event k ti))"
  using ti_key_branch_zip[of "invalidateCompletions ti" k] assms
  by (simp add: ti_Event_def invalidateCompletions_def ti_zip_def)

lemma ti_Events_zip:
  "ti_index ti \<le> length (ti_text ti) \<Longrightarrow>
     ti_zip (foldl (\<lambda>ti k. ti_Event k ti) ti ks) = foldl (\<lambda>z k. zip_key k z) (ti_zip ti) ks
     \<and> ti_index (foldl (\<lambda>ti k. ti_Event k ti) ti ks) \<le> length (ti_text (foldl (\<lambda>ti k. ti_Event k ti) ti ks))"
  by (induction ks arbitrary: ti) (simp_all add: ti_Event_zip)

subsection \<open>Completion\<close>

lemma find_stem_from_prefix:
  "prefix stem firstWord \<Longrightarrow> length stem = n \<Longrightarrow> \<forall>w\<in>set others. prefix stem w \<Longrightarrow>
   (let s = find_stem_from firstWord others n stem
    in prefix s firstWord \<and> (\<forall>w\<in>set others. prefix s w)
       \<and> (\<forall>p. prefix p firstWord \<longrightarrow> (\<forall>w\<in>set others. prefix p w) \<longrightarrow> prefix p s))"
proof (induction firstWord others n stem rule: find_stem_from.induct)
  case (1 f os n stem)
  consider "length f \<le> n" | "n < length f" "\<exists>w\<in>set os. length w \<le> n \<or> w ! n \<noteq> f ! n"
    | "n < length f" "\<forall>w\<in>set os. n < length w \<and> w ! n = f ! n"
    by (metis leI not_le)
  then show ?case
  proof cases
    case 1
    then have "stem = f" using "1.prems" by (metis le_antisym prefix_length_le prefix_order.eq_refl prefix_def append_Nil2 append_eq_conv_conj take_all_iff)
    then show ?thesis using 1 "1.prems" by (simp add: Let_def find_stem_from.simps[of f os n f])
  next
    case 2
    have "prefix p stem" if p: "prefix p f" "\<forall>w\<in>set os. prefix p w" for p
    proof (rule ccontr)
      assume "\<not> prefix p stem"
      then have "n < length p" using p(1) "1.prems"(1,2)
        by (metis prefix_length_prefix not_le)
      then have "\<forall>w\<in>insert f (set os). n < length w \<and> w ! n = p ! n"
        using p by (auto simp: prefix_def nth_append)
      then show False using 2(2) by force
    qed
    then show ?thesis using 2 "1.prems" by (simp add: find_stem_from.simps[of f os n stem])
  next
    case 3
    have ext: "prefix (stem @ [f ! n]) w" if "prefix stem w" "n < length w" "w ! n = f ! n" for w
      using that "1.prems"(2) by (auto simp: prefix_def nth_append neq_Nil_conv)
    have no: "\<not> (\<exists>w\<in>set os. length w \<le> n \<or> w ! n \<noteq> f ! n)" "\<not> length f \<le> n" using 3 by force+
    have "find_stem_from f os n stem = find_stem_from f os (Suc n) (stem @ [f ! n])"
      using no by (simp add: find_stem_from.simps[of f os n stem])
    then show ?thesis
      using "1.IH"[OF no(2) no(1)] "1.prems" ext 3 by simp
  qed
qed

lemma cmp_Event_returns:
  assumes "-1 \<le> ti_completeIndex ti" "ti_completeIndex ti < int (length (ti_completions ti))"
  shows "\<exists>ti' b. cmp_Event chars k ti = Some (ti', b) \<and> -1 \<le> ti_completeIndex ti'
    \<and> (ti_completions ti' = [] \<or> ti_completeIndex ti' < int (length (ti_completions ti')))"
proof (cases k)
  case CKComplete
  have f: "ti_completeIndex (fst (StringLeft ti)) = ti_completeIndex ti"
    "ti_completions (fst (StringLeft ti)) = ti_completions ti"
    by (simp_all add: StringLeft_def)
  show ?thesis
    using CKComplete assms f
    by (cases "ti_completions ti")
      (auto simp: cmp_Event_def cmp_exec_def executeCompletion_def cmp_next_def cmp_stem_def ti_Set_def
        invalidateCompletions_def Let_def)
qed (use assms in \<open>auto simp: cmp_Event_def cmp_next_def cmp_prev_def cmp_exec_def executeCompletion_def
      invalidateCompletions_def ti_Set_def Let_def\<close>)

subsection \<open>Properties\<close>

text \<open>
  C7. The editor implements a pair of texts around a cursor: starting from any text with
  the cursor inside it, a sequence of key events transforms the text left and right of the
  cursor exactly as the specification does, and never leaves the cursor outside the text.
\<close>

theorem text_input_refines_zipper:
  assumes "ti_index ti \<le> length (ti_text ti)"
  shows "ti_zip (foldl (\<lambda>ti k. ti_Event k ti) ti ks) = foldl (\<lambda>z k. zip_key k z) (ti_zip ti) ks
    \<and> ti_index (foldl (\<lambda>ti k. ti_Event k ti) ti ks) \<le> length (ti_text (foldl (\<lambda>ti k. ti_Event k ti) ti ks))"
  by (rule ti_Events_zip[OF assms])

definition sample_input :: text_input where
  "sample_input = NewTextInput (map (\<lambda>c. [c])) ''cd /tmp  ''"

lemma text_input_refines_zipper_witness:
  "ti_zip (foldl (\<lambda>ti k. ti_Event k ti) sample_input [KWordLeft, KText [''~''], KRight, KKillWord])
   = foldl (\<lambda>z k. zip_key k z) (map (\<lambda>c. [c]) ''cd /tmp  '', []) [KWordLeft, KText [''~''], KRight, KKillWord]"
proof -
  have "ti_index sample_input \<le> length (ti_text sample_input)"
    "ti_zip sample_input = (map (\<lambda>c. [c]) ''cd /tmp  '', [])"
    by (simp_all add: sample_input_def NewTextInput_def ti_zip_def)
  with text_input_refines_zipper[of sample_input "[KWordLeft, KText [''~''], KRight, KKillWord]"]
  show ?thesis by metis
qed

text \<open>
  C14. The stem proposed for a list of completions is their longest common prefix.
\<close>

theorem findStem_longest_common_prefix:
  assumes "words \<noteq> []"
  shows "(\<forall>w\<in>set words. prefix (findStem words) w)
    \<and> (\<forall>p. (\<forall>w\<in>set words. prefix p w) \<longrightarrow> prefix p (findStem words))"
proof (cases words)
  case Nil
  then show ?thesis using assms by simp
next
  case (Cons w ws)
  show ?thesis
  proof (cases ws)
    case Nil
    then show ?thesis using Cons by (simp add: findStem_def)
  next
    case (Cons v vs)
    then have "findStem words = find_stem_from w ws 0 []"
      using \<open>words = w # ws\<close> by (simp add: findStem_def)
    then show ?thesis
      using find_stem_from_prefix[of "[]" w 0 ws] \<open>words = w # ws\<close> by (auto simp: Let_def)
  qed
qed

lemma findStem_longest_common_prefix_witness:
  "findStem [''archive'', ''arch/2024'', ''archlinux''] = ''arch''
   \<and> prefix ''arch'' ''arch/2024''"
proof -
  have "findStem [''archive'', ''arch/2024'', ''archlinux''] = ''arch''" by code_simp
  then show ?thesis
    using findStem_longest_common_prefix[of "[''archive'', ''arch/2024'', ''archlinux'']"] by simp
qed

text \<open>
  \<open>unquote\<close>, which every completion passes through when it is drawn, slices out of
  range on exactly one value: the single apostrophe.
\<close>

lemma unquote_panics_iff: "unquote s = None \<longleftrightarrow> s = [CHR 0x27]"
  by (cases s rule: rev_cases) (auto simp: unquote_def has_prefix_def has_suffix_def length_Suc_conv)

end
