(* ===== verification/Binds.thy ===== *)
theory Binds
  imports GoStrings
begin

text \<open>
  \<open>config/binds.go\<close>: key strokes and their notation, binding tables, their merging and the
  search in them.  A modifier mask is the set of its flags.  The key codes of the
  third-party \<open>vaxis\<close> are the argument \<open>vx\<close>, which maps the name of a constant to its rune.
  A notation is a list of runes below 256, which for ASCII text are the bytes of the string.
  A compiled regular expression is the predicate it decides.
\<close>

type_synonym rune = int

definition rune_of :: "char \<Rightarrow> rune" where "rune_of c = of_char c"

datatype modifier = ModShift | ModAlt | ModCtrl | ModOther nat

record key_stroke =
  ks_Modifiers :: "modifier set"
  ks_Key :: rune

record binding =
  bd_Output :: "key_stroke list"
  bd_Input :: "key_stroke list"
  bd_Annotation :: string

datatype binds_context_type = BindsContextFolder | BindsContextAccount

text \<open>\<open>BindingConfigContext\<close> points to the bindings of its section: a datatype, not a record.\<close>

datatype key_bindings = KeyBindings
  (kb_Bindings: "binding list") (kb_Globals: bool) (kb_ExKey: key_stroke) (kb_CompleteKey: key_stroke)
  (kb_contextualBinds: "binding_context list") (kb_contextualCounts: "binds_context_type \<Rightarrow> int")
and binding_context = BindingContext
  (bc_ContextType: binds_context_type) (bc_Regex: "string \<Rightarrow> bool") (bc_Bindings: key_bindings)

datatype binding_search_result =
  BINDING_FOUND "key_stroke list" | BINDING_INCOMPLETE | BINDING_NOT_FOUND

definition NewKeyBindings :: "(string \<Rightarrow> rune) \<Rightarrow> key_bindings" where
  "NewKeyBindings vx =
     KeyBindings [] True \<lparr>ks_Modifiers = {}, ks_Key = rune_of CHR '':''\<rparr>
       \<lparr>ks_Modifiers = {}, ks_Key = vx ''KeyTab''\<rparr> [] (\<lambda>_. 0)"

subsection \<open>Tables\<close>

definition areBindingsInputsEqual :: "binding \<Rightarrow> binding \<Rightarrow> bool" where
  "areBindingsInputsEqual a b \<longleftrightarrow>
     length (bd_Input a) = length (bd_Input b) \<and> list_all2 (=) (bd_Input a) (bd_Input b)"

text \<open>The first loop of \<open>filterAndCleanBindings\<close>, with \<open>res1\<close> as accumulator.\<close>

fun first_inputs :: "binding list \<Rightarrow> binding list \<Rightarrow> binding list" where
  "first_inputs res1 [] = res1"
| "first_inputs res1 (b # bs) =
     (if list_ex (\<lambda>r. areBindingsInputsEqual b r) res1 then first_inputs res1 bs
      else first_inputs (res1 @ [b]) bs)"

definition filterAndCleanBindings :: "binding list \<Rightarrow> binding list" where
  "filterAndCleanBindings bindings = filter (\<lambda>b. length (bd_Output b) > 0) (first_inputs [] bindings)"

text \<open>The tables whose bindings count: up to and including the first without globals.\<close>

fun merged_inputs :: "key_bindings list \<Rightarrow> binding list" where
  "merged_inputs [] = []"
| "merged_inputs (b # bs) = kb_Bindings b @ (if \<not> kb_Globals b then [] else merged_inputs bs)"

text \<open>Every caller passes at least one table; without one the code indexes out of range.\<close>

definition MergeBindings :: "key_bindings list \<Rightarrow> key_bindings option" where
  "MergeBindings bindings =
     (case bindings of [] \<Rightarrow> None
      | b0 # _ \<Rightarrow>
          Some (KeyBindings (filterAndCleanBindings (merged_inputs bindings)) (kb_Globals b0)
            (kb_ExKey b0) (kb_CompleteKey b0)
            (concat (map kb_contextualBinds bindings))
            (\<lambda>t. sum_list (map (\<lambda>b. kb_contextualCounts b t) bindings))))"

text \<open>Two tables merged: the use in \<open>contextual\<close> and \<open>LoadBinds\<close>.\<close>

definition merge2 :: "key_bindings \<Rightarrow> key_bindings \<Rightarrow> key_bindings" where
  "merge2 a b =
     KeyBindings (filterAndCleanBindings (merged_inputs [a, b])) (kb_Globals a)
       (kb_ExKey a) (kb_CompleteKey a) (kb_contextualBinds a @ kb_contextualBinds b)
       (\<lambda>t. kb_contextualCounts a t + kb_contextualCounts b t)"

text \<open>
  The walk over the contextual sections.  The code caches its result per context: the
  tables are not changed once loaded, so the cache returns what the walk computes.
\<close>

fun contextual_walk :: "binds_context_type \<Rightarrow> string \<Rightarrow> binding_context list \<Rightarrow> key_bindings \<Rightarrow> key_bindings" where
  "contextual_walk ct reg [] c = c"
| "contextual_walk ct reg (cb # cbs) c =
     (if bc_ContextType cb \<noteq> ct then contextual_walk ct reg cbs c
      else if \<not> bc_Regex cb reg then contextual_walk ct reg cbs c
      else contextual_walk ct reg cbs (merge2 (bc_Bindings cb) c))"

definition contextual :: "key_bindings \<Rightarrow> binds_context_type \<Rightarrow> string \<Rightarrow> key_bindings" where
  "contextual base ct reg =
     (if kb_contextualCounts base ct = 0 then base
      else contextual_walk ct reg (kb_contextualBinds base) base)"

definition ForAccount :: "key_bindings \<Rightarrow> string \<Rightarrow> key_bindings" where
  "ForAccount b account = contextual b BindsContextAccount account"

definition ForFolder :: "key_bindings \<Rightarrow> string \<Rightarrow> key_bindings" where
  "ForFolder b folder = contextual b BindsContextFolder folder"

definition kb_Add :: "binding \<Rightarrow> key_bindings \<Rightarrow> key_bindings" where
  "kb_Add b kb =
     KeyBindings (kb_Bindings kb @ [b]) (kb_Globals kb) (kb_ExKey kb) (kb_CompleteKey kb)
       (kb_contextualBinds kb) (kb_contextualCounts kb)"

definition stroke_eq :: "key_stroke \<Rightarrow> key_stroke \<Rightarrow> bool" where
  "stroke_eq a b \<longleftrightarrow> ks_Modifiers a = ks_Modifiers b \<and> ks_Key a = ks_Key b"

fun get_binding_from :: "binding list \<Rightarrow> key_stroke list \<Rightarrow> bool \<Rightarrow> binding_search_result" where
  "get_binding_from [] input incomplete = (if incomplete then BINDING_INCOMPLETE else BINDING_NOT_FOUND)"
| "get_binding_from (b # bs) input incomplete =
     (if length (bd_Input b) < length input then get_binding_from bs input incomplete
      else if \<not> list_all2 stroke_eq input (take (length input) (bd_Input b)) then
        get_binding_from bs input incomplete
      else if length (bd_Input b) \<noteq> length input then get_binding_from bs input True
      else BINDING_FOUND (bd_Output b))"

definition GetBinding :: "key_bindings \<Rightarrow> key_stroke list \<Rightarrow> binding_search_result" where
  "GetBinding kb input = get_binding_from (kb_Bindings kb) input False"

definition GetReverseBindings :: "key_bindings \<Rightarrow> key_stroke list \<Rightarrow> key_stroke list list" where
  "GetReverseBindings kb output =
     map bd_Input (filter (\<lambda>b. length (bd_Output b) = length output \<and> list_all2 stroke_eq output (bd_Output b))
       (kb_Bindings kb))"

subsection \<open>The notation of key strokes\<close>

definition keyNames :: "(string \<Rightarrow> rune) \<Rightarrow> (string \<times> key_stroke) list" where
  "keyNames vx =
    [(''space'', \<lparr>ks_Modifiers = {}, ks_Key = rune_of CHR '' ''\<rparr>),
     (''dash'', \<lparr>ks_Modifiers = {}, ks_Key = rune_of CHR ''-''\<rparr>),
     (''semicolon'', \<lparr>ks_Modifiers = {}, ks_Key = rune_of CHR '';''\<rparr>),
     (''enter'', \<lparr>ks_Modifiers = {}, ks_Key = vx ''KeyEnter''\<rparr>),
     (''up'', \<lparr>ks_Modifiers = {}, ks_Key = vx ''KeyUp''\<rparr>),
     (''down'', \<lparr>ks_Modifiers = {}, ks_Key = vx ''KeyDown''\<rparr>),
     (''right'', \<lparr>ks_Modifiers = {}, ks_Key = vx ''KeyRight''\<rparr>),
     (''left'', \<lparr>ks_Modifiers = {}, ks_Key = vx ''KeyLeft''\<rparr>),
     (''upleft'', \<lparr>ks_Modifiers = {}, ks_Key = vx ''KeyUpLeft''\<rparr>),
     (''upright'', \<lparr>ks_Modifiers = {}, ks_Key = vx ''KeyUpRight''\<rparr>),
     (''downleft'', \<lparr>ks_Modifiers = {}, ks_Key = vx ''KeyDownLeft''\<rparr>),
     (''downright'', \<lparr>ks_Modifiers = {}, ks_Key = vx ''KeyDownRight''\<rparr>),
     (''center'', \<lparr>ks_Modifiers = {}, ks_Key = vx ''KeyCenter''\<rparr>),
     (''pgup'', \<lparr>ks_Modifiers = {}, ks_Key = vx ''KeyPgUp''\<rparr>),
     (''pgdn'', \<lparr>ks_Modifiers = {}, ks_Key = vx ''KeyPgDown''\<rparr>),
     (''home'', \<lparr>ks_Modifiers = {}, ks_Key = vx ''KeyHome''\<rparr>),
     (''end'', \<lparr>ks_Modifiers = {}, ks_Key = vx ''KeyEnd''\<rparr>),
     (''insert'', \<lparr>ks_Modifiers = {}, ks_Key = vx ''KeyInsert''\<rparr>),
     (''delete'', \<lparr>ks_Modifiers = {}, ks_Key = vx ''KeyDelete''\<rparr>),
     (''backspace'', \<lparr>ks_Modifiers = {}, ks_Key = vx ''KeyBackspace''\<rparr>),
     (''exit'', \<lparr>ks_Modifiers = {}, ks_Key = vx ''KeyExit''\<rparr>),
     (''clear'', \<lparr>ks_Modifiers = {}, ks_Key = vx ''KeyClear''\<rparr>),
     (''cancel'', \<lparr>ks_Modifiers = {}, ks_Key = vx ''KeyCancel''\<rparr>),
     (''print'', \<lparr>ks_Modifiers = {}, ks_Key = vx ''KeyPrint''\<rparr>),
     (''pause'', \<lparr>ks_Modifiers = {}, ks_Key = vx ''KeyPause''\<rparr>),
     (''backtab'', \<lparr>ks_Modifiers = {ModShift}, ks_Key = vx ''KeyTab''\<rparr>),
     (''f1'', \<lparr>ks_Modifiers = {}, ks_Key = vx ''KeyF01''\<rparr>),
     (''f2'', \<lparr>ks_Modifiers = {}, ks_Key = vx ''KeyF02''\<rparr>),
     (''f3'', \<lparr>ks_Modifiers = {}, ks_Key = vx ''KeyF03''\<rparr>),
     (''f4'', \<lparr>ks_Modifiers = {}, ks_Key = vx ''KeyF04''\<rparr>),
     (''f5'', \<lparr>ks_Modifiers = {}, ks_Key = vx ''KeyF05''\<rparr>),
     (''f6'', \<lparr>ks_Modifiers = {}, ks_Key = vx ''KeyF06''\<rparr>),
     (''f7'', \<lparr>ks_Modifiers = {}, ks_Key = vx ''KeyF07''\<rparr>),
     (''f8'', \<lparr>ks_Modifiers = {}, ks_Key = vx ''KeyF08''\<rparr>),
     (''f9'', \<lparr>ks_Modifiers = {}, ks_Key = vx ''KeyF09''\<rparr>),
     (''f10'', \<lparr>ks_Modifiers = {}, ks_Key = vx ''KeyF10''\<rparr>),
     (''f11'', \<lparr>ks_Modifiers = {}, ks_Key = vx ''KeyF11''\<rparr>),
     (''f12'', \<lparr>ks_Modifiers = {}, ks_Key = vx ''KeyF12''\<rparr>),
     (''f13'', \<lparr>ks_Modifiers = {}, ks_Key = vx ''KeyF13''\<rparr>),
     (''f14'', \<lparr>ks_Modifiers = {}, ks_Key = vx ''KeyF14''\<rparr>),
     (''f15'', \<lparr>ks_Modifiers = {}, ks_Key = vx ''KeyF15''\<rparr>),
     (''f16'', \<lparr>ks_Modifiers = {}, ks_Key = vx ''KeyF16''\<rparr>),
     (''f17'', \<lparr>ks_Modifiers = {}, ks_Key = vx ''KeyF17''\<rparr>),
     (''f18'', \<lparr>ks_Modifiers = {}, ks_Key = vx ''KeyF18''\<rparr>),
     (''f19'', \<lparr>ks_Modifiers = {}, ks_Key = vx ''KeyF19''\<rparr>),
     (''f20'', \<lparr>ks_Modifiers = {}, ks_Key = vx ''KeyF20''\<rparr>),
     (''f21'', \<lparr>ks_Modifiers = {}, ks_Key = vx ''KeyF21''\<rparr>),
     (''f22'', \<lparr>ks_Modifiers = {}, ks_Key = vx ''KeyF22''\<rparr>),
     (''f23'', \<lparr>ks_Modifiers = {}, ks_Key = vx ''KeyF23''\<rparr>),
     (''f24'', \<lparr>ks_Modifiers = {}, ks_Key = vx ''KeyF24''\<rparr>),
     (''f25'', \<lparr>ks_Modifiers = {}, ks_Key = vx ''KeyF25''\<rparr>),
     (''f26'', \<lparr>ks_Modifiers = {}, ks_Key = vx ''KeyF26''\<rparr>),
     (''f27'', \<lparr>ks_Modifiers = {}, ks_Key = vx ''KeyF27''\<rparr>),
     (''f28'', \<lparr>ks_Modifiers = {}, ks_Key = vx ''KeyF28''\<rparr>),
     (''f29'', \<lparr>ks_Modifiers = {}, ks_Key = vx ''KeyF29''\<rparr>),
     (''f30'', \<lparr>ks_Modifiers = {}, ks_Key = vx ''KeyF30''\<rparr>),
     (''f31'', \<lparr>ks_Modifiers = {}, ks_Key = vx ''KeyF31''\<rparr>),
     (''f32'', \<lparr>ks_Modifiers = {}, ks_Key = vx ''KeyF32''\<rparr>),
     (''f33'', \<lparr>ks_Modifiers = {}, ks_Key = vx ''KeyF33''\<rparr>),
     (''f34'', \<lparr>ks_Modifiers = {}, ks_Key = vx ''KeyF34''\<rparr>),
     (''f35'', \<lparr>ks_Modifiers = {}, ks_Key = vx ''KeyF35''\<rparr>),
     (''f36'', \<lparr>ks_Modifiers = {}, ks_Key = vx ''KeyF36''\<rparr>),
     (''f37'', \<lparr>ks_Modifiers = {}, ks_Key = vx ''KeyF37''\<rparr>),
     (''f38'', \<lparr>ks_Modifiers = {}, ks_Key = vx ''KeyF38''\<rparr>),
     (''f39'', \<lparr>ks_Modifiers = {}, ks_Key = vx ''KeyF39''\<rparr>),
     (''f40'', \<lparr>ks_Modifiers = {}, ks_Key = vx ''KeyF40''\<rparr>),
     (''f41'', \<lparr>ks_Modifiers = {}, ks_Key = vx ''KeyF41''\<rparr>),
     (''f42'', \<lparr>ks_Modifiers = {}, ks_Key = vx ''KeyF42''\<rparr>),
     (''f43'', \<lparr>ks_Modifiers = {}, ks_Key = vx ''KeyF43''\<rparr>),
     (''f44'', \<lparr>ks_Modifiers = {}, ks_Key = vx ''KeyF44''\<rparr>),
     (''f45'', \<lparr>ks_Modifiers = {}, ks_Key = vx ''KeyF45''\<rparr>),
     (''f46'', \<lparr>ks_Modifiers = {}, ks_Key = vx ''KeyF46''\<rparr>),
     (''f47'', \<lparr>ks_Modifiers = {}, ks_Key = vx ''KeyF47''\<rparr>),
     (''f48'', \<lparr>ks_Modifiers = {}, ks_Key = vx ''KeyF48''\<rparr>),
     (''f49'', \<lparr>ks_Modifiers = {}, ks_Key = vx ''KeyF49''\<rparr>),
     (''f50'', \<lparr>ks_Modifiers = {}, ks_Key = vx ''KeyF50''\<rparr>),
     (''f51'', \<lparr>ks_Modifiers = {}, ks_Key = vx ''KeyF51''\<rparr>),
     (''f52'', \<lparr>ks_Modifiers = {}, ks_Key = vx ''KeyF52''\<rparr>),
     (''f53'', \<lparr>ks_Modifiers = {}, ks_Key = vx ''KeyF53''\<rparr>),
     (''f54'', \<lparr>ks_Modifiers = {}, ks_Key = vx ''KeyF54''\<rparr>),
     (''f55'', \<lparr>ks_Modifiers = {}, ks_Key = vx ''KeyF55''\<rparr>),
     (''f56'', \<lparr>ks_Modifiers = {}, ks_Key = vx ''KeyF56''\<rparr>),
     (''f57'', \<lparr>ks_Modifiers = {}, ks_Key = vx ''KeyF57''\<rparr>),
     (''f58'', \<lparr>ks_Modifiers = {}, ks_Key = vx ''KeyF58''\<rparr>),
     (''f59'', \<lparr>ks_Modifiers = {}, ks_Key = vx ''KeyF59''\<rparr>),
     (''f60'', \<lparr>ks_Modifiers = {}, ks_Key = vx ''KeyF60''\<rparr>),
     (''f61'', \<lparr>ks_Modifiers = {}, ks_Key = vx ''KeyF61''\<rparr>),
     (''f62'', \<lparr>ks_Modifiers = {}, ks_Key = vx ''KeyF62''\<rparr>),
     (''f63'', \<lparr>ks_Modifiers = {}, ks_Key = vx ''KeyF63''\<rparr>),
     (''tab'', \<lparr>ks_Modifiers = {}, ks_Key = vx ''KeyTab''\<rparr>),
     (''cr'', \<lparr>ks_Modifiers = {}, ks_Key = vx ''KeyEnter''\<rparr>),
     (''esc'', \<lparr>ks_Modifiers = {}, ks_Key = vx ''KeyEsc''\<rparr>),
     (''del'', \<lparr>ks_Modifiers = {}, ks_Key = vx ''KeyDelete''\<rparr>)]"

datatype binds_error =
    ExpectingGt | ExpectedKeyName | FoundGt | UnknownKey string | UnknownModifier string
  | InvalidBinding | RegexError | InvalidContext string | UnknownContext string

definition RuneError :: rune where "RuneError = 65533"

text \<open>\<open>strings.Split(s, "-")\<close> and \<open>ReadString('>')\<close> without its delimiter (\<open>None\<close> at the end of the buffer).\<close>

fun split_dash :: "string \<Rightarrow> string list" where
  "split_dash [] = [[]]"
| "split_dash (c # cs) =
     (if c = CHR ''-'' then [] # split_dash cs
      else (case split_dash cs of [] \<Rightarrow> [[c]] | w # ws \<Rightarrow> (c # w) # ws))"

fun read_to_gt :: "string \<Rightarrow> (string \<times> string) option" where
  "read_to_gt [] = None"
| "read_to_gt (c # cs) =
     (if c = CHR ''>'' then Some ([], cs)
      else (case read_to_gt cs of None \<Rightarrow> None | Some (n, r) \<Rightarrow> Some (c # n, r)))"

text \<open>The loop over the parts of a name: all but the last are modifiers, the last is the key.\<close>

fun parse_args :: "(string \<Rightarrow> rune) \<Rightarrow> string \<Rightarrow> string list \<Rightarrow> modifier set \<Rightarrow> binds_error + key_stroke" where
  "parse_args vx name [] mods = Inr \<lparr>ks_Modifiers = mods, ks_Key = 0\<rparr>"
| "parse_args vx name [arg] mods =
     (case map_of (keyNames vx) (to_lower arg) of
        Some key \<Rightarrow> Inr \<lparr>ks_Modifiers = mods \<union> ks_Modifiers key, ks_Key = ks_Key key\<rparr>
      | None \<Rightarrow>
          (case arg of
             [] \<Rightarrow> Inr \<lparr>ks_Modifiers = mods, ks_Key = RuneError\<rparr>
           | [c] \<Rightarrow> Inr \<lparr>ks_Modifiers = mods, ks_Key = rune_of c\<rparr>
           | _ \<Rightarrow> Inl (UnknownKey name)))"
| "parse_args vx name (arg # a # args) mods =
     (let m = to_lower arg
      in if m = ''s'' then parse_args vx name (a # args) (insert ModShift mods)
         else if m = ''a'' then parse_args vx name (a # args) (insert ModAlt mods)
         else if m = ''c'' then parse_args vx name (a # args) (insert ModCtrl mods)
         else if m = [] then parse_args vx name (a # args) mods
         else Inl (UnknownModifier m))"

definition parse_name :: "(string \<Rightarrow> rune) \<Rightarrow> string \<Rightarrow> binds_error + key_stroke" where
  "parse_name vx name =
     (let args = split_dash name;
          args = (if has_suffix name ''--'' then args @ [''-''] else args)
      in parse_args vx name args {})"

lemma read_to_gt_length: "read_to_gt cs = Some (n, r) \<Longrightarrow> length r < length cs"
  by (induction cs arbitrary: n) (auto split: if_splits option.splits)

definition plain_stroke :: "char \<Rightarrow> key_stroke" where
  "plain_stroke c = \<lparr>ks_Modifiers = {}, ks_Key = rune_of c\<rparr>"

function parse_strokes :: "(string \<Rightarrow> rune) \<Rightarrow> string \<Rightarrow> key_stroke list \<Rightarrow> binds_error + key_stroke list" where
  "parse_strokes vx [] strokes = Inr strokes"
| "parse_strokes vx (tok # buf) strokes =
     (if tok = CHR ''<'' then
        (case read_to_gt buf of
           None \<Rightarrow> Inl ExpectingGt
         | Some (name, rest) \<Rightarrow>
             if name = [] then Inl ExpectedKeyName
             else (case parse_name vx name of
                     Inl e \<Rightarrow> Inl e
                   | Inr ks \<Rightarrow> parse_strokes vx rest (strokes @ [ks])))
      else if tok = CHR ''>'' then Inl FoundGt
      else if tok = CHR 0x5C then
        (case buf of
           [] \<Rightarrow> parse_strokes vx [] (strokes @ [plain_stroke CHR 0x5C])
         | c # rest \<Rightarrow> parse_strokes vx rest (strokes @ [plain_stroke c]))
      else parse_strokes vx buf (strokes @ [plain_stroke tok]))"
  by pat_completeness auto
termination
  by (relation "measure (\<lambda>(vx, buf, s). length buf)") (auto dest!: read_to_gt_length)

definition ParseKeyStrokes :: "(string \<Rightarrow> rune) \<Rightarrow> string \<Rightarrow> binds_error + key_stroke list" where
  "ParseKeyStrokes vx keystrokes = parse_strokes vx keystrokes []"

definition ParseBinding :: "(string \<Rightarrow> rune) \<Rightarrow> string \<Rightarrow> string \<Rightarrow> string \<Rightarrow> binds_error + binding" where
  "ParseBinding vx input output annotation =
     (case ParseKeyStrokes vx input of Inl e \<Rightarrow> Inl e
      | Inr i \<Rightarrow> (case ParseKeyStrokes vx output of Inl e \<Rightarrow> Inl e
        | Inr out \<Rightarrow> Inr \<lparr>bd_Output = out, bd_Input = i, bd_Annotation = annotation\<rparr>))"

text \<open>A section of the file is the list of its keys and values; \<open>trim\<close> is \<open>strings.TrimSpace\<close>.\<close>

definition trim_space :: "string \<Rightarrow> string" where
  "trim_space s =
     (let ws = (\<lambda>c. c \<in> {CHR '' '', CHR 0x09, CHR 0x0A, CHR 0x0B, CHR 0x0C, CHR 0x0D})
      in rev (dropWhile ws (rev (dropWhile ws s))))"

definition load_key :: "(string \<Rightarrow> rune) \<Rightarrow> string \<times> string \<Rightarrow> key_bindings \<Rightarrow> binds_error + key_bindings" where
  "load_key vx kv kb =
     (case kv of (key, raw) \<Rightarrow>
        (case str_cut raw '' # '' of (value0, annotation, _) \<Rightarrow>
          (let v = trim_space value0
           in if key = ''$ex'' then
                (case ParseKeyStrokes vx v of Inl e \<Rightarrow> Inl e
                 | Inr strokes \<Rightarrow>
                     if length strokes \<noteq> 1 then Inl InvalidBinding
                     else Inr (KeyBindings (kb_Bindings kb) (kb_Globals kb) (strokes ! 0) (kb_CompleteKey kb)
                                 (kb_contextualBinds kb) (kb_contextualCounts kb)))
              else if key = ''$noinherit'' then
                (if v = ''false'' then Inr kb
                 else if v \<noteq> ''true'' then Inl InvalidBinding
                 else Inr (KeyBindings (kb_Bindings kb) False (kb_ExKey kb) (kb_CompleteKey kb)
                             (kb_contextualBinds kb) (kb_contextualCounts kb)))
              else if key = ''$complete'' then
                (case ParseKeyStrokes vx v of Inl e \<Rightarrow> Inl e
                 | Inr strokes \<Rightarrow>
                     if length strokes \<noteq> 1 then Inl InvalidBinding
                     else Inr (KeyBindings (kb_Bindings kb) (kb_Globals kb) (kb_ExKey kb) (strokes ! 0)
                                 (kb_contextualBinds kb) (kb_contextualCounts kb)))
              else
                (case ParseBinding vx key v (trim_space annotation) of Inl e \<Rightarrow> Inl e
                 | Inr b \<Rightarrow> Inr (kb_Add b kb)))))"

fun load_keys :: "(string \<Rightarrow> rune) \<Rightarrow> (string \<times> string) list \<Rightarrow> key_bindings \<Rightarrow> binds_error + key_bindings" where
  "load_keys vx [] kb = Inr kb"
| "load_keys vx (kv # kvs) kb =
     (case load_key vx kv kb of Inl e \<Rightarrow> Inl e | Inr kb' \<Rightarrow> load_keys vx kvs kb')"

definition LoadBindingSection :: "(string \<Rightarrow> rune) \<Rightarrow> (string \<times> string) list \<Rightarrow> binds_error + key_bindings" where
  "LoadBindingSection vx sec = load_keys vx sec (NewKeyBindings vx)"

text \<open>
  \<open>LoadBinds\<close>: the sections of the file in order, each a name with its keys.
  \<open>compile\<close> stands for \<open>regexp.Compile\<close> (the predicate \<open>Match\<close> decides), \<open>known\<close> for
  "the expression finds a non-empty match in the name of some account".
\<close>

definition load_context ::
  "(string \<Rightarrow> (string \<Rightarrow> bool) option) \<Rightarrow> (string \<Rightarrow> bool) \<Rightarrow> (string \<Rightarrow> rune) \<Rightarrow> string \<Rightarrow>
   string \<times> (string \<times> string) list \<Rightarrow> key_bindings \<Rightarrow> binds_error + key_bindings" where
  "load_context compile known vx baseName sec b =
     (case sec of (sectionName, kvs) \<Rightarrow>
        if \<not> has_prefix sectionName (baseName @ '':'') \<or> has_prefix sectionName (baseName @ ''::'') then Inr b
        else
          (case LoadBindingSection vx kvs of Inl e \<Rightarrow> Inl e
           | Inr binds \<Rightarrow>
               (let binds = (if baseName = ''default''
                             then KeyBindings (kb_Bindings binds) False (kb_ExKey binds) (kb_CompleteKey binds)
                                    (kb_contextualBinds binds) (kb_contextualCounts binds)
                             else binds);
                    index = str_index sectionName ''=''
                in if index < 0 then Inl (InvalidContext sectionName)
                   else
                     (let v = drop (nat index + 1) sectionName;
                          kind = take (nat index - (length baseName + 1)) (drop (length baseName + 1) sectionName);
                          append_context = (\<lambda>ct re.
                            KeyBindings (kb_Bindings b) (kb_Globals b) (kb_ExKey b) (kb_CompleteKey b)
                              (kb_contextualBinds b @ [BindingContext ct re binds])
                              ((kb_contextualCounts b)(ct := kb_contextualCounts b ct + 1)))
                      in case compile v of None \<Rightarrow> Inl RegexError
                         | Some re \<Rightarrow>
                             if kind = ''account'' then
                               (if known v then Inr (append_context BindsContextAccount re) else Inr b)
                             else if kind = ''folder'' then Inr (append_context BindsContextFolder re)
                             else Inl (UnknownContext sectionName)))))"

fun load_contexts ::
  "(string \<Rightarrow> (string \<Rightarrow> bool) option) \<Rightarrow> (string \<Rightarrow> bool) \<Rightarrow> (string \<Rightarrow> rune) \<Rightarrow> string \<Rightarrow>
   (string \<times> (string \<times> string) list) list \<Rightarrow> key_bindings \<Rightarrow> binds_error + key_bindings" where
  "load_contexts compile known vx baseName [] b = Inr b"
| "load_contexts compile known vx baseName (sec # secs) b =
     (case load_context compile known vx baseName sec b of Inl e \<Rightarrow> Inl e
      | Inr b' \<Rightarrow> load_contexts compile known vx baseName secs b')"

definition LoadBinds ::
  "(string \<Rightarrow> (string \<Rightarrow> bool) option) \<Rightarrow> (string \<Rightarrow> bool) \<Rightarrow> (string \<Rightarrow> rune) \<Rightarrow>
   (string \<times> (string \<times> string) list) list \<Rightarrow> string \<Rightarrow> key_bindings \<Rightarrow> binds_error + key_bindings" where
  "LoadBinds compile known vx file baseName baseGroup =
     (case (case map_of file baseName of
              None \<Rightarrow> Inr baseGroup
            | Some kvs \<Rightarrow> (case LoadBindingSection vx kvs of Inl e \<Rightarrow> Inl e
                            | Inr binds \<Rightarrow> Inr (merge2 binds baseGroup))) of
        Inl e \<Rightarrow> Inl e
      | Inr b \<Rightarrow>
          (let b = (if baseName = ''default''
                    then KeyBindings (kb_Bindings b) False (kb_ExKey b) (kb_CompleteKey b)
                           (kb_contextualBinds b) (kb_contextualCounts b)
                    else b)
           in load_contexts compile known vx baseName file b))"

subsection \<open>What a merged table answers\<close>

lemma stroke_eq_eq: "stroke_eq a b \<longleftrightarrow> a = b"
  by (cases a; cases b) (auto simp: stroke_eq_def)

lemma areBindingsInputsEqual_eq [simp]: "areBindingsInputsEqual a b \<longleftrightarrow> bd_Input a = bd_Input b"
  by (auto simp: areBindingsInputsEqual_def list_all2_eq[symmetric] list.rel_eq)

lemma list_all2_stroke_eq: "list_all2 stroke_eq xs ys \<longleftrightarrow> xs = ys"
  by (simp add: stroke_eq_eq[abs_def] list.rel_eq)

text \<open>The first binding of an input in a list, and what the search makes of a list.\<close>

definition first_binding :: "binding list \<Rightarrow> key_stroke list \<Rightarrow> binding option" where
  "first_binding bs input = find (\<lambda>b. bd_Input b = input) bs"

lemma get_binding_from_eq:
  "get_binding_from bs input inc =
     (case first_binding bs input of
        Some b \<Rightarrow> BINDING_FOUND (bd_Output b)
      | None \<Rightarrow> if inc \<or> (\<exists>b\<in>set bs. strict_prefix input (bd_Input b)) then BINDING_INCOMPLETE
                else BINDING_NOT_FOUND)"
proof (induction bs arbitrary: inc)
  case Nil
  then show ?case by (simp add: first_binding_def)
next
  case (Cons b bs)
  have pre: "length input \<le> length (bd_Input b) \<and> input = take (length input) (bd_Input b)
      \<longleftrightarrow> prefix input (bd_Input b)"
    by (metis prefix_def append_eq_conv_conj append_take_drop_id prefix_length_le)
  consider "bd_Input b = input" | "strict_prefix input (bd_Input b)" | "\<not> prefix input (bd_Input b)"
    by (auto simp: strict_prefix_def)
  then show ?case
  proof cases
    case 1
    then show ?thesis by (simp add: first_binding_def list_all2_stroke_eq)
  next
    case 2
    then have "length input < length (bd_Input b)" "input = take (length input) (bd_Input b)" "bd_Input b \<noteq> input"
      using pre prefix_length_less by (auto simp: strict_prefix_def)
    then show ?thesis using 2 Cons.IH[of True]
      by (auto simp: first_binding_def list_all2_stroke_eq split: option.splits)
  next
    case 3
    then have "length (bd_Input b) < length input \<or> input \<noteq> take (length input) (bd_Input b)"
      "\<not> strict_prefix input (bd_Input b)" "bd_Input b \<noteq> input"
      using pre by (auto simp: strict_prefix_def)
    then show ?thesis using Cons.IH[of inc]
      by (auto simp: first_binding_def list_all2_stroke_eq split: option.splits)
  qed
qed

lemma first_binding_None: "first_binding bs i = None \<longleftrightarrow> i \<notin> bd_Input ` set bs"
  by (auto simp: first_binding_def find_None_iff)

lemma list_ex_inputs: "list_ex (\<lambda>r. areBindingsInputsEqual b r) acc \<longleftrightarrow> bd_Input b \<in> bd_Input ` set acc"
  by (auto simp: list_ex_iff)

lemma first_binding_append:
  "first_binding (xs @ ys) input =
     (case first_binding xs input of Some b \<Rightarrow> Some b | None \<Rightarrow> first_binding ys input)"
  unfolding first_binding_def by (induction xs) auto

lemma first_binding_Cons:
  "first_binding (b # bs) input = (if bd_Input b = input then Some b else first_binding bs input)"
  by (simp add: first_binding_def)

lemma first_inputs_Cons:
  "first_inputs acc (b # bs) =
     first_inputs (if bd_Input b \<in> bd_Input ` set acc then acc else acc @ [b]) bs"
  unfolding first_inputs.simps list_ex_inputs by simp

lemma first_inputs_find:
  "first_binding (first_inputs acc bs) input =
     (case first_binding acc input of Some b \<Rightarrow> Some b | None \<Rightarrow> first_binding bs input)"
proof (induction bs arbitrary: acc)
  case Nil
  then show ?case by (simp add: first_binding_def split: option.split)
next
  case (Cons b bs)
  show ?case
  proof (cases "first_binding acc input")
    case None
    then have "bd_Input b = input \<Longrightarrow> bd_Input b \<notin> bd_Input ` set acc" by (simp add: first_binding_None)
    then show ?thesis using None
      by (simp add: first_inputs_Cons Cons.IH first_binding_append first_binding_Cons first_binding_def[of "[]"]
          del: first_inputs.simps(2))
  next
    case (Some c)
    then show ?thesis by (simp add: first_inputs_Cons Cons.IH first_binding_append del: first_inputs.simps(2))
  qed
qed

lemma first_inputs_distinct:
  "distinct (map bd_Input acc) \<Longrightarrow> distinct (map bd_Input (first_inputs acc bs))"
  by (induction bs arbitrary: acc) (simp_all add: first_inputs_Cons del: first_inputs.simps(2))

lemma first_binding_filter:
  "distinct (map bd_Input bs) \<Longrightarrow>
   first_binding (filter Q bs) input =
     (case first_binding bs input of None \<Rightarrow> None | Some b \<Rightarrow> if Q b then Some b else None)"
proof (induction bs)
  case Nil
  then show ?case by (simp add: first_binding_def)
next
  case (Cons b bs)
  have "first_binding (filter Q bs) input = None" if "bd_Input b = input"
    using that Cons.prems by (auto simp: first_binding_None)
  then show ?case using Cons by (auto simp: first_binding_def)
qed

lemma first_binding_Some: "first_binding bs input = Some b \<Longrightarrow> b \<in> set bs \<and> bd_Input b = input"
  by (auto simp: first_binding_def find_Some_iff)

text \<open>The output a list gives an input: that of the first binding, unless it erases the input.\<close>

definition effective :: "binding list \<Rightarrow> key_stroke list \<Rightarrow> key_stroke list option" where
  "effective bs input =
     (case first_binding bs input of None \<Rightarrow> None
      | Some b \<Rightarrow> if bd_Output b = [] then None else Some (bd_Output b))"

lemma clean_first_binding:
  "first_binding (filterAndCleanBindings bs) input =
     (case first_binding bs input of None \<Rightarrow> None | Some b \<Rightarrow> if bd_Output b = [] then None else Some b)"
proof -
  have d: "distinct (map bd_Input (first_inputs [] bs))" by (rule first_inputs_distinct) simp
  have "first_binding (first_inputs [] bs) input = first_binding bs input"
    by (simp add: first_inputs_find first_binding_def[of "[]"])
  then show ?thesis
    unfolding filterAndCleanBindings_def first_binding_filter[OF d] by (auto split: option.split)
qed

lemma clean_mem: "(\<exists>b\<in>set (filterAndCleanBindings bs). bd_Input b = i) \<longleftrightarrow> effective bs i \<noteq> None"
proof -
  have "(\<exists>b\<in>set (filterAndCleanBindings bs). bd_Input b = i) \<longleftrightarrow>
      first_binding (filterAndCleanBindings bs) i \<noteq> None"
    by (auto simp: first_binding_def find_None_iff)
  then show ?thesis by (auto simp: clean_first_binding effective_def split: option.splits)
qed

lemma GetBinding_clean:
  "get_binding_from (filterAndCleanBindings bs) input False =
     (case effective bs input of
        Some out \<Rightarrow> BINDING_FOUND out
      | None \<Rightarrow> if \<exists>i. strict_prefix input i \<and> effective bs i \<noteq> None then BINDING_INCOMPLETE
                else BINDING_NOT_FOUND)"
proof -
  have "(\<exists>b\<in>set (filterAndCleanBindings bs). strict_prefix input (bd_Input b))
      \<longleftrightarrow> (\<exists>i. strict_prefix input i \<and> effective bs i \<noteq> None)"
    unfolding clean_mem[symmetric] by blast
  then show ?thesis
    by (auto simp: get_binding_from_eq clean_first_binding effective_def split: option.splits)
qed

text \<open>Cleaning a tail first changes nothing: an erased binding stays erased.\<close>

lemma effective_append_clean:
  "effective (xs @ filterAndCleanBindings ys) = effective (xs @ ys)"
  by (rule ext) (auto simp: effective_def first_binding_append clean_first_binding split: option.splits)

text \<open>
  The bindings that count in a context, most specific first: the later matching sections
  come first, and a section without globals hides what follows.
\<close>

fun context_list :: "binds_context_type \<Rightarrow> string \<Rightarrow> binding_context list \<Rightarrow> binding list \<Rightarrow> binding list" where
  "context_list ct reg [] bs = bs"
| "context_list ct reg (cb # cbs) bs =
     context_list ct reg cbs
       (if bc_ContextType cb = ct \<and> bc_Regex cb reg then
          kb_Bindings (bc_Bindings cb) @ (if kb_Globals (bc_Bindings cb) then bs else [])
        else bs)"

lemma context_list_cong:
  "effective as = effective bs \<Longrightarrow> (\<And>xs. effective (xs @ as) = effective (xs @ bs)) \<Longrightarrow>
     effective (context_list ct reg cbs as) = effective (context_list ct reg cbs bs)"
proof (induction cbs arbitrary: as bs)
  case Nil
  then show ?case by simp
next
  case (Cons cb cbs)
  show ?case unfolding context_list.simps
  proof (rule Cons.IH)
    fix xs
    show "effective (xs @ (if bc_ContextType cb = ct \<and> bc_Regex cb reg then
          kb_Bindings (bc_Bindings cb) @ (if kb_Globals (bc_Bindings cb) then as else []) else as))
      = effective (xs @ (if bc_ContextType cb = ct \<and> bc_Regex cb reg then
          kb_Bindings (bc_Bindings cb) @ (if kb_Globals (bc_Bindings cb) then bs else []) else bs))"
      using Cons.prems(2)[of xs] Cons.prems(2)[of "xs @ kb_Bindings (bc_Bindings cb)"] by auto
  qed (use Cons.prems in auto)
qed

lemma contextual_walk_effective:
  "effective (kb_Bindings (contextual_walk ct reg cbs c)) = effective (context_list ct reg cbs (kb_Bindings c))"
proof (induction cbs arbitrary: c)
  case Nil
  then show ?case by simp
next
  case (Cons cb cbs)
  let ?b = "bc_Bindings cb"
  show ?case
  proof (cases "bc_ContextType cb = ct \<and> bc_Regex cb reg")
    case False
    then show ?thesis using Cons.IH[of c] by auto
  next
    case True
    let ?l = "kb_Bindings ?b @ (if kb_Globals ?b then kb_Bindings c else [])"
    have m: "kb_Bindings (merge2 ?b c) = filterAndCleanBindings ?l" by (simp add: merge2_def)
    have "effective (context_list ct reg cbs (filterAndCleanBindings ?l)) = effective (context_list ct reg cbs ?l)"
      using effective_append_clean[of "[]" ?l] by (intro context_list_cong effective_append_clean) auto
    then show ?thesis using Cons.IH[of "merge2 ?b c"] True by (simp add: m)
  qed
qed

subsection \<open>Properties\<close>

text \<open>
  C15. What a merged table answers to an input: the output of the first binding of this
  input, in the first table or, unless that has no globals, in the second; an empty output
  erases the binding; otherwise "incomplete" exactly when some longer input is bound.
\<close>

theorem merged_GetBinding:
  "GetBinding (merge2 a b) input =
     (let bs = kb_Bindings a @ (if kb_Globals a then kb_Bindings b else [])
      in case effective bs input of
           Some out \<Rightarrow> BINDING_FOUND out
         | None \<Rightarrow> if \<exists>i. strict_prefix input i \<and> effective bs i \<noteq> None then BINDING_INCOMPLETE
                   else BINDING_NOT_FOUND)"
proof -
  have "merged_inputs [a, b] = kb_Bindings a @ (if kb_Globals a then kb_Bindings b else [])" by simp
  then show ?thesis unfolding GetBinding_def merge2_def key_bindings.sel GetBinding_clean Let_def by (simp only:)
qed

text \<open>
  C16. The table of a context (the walk over the matching sections, each merged over the
  result so far) binds every input as the most specific list does: the later matching
  section first, then the earlier ones, then the base, an empty output in any of them
  erasing what follows.
\<close>

theorem contextual_effective:
  "effective (kb_Bindings (contextual base ct reg)) =
     (if kb_contextualCounts base ct = 0 then effective (kb_Bindings base)
      else effective (context_list ct reg (kb_contextualBinds base) (kb_Bindings base)))"
  by (simp add: contextual_def contextual_walk_effective)

text \<open>
  A key name that ends in a dash after its modifiers is not an error: \<open><C->\<close> is
  accepted as the control key with the replacement character U+FFFD.
\<close>

lemma parse_dangling_dash:
  "ParseKeyStrokes vx ''<C->'' = Inr [\<lparr>ks_Modifiers = {ModCtrl}, ks_Key = RuneError\<rparr>]"
  by code_simp

end
