(* ===== verification/JwzHeap.thy ===== *)
theory JwzHeap
  imports GoStrings
begin

text \<open>
  \<open>lib/jwz/threadcontainer.go\<close> and \<open>lib/jwz/threadable.go\<close>: the containers of the threading
  algorithm.  They are linked by mutable pointers, so they live in a heap: a list of
  records, a pointer being an index of the list and nil being \<open>None\<close>.  What the
  algorithm calls of a message is the record \<open>threadable_ops\<close> of the interface's
  functions.  A dummy made by \<open>MakeDummy\<close> is named by the container it is made for.
  The recursions over pointers take fuel; \<open>None\<close> means that it ran out (the code would
  not return) or that a nil pointer is dereferenced (the code panics).
\<close>

datatype 'm threadable = Real 'm | DummyFor nat string

record 'm threadable_ops =
  op_MessageThreadID :: "'m \<Rightarrow> string"
  op_MessageThreadReferences :: "'m \<Rightarrow> string list"
  op_SimplifiedSubject :: "'m \<Rightarrow> string"
  op_SubjectIsReply :: "'m \<Rightarrow> bool"
  op_IsDummy :: "'m \<Rightarrow> bool"

record 'm container =
  tc_threadable :: "'m threadable option"
  tc_parent :: "nat option"
  tc_child :: "nat option"
  tc_next :: "nat option"
  tc_forID :: string

type_synonym 'm heap = "'m container list"

definition new_container :: "'m threadable option \<Rightarrow> string \<Rightarrow> 'm container" where
  "new_container t i =
     \<lparr>tc_threadable = t, tc_parent = None, tc_child = None, tc_next = None, tc_forID = i\<rparr>"

text \<open>Field assignments.\<close>

definition set_threadable :: "'m heap \<Rightarrow> nat \<Rightarrow> 'm threadable option \<Rightarrow> 'm heap" where
  "set_threadable h a v = h[a := (h ! a)\<lparr>tc_threadable := v\<rparr>]"
definition set_parent :: "'m heap \<Rightarrow> nat \<Rightarrow> nat option \<Rightarrow> 'm heap" where
  "set_parent h a v = h[a := (h ! a)\<lparr>tc_parent := v\<rparr>]"
definition set_child :: "'m heap \<Rightarrow> nat \<Rightarrow> nat option \<Rightarrow> 'm heap" where
  "set_child h a v = h[a := (h ! a)\<lparr>tc_child := v\<rparr>]"
definition set_next :: "'m heap \<Rightarrow> nat \<Rightarrow> nat option \<Rightarrow> 'm heap" where
  "set_next h a v = h[a := (h ! a)\<lparr>tc_next := v\<rparr>]"

subsection \<open>findChild\<close>

text \<open>The loop of \<open>findChild\<close> from the sibling \<open>t\<close> on, with \<open>found\<close> as it stands.\<close>

fun find_chain :: "nat \<Rightarrow> 'm heap \<Rightarrow> nat option \<Rightarrow> nat \<Rightarrow> bool \<Rightarrow> bool option" where
  "find_chain 0 h t target found = None"
| "find_chain (Suc n) h None target found = Some found"
| "find_chain (Suc n) h (Some a) target found =
     (case (if found then Some True
            else if a = target then Some True
            else find_chain n h (tc_child (h ! a)) target False) of
        None \<Rightarrow> None
      | Some f \<Rightarrow> find_chain n h (tc_next (h ! a)) target f)"

definition jwz_fuel :: "'m heap \<Rightarrow> nat" where "jwz_fuel h = Suc (length h)"

definition findChild :: "'m heap \<Rightarrow> nat \<Rightarrow> nat \<Rightarrow> bool option" where
  "findChild h tc target = find_chain (jwz_fuel h) h (tc_child (h ! tc)) target False"

subsection \<open>reverseChildren, fillDummy and flush\<close>

text \<open>The pointer reversal: \<open>kid\<close> is redirected to \<open>prev\<close>; the head of the reversed chain is returned.\<close>

fun reverse_loop :: "nat \<Rightarrow> 'm heap \<Rightarrow> nat option \<Rightarrow> nat option \<Rightarrow> ('m heap \<times> nat option) option" where
  "reverse_loop 0 h prev kid = None"
| "reverse_loop (Suc n) h prev None = Some (h, prev)"
| "reverse_loop (Suc n) h prev (Some k) =
     reverse_loop n (set_next h k prev) (Some k) (tc_next (h ! k))"

fun reverse_children :: "nat \<Rightarrow> 'm heap \<Rightarrow> nat \<Rightarrow> 'm heap option"
  and reverse_kids :: "nat \<Rightarrow> 'm heap \<Rightarrow> nat option \<Rightarrow> 'm heap option" where
  "reverse_children 0 h tc = None"
| "reverse_children (Suc n) h tc =
     (case tc_child (h ! tc) of
        None \<Rightarrow> Some h
      | Some kid \<Rightarrow>
          (case reverse_loop (jwz_fuel h) h None (Some kid) of
             None \<Rightarrow> None
           | Some (h, first) \<Rightarrow>
               (let h = set_child h tc first in reverse_kids n h (tc_child (h ! tc)))))"
| "reverse_kids 0 h kid = None"
| "reverse_kids (Suc n) h None = Some h"
| "reverse_kids (Suc n) h (Some kid) =
     (case reverse_children n h kid of
        None \<Rightarrow> None
      | Some h \<Rightarrow> reverse_kids n h (tc_next (h ! kid)))"

fun fill_dummy :: "nat \<Rightarrow> 'm heap \<Rightarrow> nat option \<Rightarrow> 'm heap option" where
  "fill_dummy 0 h tc = None"
| "fill_dummy (Suc n) h None = Some h"
| "fill_dummy (Suc n) h (Some a) =
     (let h = (if tc_threadable (h ! a) = None \<and> tc_forID (h ! a) \<noteq> []
               then set_threadable h a (Some (DummyFor a (tc_forID (h ! a)))) else h)
      in case fill_dummy n h (tc_child (h ! a)) of
           None \<Rightarrow> None
         | Some h \<Rightarrow> fill_dummy n h (tc_next (h ! a)))"

text \<open>
  The links \<open>flush\<close> writes into the messages with \<open>SetChild\<close> and \<open>SetNext\<close>.  A container
  below the root without a message stops the flush of its subtree (the error is ignored
  by the callers).
\<close>

record 'm links =
  lk_child :: "('m threadable \<times> 'm threadable option) list"
  lk_next :: "('m threadable \<times> 'm threadable option) list"

definition get_child :: "'m links \<Rightarrow> 'm threadable \<Rightarrow> 'm threadable option" where
  "get_child l t = (case map_of (lk_child l) t of None \<Rightarrow> None | Some x \<Rightarrow> x)"

definition get_next :: "'m links \<Rightarrow> 'm threadable \<Rightarrow> 'm threadable option" where
  "get_next l t = (case map_of (lk_next l) t of None \<Rightarrow> None | Some x \<Rightarrow> x)"

definition threadable_at :: "'m heap \<Rightarrow> nat option \<Rightarrow> 'm threadable option" where
  "threadable_at h p = (case p of None \<Rightarrow> None | Some a \<Rightarrow> tc_threadable (h ! a))"

definition put_child :: "'m links \<Rightarrow> 'm threadable option \<Rightarrow> 'm threadable option \<Rightarrow> 'm links" where
  "put_child l t v = (case t of None \<Rightarrow> l | Some x \<Rightarrow> l\<lparr>lk_child := (x, v) # lk_child l\<rparr>)"

definition put_next :: "'m links \<Rightarrow> 'm threadable option \<Rightarrow> 'm threadable option \<Rightarrow> 'm links" where
  "put_next l t v = (case t of None \<Rightarrow> l | Some x \<Rightarrow> l\<lparr>lk_next := (x, v) # lk_next l\<rparr>)"

fun flush :: "nat \<Rightarrow> 'm heap \<Rightarrow> 'm links \<Rightarrow> nat option \<Rightarrow> ('m heap \<times> 'm links) option" where
  "flush 0 h l tc = None"
| "flush (Suc n) h l None = Some (h, l)"
| "flush (Suc n) h l (Some a) =
     (if tc_parent (h ! a) \<noteq> None \<and> tc_threadable (h ! a) = None then Some (h, l)
      else
        (let h = set_parent h a None;
             l = put_child l (tc_threadable (h ! a)) (threadable_at h (tc_child (h ! a)))
         in case flush n h l (tc_child (h ! a)) of
              None \<Rightarrow> None
            | Some (h, l) \<Rightarrow>
                (let h = set_child h a None;
                     l = put_next l (tc_threadable (h ! a)) (threadable_at h (tc_next (h ! a)))
                 in case flush n h l (tc_next (h ! a)) of
                      None \<Rightarrow> None
                    | Some (h, l) \<Rightarrow> Some (set_threadable (set_next h a None) a None, l))))"

subsection \<open>Chains and forests\<close>

text \<open>
  \<open>chain h p xs\<close>: following \<open>tc_next\<close> from the pointer \<open>p\<close> visits exactly the containers
  \<open>xs\<close>.  A heap is a forest when every container's child chain is a list \<open>kids\<close> without
  repetition of exactly the containers that have it as parent, no container is above
  itself, and a container without parent has no sibling.
\<close>

fun chain :: "'m heap \<Rightarrow> nat option \<Rightarrow> nat list \<Rightarrow> bool" where
  "chain h p [] \<longleftrightarrow> p = None"
| "chain h p (x # xs) \<longleftrightarrow> p = Some x \<and> x < length h \<and> chain h (tc_next (h ! x)) xs"

definition parent_rel :: "'m heap \<Rightarrow> (nat \<times> nat) set" where
  "parent_rel h = {(x, y). x < length h \<and> tc_parent (h ! x) = Some y}"

definition forest :: "'m heap \<Rightarrow> (nat \<Rightarrow> nat list) \<Rightarrow> bool" where
  "forest h kids \<longleftrightarrow>
     (\<forall>a<length h. chain h (tc_child (h ! a)) (kids a) \<and> distinct (kids a))
     \<and> (\<forall>a<length h. \<forall>x. x \<in> set (kids a) \<longleftrightarrow> (x, a) \<in> parent_rel h)
     \<and> (\<forall>x<length h. \<forall>y. tc_parent (h ! x) = Some y \<longrightarrow> y < length h)
     \<and> acyclic (parent_rel h)
     \<and> (\<forall>x<length h. tc_parent (h ! x) = None \<longrightarrow> tc_next (h ! x) = None)"

lemma chain_next_cong:
  "(\<And>x. x \<in> set xs \<Longrightarrow> x < length h' \<and> tc_next (h' ! x) = tc_next (h ! x)) \<Longrightarrow> chain h p xs \<Longrightarrow> chain h' p xs"
  by (induction xs arbitrary: p) auto

lemma chain_inj: "chain h p xs \<Longrightarrow> chain h p ys \<Longrightarrow> xs = ys"
proof (induction xs arbitrary: p ys)
  case Nil
  then show ?case by (cases ys) auto
next
  case (Cons x xs)
  then show ?case by (cases ys) auto
qed

lemma chain_bound: "chain h p xs \<Longrightarrow> x \<in> set xs \<Longrightarrow> x < length h"
  by (induction xs arbitrary: p) auto

lemma chain_split: "chain h p (us @ x # vs) \<Longrightarrow> x < length h \<and> chain h (tc_next (h ! x)) vs"
  by (induction us arbitrary: p) auto

subsection \<open>The successor relation of a forest\<close>

text \<open>The pointers \<open>findChild\<close> follows.\<close>

definition succ_rel :: "'m heap \<Rightarrow> (nat \<times> nat) set" where
  "succ_rel h = {(x, y). x < length h \<and> (tc_child (h ! x) = Some y \<or> tc_next (h ! x) = Some y)}"

lemma forestD:
  assumes "forest h kids"
  shows "a < length h \<Longrightarrow> chain h (tc_child (h ! a)) (kids a)"
    and "a < length h \<Longrightarrow> distinct (kids a)"
    and "a < length h \<Longrightarrow> x \<in> set (kids a) \<longleftrightarrow> (x, a) \<in> parent_rel h"
    and "acyclic (parent_rel h)"
    and "x < length h \<Longrightarrow> tc_parent (h ! x) = None \<Longrightarrow> tc_next (h ! x) = None"
    and "x < length h \<Longrightarrow> tc_parent (h ! x) = Some y \<Longrightarrow> y < length h"
  using assms by (auto simp: forest_def)

lemma forest_child_step:
  assumes "forest h kids" "x < length h" "tc_child (h ! x) = Some y"
  shows "y < length h" "(y, x) \<in> parent_rel h"
proof -
  have c: "chain h (Some y) (kids x)" using forestD(1)[OF assms(1,2)] assms(3) by simp
  then have "y \<in> set (kids x)" by (cases "kids x") auto
  then show "(y, x) \<in> parent_rel h" "y < length h"
    using forestD(3)[OF assms(1,2)] chain_bound[OF c] by blast+
qed

lemma forest_next_step:
  assumes "forest h kids" "x < length h" "tc_next (h ! x) = Some y"
  shows "\<exists>p us vs. p < length h \<and> (x, p) \<in> parent_rel h \<and> (y, p) \<in> parent_rel h
    \<and> kids p = us @ x # y # vs \<and> y < length h"
proof -
  obtain p where p: "tc_parent (h ! x) = Some p" using forestD(5)[OF assms(1,2)] assms(3) by fastforce
  have pl: "p < length h" using forestD(6)[OF assms(1,2) p] .
  have xp: "(x, p) \<in> parent_rel h" using p assms(2) by (simp add: parent_rel_def)
  then have "x \<in> set (kids p)" using forestD(3)[OF assms(1) pl] by blast
  then obtain us ws where k: "kids p = us @ x # ws" by (meson split_list)
  have "chain h (tc_child (h ! p)) (us @ x # ws)" using forestD(1)[OF assms(1) pl] k by simp
  then have "chain h (Some y) ws" using chain_split[of h _ us x ws] assms(3) by simp
  then obtain vs where ws: "ws = y # vs" and yl: "y < length h" by (cases ws) auto
  then have "y \<in> set (kids p)" using k by simp
  then have "(y, p) \<in> parent_rel h" using forestD(3)[OF assms(1) pl] by blast
  then show ?thesis using pl xp k ws yl by blast
qed

lemma parent_rel_unique: "(x, y) \<in> parent_rel h \<Longrightarrow> (x, z) \<in> parent_rel h \<Longrightarrow> y = z"
  by (simp add: parent_rel_def)

definition above :: "'m heap \<Rightarrow> nat \<Rightarrow> nat set" where
  "above h x = {z. (x, z) \<in> (parent_rel h)\<^sup>+}"

lemma above_step:
  assumes "(x, p) \<in> parent_rel h"
  shows "above h x = insert p (above h p)"
proof -
  have "(x, z) \<in> (parent_rel h)\<^sup>+ \<longleftrightarrow> z = p \<or> (p, z) \<in> (parent_rel h)\<^sup>+" for z
    using assms parent_rel_unique[OF assms]
    by (metis (no_types, lifting) r_into_trancl' tranclD trancl_into_trancl2 rtranclD)
  then show ?thesis by (auto simp: above_def)
qed

lemma forest_above_finite:
  assumes "forest h kids"
  shows "finite (above h x)"
proof -
  have "above h x \<subseteq> {..<length h}"
  proof
    fix z assume "z \<in> above h x"
    then have "(x, z) \<in> (parent_rel h)\<^sup>+" by (simp add: above_def)
    then show "z \<in> {..<length h}"
      by (induction rule: trancl_induct) (auto simp: parent_rel_def dest: forestD(6)[OF assms])
  qed
  then show ?thesis by (rule finite_subset) simp
qed

definition depth_of :: "'m heap \<Rightarrow> nat \<Rightarrow> nat" where
  "depth_of h x = card (above h x)"

definition pos_of :: "'m heap \<Rightarrow> (nat \<Rightarrow> nat list) \<Rightarrow> nat \<Rightarrow> nat" where
  "pos_of h kids x =
     (case tc_parent (h ! x) of None \<Rightarrow> 0 | Some p \<Rightarrow> length (takeWhile (\<lambda>z. z \<noteq> x) (kids p)))"

lemma depth_parent:
  assumes "forest h kids" "(x, p) \<in> parent_rel h"
  shows "depth_of h x = Suc (depth_of h p)"
proof -
  have "p \<notin> above h p" using forestD(4)[OF assms(1)] by (auto simp: above_def acyclic_def)
  then show ?thesis
    unfolding depth_of_def above_step[OF assms(2)] using forest_above_finite[OF assms(1)] by simp
qed

lemma forest_rank_step:
  assumes f: "forest h kids" and s: "(x, y) \<in> succ_rel h"
  shows "depth_of h x < depth_of h y \<or> depth_of h x = depth_of h y \<and> pos_of h kids x < pos_of h kids y"
proof -
  have xl: "x < length h" using s by (simp add: succ_rel_def)
  from s consider "tc_child (h ! x) = Some y" | "tc_next (h ! x) = Some y" by (auto simp: succ_rel_def)
  then show ?thesis
  proof cases
    case 1
    then show ?thesis using depth_parent[OF f forest_child_step(2)[OF f xl 1]] by simp
  next
    case 2
    from forest_next_step[OF f xl 2] obtain p us vs where p: "p < length h"
      "(x, p) \<in> parent_rel h" "(y, p) \<in> parent_rel h" "kids p = us @ x # y # vs" by blast
    have d: "distinct (us @ x # y # vs)" using forestD(2)[OF f p(1)] p(4) by simp
    have "takeWhile (\<lambda>z. z \<noteq> x) (kids p) = us"
      unfolding p(4) using d by (subst takeWhile_append2) auto
    moreover have "takeWhile (\<lambda>z. z \<noteq> y) (kids p) = us @ [x]"
      unfolding p(4) using d by (subst takeWhile_append2) auto
    moreover have "tc_parent (h ! x) = Some p" "tc_parent (h ! y) = Some p"
      using p(2,3) by (auto simp: parent_rel_def)
    ultimately have "pos_of h kids x < pos_of h kids y" by (simp add: pos_of_def)
    then show ?thesis using depth_parent[OF f p(2)] depth_parent[OF f p(3)] by simp
  qed
qed

lemma forest_succ_acyclic:
  assumes "forest h kids"
  shows "acyclic (succ_rel h)"
proof (rule acyclicI, rule allI, rule notI)
  fix x assume "(x, x) \<in> (succ_rel h)\<^sup>+"
  moreover have "(x, y) \<in> (succ_rel h)\<^sup>+ \<Longrightarrow>
      depth_of h x < depth_of h y \<or> depth_of h x = depth_of h y \<and> pos_of h kids x < pos_of h kids y" for y
    by (induction rule: trancl_induct) (use forest_rank_step[OF assms] in force)+
  ultimately show False by blast
qed

lemma forest_succ_bound:
  assumes "forest h kids" "(x, y) \<in> succ_rel h"
  shows "y < length h"
  using assms(2) forest_child_step(1)[OF assms(1)] forest_next_step[OF assms(1)]
  by (fastforce simp: succ_rel_def)

subsection \<open>findChild decides the descent\<close>

definition reach :: "'m heap \<Rightarrow> nat option \<Rightarrow> nat set" where
  "reach h p = (case p of None \<Rightarrow> {} | Some a \<Rightarrow> (succ_rel h)\<^sup>* `` {a})"

lemma reach_bound:
  assumes "forest h kids" "\<And>a. p = Some a \<Longrightarrow> a < length h"
  shows "reach h p \<subseteq> {..<length h}"
proof
  fix x assume "x \<in> reach h p"
  then obtain a where a: "p = Some a" "(a, x) \<in> (succ_rel h)\<^sup>*" by (auto simp: reach_def split: option.splits)
  from a(2) assms(2)[OF a(1)] show "x \<in> {..<length h}"
    by (induction rule: rtrancl_induct) (auto dest: forest_succ_bound[OF assms(1)])
qed

lemma reach_Some:
  assumes "a < length h"
  shows "reach h (Some a) = insert a (reach h (tc_child (h ! a)) \<union> reach h (tc_next (h ! a)))"
proof -
  have "(a, x) \<in> (succ_rel h)\<^sup>* \<longleftrightarrow> x = a \<or> (\<exists>y. (a, y) \<in> succ_rel h \<and> (y, x) \<in> (succ_rel h)\<^sup>*)" for x
    by (auto elim: converse_rtranclE intro: converse_rtrancl_into_rtrancl)
  then show ?thesis using assms by (auto simp: reach_def succ_rel_def split: option.splits)
qed

lemma find_chain_reach:
  assumes f: "forest h kids"
  shows "(\<And>a. p = Some a \<Longrightarrow> a < length h) \<Longrightarrow> card (reach h p) < n \<Longrightarrow>
     find_chain n h p target found = Some (found \<or> target \<in> reach h p)"
proof (induction n arbitrary: p found)
  case 0
  then show ?case by simp
next
  case (Suc n)
  show ?case
  proof (cases p)
    case None
    then show ?thesis by (simp add: reach_def)
  next
    case (Some a)
    then have al: "a < length h" using Suc.prems(1) by simp
    have bnd: "q = Some b \<Longrightarrow> b < length h" if "q = tc_child (h ! a) \<or> q = tc_next (h ! a)" for q b
      using that al forest_succ_bound[OF f, of a b] by (auto simp: succ_rel_def)
    have small: "card (reach h q) < n" if q: "q = tc_child (h ! a) \<or> q = tc_next (h ! a)" for q
    proof -
      have "a \<notin> reach h q"
      proof
        assume "a \<in> reach h q"
        then obtain b where "q = Some b" "(b, a) \<in> (succ_rel h)\<^sup>*" by (auto simp: reach_def split: option.splits)
        moreover then have "(a, b) \<in> succ_rel h" using q al by (auto simp: succ_rel_def)
        ultimately have "(a, a) \<in> (succ_rel h)\<^sup>+" by (meson rtrancl_into_trancl2)
        then show False using forest_succ_acyclic[OF f] by (simp add: acyclic_def)
      qed
      moreover have "reach h q \<subseteq> reach h (Some a)" unfolding reach_Some[OF al] using q by auto
      moreover have "finite (reach h (Some a))"
        using reach_bound[OF f, of "Some a"] al by (simp add: finite_subset)
      moreover have "a \<in> reach h (Some a)" by (simp add: reach_def)
      ultimately have "card (reach h q) < card (reach h (Some a))" by (intro psubset_card_mono) auto
      then show ?thesis using Suc.prems(2) Some by simp
    qed
    have c: "find_chain n h (tc_child (h ! a)) target False = Some (target \<in> reach h (tc_child (h ! a)))"
      by (subst Suc.IH) (use bnd small in auto)
    have nx: "find_chain n h (tc_next (h ! a)) target g = Some (g \<or> target \<in> reach h (tc_next (h ! a)))" for g
      by (subst Suc.IH) (use bnd small in auto)
    show ?thesis unfolding Some using nx[of True] al by (cases found; cases "a = target") (auto simp: c nx reach_Some)
  qed
qed

lemma reach_child_below:
  assumes f: "forest h kids" and al: "a < length h"
  shows "x \<in> reach h (tc_child (h ! a)) \<longleftrightarrow> (x, a) \<in> (parent_rel h)\<^sup>+"
proof
  assume "x \<in> reach h (tc_child (h ! a))"
  then obtain b where b: "tc_child (h ! a) = Some b" "(b, x) \<in> (succ_rel h)\<^sup>*"
    by (auto simp: reach_def split: option.splits)
  from b(2) show "(x, a) \<in> (parent_rel h)\<^sup>+"
  proof (induction rule: rtrancl_induct)
    case base
    then show ?case using forest_child_step(2)[OF f al b(1)] by blast
  next
    case (step y z)
    have yl: "y < length h" using step(2) by (simp add: succ_rel_def)
    from step(2) consider "tc_child (h ! y) = Some z" | "tc_next (h ! y) = Some z" by (auto simp: succ_rel_def)
    then show ?case
    proof cases
      case 1
      then show ?thesis using forest_child_step(2)[OF f yl 1] step.IH by (meson trancl_into_trancl2)
    next
      case 2
      from forest_next_step[OF f yl 2] obtain p where p: "(y, p) \<in> parent_rel h" "(z, p) \<in> parent_rel h" by blast
      have "a \<in> above h y" using step.IH by (simp add: above_def)
      then have "a \<in> above h z" using above_step[OF p(1)] above_step[OF p(2)] by simp
      then show ?thesis by (simp add: above_def)
    qed
  qed
next
  have kids_reach: "x \<in> reach h (tc_child (h ! p))" if xp: "(x, p) \<in> parent_rel h" and pl: "p < length h" for x p
  proof -
    have "x \<in> set (kids p)" using forestD(3)[OF f pl] xp by blast
    moreover have "chain h q ks \<Longrightarrow> y \<in> set ks \<Longrightarrow> y \<in> reach h q" for q ks y
    proof (induction ks arbitrary: q)
      case Nil
      then show ?case by simp
    next
      case (Cons k ks)
      then have q: "q = Some k" "k < length h" "chain h (tc_next (h ! k)) ks" by auto
      then show ?case using Cons.IH[OF q(3)] Cons.prems(2) by (auto simp: reach_Some)
    qed
    ultimately show ?thesis using forestD(1)[OF f pl] by blast
  qed
  have trans: "z \<in> reach h p \<Longrightarrow> w \<in> reach h (tc_child (h ! z)) \<Longrightarrow> z < length h \<Longrightarrow> w \<in> reach h p" for z w p
  proof -
    assume z: "z \<in> reach h p" "w \<in> reach h (tc_child (h ! z))" "z < length h"
    then obtain a b where "p = Some a" "(a, z) \<in> (succ_rel h)\<^sup>*" "tc_child (h ! z) = Some b" "(b, w) \<in> (succ_rel h)\<^sup>*"
      by (auto simp: reach_def split: option.splits)
    moreover then have "(z, b) \<in> succ_rel h" using z(3) by (simp add: succ_rel_def)
    ultimately show "w \<in> reach h p" by (auto simp: reach_def intro: rtrancl_trans converse_rtrancl_into_rtrancl)
  qed
  assume "(x, a) \<in> (parent_rel h)\<^sup>+"
  then show "x \<in> reach h (tc_child (h ! a))"
  proof (induction rule: converse_trancl_induct)
    case (base y)
    then show ?case using kids_reach al by blast
  next
    case (step y z)
    have zl: "z < length h" using step(1) forestD(6)[OF f] by (auto simp: parent_rel_def)
    from trans[OF step.IH kids_reach[OF step(1) zl] zl] show ?case .
  qed
qed

text \<open>The fuel always suffices in a forest, and the answer is the descent.\<close>

lemma findChild_correct:
  assumes "forest h kids" "a < length h"
  shows "findChild h a target = Some ((target, a) \<in> (parent_rel h)\<^sup>+)"
proof -
  have b: "\<And>b. tc_child (h ! a) = Some b \<Longrightarrow> b < length h"
    using forest_child_step(1)[OF assms] by blast
  have "card (reach h (tc_child (h ! a))) \<le> card {..<length h}"
    using reach_bound[OF assms(1) b] by (intro card_mono) auto
  then show ?thesis
    using find_chain_reach[OF assms(1), of "tc_child (h ! a)" "jwz_fuel h" target False] b
      reach_child_below[OF assms]
    by (simp add: findChild_def jwz_fuel_def)
qed

end
