(* ===== verification/JwzBuild.thy ===== *)
theory JwzBuild
  imports JwzHeap
begin

text \<open>
  \<open>buildContainer\<close> of \<open>lib/jwz/jwz.go\<close>: wrapping each message into a container, indexing it
  by message id and linking the containers along the references.  The id table is a map;
  the errors of the Go code and a stuck recursion are values of \<open>jwz_error\<close>.  The lemmas
  show that the containers stay a forest whatever the references are.
\<close>

datatype jwz_error = NotInParent | NextWithoutParent | DummyRoot | RootHasNext | Stuck

record 'm threader =
  th_heap :: "'m heap"
  th_idTable :: "string \<rightharpoonup> nat"
  th_bogusIDCount :: nat

definition NewThreader :: "'m threader" where
  "NewThreader = \<lparr>th_heap = [], th_idTable = Map.empty, th_bogusIDCount = 0\<rparr>"

definition bogus_id :: "nat \<Rightarrow> string" where
  "bogus_id k = ''<Bogus-id:'' @ itoa k @ ''>''"

text \<open>A new container under an id.\<close>

definition new_entry :: "string \<Rightarrow> 'm container \<Rightarrow> 'm threader \<Rightarrow> 'm threader \<times> nat" where
  "new_entry i c th =
     (th\<lparr>th_heap := th_heap th @ [c], th_idTable := (th_idTable th)(i \<mapsto> length (th_heap th))\<rparr>,
      length (th_heap th))"

text \<open>The container of the message itself.\<close>

definition message_container :: "'m threadable_ops \<Rightarrow> 'm \<Rightarrow> 'm threader \<Rightarrow> 'm threader \<times> nat" where
  "message_container ops m th =
     (let tid = op_MessageThreadID ops m
      in case th_idTable th tid of
           Some c \<Rightarrow>
             if tc_threadable (th_heap th ! c) \<noteq> None then
               new_entry (bogus_id (th_bogusIDCount th)) (new_container (Some (Real m)) tid)
                 (th\<lparr>th_bogusIDCount := th_bogusIDCount th + 1\<rparr>)
             else (th\<lparr>th_heap := set_threadable (th_heap th) c (Some (Real m))\<rparr>, c)
         | None \<Rightarrow> new_entry tid (new_container (Some (Real m)) tid) th)"

definition ref_container :: "string \<Rightarrow> 'm threader \<Rightarrow> 'm threader \<times> nat" where
  "ref_container refString th =
     (case th_idTable th refString of
        Some ref \<Rightarrow> (th, ref)
      | None \<Rightarrow> new_entry refString (new_container None refString) th)"

text \<open>\<open>a.parent = p; a.next = p.child; p.child = a\<close>\<close>

definition attach :: "'m heap \<Rightarrow> nat \<Rightarrow> nat \<Rightarrow> 'm heap" where
  "attach h p a = set_child (set_next (set_parent h a (Some p)) a (tc_child (h ! p))) p (Some a)"

definition link_ref :: "'m threader \<Rightarrow> nat option \<Rightarrow> nat \<Rightarrow> jwz_error + 'm threader" where
  "link_ref th parentRef ref =
     (case parentRef of
        None \<Rightarrow> Inr th
      | Some p \<Rightarrow>
          if tc_parent (th_heap th ! ref) = None \<and> p \<noteq> ref then
            (case findChild (th_heap th) ref p of
               None \<Rightarrow> Inl Stuck
             | Some True \<Rightarrow> Inr th
             | Some False \<Rightarrow>
                 (case findChild (th_heap th) p ref of
                    None \<Rightarrow> Inl Stuck
                  | Some True \<Rightarrow> Inr th
                  | Some False \<Rightarrow> Inr (th\<lparr>th_heap := attach (th_heap th) p ref\<rparr>)))
          else Inr th)"

fun link_refs :: "'m threader \<Rightarrow> string list \<Rightarrow> nat option \<Rightarrow> jwz_error + 'm threader \<times> nat option" where
  "link_refs th [] parentRef = Inr (th, parentRef)"
| "link_refs th (refString # refs) parentRef =
     (case ref_container refString th of
        (th, ref) \<Rightarrow>
          (case link_ref th parentRef ref of
             Inl e \<Rightarrow> Inl e
           | Inr th \<Rightarrow> link_refs th refs (Some ref)))"

text \<open>The search of \<open>c\<close> in the child list of its parent.\<close>

fun find_in_chain :: "nat \<Rightarrow> 'm heap \<Rightarrow> nat option \<Rightarrow> nat option \<Rightarrow> nat \<Rightarrow> (nat option \<times> nat option) option" where
  "find_in_chain 0 h prev rest c = None"
| "find_in_chain (Suc n) h prev None c = Some (prev, None)"
| "find_in_chain (Suc n) h prev (Some r) c =
     (if r = c then Some (prev, Some r) else find_in_chain n h (Some r) (tc_next (h ! r)) c)"

definition detach :: "'m heap \<Rightarrow> nat \<Rightarrow> nat \<Rightarrow> jwz_error + 'm heap" where
  "detach h c p =
     (case find_in_chain (jwz_fuel h) h None (tc_child (h ! p)) c of
        None \<Rightarrow> Inl Stuck
      | Some (prev, None) \<Rightarrow> Inl NotInParent
      | Some (prev, Some _) \<Rightarrow>
          (let h' = (case prev of None \<Rightarrow> set_child h p (tc_next (h ! c))
                     | Some q \<Rightarrow> set_next h q (tc_next (h ! c)))
           in Inr (set_parent (set_next h' c None) c None)))"

definition drop_parent :: "'m heap \<Rightarrow> nat \<Rightarrow> jwz_error + 'm heap" where
  "drop_parent h c = (case tc_parent (h ! c) of None \<Rightarrow> Inr h | Some p \<Rightarrow> detach h c p)"

definition buildContainer :: "'m threadable_ops \<Rightarrow> 'm \<Rightarrow> 'm threader \<Rightarrow> jwz_error + 'm threader" where
  "buildContainer ops m th =
     (case message_container ops m th of
        (th, c) \<Rightarrow>
          (case link_refs th (op_MessageThreadReferences ops m) None of
             Inl e \<Rightarrow> Inl e
           | Inr (th, parentRef) \<Rightarrow>
               (case (case parentRef of
                        None \<Rightarrow> Some None
                      | Some p \<Rightarrow>
                          if p = c then Some None
                          else (case findChild (th_heap th) c p of
                                  None \<Rightarrow> None
                                | Some circular \<Rightarrow> Some (if circular then None else Some p))) of
                  None \<Rightarrow> Inl Stuck
                | Some parentRef \<Rightarrow>
                    (case drop_parent (th_heap th) c of
                       Inl e \<Rightarrow> Inl e
                     | Inr h \<Rightarrow>
                         Inr (th\<lparr>th_heap := (case parentRef of None \<Rightarrow> h | Some p \<Rightarrow> attach h p c)\<rparr>)))))"

fun build_all :: "'m threadable_ops \<Rightarrow> 'm list \<Rightarrow> 'm threader \<Rightarrow> jwz_error + 'm threader" where
  "build_all ops [] th = Inr th"
| "build_all ops (m # ms) th =
     (if \<not> op_IsDummy ops m then
        (case buildContainer ops m th of Inl e \<Rightarrow> Inl e | Inr th \<Rightarrow> build_all ops ms th)
      else build_all ops ms th)"

subsection \<open>Field updates\<close>

named_theorems heap_simps

lemma set_field_length [simp, heap_simps]:
  "length (set_threadable h a v) = length h" "length (set_parent h a w) = length h"
  "length (set_child h a w) = length h" "length (set_next h a w) = length h"
  by (simp_all add: set_threadable_def set_parent_def set_child_def set_next_def)

lemma update_nth:
  "h[a := f (h ! a)] ! x = (if x = a \<and> a < length h then f (h ! a) else h ! x)"
  by (cases "a < length h") (simp_all add: nth_list_update list_update_beyond)

lemma set_field_parent [simp, heap_simps]:
  "tc_parent (set_threadable h a v ! x) = tc_parent (h ! x)"
  "a < length h \<Longrightarrow> tc_parent (set_parent h a w ! x) = (if x = a then w else tc_parent (h ! x))"
  "tc_parent (set_child h a w ! x) = tc_parent (h ! x)"
  "tc_parent (set_next h a w ! x) = tc_parent (h ! x)"
  by (simp_all add: set_threadable_def set_parent_def set_child_def set_next_def update_nth)

lemma set_field_child [simp, heap_simps]:
  "tc_child (set_threadable h a v ! x) = tc_child (h ! x)"
  "tc_child (set_parent h a w ! x) = tc_child (h ! x)"
  "a < length h \<Longrightarrow> tc_child (set_child h a w ! x) = (if x = a then w else tc_child (h ! x))"
  "tc_child (set_next h a w ! x) = tc_child (h ! x)"
  by (simp_all add: set_threadable_def set_parent_def set_child_def set_next_def update_nth)

lemma set_field_next [simp, heap_simps]:
  "tc_next (set_threadable h a v ! x) = tc_next (h ! x)"
  "tc_next (set_parent h a w ! x) = tc_next (h ! x)"
  "tc_next (set_child h a w ! x) = tc_next (h ! x)"
  "a < length h \<Longrightarrow> tc_next (set_next h a w ! x) = (if x = a then w else tc_next (h ! x))"
  by (simp_all add: set_threadable_def set_parent_def set_child_def set_next_def update_nth)

lemma set_field_threadable [simp, heap_simps]:
  "a < length h \<Longrightarrow> tc_threadable (set_threadable h a v ! x) = (if x = a then v else tc_threadable (h ! x))"
  "tc_threadable (set_parent h a w ! x) = tc_threadable (h ! x)"
  "tc_threadable (set_child h a w ! x) = tc_threadable (h ! x)"
  "tc_threadable (set_next h a w ! x) = tc_threadable (h ! x)"
  by (simp_all add: set_threadable_def set_parent_def set_child_def set_next_def update_nth)

subsection \<open>The forest under the four changes\<close>

lemma forestI:
  assumes "\<And>a. a < length h \<Longrightarrow> chain h (tc_child (h ! a)) (kids a)"
    and "\<And>a. a < length h \<Longrightarrow> distinct (kids a)"
    and "\<And>a x. a < length h \<Longrightarrow> x \<in> set (kids a) \<longleftrightarrow> (x, a) \<in> parent_rel h"
    and "\<And>x y. x < length h \<Longrightarrow> tc_parent (h ! x) = Some y \<Longrightarrow> y < length h"
    and "acyclic (parent_rel h)"
    and "\<And>x. x < length h \<Longrightarrow> tc_parent (h ! x) = None \<Longrightarrow> tc_next (h ! x) = None"
  shows "forest h kids"
  using assms by (auto simp: forest_def)

text \<open>Only the links matter.\<close>

lemma forest_links_cong:
  assumes "forest h kids" "length h' = length h"
    and "\<And>x. x < length h \<Longrightarrow> tc_parent (h' ! x) = tc_parent (h ! x)
      \<and> tc_child (h' ! x) = tc_child (h ! x) \<and> tc_next (h' ! x) = tc_next (h ! x)"
  shows "forest h' kids"
proof -
  have P: "parent_rel h' = parent_rel h" using assms(2,3) by (auto simp: parent_rel_def)
  show ?thesis
  proof (rule forestI)
    fix a assume a: "a < length h'"
    have al: "a < length h" using a assms(2) by simp
    have ch: "chain h (tc_child (h ! a)) (kids a)" by (rule forestD(1)[OF assms(1) al])
    have "chain h' (tc_child (h ! a)) (kids a)"
    proof (rule chain_next_cong[OF _ ch])
      fix x assume "x \<in> set (kids a)"
      then have "x < length h" by (rule chain_bound[OF ch])
      then show "x < length h' \<and> tc_next (h' ! x) = tc_next (h ! x)" using assms(2,3) by simp
    qed
    then show "chain h' (tc_child (h' ! a)) (kids a)" using assms(3)[OF al] by simp
    show "distinct (kids a)" by (rule forestD(2)[OF assms(1) al])
    fix x show "x \<in> set (kids a) \<longleftrightarrow> (x, a) \<in> parent_rel h'" unfolding P by (rule forestD(3)[OF assms(1) al])
  next
    show "acyclic (parent_rel h')" unfolding P by (rule forestD(4)[OF assms(1)])
  next
    fix x assume x: "x < length h'"
    then have xl: "x < length h" using assms(2) by simp
    show "tc_parent (h' ! x) = Some y \<Longrightarrow> y < length h'" for y
      using forestD(6)[OF assms(1) xl] assms(2) assms(3)[OF xl] by simp
    show "tc_parent (h' ! x) = None \<Longrightarrow> tc_next (h' ! x) = None"
      using forestD(5)[OF assms(1) xl] assms(3)[OF xl] by simp
  qed
qed

lemma forest_set_threadable: "forest h kids \<Longrightarrow> forest (set_threadable h a v) kids"
  by (rule forest_links_cong) auto

lemma parent_rel_append_new:
  assumes "tc_parent c = None"
  shows "parent_rel (h @ [c]) = parent_rel h"
  using assms by (auto simp: parent_rel_def nth_append less_Suc_eq)

lemma forest_append_new:
  assumes f: "forest h kids" and c: "tc_parent c = None" "tc_child c = None" "tc_next c = None"
  shows "forest (h @ [c]) (kids(length h := []))"
proof -
  note P = parent_rel_append_new[OF c(1), of h]
  show ?thesis
  proof (rule forestI)
    fix a assume a: "a < length (h @ [c])"
    show "chain (h @ [c]) (tc_child ((h @ [c]) ! a)) ((kids(length h := [])) a)"
    proof (cases "a = length h")
      case True
      then show ?thesis using c by simp
    next
      case False
      then have al: "a < length h" using a by simp
      have ch: "chain h (tc_child (h ! a)) (kids a)" by (rule forestD(1)[OF f al])
      have "chain (h @ [c]) (tc_child (h ! a)) (kids a)"
        using chain_bound[OF ch] by (intro chain_next_cong[OF _ ch]) (auto simp: nth_append intro: less_SucI)
      then show ?thesis using al by (simp add: nth_append)
    qed
  next
    fix a x assume "a < length (h @ [c])"
    then show "x \<in> set ((kids(length h := [])) a) \<longleftrightarrow> (x, a) \<in> parent_rel (h @ [c])"
      using forestD(3)[OF f] forestD(6)[OF f] unfolding P by (auto simp: less_Suc_eq parent_rel_def)
  qed (use forestD[OF f] c in \<open>auto simp: nth_append less_Suc_eq P split: if_splits intro: less_SucI\<close>)
qed

lemma attach_fields:
  assumes "a < length h" "p < length h"
  shows "length (attach h p a) = length h"
    "tc_parent (attach h p a ! x) = (if x = a then Some p else tc_parent (h ! x))"
    "tc_child (attach h p a ! x) = (if x = p then Some a else tc_child (h ! x))"
    "tc_next (attach h p a ! x) = (if x = a then tc_child (h ! p) else tc_next (h ! x))"
    "tc_threadable (attach h p a ! x) = tc_threadable (h ! x)"
  using assms by (auto simp: attach_def)

lemma parent_rel_attach:
  assumes "a < length h" "p < length h" "tc_parent (h ! a) = None"
  shows "parent_rel (attach h p a) = insert (a, p) (parent_rel h)"
  using assms by (auto simp: parent_rel_def attach_fields split: if_splits)

lemma forest_attach:
  assumes f: "forest h kids" and l: "a < length h" "p < length h"
    and root: "tc_parent (h ! a) = None" and ne: "a \<noteq> p" and nb: "(p, a) \<notin> (parent_rel h)\<^sup>+"
  shows "forest (attach h p a) (kids(p := a # kids p))"
proof -
  note fld = attach_fields[OF l]
  note P = parent_rel_attach[OF l root]
  have nokid: "a \<notin> set (kids x)" if "x < length h" for x
    using forestD(3)[OF f that] root by (auto simp: parent_rel_def)
  have ch: "chain (attach h p a) (tc_child (h ! x)) (kids x)" if "x < length h" for x
  proof -
    have c: "chain h (tc_child (h ! x)) (kids x)" by (rule forestD(1)[OF f that])
    then show ?thesis
      using nokid[OF that] chain_bound[OF c] by (intro chain_next_cong[OF _ c]) (auto simp: fld)
  qed
  show ?thesis
  proof (rule forestI)
    fix x assume x: "x < length (attach h p a)"
    show "chain (attach h p a) (tc_child (attach h p a ! x)) ((kids(p := a # kids p)) x)"
      using ch[of x] ch[of p] x l by (auto simp: fld)
    show "distinct ((kids(p := a # kids p)) x)"
      using forestD(2)[OF f] nokid x l by (auto simp: fld)
    fix y
    show "y \<in> set ((kids(p := a # kids p)) x) \<longleftrightarrow> (y, x) \<in> parent_rel (attach h p a)"
      using forestD(3)[OF f] x l root unfolding P by (auto simp: fld)
  next
    have "(p, a) \<notin> (parent_rel h)\<^sup>*" using nb ne by (auto dest: rtranclD)
    then show "acyclic (parent_rel (attach h p a))"
      unfolding P using forestD(4)[OF f] by (simp add: acyclic_insert)
  qed (use forestD(5,6)[OF f] l in \<open>auto simp: fld split: if_splits\<close>)
qed

text \<open>The search succeeds in the list of children, and the element leaves it.\<close>

lemma find_in_chain_split:
  "chain h rest (us @ c # vs) \<Longrightarrow> c \<notin> set us \<Longrightarrow> length us < n \<Longrightarrow>
     find_in_chain n h prev rest c = Some (if us = [] then prev else Some (last us), Some c)"
proof (induction us arbitrary: n prev rest)
  case Nil
  then show ?case by (cases n) auto
next
  case (Cons u us)
  then obtain m where n: "n = Suc m" by (cases n) auto
  show ?case using Cons.IH[of "tc_next (h ! u)" m "Some u"] Cons.prems by (auto simp: n)
qed

lemma chain_cut:
  assumes "chain h p (us @ c # vs)" "distinct (us @ c # vs)"
    and "length h' = length h"
    and "\<And>x. x \<in> set us \<Longrightarrow> tc_next (h' ! x) = (if x = last us then tc_next (h ! c) else tc_next (h ! x))"
    and "\<And>x. x \<in> set vs \<Longrightarrow> tc_next (h' ! x) = tc_next (h ! x)"
  shows "chain h' (if us = [] then tc_next (h ! c) else p) (us @ vs)"
  using assms
proof (induction us arbitrary: p)
  case Nil
  then have c: "chain h (tc_next (h ! c)) vs" by simp
  have "chain h' (tc_next (h ! c)) vs"
    using chain_bound[OF c] Nil.prems(3,5) by (intro chain_next_cong[OF _ c]) auto
  then show ?case by simp
next
  case (Cons u us)
  show ?case
  proof (cases "us = []")
    case True
    have c: "chain h (tc_next (h ! c)) vs" using Cons.prems(1) True by simp
    have "chain h' (tc_next (h ! c)) vs"
      using chain_bound[OF c] Cons.prems(3,5) by (intro chain_next_cong[OF _ c]) auto
    then show ?thesis using Cons.prems True by simp
  next
    case False
    have "u \<noteq> last us" using Cons.prems(2) False by auto
    then have "chain h' (tc_next (h ! u)) (us @ vs)"
      using Cons.IH[of "tc_next (h ! u)"] Cons.prems False by auto
    then show ?thesis using Cons.prems False \<open>u \<noteq> last us\<close> by simp
  qed
qed

lemma forest_detach:
  assumes f: "forest h kids" and l: "c < length h" and par: "tc_parent (h ! c) = Some p"
  shows "\<exists>h' us vs. detach h c p = Inr h' \<and> kids p = us @ c # vs \<and> forest h' (kids(p := us @ vs))
    \<and> length h' = length h \<and> parent_rel h' = parent_rel h - {(c, p)}
    \<and> tc_parent (h' ! c) = None \<and> (\<forall>x. tc_threadable (h' ! x) = tc_threadable (h ! x))"
proof -
  have pl: "p < length h" using forestD(6)[OF f l par] .
  have cp: "(c, p) \<in> parent_rel h" using l par by (simp add: parent_rel_def)
  then have "c \<in> set (kids p)" using forestD(3)[OF f pl] by blast
  then obtain us vs where k: "kids p = us @ c # vs" by (meson split_list)
  have d: "distinct (us @ c # vs)" using forestD(2)[OF f pl] k by simp
  have ch: "chain h (tc_child (h ! p)) (us @ c # vs)" using forestD(1)[OF f pl] k by simp
  have "length us < jwz_fuel h"
  proof -
    have "card (set us) \<le> card {..<length h}" using chain_bound[OF ch] by (intro card_mono) auto
    then show ?thesis using d by (simp add: distinct_card jwz_fuel_def)
  qed
  then have find: "find_in_chain (jwz_fuel h) h None (tc_child (h ! p)) c
      = Some (if us = [] then None else Some (last us), Some c)"
    using find_in_chain_split[OF ch] d by auto
  let ?g = "if us = [] then set_child h p (tc_next (h ! c)) else set_next h (last us) (tc_next (h ! c))"
  define hh where "hh = set_parent (set_next ?g c None) c None"
  have det: "detach h c p = Inr hh" using find by (auto simp: detach_def hh_def)
  have lu: "us \<noteq> [] \<Longrightarrow> last us < length h" using chain_bound[OF ch] by simp
  have lnv: "last us \<notin> set vs" if "us \<noteq> []" using d last_in_set[OF that] by auto
  have len: "length hh = length h" by (simp add: hh_def)
  have par': "tc_parent (hh ! x) = (if x = c then None else tc_parent (h ! x))" for x using l by (auto simp: hh_def)
  have chi': "tc_child (hh ! x) = (if us = [] \<and> x = p then tc_next (h ! c) else tc_child (h ! x))" for x
    using l pl by (auto simp: hh_def)
  have nxt': "tc_next (hh ! x) = (if x = c then None else if us \<noteq> [] \<and> x = last us then tc_next (h ! c) else tc_next (h ! x))" for x
    using l lu by (auto simp: hh_def)
  have P: "parent_rel hh = parent_rel h - {(c, p)}" using par by (auto simp: parent_rel_def len par' split: if_splits)
  have thr: "tc_threadable (hh ! x) = tc_threadable (h ! x)" for x by (auto simp: hh_def)
  have kidsof: "x = p" if "y \<in> set (kids x)" "x < length h" "y = c \<or> y \<in> set us" for x y
  proof -
    have "(y, p) \<in> parent_rel h" using that(3) forestD(3)[OF f pl] k by auto
    then show "x = p" using that(1,2) forestD(3)[OF f] parent_rel_unique by metis
  qed
  have F: "forest hh (kids(p := us @ vs))"
  proof (rule forestI)
    fix x assume x: "x < length hh"
    show "chain hh (tc_child (hh ! x)) ((kids(p := us @ vs)) x)"
    proof (cases "x = p")
      case True
      have "chain hh (if us = [] then tc_next (h ! c) else tc_child (h ! p)) (us @ vs)"
        using d lnv by (intro chain_cut[OF ch d len]) (auto simp: nxt')
      then show ?thesis using True chi'[of p] by simp
    next
      case False
      have xl: "x < length h" using x len by simp
      have cx: "chain h (tc_child (h ! x)) (kids x)" by (rule forestD(1)[OF f xl])
      have "chain hh (tc_child (h ! x)) (kids x)"
      proof (rule chain_next_cong[OF _ cx])
        fix y assume y: "y \<in> set (kids x)"
        then have "y \<noteq> c" "y \<notin> set us" using kidsof[OF y xl] False by auto
        then show "y < length hh \<and> tc_next (hh ! y) = tc_next (h ! y)"
          using chain_bound[OF cx y] len nxt'[of y] by auto
      qed
      then show ?thesis using False chi'[of x] by simp
    qed
    show "distinct ((kids(p := us @ vs)) x)" using forestD(2)[OF f, of x] d x len by auto
    fix y
    have "y \<in> set (kids x) \<longleftrightarrow> (y, x) \<in> parent_rel h" using forestD(3)[OF f] x len by simp
    then show "y \<in> set ((kids(p := us @ vs)) x) \<longleftrightarrow> (y, x) \<in> parent_rel hh"
      unfolding P using k d by auto
  next
    show "acyclic (parent_rel hh)" unfolding P using forestD(4)[OF f] by (rule acyclic_subset) auto
  next
    fix x assume x: "x < length hh" "tc_parent (hh ! x) = None"
    have xl: "x < length h" using x(1) len by simp
    show "tc_next (hh ! x) = None"
    proof (cases "x = c")
      case True
      then show ?thesis by (simp add: nxt')
    next
      case False
      then have "tc_parent (h ! x) = None" using x(2) par' by simp
      moreover have "tc_parent (h ! last us) = Some p" if "us \<noteq> []"
      proof -
        have "last us \<in> set (kids p)" using that k by simp
        then show ?thesis using forestD(3)[OF f pl] by (auto simp: parent_rel_def)
      qed
      ultimately show ?thesis using forestD(5)[OF f xl] nxt'[of x] by auto
    qed
  next
    fix x y assume "x < length hh" "tc_parent (hh ! x) = Some y"
    then show "y < length hh" using forestD(6)[OF f] len par' by (auto split: if_splits)
  qed
  have "tc_parent (hh ! c) = None" by (simp add: par')
  with det k F len P thr show ?thesis by (intro exI[of _ hh] exI[of _ us] exI[of _ vs] conjI allI)
qed

subsection \<open>The invariant of the threader\<close>

lemma itoa_eq_iff: "itoa m = itoa n \<longleftrightarrow> m = n"
proof
  assume e: "itoa m = itoa n"
  have "parse_digits (max m n) 0 (itoa m) = m" by (rule parse_digits_itoa) simp
  moreover have "parse_digits (max m n) 0 (itoa n) = n" by (rule parse_digits_itoa) simp
  ultimately show "m = n" using e by metis
qed simp

lemma bogus_id_inj: "bogus_id j = bogus_id k \<Longrightarrow> j = k"
  by (simp add: bogus_id_def itoa_eq_iff)

text \<open>The messages held by the containers.\<close>

definition placed :: "'m heap \<Rightarrow> 'm threadable list" where
  "placed h = concat (map (\<lambda>c. case tc_threadable c of None \<Rightarrow> [] | Some t \<Rightarrow> [t]) h)"

lemma placed_cong:
  "length h' = length h \<Longrightarrow> (\<And>x. x < length h \<Longrightarrow> tc_threadable (h' ! x) = tc_threadable (h ! x)) \<Longrightarrow>
     placed h' = placed h"
  unfolding placed_def by (rule arg_cong[where f = concat]) (simp add: list_eq_iff_nth_eq)

lemma placed_append: "placed (h @ [c]) = placed h @ (case tc_threadable c of None \<Rightarrow> [] | Some t \<Rightarrow> [t])"
  by (simp add: placed_def)

lemma mset_placed_set:
  assumes "a < length h" "tc_threadable (h ! a) = None"
  shows "mset (placed (set_threadable h a (Some t))) = add_mset t (mset (placed h))"
proof -
  let ?f = "\<lambda>c. case tc_threadable c of None \<Rightarrow> [] | Some t \<Rightarrow> [t]"
  have pl: "placed (xs @ c # ys) = placed xs @ ?f c @ placed ys" for xs c ys by (simp add: placed_def)
  have "h = take a h @ h ! a # drop (Suc a) h" using assms(1) by (rule id_take_nth_drop)
  then have "placed h = placed (take a h) @ ?f (h ! a) @ placed (drop (Suc a) h)" by (metis pl)
  moreover have "set_threadable h a (Some t) = take a h @ (h ! a)\<lparr>tc_threadable := Some t\<rparr> # drop (Suc a) h"
    using assms(1) by (simp add: set_threadable_def upd_conv_take_nth_drop)
  then have "placed (set_threadable h a (Some t)) = placed (take a h) @ [t] @ placed (drop (Suc a) h)"
    by (simp add: pl)
  ultimately show ?thesis using assms(2) by simp
qed

text \<open>
  The containers are a forest, each indexed under exactly one id; the generated ids that
  are not used yet are free; the containers hold the messages \<open>ms\<close>, each once.
\<close>

definition table_ok :: "'m threader \<Rightarrow> bool" where
  "table_ok th \<longleftrightarrow> ran (th_idTable th) = {..<length (th_heap th)}
     \<and> (\<forall>i j a. th_idTable th i = Some a \<longrightarrow> th_idTable th j = Some a \<longrightarrow> i = j)
     \<and> (\<forall>k \<ge> th_bogusIDCount th. th_idTable th (bogus_id k) = None)"

definition build_inv :: "'m threader \<Rightarrow> 'm list \<Rightarrow> bool" where
  "build_inv th ms \<longleftrightarrow> (\<exists>kids. forest (th_heap th) kids) \<and> table_ok th
     \<and> mset (placed (th_heap th)) = mset (map Real ms)"

definition ids_ok :: "'m threadable_ops \<Rightarrow> 'm \<Rightarrow> bool" where
  "ids_ok ops m \<longleftrightarrow>
     (\<forall>k. op_MessageThreadID ops m \<noteq> bogus_id k \<and> bogus_id k \<notin> set (op_MessageThreadReferences ops m))"

lemma NewThreader_inv: "build_inv NewThreader []"
  by (auto simp: build_inv_def NewThreader_def forest_def table_ok_def placed_def parent_rel_def acyclic_def)

lemma table_ok_new:
  assumes t: "table_ok th" and free: "th_idTable th i = None"
    and bog: "\<And>k. i = bogus_id k \<Longrightarrow> k < n" and n: "th_bogusIDCount th \<le> n"
  shows "table_ok (fst (new_entry i c (th\<lparr>th_bogusIDCount := n\<rparr>)))"
proof -
  have r: "ran (th_idTable th) = {..<length (th_heap th)}" using t by (simp add: table_ok_def)
  have "ran ((th_idTable th)(i \<mapsto> length (th_heap th))) = insert (length (th_heap th)) {..<length (th_heap th)}"
    using ran_map_upd[of "th_idTable th" i "length (th_heap th)"] free r by simp
  moreover have "insert (length (th_heap th)) {..<length (th_heap th)} = {..<Suc (length (th_heap th))}" by auto
  moreover have "th_idTable th j \<noteq> Some (length (th_heap th))" for j using r ranI[of "th_idTable th" j] by fastforce
  moreover have "i \<noteq> bogus_id k" if "n \<le> k" for k using bog[of k] that by auto
  ultimately show ?thesis
    using t n by (auto simp: table_ok_def new_entry_def)
qed

lemma new_entry_forest:
  "forest (th_heap th) kids \<Longrightarrow> \<exists>kids. forest (th_heap (fst (new_entry i (new_container t f) th))) kids"
  using forest_append_new[of "th_heap th" kids "new_container t f"]
  by (auto simp: new_entry_def new_container_def)

lemma table_ok_heap:
  "length h = length (th_heap th) \<Longrightarrow> table_ok (th\<lparr>th_heap := h\<rparr>) = table_ok th"
  by (simp add: table_ok_def)

lemma table_ok_lookup: "table_ok th \<Longrightarrow> th_idTable th i = Some a \<Longrightarrow> a < length (th_heap th)"
  by (auto simp: table_ok_def intro: ranI dest: ranI)

lemma message_container_inv:
  assumes "build_inv th ms" "ids_ok ops m" "message_container ops m th = (th', c)"
  shows "build_inv th' (m # ms) \<and> c < length (th_heap th')"
proof -
  let ?i = "op_MessageThreadID ops m"
  obtain kids where f: "forest (th_heap th) kids" and t: "table_ok th"
    and p: "mset (placed (th_heap th)) = mset (map Real ms)" using assms(1) by (auto simp: build_inv_def)
  show ?thesis
  proof (cases "th_idTable th ?i")
    case None
    have "table_ok (fst (new_entry ?i (new_container (Some (Real m)) ?i) (th\<lparr>th_bogusIDCount := th_bogusIDCount th\<rparr>)))"
      using assms(2) None by (intro table_ok_new[OF t]) (auto simp: ids_ok_def)
    then have "table_ok (fst (new_entry ?i (new_container (Some (Real m)) ?i) th))" by simp
    moreover have "(th', c) = new_entry ?i (new_container (Some (Real m)) ?i) th"
      using None assms(3) by (simp add: message_container_def Let_def)
    ultimately show ?thesis
      using new_entry_forest[OF f, of ?i "Some (Real m)" ?i] p
      by (auto simp: build_inv_def new_entry_def placed_append new_container_def)
  next
    case (Some a)
    have al: "a < length (th_heap th)" using table_ok_lookup[OF t Some] .
    show ?thesis
    proof (cases "tc_threadable (th_heap th ! a)")
      case None
      then have "th' = th\<lparr>th_heap := set_threadable (th_heap th) a (Some (Real m))\<rparr>" "c = a"
        using Some assms(3) by (auto simp: message_container_def Let_def)
      then show ?thesis
        using forest_set_threadable[OF f] t p al mset_placed_set[OF al None, of "Real m"]
        by (auto simp: build_inv_def table_ok_heap)
    next
      case dup: (Some x)
      let ?b = "bogus_id (th_bogusIDCount th)"
      let ?n = "new_entry ?b (new_container (Some (Real m)) ?i) (th\<lparr>th_bogusIDCount := th_bogusIDCount th + 1\<rparr>)"
      have "th_idTable th ?b = None" using t by (simp add: table_ok_def)
      then have "table_ok (fst ?n)"
        by (intro table_ok_new[OF t]) (auto dest: bogus_id_inj)
      moreover have "(th', c) = ?n" using Some dup assms(3) by (simp add: message_container_def Let_def)
      moreover have "\<exists>kids. forest (th_heap (fst ?n)) kids"
        using new_entry_forest[of "th\<lparr>th_bogusIDCount := th_bogusIDCount th + 1\<rparr>" kids] f by simp
      ultimately show ?thesis using p
        by (auto simp: build_inv_def new_entry_def placed_append new_container_def)
    qed
  qed
qed

lemma ref_container_inv:
  assumes "build_inv th ms" "\<forall>k. r \<noteq> bogus_id k" "ref_container r th = (th', a)"
  shows "build_inv th' ms \<and> a < length (th_heap th') \<and> length (th_heap th) \<le> length (th_heap th')"
proof (cases "th_idTable th r")
  case None
  obtain kids where f: "forest (th_heap th) kids" and t: "table_ok th"
    and p: "mset (placed (th_heap th)) = mset (map Real ms)" using assms(1) by (auto simp: build_inv_def)
  have "table_ok (fst (new_entry r (new_container None r) (th\<lparr>th_bogusIDCount := th_bogusIDCount th\<rparr>)))"
    using assms(2) None by (intro table_ok_new[OF t]) auto
  then have "table_ok (fst (new_entry r (new_container None r) th))" by simp
  then show ?thesis
    using None assms(3) new_entry_forest[OF f, of r None r] p
    by (auto simp: ref_container_def build_inv_def new_entry_def placed_append new_container_def)
next
  case (Some b)
  then show ?thesis using assms table_ok_lookup[of th r b] by (auto simp: ref_container_def build_inv_def)
qed

text \<open>A change of links between the containers only keeps the rest of the invariant.\<close>

lemma build_inv_relink:
  assumes "build_inv th ms" "forest h kids" "length h = length (th_heap th)"
    and "\<And>x. tc_threadable (h ! x) = tc_threadable (th_heap th ! x)"
  shows "build_inv (th\<lparr>th_heap := h\<rparr>) ms"
  using assms placed_cong[of h "th_heap th"] by (auto simp: build_inv_def table_ok_heap)

lemma link_ref_inv:
  assumes inv: "build_inv th ms" and a: "a < length (th_heap th)"
    and p: "\<And>p. parentRef = Some p \<Longrightarrow> p < length (th_heap th)"
  shows "\<exists>th'. link_ref th parentRef a = Inr th' \<and> build_inv th' ms
    \<and> length (th_heap th') = length (th_heap th)"
proof (cases parentRef)
  case None
  then show ?thesis using inv by (simp add: link_ref_def)
next
  case (Some q)
  let ?h = "th_heap th"
  obtain kids where f: "forest ?h kids" using inv by (auto simp: build_inv_def)
  have ql: "q < length ?h" using p Some by simp
  show ?thesis
  proof (cases "tc_parent (?h ! a) = None \<and> q \<noteq> a \<and> (q, a) \<notin> (parent_rel ?h)\<^sup>+ \<and> (a, q) \<notin> (parent_rel ?h)\<^sup>+")
    case True
    have "link_ref th parentRef a = Inr (th\<lparr>th_heap := attach ?h q a\<rparr>)"
      using True Some by (simp add: link_ref_def findChild_correct[OF f a] findChild_correct[OF f ql])
    moreover have "build_inv (th\<lparr>th_heap := attach ?h q a\<rparr>) ms"
      using forest_attach[OF f a ql] True
      by (intro build_inv_relink[OF inv]) (auto simp: attach_fields[OF a ql])
    ultimately show ?thesis by (simp add: attach_fields[OF a ql])
  next
    case False
    then have "link_ref th parentRef a = Inr th"
      using Some by (auto simp: link_ref_def findChild_correct[OF f a] findChild_correct[OF f ql] split: bool.split)
    then show ?thesis using inv by simp
  qed
qed

lemma link_refs_inv:
  assumes "build_inv th ms" "\<forall>k. bogus_id k \<notin> set refs"
    and "\<And>p. parentRef = Some p \<Longrightarrow> p < length (th_heap th)"
  shows "\<exists>th' pr. link_refs th refs parentRef = Inr (th', pr) \<and> build_inv th' ms
    \<and> length (th_heap th) \<le> length (th_heap th') \<and> (\<forall>p. pr = Some p \<longrightarrow> p < length (th_heap th'))"
  using assms
proof (induction refs arbitrary: th parentRef)
  case Nil
  then show ?case by simp
next
  case (Cons r refs)
  obtain th1 a where rc: "ref_container r th = (th1, a)" by (cases "ref_container r th")
  have r1: "build_inv th1 ms" "a < length (th_heap th1)" "length (th_heap th) \<le> length (th_heap th1)"
    using ref_container_inv[OF Cons.prems(1) _ rc] Cons.prems(2) by auto
  have "\<And>p. parentRef = Some p \<Longrightarrow> p < length (th_heap th1)" using Cons.prems(3) r1(3) by fastforce
  from link_ref_inv[OF r1(1,2) this] obtain th2 where l: "link_ref th1 parentRef a = Inr th2"
    "build_inv th2 ms" "length (th_heap th2) = length (th_heap th1)" by blast
  have "\<exists>th' pr. link_refs th2 refs (Some a) = Inr (th', pr) \<and> build_inv th' ms
    \<and> length (th_heap th2) \<le> length (th_heap th') \<and> (\<forall>p. pr = Some p \<longrightarrow> p < length (th_heap th'))"
    using Cons.prems(2) r1(2) l by (intro Cons.IH) auto
  then show ?case using rc l r1(3) by fastforce
qed

lemma drop_parent_inv:
  assumes inv: "build_inv th ms" and c: "c < length (th_heap th)"
  shows "\<exists>h kids. drop_parent (th_heap th) c = Inr h \<and> forest h kids \<and> length h = length (th_heap th)
    \<and> tc_parent (h ! c) = None \<and> parent_rel h \<subseteq> parent_rel (th_heap th)
    \<and> (\<forall>x. tc_threadable (h ! x) = tc_threadable (th_heap th ! x))"
proof -
  obtain kids where f: "forest (th_heap th) kids" using inv by (auto simp: build_inv_def)
  show ?thesis
  proof (cases "tc_parent (th_heap th ! c)")
    case None
    then show ?thesis using f by (auto simp: drop_parent_def)
  next
    case (Some p)
    then show ?thesis using forest_detach[OF f c Some] by (fastforce simp: drop_parent_def)
  qed
qed

lemma buildContainer_inv:
  assumes inv: "build_inv th ms" and ids: "ids_ok ops m"
  shows "\<exists>th'. buildContainer ops m th = Inr th' \<and> build_inv th' (m # ms)"
proof -
  obtain th1 c where mc: "message_container ops m th = (th1, c)" by (cases "message_container ops m th")
  have i1: "build_inv th1 (m # ms)" "c < length (th_heap th1)" using message_container_inv[OF inv ids mc] by auto
  have "\<forall>k. bogus_id k \<notin> set (op_MessageThreadReferences ops m)" using ids by (simp add: ids_ok_def)
  from link_refs_inv[OF i1(1) this, of None] obtain th2 pr where
    l: "link_refs th1 (op_MessageThreadReferences ops m) None = Inr (th2, pr)" "build_inv th2 (m # ms)"
      "length (th_heap th1) \<le> length (th_heap th2)" "\<forall>p. pr = Some p \<longrightarrow> p < length (th_heap th2)" by auto
  let ?h = "th_heap th2"
  have cl: "c < length ?h" using i1(2) l(3) by simp
  obtain kids2 where f2: "forest ?h kids2" using l(2) by (auto simp: build_inv_def)
  define pr' where "pr' = (case pr of None \<Rightarrow> None | Some p \<Rightarrow> if p = c \<or> (p, c) \<in> (parent_rel ?h)\<^sup>+ then None else Some p)"
  have circ: "(case pr of None \<Rightarrow> Some None
      | Some p \<Rightarrow> if p = c then Some None
          else (case findChild ?h c p of None \<Rightarrow> None | Some circular \<Rightarrow> Some (if circular then None else Some p)))
      = Some pr'"
    by (auto simp: pr'_def findChild_correct[OF f2 cl] split: option.split)
  from drop_parent_inv[OF l(2) cl] obtain h3 kids3 where d: "drop_parent ?h c = Inr h3" "forest h3 kids3"
    "length h3 = length ?h" "tc_parent (h3 ! c) = None" "parent_rel h3 \<subseteq> parent_rel ?h"
    "\<forall>x. tc_threadable (h3 ! x) = tc_threadable (?h ! x)" by blast
  have res: "buildContainer ops m th = Inr (th2\<lparr>th_heap := (case pr' of None \<Rightarrow> h3 | Some p \<Rightarrow> attach h3 p c)\<rparr>)"
    unfolding buildContainer_def mc prod.case l(1) sum.case circ option.case d(1) by simp
  have "build_inv (th2\<lparr>th_heap := (case pr' of None \<Rightarrow> h3 | Some p \<Rightarrow> attach h3 p c)\<rparr>) (m # ms)"
  proof (cases pr')
    case None
    then show ?thesis using d by (simp add: build_inv_relink[OF l(2)])
  next
    case (Some p)
    then have p: "p \<noteq> c" "(p, c) \<notin> (parent_rel ?h)\<^sup>+" "p < length h3" "c < length h3"
      using l(4) d(3) cl by (auto simp: pr'_def split: option.splits if_splits)
    have "(p, c) \<notin> (parent_rel h3)\<^sup>+" using p(2) d(5) by (meson trancl_mono)
    then have "forest (attach h3 p c) (kids3(p := c # kids3 p))"
      using p d(2,4) by (intro forest_attach) auto
    then show ?thesis
      using d(3,6) Some p by (auto intro!: build_inv_relink[OF l(2)] simp: attach_fields)
  qed
  then show ?thesis using res by blast
qed

lemma build_all_inv:
  assumes "build_inv th ms0" "\<forall>m\<in>set ms. ids_ok ops m"
  shows "\<exists>th' all. build_all ops ms th = Inr th' \<and> build_inv th' all
    \<and> mset all = mset (filter (\<lambda>m. \<not> op_IsDummy ops m) ms) + mset ms0"
  using assms
proof (induction ms arbitrary: th ms0)
  case Nil
  then show ?case by auto
next
  case (Cons m ms)
  show ?case
  proof (cases "op_IsDummy ops m")
    case True
    then show ?thesis using Cons by simp
  next
    case False
    from buildContainer_inv[OF Cons.prems(1), of ops m] Cons.prems(2) obtain th1 where
      "buildContainer ops m th = Inr th1" "build_inv th1 (m # ms0)" by auto
    then show ?thesis using Cons.IH[of th1 "m # ms0"] Cons.prems(2) False by simp
  qed
qed

end
