(* ===== verification/JwzThread.thy ===== *)
theory JwzThread
  imports JwzBuild
begin

text \<open>
  The rest of \<open>lib/jwz/jwz.go\<close>: collecting the root set, pruning empty containers,
  gathering the roots with the same subject, and the entry points.  The root node is one
  more container of the heap.  Go walks the id table in an unspecified order: \<open>order\<close> lists
  its containers in the order of the walk.  The loops and recursions take fuel.
\<close>

text \<open>The loop of \<open>findRootSet\<close>; \<open>root\<close> is the address of the new root node.\<close>

fun root_set_loop :: "nat \<Rightarrow> 'm heap \<Rightarrow> nat list \<Rightarrow> jwz_error + 'm heap" where
  "root_set_loop root h [] = Inr h"
| "root_set_loop root h (c # cs) =
     (if tc_parent (h ! c) = None then
        (if tc_next (h ! c) \<noteq> None then Inl NextWithoutParent
         else root_set_loop root (set_child (set_next h c (tc_child (h ! root))) root (Some c)) cs)
      else root_set_loop root h cs)"

definition findRootSet :: "nat list \<Rightarrow> 'm heap \<Rightarrow> jwz_error + 'm heap \<times> nat" where
  "findRootSet order h =
     (let root = length h
      in case root_set_loop root (h @ [new_container None []]) order of
           Inl e \<Rightarrow> Inl e | Inr h \<Rightarrow> Inr (h, root))"

subsection \<open>Pruning\<close>

text \<open>\<open>parent.child = v\<close> or \<open>prev.next = v\<close>\<close>

definition set_link :: "'m heap \<Rightarrow> nat \<Rightarrow> nat option \<Rightarrow> nat option \<Rightarrow> 'm heap" where
  "set_link h parent prev v = (case prev of None \<Rightarrow> set_child h parent v | Some q \<Rightarrow> set_next h q v)"

text \<open>The loop over \<open>tail\<close> that hands the kids over to \<open>container.parent\<close> and splices their last.\<close>

fun promote :: "nat \<Rightarrow> 'm heap \<Rightarrow> nat \<Rightarrow> nat \<Rightarrow> 'm heap option" where
  "promote 0 h container tail = None"
| "promote (Suc n) h container tail =
     (case tc_next (h ! tail) of
        Some t \<Rightarrow> promote n (set_parent h tail (tc_parent (h ! container))) container t
      | None \<Rightarrow> Some (set_next (set_parent h tail (tc_parent (h ! container))) tail (tc_next (h ! container))))"

fun prune_loop :: "nat \<Rightarrow> 'm heap \<Rightarrow> nat \<Rightarrow> nat option \<Rightarrow> nat option \<Rightarrow> nat option \<Rightarrow> 'm heap option" where
  "prune_loop 0 h parent prev container nxt = None"
| "prune_loop (Suc n) h parent prev None nxt = Some h"
| "prune_loop (Suc n) h parent prev (Some c) nxt =
     (let step = (\<lambda>h container nxt.
            prune_loop n h parent container nxt
              (case nxt of None \<Rightarrow> None | Some x \<Rightarrow> tc_next (h ! x)))
      in case tc_child (h ! c) of
           None \<Rightarrow>
             if tc_threadable (h ! c) = None
             then step (set_link h parent prev (tc_next (h ! c))) prev nxt
             else step h (Some c) nxt
         | Some kids \<Rightarrow>
             if tc_threadable (h ! c) = None \<and> (tc_parent (h ! c) \<noteq> None \<or> tc_next (h ! kids) = None) then
               (case promote (jwz_fuel h) (set_link h parent prev (Some kids)) c kids of
                  None \<Rightarrow> None
                | Some h \<Rightarrow> step h prev (Some kids))
             else
               (case prune_loop n h c None (Some kids) (tc_next (h ! kids)) of
                  None \<Rightarrow> None
                | Some h \<Rightarrow>
                    if tc_threadable (h ! c) = None \<and> tc_child (h ! c) = None
                    then step (set_link h parent prev (tc_next (h ! c))) prev nxt
                    else step h (Some c) nxt))"

definition pruneEmptyContainers :: "nat \<Rightarrow> 'm heap \<Rightarrow> nat \<Rightarrow> 'm heap option" where
  "pruneEmptyContainers fuel h parent =
     prune_loop fuel h parent None (tc_child (h ! parent))
       (case tc_child (h ! parent) of None \<Rightarrow> None | Some c \<Rightarrow> tc_next (h ! c))"

subsection \<open>Subjects\<close>

text \<open>What is asked of a threadable: a dummy has no subject and is no reply.\<close>

definition simplified_subject :: "'m threadable_ops \<Rightarrow> 'm threadable \<Rightarrow> string" where
  "simplified_subject ops t = (case t of Real m \<Rightarrow> op_SimplifiedSubject ops m | DummyFor _ _ \<Rightarrow> [])"

definition subject_is_reply :: "'m threadable_ops \<Rightarrow> 'm threadable \<Rightarrow> bool" where
  "subject_is_reply ops t = (case t of Real m \<Rightarrow> op_SubjectIsReply ops m | DummyFor _ _ \<Rightarrow> False)"

text \<open>The threadable of a root, or that of its first kid; \<open>None\<close> is the panic without either.\<close>

definition representative :: "'m heap \<Rightarrow> nat \<Rightarrow> 'm threadable option" where
  "representative h c =
     (case tc_threadable (h ! c) of
        Some t \<Rightarrow> Some t
      | None \<Rightarrow> (case tc_child (h ! c) of None \<Rightarrow> None | Some k \<Rightarrow> tc_threadable (h ! k)))"

definition more_interesting :: "'m threadable_ops \<Rightarrow> 'm heap \<Rightarrow> nat \<Rightarrow> nat option \<Rightarrow> bool" where
  "more_interesting ops h c old =
     (case old of
        None \<Rightarrow> True
      | Some o' \<Rightarrow>
          (case (tc_threadable (h ! o'), tc_threadable (h ! c)) of
             (Some to, None) \<Rightarrow> True
           | (Some to, Some tc) \<Rightarrow> subject_is_reply ops to \<and> \<not> subject_is_reply ops tc
           | (None, _) \<Rightarrow> False))"

fun subject_table ::
  "nat \<Rightarrow> 'm threadable_ops \<Rightarrow> 'm heap \<Rightarrow> nat option \<Rightarrow> (string \<rightharpoonup> nat) \<Rightarrow> nat \<Rightarrow> ((string \<rightharpoonup> nat) \<times> nat) option" where
  "subject_table 0 ops h c tab cnt = None"
| "subject_table (Suc n) ops h None tab cnt = Some (tab, cnt)"
| "subject_table (Suc n) ops h (Some c) tab cnt =
     (case representative h c of
        None \<Rightarrow> None
      | Some t \<Rightarrow>
          (let subj = simplified_subject ops t
           in if subj = [] then subject_table n ops h (tc_next (h ! c)) tab cnt
              else if more_interesting ops h c (tab subj)
              then subject_table n ops h (tc_next (h ! c)) (tab(subj \<mapsto> c)) (cnt + 1)
              else subject_table n ops h (tc_next (h ! c)) tab cnt))"

fun last_of :: "nat \<Rightarrow> 'm heap \<Rightarrow> nat \<Rightarrow> nat option" where
  "last_of 0 h a = None"
| "last_of (Suc n) h a = (case tc_next (h ! a) of None \<Rightarrow> Some a | Some b \<Rightarrow> last_of n h b)"

fun set_parents :: "nat \<Rightarrow> 'm heap \<Rightarrow> nat option \<Rightarrow> nat \<Rightarrow> 'm heap option" where
  "set_parents 0 h tail p = None"
| "set_parents (Suc n) h None p = Some h"
| "set_parents (Suc n) h (Some t) p = set_parents n (set_parent h t (Some p)) (tc_next (h ! t)) p"

text \<open>Merging the root \<open>c\<close>, already unlinked from the root chain, into \<open>old\<close>.\<close>

definition merge_roots :: "'m threadable_ops \<Rightarrow> 'm heap \<Rightarrow> nat \<Rightarrow> nat \<Rightarrow> 'm heap option" where
  "merge_roots ops h old c =
     (case (tc_threadable (h ! old), tc_threadable (h ! c)) of
        (None, None) \<Rightarrow>
          (case tc_child (h ! old) of
             None \<Rightarrow> None
           | Some k \<Rightarrow>
               (case last_of (jwz_fuel h) h k of
                  None \<Rightarrow> None
                | Some tail \<Rightarrow>
                    (let h = set_next h tail (tc_child (h ! c))
                     in case set_parents (jwz_fuel h) h (tc_child (h ! c)) old of
                          None \<Rightarrow> None
                        | Some h \<Rightarrow> Some (set_child h c None))))
      | (to, tc) \<Rightarrow>
          if to = None \<or> (tc \<noteq> None \<and> subject_is_reply ops (the tc) \<and> \<not> subject_is_reply ops (the to)) then
            Some (set_child (set_next (set_parent h c (Some old)) c (tc_child (h ! old))) old (Some c))
          else
            (let newC = length h;
                 h = h @ [(new_container to [])\<lparr>tc_child := tc_child (h ! old)\<rparr>]
             in case set_parents (jwz_fuel h) h (tc_child (h ! newC)) newC of
                  None \<Rightarrow> None
                | Some h \<Rightarrow>
                    (let h = set_child (set_threadable h old None) old None;
                         h = set_parent (set_parent h c (Some old)) newC (Some old)
                     in Some (set_next (set_child h old (Some c)) c (Some newC)))))"

fun gather_loop ::
  "nat \<Rightarrow> 'm threadable_ops \<Rightarrow> 'm heap \<Rightarrow> nat \<Rightarrow> (string \<rightharpoonup> nat) \<Rightarrow> nat option \<Rightarrow> nat option \<Rightarrow> nat option
     \<Rightarrow> 'm heap option" where
  "gather_loop 0 ops h root tab prev c rest = None"
| "gather_loop (Suc n) ops h root tab prev None rest = Some h"
| "gather_loop (Suc n) ops h root tab prev (Some c) rest =
     (let step = (\<lambda>h c. gather_loop n ops h root tab c rest
                     (case rest of None \<Rightarrow> None | Some r \<Rightarrow> tc_next (h ! r)))
      in case representative h c of
           None \<Rightarrow> None
         | Some t \<Rightarrow>
             (let subj = simplified_subject ops t
              in if subj = [] then step h (Some c)
                 else (case tab subj of
                         None \<Rightarrow> None
                       | Some old \<Rightarrow>
                           if old = c then step h (Some c)
                           else
                             (let h = set_link h root prev (tc_next (h ! c));
                                  h = set_next h c None
                              in case merge_roots ops h old c of
                                   None \<Rightarrow> None
                                 | Some h \<Rightarrow> step h prev))))"

definition gatherSubjects :: "'m threadable_ops \<Rightarrow> 'm heap \<Rightarrow> nat \<Rightarrow> 'm heap option" where
  "gatherSubjects ops h root =
     (case subject_table (jwz_fuel h) ops h (tc_child (h ! root)) Map.empty 0 of
        None \<Rightarrow> None
      | Some (tab, cnt) \<Rightarrow>
          if cnt = 0 then Some h
          else (case tc_child (h ! root) of
                  None \<Rightarrow> None
                | Some c \<Rightarrow> gather_loop (jwz_fuel h) ops h root tab None (Some c) (tc_next (h ! c))))"

subsection \<open>The entry points\<close>

text \<open>A root without a message gets a dummy, made by its first kid's message.\<close>

fun dummy_roots :: "nat \<Rightarrow> 'm heap \<Rightarrow> nat option \<Rightarrow> 'm heap option" where
  "dummy_roots 0 h r = None"
| "dummy_roots (Suc n) h None = Some h"
| "dummy_roots (Suc n) h (Some r) =
     (if tc_threadable (h ! r) = None then
        (case tc_child (h ! r) of
           None \<Rightarrow> None
         | Some k \<Rightarrow>
             if tc_threadable (h ! k) = None then None
             else dummy_roots n (set_threadable h r (Some (DummyFor r (tc_forID (h ! r))))) (tc_next (h ! r)))
      else dummy_roots n h (tc_next (h ! r)))"

definition no_links :: "'m links" where "no_links = \<lparr>lk_child = [], lk_next = []\<rparr>"

definition stuck :: "'a option \<Rightarrow> jwz_error + 'a" where
  "stuck x = (case x of None \<Rightarrow> Inl Stuck | Some y \<Rightarrow> Inr y)"

definition and_then :: "'e + 'a \<Rightarrow> ('a \<Rightarrow> 'e + 'b) \<Rightarrow> 'e + 'b" where
  "and_then x f = (case x of Inl e \<Rightarrow> Inl e | Inr y \<Rightarrow> f y)"

definition threadRoot ::
  "nat \<Rightarrow> 'm threadable_ops \<Rightarrow> nat list \<Rightarrow> 'm threader \<Rightarrow> jwz_error + 'm threadable option \<times> 'm links" where
  "threadRoot fuel ops order th =
     and_then (findRootSet order (th_heap th)) (\<lambda>(h, root).
     and_then (stuck (pruneEmptyContainers fuel h root)) (\<lambda>h.
     and_then (stuck (reverse_children fuel h root)) (\<lambda>h.
     and_then (stuck (gatherSubjects ops h root)) (\<lambda>h.
       if tc_next (h ! root) \<noteq> None then Inl RootHasNext
       else
         and_then (stuck (dummy_roots (jwz_fuel h) h (tc_child (h ! root)))) (\<lambda>h.
           (let result = threadable_at h (tc_child (h ! root))
            in and_then (stuck (flush fuel h no_links (Some root))) (\<lambda>(h, l). Inr (result, l))))))))"

definition ThreadSlice ::
  "nat \<Rightarrow> 'm threadable_ops \<Rightarrow> ('m threader \<Rightarrow> nat list) \<Rightarrow> 'm list \<Rightarrow> jwz_error + 'm threadable option \<times> 'm links" where
  "ThreadSlice fuel ops order ms =
     (if ms = [] then Inr (None, no_links)
      else and_then (build_all ops ms NewThreader) (\<lambda>th. threadRoot fuel ops (order th) th))"

definition ThreadSingle ::
  "nat \<Rightarrow> 'm threadable_ops \<Rightarrow> ('m threader \<Rightarrow> nat list) \<Rightarrow> 'm option \<Rightarrow> jwz_error + 'm threadable option \<times> 'm links" where
  "ThreadSingle fuel ops order threadable =
     (case threadable of
        None \<Rightarrow> Inr (None, no_links)
      | Some m \<Rightarrow>
          if op_IsDummy ops m then Inl DummyRoot
          else
            and_then (buildContainer ops m NewThreader) (\<lambda>th.
            and_then (findRootSet (order th) (th_heap th)) (\<lambda>(h, root).
            and_then (stuck (reverse_children fuel h root)) (\<lambda>h.
              if tc_next (h ! root) \<noteq> None then Inl RootHasNext
              else
                and_then (stuck (fill_dummy fuel h (Some root))) (\<lambda>h.
                  (let result = threadable_at h (tc_child (h ! root))
                   in and_then (stuck (flush fuel h no_links (Some root))) (\<lambda>(h, l). Inr (result, l))))))))"

subsection \<open>The root set of a forest\<close>

text \<open>The roots of the walk, last one first, are the children of the root node.\<close>

lemma root_set_loop_roots:
  assumes "distinct cs" "\<forall>c\<in>set cs. c < root" "length h = Suc root"
    and "\<forall>c\<in>set cs. tc_parent (h ! c) = None \<longrightarrow> tc_next (h ! c) = None"
    and "chain h (tc_child (h ! root)) xs" "set xs \<inter> set cs = {}" "root \<notin> set xs"
  shows "\<exists>h'. root_set_loop root h cs = Inr h' \<and> length h' = length h
    \<and> chain h' (tc_child (h' ! root)) (rev (filter (\<lambda>c. tc_parent (h ! c) = None) cs) @ xs)
    \<and> (\<forall>x. tc_parent (h' ! x) = tc_parent (h ! x) \<and> tc_threadable (h' ! x) = tc_threadable (h ! x)
          \<and> (x \<noteq> root \<longrightarrow> tc_child (h' ! x) = tc_child (h ! x))
          \<and> (x \<notin> {c\<in>set cs. tc_parent (h ! c) = None} \<longrightarrow> tc_next (h' ! x) = tc_next (h ! x)))"
  using assms
proof (induction cs arbitrary: h xs)
  case Nil
  then show ?case by simp
next
  case (Cons c cs)
  have cl: "c < length h" "root < length h" "c \<noteq> root" using Cons.prems by auto
  show ?case
  proof (cases "tc_parent (h ! c) = None")
    case False
    from Cons.IH[of h xs] Cons.prems obtain h' where "root_set_loop root h cs = Inr h'" "length h' = length h"
      "chain h' (tc_child (h' ! root)) (rev (filter (\<lambda>c. tc_parent (h ! c) = None) cs) @ xs)"
      "\<forall>x. tc_parent (h' ! x) = tc_parent (h ! x) \<and> tc_threadable (h' ! x) = tc_threadable (h ! x)
          \<and> (x \<noteq> root \<longrightarrow> tc_child (h' ! x) = tc_child (h ! x))
          \<and> (x \<notin> {c\<in>set cs. tc_parent (h ! c) = None} \<longrightarrow> tc_next (h' ! x) = tc_next (h ! x))"
      by auto
    with False show ?thesis by auto
  next
    case True
    define g where "g = set_child (set_next h c (tc_child (h ! root))) root (Some c)"
    have fld: "length g = length h"
      "tc_parent (g ! x) = tc_parent (h ! x)" "tc_threadable (g ! x) = tc_threadable (h ! x)"
      "tc_child (g ! x) = (if x = root then Some c else tc_child (h ! x))"
      "tc_next (g ! x) = (if x = c then tc_child (h ! root) else tc_next (h ! x))" for x
      using cl by (auto simp: g_def)
    have ch: "chain g (tc_child (h ! root)) xs"
    proof (rule chain_next_cong[OF _ Cons.prems(5)])
      fix x assume x: "x \<in> set xs"
      then have "x \<noteq> c" using Cons.prems(6) by auto
      then show "x < length g \<and> tc_next (g ! x) = tc_next (h ! x)"
        using chain_bound[OF Cons.prems(5) x] fld by auto
    qed
    have "\<exists>h'. root_set_loop root g cs = Inr h' \<and> length h' = length g
      \<and> chain h' (tc_child (h' ! root)) (rev (filter (\<lambda>c. tc_parent (g ! c) = None) cs) @ (c # xs))
      \<and> (\<forall>x. tc_parent (h' ! x) = tc_parent (g ! x) \<and> tc_threadable (h' ! x) = tc_threadable (g ! x)
          \<and> (x \<noteq> root \<longrightarrow> tc_child (h' ! x) = tc_child (g ! x))
          \<and> (x \<notin> {c\<in>set cs. tc_parent (g ! c) = None} \<longrightarrow> tc_next (h' ! x) = tc_next (g ! x)))"
    proof (rule Cons.IH)
      show "\<forall>d\<in>set cs. tc_parent (g ! d) = None \<longrightarrow> tc_next (g ! d) = None"
        using Cons.prems(1,4) by (auto simp: fld)
    qed (use Cons.prems cl ch in \<open>auto simp: fld\<close>)
    then obtain h' where h': "root_set_loop root g cs = Inr h'" "length h' = length g"
      "chain h' (tc_child (h' ! root)) (rev (filter (\<lambda>c. tc_parent (g ! c) = None) cs) @ (c # xs))"
      "\<forall>x. tc_parent (h' ! x) = tc_parent (g ! x) \<and> tc_threadable (h' ! x) = tc_threadable (g ! x)
          \<and> (x \<noteq> root \<longrightarrow> tc_child (h' ! x) = tc_child (g ! x))
          \<and> (x \<notin> {c\<in>set cs. tc_parent (g ! c) = None} \<longrightarrow> tc_next (h' ! x) = tc_next (g ! x))"
      by blast
    have "tc_next (h ! c) = None" using Cons.prems(4) True by simp
    then have "root_set_loop root h (c # cs) = Inr h'" using True h'(1) by (simp add: g_def)
    then show ?thesis using h' True by (auto simp: fld)
  qed
qed

lemma forest_has_root:
  assumes "forest h kids" "x < length h"
  shows "\<exists>r<length h. tc_parent (h ! r) = None \<and> (x = r \<or> (x, r) \<in> (parent_rel h)\<^sup>+)"
  using assms(2)
proof (induction "depth_of h x" arbitrary: x rule: less_induct)
  case less
  show ?case
  proof (cases "tc_parent (h ! x)")
    case None
    then show ?thesis using less.prems by blast
  next
    case (Some p)
    then have xp: "(x, p) \<in> parent_rel h" and pl: "p < length h"
      using less.prems forestD(6)[OF assms(1)] by (auto simp: parent_rel_def)
    from less.hyps[OF _ pl] depth_parent[OF assms(1) xp] obtain r where
      "r < length h" "tc_parent (h ! r) = None" "p = r \<or> (p, r) \<in> (parent_rel h)\<^sup>+" by auto
    then show ?thesis using xp by (meson r_into_trancl' trancl_into_trancl2)
  qed
qed

lemma chain_reach: "chain h p xs \<Longrightarrow> x \<in> set xs \<Longrightarrow> x \<in> reach h p"
proof (induction xs arbitrary: p)
  case Nil
  then show ?case by simp
next
  case (Cons k ks)
  then have q: "p = Some k" "k < length h" "chain h (tc_next (h ! k)) ks" by auto
  then show ?case using Cons.IH[OF q(3)] Cons.prems(2) by (auto simp: reach_Some)
qed

lemma findRootSet_forest:
  assumes f: "forest h kids" and d: "distinct order" and all: "set order = {..<length h}"
  shows "\<exists>h' root. findRootSet order h = Inr (h', root) \<and> root = length h \<and> length h' = Suc root
    \<and> chain h' (tc_child (h' ! root)) (rev (filter (\<lambda>c. tc_parent (h ! c) = None) order))
    \<and> (\<forall>x<root. tc_threadable (h' ! x) = tc_threadable (h ! x) \<and> tc_parent (h' ! x) = tc_parent (h ! x)
         \<and> tc_child (h' ! x) = tc_child (h ! x) \<and> (tc_parent (h ! x) \<noteq> None \<longrightarrow> tc_next (h' ! x) = tc_next (h ! x)))"
proof -
  let ?g = "h @ [new_container None []]"
  let ?root = "length h"
  have nth: "?g ! x = h ! x" if "x < ?root" for x using that by (simp add: nth_append)
  have "\<exists>h'. root_set_loop ?root ?g order = Inr h' \<and> length h' = length ?g
    \<and> chain h' (tc_child (h' ! ?root)) (rev (filter (\<lambda>c. tc_parent (?g ! c) = None) order) @ [])
    \<and> (\<forall>x. tc_parent (h' ! x) = tc_parent (?g ! x) \<and> tc_threadable (h' ! x) = tc_threadable (?g ! x)
          \<and> (x \<noteq> ?root \<longrightarrow> tc_child (h' ! x) = tc_child (?g ! x))
          \<and> (x \<notin> {c\<in>set order. tc_parent (?g ! c) = None} \<longrightarrow> tc_next (h' ! x) = tc_next (?g ! x)))"
  proof (rule root_set_loop_roots[OF d])
    show "\<forall>c\<in>set order. tc_parent (?g ! c) = None \<longrightarrow> tc_next (?g ! c) = None"
      using forestD(5)[OF f] all nth by simp
  qed (use all in \<open>auto simp: new_container_def\<close>)
  then obtain h' where h': "root_set_loop ?root ?g order = Inr h'" "length h' = length ?g"
    "chain h' (tc_child (h' ! ?root)) (rev (filter (\<lambda>c. tc_parent (?g ! c) = None) order))"
    "\<forall>x. tc_parent (h' ! x) = tc_parent (?g ! x) \<and> tc_threadable (h' ! x) = tc_threadable (?g ! x)
          \<and> (x \<noteq> ?root \<longrightarrow> tc_child (h' ! x) = tc_child (?g ! x))
          \<and> (x \<notin> {c\<in>set order. tc_parent (?g ! c) = None} \<longrightarrow> tc_next (h' ! x) = tc_next (?g ! x))"
    by auto
  have "filter (\<lambda>c. tc_parent (?g ! c) = None) order = filter (\<lambda>c. tc_parent (h ! c) = None) order"
    using all nth by (intro filter_cong) auto
  then show ?thesis using h' nth by (auto simp: findRootSet_def)
qed

text \<open>Every container is reachable from the root node.\<close>

lemma findRootSet_reach:
  assumes f: "forest h kids" and d: "distinct order" "set order = {..<length h}"
    and r: "findRootSet order h = Inr (h', root)" and x: "x < length h"
  shows "x \<in> reach h' (Some root)"
proof -
  from findRootSet_forest[OF f d] r have eq: "root = length h" "length h' = Suc root"
    "chain h' (tc_child (h' ! root)) (rev (filter (\<lambda>c. tc_parent (h ! c) = None) order))"
    and fld: "\<forall>x<root. tc_threadable (h' ! x) = tc_threadable (h ! x) \<and> tc_parent (h' ! x) = tc_parent (h ! x)
         \<and> tc_child (h' ! x) = tc_child (h ! x) \<and> (tc_parent (h ! x) \<noteq> None \<longrightarrow> tc_next (h' ! x) = tc_next (h ! x))"
    by auto
  from forest_has_root[OF f x] obtain t where t: "t < length h" "tc_parent (h ! t) = None"
    "x = t \<or> (x, t) \<in> (parent_rel h)\<^sup>+" by blast
  have "succ_rel h \<subseteq> succ_rel h'"
  proof (rule subrelI)
    fix a b assume ab: "(a, b) \<in> succ_rel h"
    then have al: "a < length h" by (simp add: succ_rel_def)
    have "tc_next (h ! a) = Some b \<Longrightarrow> tc_parent (h ! a) \<noteq> None" using forestD(5)[OF f al] by auto
    then show "(a, b) \<in> succ_rel h'" using ab al fld eq by (auto simp: succ_rel_def)
  qed
  then have mono: "reach h p \<subseteq> reach h' p" for p
    using rtrancl_mono by (auto simp: reach_def split: option.splits)
  have "t \<in> set (rev (filter (\<lambda>c. tc_parent (h ! c) = None) order))" using t d by simp
  from chain_reach[OF eq(3) this] have t': "t \<in> reach h' (Some root)" using eq by (simp add: reach_Some)
  show ?thesis
  proof (cases "x = t")
    case True
    then show ?thesis using t' by simp
  next
    case False
    then have "x \<in> reach h (tc_child (h ! t))" using t reach_child_below[OF f t(1)] by simp
    then have "x \<in> reach h (Some t)" using reach_Some[OF t(1)] by simp
    then have "x \<in> reach h' (Some t)" using mono by blast
    then show ?thesis using t' by (auto simp: reach_def intro: rtrancl_trans)
  qed
qed

subsection \<open>Properties\<close>

text \<open>
  C17. Building never fails and never makes a cycle.  For any messages, with any references
  (even circular or contradictory), that do not use the generated ids: every call of
  \<open>buildContainer\<close> returns without error, the containers form a forest (each child list a
  finite chain of exactly the containers with that parent, no container above itself), and
  they hold each message that is not a dummy exactly as often as it was given.
\<close>

theorem jwz_build_forest:
  assumes "\<forall>m\<in>set ms. ids_ok ops m"
  shows "\<exists>th kids. build_all ops ms NewThreader = Inr th \<and> forest (th_heap th) kids
    \<and> mset (placed (th_heap th)) = mset (map Real (filter (\<lambda>m. \<not> op_IsDummy ops m) ms))"
proof -
  from build_all_inv[OF NewThreader_inv assms] obtain th xs where
    "build_all ops ms NewThreader = Inr th" "build_inv th xs"
    "mset xs = mset (filter (\<lambda>m. \<not> op_IsDummy ops m) ms)" by auto
  then show ?thesis by (auto simp: build_inv_def)
qed

text \<open>Three messages that reference one another in a circle; the third also repeats the id of the first.\<close>

definition sample_threadables :: "nat threadable_ops" where
  "sample_threadables = \<lparr>
     op_MessageThreadID = (\<lambda>m. if m = 1 then ''a'' else if m = 2 then ''b'' else ''a''),
     op_MessageThreadReferences = (\<lambda>m. if m = 1 then [''b''] else if m = 2 then [''c'', ''a''] else [''b'', ''c'']),
     op_SimplifiedSubject = (\<lambda>_. ''''), op_SubjectIsReply = (\<lambda>_. False), op_IsDummy = (\<lambda>_. False)\<rparr>"

lemma sample_ids_ok: "ids_ok sample_threadables m"
proof -
  have "length (bogus_id k) > 1" for k by (simp add: bogus_id_def)
  then have "bogus_id k \<noteq> [c]" for k c by (metis length_Cons list.size(3) less_irrefl One_nat_def)
  then show ?thesis by (auto simp: ids_ok_def sample_threadables_def) metis+
qed

lemma jwz_build_forest_witness:
  "\<exists>th kids. build_all sample_threadables [1, 2, 3] NewThreader = Inr th \<and> forest (th_heap th) kids
     \<and> mset (placed (th_heap th)) = {#Real 1, Real 2, Real 3#}"
proof -
  have "\<forall>m\<in>set [1, 2, 3]. ids_ok sample_threadables m" by (simp add: sample_ids_ok)
  from jwz_build_forest[OF this] obtain th kids where
    "build_all sample_threadables [1, 2, 3] NewThreader = Inr th" "forest (th_heap th) kids"
    "mset (placed (th_heap th)) = mset (map Real (filter (\<lambda>m. \<not> op_IsDummy sample_threadables m) [1, 2, 3]))"
    by blast
  then show ?thesis by (auto simp: sample_threadables_def)
qed

end
