(* ===== verification/JwzUtils.thy ===== *)
theory JwzUtils
  imports Prelude
begin

text \<open>
  \<open>lib/jwz/utils.go\<close>: counting, sorting and walking a threaded set of messages.  The set is
  the tree that \<open>GetChild\<close> and \<open>GetNext\<close> span: a chain of siblings, each with its chain of
  children.  \<open>slices.SortFunc\<close> is an argument \<open>srt\<close>: it may return any sorted permutation.
\<close>

datatype 'a jtree = JNil | JNode 'a (jt_child: "'a jtree") (jt_next: "'a jtree")

text \<open>The counter is passed along.\<close>

fun Count :: "('a \<Rightarrow> bool) \<Rightarrow> 'a jtree \<Rightarrow> int \<Rightarrow> int" where
  "Count dummy JNil counter = counter"
| "Count dummy (JNode a ch nx) counter =
     (let counter = (if ch \<noteq> JNil then Count dummy ch counter else counter);
          counter = (if \<not> dummy a then counter + 1 else counter)
      in Count dummy nx counter)"

text \<open>Sorting: the nodes of a chain with their sorted children, and the chain of a slice.\<close>

fun chain_of :: "('a \<times> 'a jtree) list \<Rightarrow> 'a jtree" where
  "chain_of [] = JNil"
| "chain_of ((a, ch) # s) = JNode a ch (chain_of s)"

fun Sort :: "(('a \<times> 'a jtree) list \<Rightarrow> ('a \<times> 'a jtree) list) \<Rightarrow> 'a jtree \<Rightarrow> 'a jtree"
  and sort_slice :: "(('a \<times> 'a jtree) list \<Rightarrow> ('a \<times> 'a jtree) list) \<Rightarrow> 'a jtree \<Rightarrow> ('a \<times> 'a jtree) list" where
  "Sort srt JNil = JNil"
| "Sort srt (JNode a ch nx) =
     (if nx = JNil then JNode a ch nx
      else chain_of (srt ((a, if ch \<noteq> JNil then Sort srt ch else ch) # sort_slice srt nx)))"
| "sort_slice srt JNil = []"
| "sort_slice srt (JNode a ch nx) = (a, if ch \<noteq> JNil then Sort srt ch else ch) # sort_slice srt nx"

text \<open>
  Walking: the function is called with the user's state \<open>'s\<close>; it asks to stop, fails or goes
  on.  The result of a walk is the state and the error, if any.
\<close>

datatype 'e walk_step = Continue | Stop | Failed 'e

fun walk_depth :: "('a \<Rightarrow> 's \<Rightarrow> 's \<times> 'e walk_step) \<Rightarrow> 'a jtree \<Rightarrow> 's \<Rightarrow> 's \<times> 'e option" where
  "walk_depth f JNil s = (s, None)"
| "walk_depth f (JNode a ch nx) s =
     (case (if ch \<noteq> JNil then walk_depth f ch s else (s, None)) of
        (s, Some e) \<Rightarrow> (s, Some e)
      | (s, None) \<Rightarrow>
          (case f a s of
             (s, Continue) \<Rightarrow> walk_depth f nx s
           | (s, Stop) \<Rightarrow> (s, None)
           | (s, Failed e) \<Rightarrow> (s, Some e)))"

text \<open>The two loops of the breadth first walk; the first tells whether the walk goes on.\<close>

fun walk_chain :: "('a \<Rightarrow> 's \<Rightarrow> 's \<times> 'e walk_step) \<Rightarrow> 'a jtree \<Rightarrow> 's \<Rightarrow> 's \<times> 'e walk_step" where
  "walk_chain f JNil s = (s, Continue)"
| "walk_chain f (JNode a ch nx) s =
     (case f a s of (s, Continue) \<Rightarrow> walk_chain f nx s | (s, r) \<Rightarrow> (s, r))"

function walk_breadth :: "('a \<Rightarrow> 's \<Rightarrow> 's \<times> 'e walk_step) \<Rightarrow> 'a jtree \<Rightarrow> 's \<Rightarrow> 's \<times> 'e option"
  and walk_children :: "('a \<Rightarrow> 's \<Rightarrow> 's \<times> 'e walk_step) \<Rightarrow> 'a jtree \<Rightarrow> 's \<Rightarrow> 's \<times> 'e option" where
  "walk_breadth f t s =
     (case walk_chain f t s of
        (s, Continue) \<Rightarrow> walk_children f t s
      | (s, Stop) \<Rightarrow> (s, None)
      | (s, Failed e) \<Rightarrow> (s, Some e))"
| "walk_children f JNil s = (s, None)"
| "walk_children f (JNode a ch nx) s =
     (if ch \<noteq> JNil then
        (case walk_breadth f ch s of
           (s, Some e) \<Rightarrow> (s, Some e)
         | (s, None) \<Rightarrow> walk_children f nx s)
      else walk_children f nx s)"
  by pat_completeness auto
termination
  by (relation "measure (\<lambda>x. case x of Inl (f, t, s) \<Rightarrow> 2 * size t + 1 | Inr (f, t, s) \<Rightarrow> 2 * size t)") auto

definition Walk :: "bool \<Rightarrow> 'a jtree \<Rightarrow> ('a \<Rightarrow> 's \<Rightarrow> 's \<times> 'e walk_step) \<Rightarrow> 's \<Rightarrow> 's \<times> 'e option" where
  "Walk isDepth t f s =
     (if t = JNil then (s, None) else if isDepth then walk_depth f t s else walk_breadth f t s)"

subsection \<open>The nodes of a tree\<close>

fun jt_nodes :: "'a jtree \<Rightarrow> 'a list" where
  "jt_nodes JNil = []"
| "jt_nodes (JNode a ch nx) = jt_nodes ch @ a # jt_nodes nx"

lemma Count_nodes: "Count dummy t c = c + int (length (filter (\<lambda>a. \<not> dummy a) (jt_nodes t)))"
  by (induction dummy t c rule: Count.induct) (auto simp: Let_def)

lemma nodes_chain_of: "mset (jt_nodes (chain_of s)) = (\<Sum>(a, ch)\<in>#mset s. add_mset a (mset (jt_nodes ch)))"
  by (induction s rule: chain_of.induct) auto

lemma Sort_nodes:
  assumes "\<And>s. mset (srt s) = mset s"
  shows "mset (jt_nodes (Sort srt t)) = mset (jt_nodes t)"
    and "(\<Sum>(a, ch)\<in>#mset (sort_slice srt t). add_mset a (mset (jt_nodes ch))) = mset (jt_nodes t)"
  using assms
proof (induction srt t and srt t rule: Sort_sort_slice.induct)
  case (2 srt a ch nx)
  then show ?case by (cases "nx = JNil"; cases "ch = JNil") (auto simp: nodes_chain_of)
next
  case (4 srt a ch nx)
  then show ?case by (cases "ch = JNil") auto
qed auto

text \<open>A walk whose function never stops: each node once, children before their parent.\<close>

lemma walk_depth_all:
  assumes "\<And>a s. f a s = (g a s, Continue)"
  shows "walk_depth f t s = (foldl (\<lambda>s a. g a s) s (jt_nodes t), None)"
  by (induction t arbitrary: s) (auto simp: assms)

subsection \<open>Properties\<close>

text \<open>
  Sorting neither loses nor duplicates a message, whatever the comparison: with any
  sort of slices that permutes its argument, the sorted set has the same messages, so its
  count of real messages is unchanged.
\<close>

lemma Sort_keeps_messages:
  assumes "\<And>s. mset (srt s) = mset s"
  shows "mset (jt_nodes (Sort srt t)) = mset (jt_nodes t) \<and> Count dummy (Sort srt t) c = Count dummy t c"
proof -
  have m: "mset (jt_nodes (Sort srt t)) = mset (jt_nodes t)" by (rule Sort_nodes(1)[OF assms])
  have "size (filter_mset (\<lambda>a. \<not> dummy a) (mset (jt_nodes (Sort srt t))))
      = size (filter_mset (\<lambda>a. \<not> dummy a) (mset (jt_nodes t)))" by (simp only: m)
  then have "length (filter (\<lambda>a. \<not> dummy a) (jt_nodes (Sort srt t))) = length (filter (\<lambda>a. \<not> dummy a) (jt_nodes t))"
    by (simp only: mset_filter[symmetric] size_mset)
  then show ?thesis using m by (simp add: Count_nodes)
qed

definition sample_jtree :: "nat jtree" where
  "sample_jtree = JNode 5 (JNode 4 JNil (JNode 3 JNil JNil)) (JNode 1 JNil JNil)"

lemma Sort_keeps_messages_witness:
  "Sort (sort_key fst) sample_jtree = JNode 1 JNil (JNode 5 (JNode 3 JNil (JNode 4 JNil JNil)) JNil)
   \<and> Count (\<lambda>a. a = 4) (Sort (sort_key fst) sample_jtree) 0 = 3"
proof -
  have s: "Sort (sort_key fst) sample_jtree = JNode 1 JNil (JNode 5 (JNode 3 JNil (JNode 4 JNil JNil)) JNil)"
    by (simp add: sample_jtree_def)
  have "Count (\<lambda>a. a = 4) sample_jtree 0 = 3" by (simp add: sample_jtree_def)
  then show ?thesis using Sort_keeps_messages[of "sort_key fst" sample_jtree "\<lambda>a. a = 4" 0] s by simp
qed

text \<open>
  A walk that is told to stop inside a chain of children goes on with their parent:
  in a depth first walk whose function asks to stop at every message, all the first
  messages of the chains are still visited, up to the top.
\<close>

fun leftmost :: "'a jtree \<Rightarrow> 'a list" where
  "leftmost JNil = []"
| "leftmost (JNode a ch nx) = leftmost ch @ [a]"

lemma Walk_stop_is_local:
  "Walk True t (\<lambda>a s. (s @ [a], Stop :: 'e walk_step)) s0 = (s0 @ leftmost t, None)"
proof -
  have "walk_depth (\<lambda>a s. (s @ [a], Stop :: 'e walk_step)) t s = (s @ leftmost t, None)" for s
    by (induction t arbitrary: s) auto
  then show ?thesis by (simp add: Walk_def)
qed

end
