(* ===== verification/Iterators.thy ===== *)
theory Iterators
  imports Tabs
begin

text \<open>
  \<open>lib/iterator\<close>: the iterators over messages and threads, in the default direction (from
  the end of the slice, the top of the list) and reversed, and the arithmetic of moving an
  index.  The locale \<open>directed_iterator\<close> is the contract of the package's \<open>Iterator\<close>
  interface; both implementations are interpretations of it.  Reading a value out of
  range panics (\<open>None\<close>).
\<close>

record 'a iter =
  it_data :: "'a list"
  it_index :: int

definition iter_Value :: "'a iter \<Rightarrow> 'a option" where
  "iter_Value it =
     (if it_index it < 0 \<or> it_index it \<ge> int (length (it_data it)) then None
      else Some (it_data it ! nat (it_index it)))"

definition default_New :: "'a list \<Rightarrow> 'a iter" where
  "default_New data = \<lparr>it_data = data, it_index = int (length data)\<rparr>"

definition default_Next :: "'a iter \<Rightarrow> 'a iter \<times> bool" where
  "default_Next it = (let it = it\<lparr>it_index := it_index it - 1\<rparr> in (it, it_index it \<ge> 0))"

definition default_StartIndex :: "'a list \<Rightarrow> int" where
  "default_StartIndex data = int (length data) - 1"

definition default_EndIndex :: "'a list \<Rightarrow> int" where
  "default_EndIndex data = 0"

definition reverse_New :: "'a list \<Rightarrow> 'a iter" where
  "reverse_New data = \<lparr>it_data = data, it_index = -1\<rparr>"

definition reverse_Next :: "'a iter \<Rightarrow> 'a iter \<times> bool" where
  "reverse_Next it =
     (let it = it\<lparr>it_index := it_index it + 1\<rparr> in (it, it_index it < int (length (it_data it))))"

definition reverse_StartIndex :: "'a list \<Rightarrow> int" where
  "reverse_StartIndex data = 0"

definition reverse_EndIndex :: "'a list \<Rightarrow> int" where
  "reverse_EndIndex data = int (length data) - 1"

text \<open>\<open>for it.Next() { ... it.Value() ... }\<close>: the values seen, if \<open>n\<close> rounds are enough.\<close>

fun iterate :: "('a iter \<Rightarrow> 'a iter \<times> bool) \<Rightarrow> nat \<Rightarrow> 'a iter \<Rightarrow> 'a list option" where
  "iterate nxt 0 it = None"
| "iterate nxt (Suc n) it =
     (case nxt it of
        (it, False) \<Rightarrow> Some []
      | (it, True) \<Rightarrow>
          (case iter_Value it of
             None \<Rightarrow> None
           | Some x \<Rightarrow> map_option ((#) x) (iterate nxt n it)))"

text \<open>A factory yields one of the two directions.\<close>

definition iterate_all :: "bool \<Rightarrow> 'a list \<Rightarrow> 'a list option" where
  "iterate_all rev_factory data =
     (if rev_factory then iterate reverse_Next (Suc (length data)) (reverse_New data)
      else iterate default_Next (Suc (length data)) (default_New data))"

subsection \<open>The contract\<close>

locale directed_iterator =
  fixes new :: "'a list \<Rightarrow> 'a iter" and nxt :: "'a iter \<Rightarrow> 'a iter \<times> bool"
    and startIndex endIndex :: "'a list \<Rightarrow> int" and direction :: "'a list \<Rightarrow> 'a list"
  assumes iterates: "length data < n \<Longrightarrow> iterate nxt n (new data) = Some (direction data)"
    and permutes: "mset (direction data) = mset data"
    and starts: "data \<noteq> [] \<Longrightarrow> 0 \<le> startIndex data \<and> startIndex data < int (length data)
      \<and> hd (direction data) = data ! nat (startIndex data)"
    and ends: "data \<noteq> [] \<Longrightarrow> 0 \<le> endIndex data \<and> endIndex data < int (length data)
      \<and> last (direction data) = data ! nat (endIndex data)"
begin

lemma visits_each_once: "\<exists>xs. iterate nxt (Suc (length data)) (new data) = Some xs \<and> mset xs = mset data"
  using iterates[of data "Suc (length data)"] permutes by auto

lemma first_is_top:
  "data \<noteq> [] \<Longrightarrow> \<exists>xs. iterate nxt (Suc (length data)) (new data) = Some xs
     \<and> hd xs = data ! nat (startIndex data) \<and> last xs = data ! nat (endIndex data)"
  using iterates[of data "Suc (length data)"] starts[of data] ends[of data] by auto

end

lemma nat_last_index: "nat (int (length data) - 1) = length data - Suc 0"
  by simp

lemma iterate_default:
  "k \<le> length data \<Longrightarrow> k < n \<Longrightarrow>
     iterate default_Next n \<lparr>it_data = data, it_index = int k\<rparr> = Some (rev (take k data))"
proof (induction k arbitrary: n)
  case 0
  then show ?case by (cases n) (auto simp: default_Next_def Let_def)
next
  case (Suc k)
  then obtain m where "n = Suc m" by (cases n) auto
  then show ?case using Suc.IH[of m] Suc.prems
    by (simp add: default_Next_def iter_Value_def take_Suc_conv_app_nth Let_def)
qed

lemma iterate_reverse:
  "k \<le> length data \<Longrightarrow> length data - k < n \<Longrightarrow>
     iterate reverse_Next n \<lparr>it_data = data, it_index = int k - 1\<rparr> = Some (drop k data)"
proof (induction "length data - k" arbitrary: k n)
  case 0
  then show ?case by (cases n) (auto simp: reverse_Next_def Let_def)
next
  case (Suc d)
  then obtain m where "n = Suc m" by (cases n) auto
  moreover have "d = length data - Suc k" using Suc.hyps(2) by simp
  ultimately show ?case using Suc.hyps(1)[of "Suc k" m] Suc.prems Suc.hyps(2)
    by (simp add: reverse_Next_def iter_Value_def Let_def Cons_nth_drop_Suc)
qed

interpretation default_iterator: directed_iterator default_New default_Next default_StartIndex default_EndIndex rev
proof
  fix data :: "'a list" and n :: nat
  assume "length data < n"
  then show "iterate default_Next n (default_New data) = Some (rev data)"
    using iterate_default[of "length data" data n] by (simp add: default_New_def)
qed (auto simp: default_StartIndex_def default_EndIndex_def hd_rev last_rev last_conv_nth hd_conv_nth nat_last_index)

interpretation reverse_iterator: directed_iterator reverse_New reverse_Next reverse_StartIndex reverse_EndIndex
    "\<lambda>xs. xs"
proof
  fix data :: "'a list" and n :: nat
  assume "length data < n"
  then show "iterate reverse_Next n (reverse_New data) = Some data"
    using iterate_reverse[of 0 data n] by (simp add: reverse_New_def)
qed (auto simp: reverse_StartIndex_def reverse_EndIndex_def last_conv_nth hd_conv_nth nat_last_index)

lemma iterate_all_eq: "iterate_all r data = Some (if r then data else rev data)"
  using default_iterator.iterates[of data "Suc (length data)"] reverse_iterator.iterates[of data "Suc (length data)"]
  by (simp only: iterate_all_def) simp

subsection \<open>Moving an index\<close>

definition FixBounds :: "int \<Rightarrow> int \<Rightarrow> int \<Rightarrow> int" where
  "FixBounds i lower upper = (if i > upper then upper else if i < lower then lower else i)"

definition WrapBounds :: "int \<Rightarrow> int \<Rightarrow> int \<Rightarrow> int" where
  "WrapBounds i lower upper =
     (if upper \<le> 0 then lower
      else if i > upper then lower + go_rem (i - upper - 1) upper
      else if i < lower then upper - go_rem (lower - i - 1) upper
      else i)"

definition MoveIndex ::
  "int \<Rightarrow> int \<Rightarrow> int \<Rightarrow> int \<Rightarrow> (int \<Rightarrow> int \<Rightarrow> int \<Rightarrow> int) option \<Rightarrow> int" where
  "MoveIndex idx delta startIdx endIdx cb =
     (let (lower, upper, sgn) = (if endIdx < startIdx then (endIdx, startIdx, -1) else (startIdx, endIdx, 1));
          result = idx + sgn * delta
      in case cb of None \<Rightarrow> FixBounds result lower upper | Some f \<Rightarrow> f result lower upper)"

lemma go_rem_pos: "0 \<le> a \<Longrightarrow> 0 < b \<Longrightarrow> go_rem a b = a mod b"
  by (simp add: go_rem_def)

lemma WrapBounds_range: "0 \<le> upper \<Longrightarrow> 0 \<le> WrapBounds i 0 upper \<and> WrapBounds i 0 upper \<le> upper"
  using pos_mod_bound[of upper "i - upper - 1"] pos_mod_bound[of upper "- i - 1"]
    pos_mod_sign[of upper "i - upper - 1"] pos_mod_sign[of upper "- i - 1"]
  by (auto simp: WrapBounds_def go_rem_pos order.strict_implies_order)

lemma WrapBounds_lap:
  assumes "0 < upper" "- upper \<le> i" "i \<le> 2 * upper"
  shows "WrapBounds i 0 upper = i mod (upper + 1)"
proof -
  consider "i > upper" | "i < 0" | "0 \<le> i" "i \<le> upper" by linarith
  then show ?thesis
  proof cases
    case 1
    then have "i mod (upper + 1) = (i - (upper + 1)) mod (upper + 1)" by simp
    also have "\<dots> = i - upper - 1" using 1 assms by (subst mod_pos_pos_trivial) auto
    finally show ?thesis using 1 assms by (simp add: WrapBounds_def go_rem_pos)
  next
    case 2
    then have "i mod (upper + 1) = (i + (upper + 1)) mod (upper + 1)" by simp
    also have "\<dots> = i + upper + 1" using 2 assms by (subst mod_pos_pos_trivial) auto
    finally show ?thesis using 2 assms by (simp add: WrapBounds_def go_rem_pos)
  next
    case 3
    then show ?thesis using assms by (simp add: WrapBounds_def)
  qed
qed

subsection \<open>Properties\<close>

text \<open>
  Moving the selection through a list of \<open>n\<close> messages with wrapping: the new index
  is always an index of the list, in both directions; and a step that passes an end
  of the list by less than its length lands where counting in a circle does.
\<close>

lemma MoveIndex_wraps:
  assumes "0 \<le> idx" "idx < int n" "1 < n"
  shows "0 \<le> MoveIndex idx delta 0 (int n - 1) (Some WrapBounds)
    \<and> MoveIndex idx delta 0 (int n - 1) (Some WrapBounds) < int n
    \<and> 0 \<le> MoveIndex idx delta (int n - 1) 0 (Some WrapBounds)
    \<and> MoveIndex idx delta (int n - 1) 0 (Some WrapBounds) < int n
    \<and> (\<bar>delta\<bar> < int n \<and> - int n < idx + delta \<and> idx + delta < 2 * int n - 1
        \<longrightarrow> MoveIndex idx delta 0 (int n - 1) (Some WrapBounds) = (idx + delta) mod int n)"
  using WrapBounds_range[of "int n - 1" "idx + delta"] WrapBounds_range[of "int n - 1" "idx - delta"]
    WrapBounds_lap[of "int n - 1" "idx + delta"] assms
  by (auto simp: MoveIndex_def)

lemma MoveIndex_wraps_witness:
  "MoveIndex 3 2 0 (int 5 - 1) (Some WrapBounds) = 0 \<and> MoveIndex 3 2 (int 5 - 1) 0 (Some WrapBounds) < 5"
  using MoveIndex_wraps[of 3 5 2] by simp

end
