(* ===== verification/Threads.thy ===== *)
theory Threads
  imports GoStrings
begin

text \<open>
  \<open>worker/types/thread.go\<close>: the message threads shown in the list.  A thread with its
  \<open>FirstChild\<close>/\<open>NextSibling\<close> chain is a tree whose children are a list; the parent pointer
  is the position in the tree.  A walk calls a function at every node with its level; the
  function returns nil, \<open>ErrSkipThread\<close> or another error.
\<close>

datatype thread = Thread (th_Uid: uid) (th_Hidden: int) (th_Deleted: bool) (th_Dummy: bool)
  (th_Context: bool) (th_kids: "thread list")

definition new_thread :: "uid \<Rightarrow> thread" where
  "new_thread u = Thread u 0 False False False []"

text \<open>The loop of \<open>InsertCmp\<close>: the child goes in front of the first one it is not bigger than.\<close>

fun insert_cmp :: "(thread \<Rightarrow> thread \<Rightarrow> bool) \<Rightarrow> thread \<Rightarrow> thread list \<Rightarrow> thread list" where
  "insert_cmp bigger child [] = [child]"
| "insert_cmp bigger child (k # ks) =
     (if bigger child k then k # insert_cmp bigger child ks else child # k # ks)"

definition InsertCmp :: "(thread \<Rightarrow> thread \<Rightarrow> bool) \<Rightarrow> thread \<Rightarrow> thread \<Rightarrow> thread" where
  "InsertCmp bigger child t =
     Thread (th_Uid t) (th_Hidden t) (th_Deleted t) (th_Dummy t) (th_Context t)
       (insert_cmp bigger child (th_kids t))"

definition AddChild :: "thread \<Rightarrow> thread \<Rightarrow> thread" where
  "AddChild child t = InsertCmp (\<lambda>_ _. True) child t"

definition OrderedInsert :: "thread \<Rightarrow> thread \<Rightarrow> thread" where
  "OrderedInsert child t = InsertCmp (\<lambda>c i. th_Uid c > th_Uid i) child t"

subsection \<open>Walks\<close>

datatype 'e thread_err = TOk | TSkip | TErr 'e

fun new_walk :: "(thread \<Rightarrow> int \<Rightarrow> 's \<Rightarrow> 's \<times> 'e thread_err) \<Rightarrow> int \<Rightarrow> thread \<Rightarrow> 's \<Rightarrow> 's \<times> 'e thread_err"
  and walk_kids :: "(thread \<Rightarrow> int \<Rightarrow> 's \<Rightarrow> 's \<times> 'e thread_err) \<Rightarrow> int \<Rightarrow> thread list \<Rightarrow> 's \<Rightarrow> 's \<times> 'e thread_err" where
  "new_walk f lvl (Thread u hid dl du cx ks) s =
     (case f (Thread u hid dl du cx ks) lvl s of
        (s, TOk) \<Rightarrow> walk_kids f (lvl + 1) ks s
      | (s, r) \<Rightarrow> (s, r))"
| "walk_kids f lvl [] s = (s, TOk)"
| "walk_kids f lvl (k # ks) s =
     (case new_walk f lvl k s of
        (s, TErr e) \<Rightarrow> (s, TErr e)
      | (s, _) \<Rightarrow> walk_kids f lvl ks s)"

definition thread_Walk :: "(thread \<Rightarrow> int \<Rightarrow> 's \<Rightarrow> 's \<times> 'e thread_err) \<Rightarrow> thread \<Rightarrow> 's \<Rightarrow> 's \<times> 'e thread_err" where
  "thread_Walk f t s =
     (case new_walk f 0 t s of (s, TSkip) \<Rightarrow> (s, TOk) | (s, r) \<Rightarrow> (s, r))"

definition thread_Uids :: "thread option \<Rightarrow> uid list" where
  "thread_Uids t =
     (case t of None \<Rightarrow> []
      | Some t \<Rightarrow> fst (thread_Walk (\<lambda>node _ uids. (uids @ [th_Uid node], TOk :: unit thread_err)) t []))"

definition MaxUid :: "thread \<Rightarrow> uid" where
  "MaxUid t =
     fst (thread_Walk (\<lambda>node _ mx.
       (if th_Deleted node \<or> th_Hidden node > 0 then mx
        else if th_Uid node > mx then th_Uid node else mx, TOk :: unit thread_err)) t [])"

text \<open>A Go map read at a missing key yields 0.\<close>

definition map_int :: "(uid \<rightharpoonup> int) \<Rightarrow> uid \<Rightarrow> int" where
  "map_int m u = (case m u of None \<Rightarrow> 0 | Some i \<Rightarrow> i)"

definition getMaxValue :: "(uid \<rightharpoonup> int) \<Rightarrow> thread \<Rightarrow> int" where
  "getMaxValue uidMap t =
     fst (thread_Walk (\<lambda>node _ mx.
       (if th_Deleted node \<or> th_Hidden node > 0 then mx
        else if map_int uidMap (th_Uid node) > mx then map_int uidMap (th_Uid node) else mx,
        TOk :: unit thread_err)) t 0)"

text \<open>\<open>for i, uid := range uids { m[uid] = i }\<close>: a later occurrence wins.\<close>

fun index_map :: "int \<Rightarrow> uid list \<Rightarrow> (uid \<rightharpoonup> int) \<Rightarrow> (uid \<rightharpoonup> int)" where
  "index_map i [] m = m"
| "index_map i (u # us) m = index_map (i + 1) us (m(u \<mapsto> i))"

lemma index_map_nth:
  "distinct us \<Longrightarrow> k < length us \<Longrightarrow> index_map i us m (us ! k) = Some (i + int k)"
proof (induction i us m arbitrary: k rule: index_map.induct)
  case (1 i m)
  then show ?case by simp
next
  case (2 i u us m)
  have other: "v \<notin> set us \<Longrightarrow> index_map j us m' v = m' v" for j v m'
    by (induction j us m' rule: index_map.induct) auto
  show ?case
  proof (cases k)
    case 0
    then show ?thesis using 2 other[of u "i + 1" "m(u \<mapsto> i)"] by simp
  next
    case (Suc j)
    have "index_map (i + 1) us (m(u \<mapsto> i)) (us ! j) = Some (i + 1 + int j)"
      using "2.prems" Suc by (intro "2.IH") auto
    then show ?thesis using Suc by (simp only: index_map.simps nth_Cons_Suc) simp
  qed
qed

text \<open>\<open>slices.SortFunc\<close> with the comparison of keys: \<open>srt\<close> may be any sort by a key.\<close>

definition SortThreadsBy ::
  "((thread \<Rightarrow> int) \<Rightarrow> thread list \<Rightarrow> thread list) \<Rightarrow> thread list \<Rightarrow> uid list \<Rightarrow> thread list" where
  "SortThreadsBy srt toSort sortBy = srt (getMaxValue (index_map 0 sortBy Map.empty)) toSort"

subsection \<open>Nodes\<close>

fun thread_nodes :: "thread \<Rightarrow> thread list" where
  "thread_nodes (Thread u hid dl du cx ks) = Thread u hid dl du cx ks # concat (map thread_nodes ks)"

definition forest_uids :: "thread list \<Rightarrow> uid list" where
  "forest_uids ts = map th_Uid (concat (map thread_nodes ts))"

text \<open>A walk that never fails folds over the nodes, parents before children.\<close>

lemma walk_fold:
  assumes "\<And>t lvl s. f t lvl s = (g t s, TOk)"
  shows "new_walk f lvl t s = (foldl (\<lambda>s t. g t s) s (thread_nodes t), TOk)"
    and "walk_kids f lvl ks s = (foldl (\<lambda>s t. g t s) s (concat (map thread_nodes ks)), TOk)"
  using assms
  by (induction f lvl t s and f lvl ks s rule: new_walk_walk_kids.induct) auto

lemma Walk_fold:
  "thread_Walk (\<lambda>t lvl s. (g t s, TOk :: 'e thread_err)) t s
     = (foldl (\<lambda>s t. g t s) s (thread_nodes t), TOk)"
  using walk_fold(1)[of "\<lambda>t lvl s. (g t s, TOk :: 'e thread_err)" g 0 t s] by (simp add: thread_Walk_def)

lemma foldl_append_map: "foldl (\<lambda>xs t. xs @ [f t]) xs ts = xs @ map f ts"
  by (induction ts arbitrary: xs) auto

lemma thread_Uids_nodes: "thread_Uids (Some t) = map th_Uid (thread_nodes t)"
  by (simp add: thread_Uids_def Walk_fold foldl_append_map)

lemma mset_insert_cmp: "mset (insert_cmp bigger c ks) = add_mset c (mset ks)"
  by (induction ks) auto

lemma forest_uids_Cons: "forest_uids (t # ts) = map th_Uid (thread_nodes t) @ forest_uids ts"
  by (simp add: forest_uids_def)

lemma mset_forest_uids_cong: "mset ts = mset us \<Longrightarrow> mset (forest_uids ts) = mset (forest_uids us)"
proof -
  have "mset (forest_uids xs) = (\<Sum>t\<in>#mset xs. mset (map th_Uid (thread_nodes t)))" for xs
    by (induction xs) (auto simp: forest_uids_def)
  then show "mset ts = mset us \<Longrightarrow> ?thesis" by simp
qed

lemma insert_cmp_sorted:
  assumes "\<And>x y. bigger x y = (key x > (key y :: 'k::linorder))" "sorted (map key ks)"
  shows "sorted (map key (insert_cmp bigger c ks))"
proof -
  have s: "set (insert_cmp bigger c ks) = insert c (set ks)" for ks
    using mset_insert_cmp[of bigger c ks] by (metis set_mset_add_mset_insert set_mset_mset)
  show ?thesis using assms(2)
  proof (induction ks)
    case Nil
    then show ?case by simp
  next
    case (Cons k ks)
    then show ?case
    proof (cases "bigger c k")
      case True
      then have "key k < key c" using assms(1)[of c k] by simp
      then show ?thesis using Cons True by (auto simp: s)
    next
      case False
      then show ?thesis using Cons.prems by (fastforce simp: assms(1) not_less)
    qed
  qed
qed

text \<open>The largest value below a thread: that of a visible node, or 0.\<close>

lemma Max_insert_max:
  "finite A \<Longrightarrow> Max (insert (max a b) A) = Max (insert a (insert (b::'k::linorder) A))"
  by (cases "A = {}") (auto simp: max.assoc)

lemma foldl_max:
  fixes m0 :: "'k::linorder"
  shows "foldl (\<lambda>m t. if P t then m else if f t > m then f t else m) m0 ts
    = Max (insert m0 (f ` {t \<in> set ts. \<not> P t}))"
proof (induction ts arbitrary: m0)
  case Nil
  then show ?case by simp
next
  case (Cons t ts)
  have fin: "finite (f ` {u \<in> set ts. \<not> P u})" by simp
  have step: "foldl (\<lambda>m t. if P t then m else if f t > m then f t else m) m0 (t # ts)
      = Max (insert (if P t then m0 else max m0 (f t)) (f ` {u \<in> set ts. \<not> P u}))"
    by (auto simp: Cons.IH max_def)
  show ?case
  proof (cases "P t")
    case True
    then have "{u \<in> set (t # ts). \<not> P u} = {u \<in> set ts. \<not> P u}" by auto
    then show ?thesis using step True by simp
  next
    case False
    then have "{u \<in> set (t # ts). \<not> P u} = insert t {u \<in> set ts. \<not> P u}" by auto
    moreover have "Max (insert (max m0 (f t)) (f ` {u \<in> set ts. \<not> P u}))
        = Max (insert m0 (insert (f t) (f ` {u \<in> set ts. \<not> P u})))"
      using fin by (rule Max_insert_max)
    ultimately show ?thesis using step False by simp
  qed
qed

lemma getMaxValue_Max:
  "getMaxValue m t =
     Max (insert 0 (map_int m ` (th_Uid ` {n \<in> set (thread_nodes t). \<not> (th_Deleted n \<or> th_Hidden n > 0)})))"
  unfolding getMaxValue_def Walk_fold[where g = "\<lambda>node mx. if th_Deleted node \<or> th_Hidden node > 0 then mx
        else if map_int m (th_Uid node) > mx then map_int m (th_Uid node) else mx"] fst_conv
  by (simp add: foldl_max[where f = "\<lambda>n. map_int m (th_Uid n)"] image_image)

end
