(* ===== verification/ThreadBuilder.thy ===== *)
theory ThreadBuilder
  imports Threads JwzThread JwzUtils Iterators Models
begin

text \<open>
  \<open>lib/threadbuilder.go\<close>: building the threads of a folder from the fetched messages with
  the threader of \<open>lib/jwz\<close>, ordering them and listing the visible messages.  The
  third-party readers are arguments: \<open>msgIDList\<close> (ids in a header) and \<open>base\<close>
  (\<open>sortthread.GetBaseSubject\<close>).  The thread map holds the thread last seen for a UID.
\<close>

record 'h thread_builder =
  tb_threadBlocks :: "uid \<rightharpoonup> 'h message_info"
  tb_threadedUids :: "uid list"
  tb_threadMap :: "uid \<rightharpoonup> thread"
  tb_reverse :: bool
  tb_bySubject :: bool

definition NewThreadBuilder :: "bool \<Rightarrow> bool \<Rightarrow> 'h thread_builder" where
  "NewThreadBuilder rev_factory bySubject =
     \<lparr>tb_threadBlocks = Map.empty, tb_threadedUids = [], tb_threadMap = Map.empty,
      tb_reverse = rev_factory, tb_bySubject = bySubject\<rparr>"

definition ThreadForUid :: "uid \<Rightarrow> 'h thread_builder \<Rightarrow> thread option" where
  "ThreadForUid uid b = tb_threadMap b uid"

definition builder_Uids :: "'h thread_builder \<Rightarrow> uid list" where
  "builder_Uids b = tb_threadedUids b"

text \<open>\<open>newThreadable\<close> fails on a message without envelope: it is not kept.\<close>

definition builder_Update :: "'h message_info option \<Rightarrow> 'h thread_builder \<Rightarrow> 'h thread_builder" where
  "builder_Update msg b =
     (case msg of
        None \<Rightarrow> b
      | Some m \<Rightarrow>
          (case mi_MsgId (Some m) of
             Inl _ \<Rightarrow> b
           | Inr _ \<Rightarrow> b\<lparr>tb_threadBlocks := (tb_threadBlocks b)(mi_Uid m \<mapsto> m)\<rparr>))"

subsection \<open>The threadable of a message\<close>

text \<open>The loop of \<open>cleanRefs\<close>, with the references considered so far.\<close>

fun clean_loop :: "string \<Rightarrow> string list \<Rightarrow> string list \<Rightarrow> string list" where
  "clean_loop m [] cleaned = cleaned"
| "clean_loop m (r # refs) cleaned =
     (if r \<noteq> m \<and> r \<notin> set cleaned then clean_loop m refs (cleaned @ [r])
      else clean_loop m refs cleaned)"

definition cleanRefs :: "string \<Rightarrow> string \<Rightarrow> string list \<Rightarrow> string list" where
  "cleanRefs m irp refs =
     (let cleaned = clean_loop m refs []
      in if irp \<noteq> [] \<and> length cleaned > 0 \<and> cleaned ! 0 = irp then drop 1 cleaned @ [irp] else cleaned)"

definition msg_id :: "'h message_info \<Rightarrow> string" where
  "msg_id m = (case mi_MsgId (Some m) of Inl _ \<Rightarrow> [] | Inr i \<Rightarrow> i)"

definition msg_references :: "('h \<Rightarrow> string \<Rightarrow> string list) \<Rightarrow> 'h message_info \<Rightarrow> string list" where
  "msg_references msgIDList m =
     (let irp = (case mi_InReplyTo msgIDList (Some m) of Inl _ \<Rightarrow> [] | Inr i \<Rightarrow> i)
      in case mi_References msgIDList (Some m) of
           Inr (r # rs) \<Rightarrow> cleanRefs (msg_id m) irp (r # rs)
         | _ \<Rightarrow> if irp = [] then [] else cleanRefs (msg_id m) irp [irp])"

definition msg_subject :: "bool \<Rightarrow> 'h message_info \<Rightarrow> string" where
  "msg_subject bySubject m =
     (if \<not> bySubject then [] else (case mi_Envelope m of None \<Rightarrow> [] | Some e \<Rightarrow> env_Subject e))"

definition msg_threadable ::
  "('h \<Rightarrow> string \<Rightarrow> string list) \<Rightarrow> (string \<Rightarrow> string \<times> bool) \<Rightarrow> bool \<Rightarrow> 'h message_info threadable_ops" where
  "msg_threadable msgIDList base bySubject =
     \<lparr>op_MessageThreadID = msg_id, op_MessageThreadReferences = msg_references msgIDList,
      op_SimplifiedSubject = (\<lambda>m. if bySubject then fst (base (msg_subject bySubject m)) else []),
      op_SubjectIsReply = (\<lambda>m. if bySubject then snd (base (msg_subject bySubject m)) else False),
      op_IsDummy = (\<lambda>_. False)\<rparr>"

subsection \<open>From the threader's result to threads\<close>

text \<open>The tree spanned by the links, read with fuel.\<close>

fun read_links :: "nat \<Rightarrow> 'm links \<Rightarrow> 'm threadable option \<Rightarrow> 'm threadable jtree option" where
  "read_links 0 l t = None"
| "read_links (Suc n) l None = Some JNil"
| "read_links (Suc n) l (Some t) =
     (case read_links n l (get_child l t) of
        None \<Rightarrow> None
      | Some ch \<Rightarrow> (case read_links n l (get_next l t) of
                      None \<Rightarrow> None
                    | Some nx \<Rightarrow> Some (JNode t ch nx)))"

text \<open>The messages of the wanted UIDs that were fetched; a failed threading yields no structure.\<close>

definition fetched :: "'h thread_builder \<Rightarrow> uid list \<Rightarrow> 'h message_info list" where
  "fetched b uids = List.map_filter (tb_threadBlocks b) uids"

definition generateStructure ::
  "nat \<Rightarrow> 'h message_info threadable_ops \<Rightarrow> ('h message_info threader \<Rightarrow> nat list) \<Rightarrow>
   'h thread_builder \<Rightarrow> uid list \<Rightarrow> 'h message_info threadable jtree option" where
  "generateStructure fuel ops order b uids =
     (case ThreadSlice fuel ops order (fetched b uids) of
        Inl Stuck \<Rightarrow> None
      | Inl _ \<Rightarrow> Some JNil
      | Inr (t, l) \<Rightarrow> read_links fuel l t)"

definition is_dummy :: "'h message_info threadable \<Rightarrow> bool" where
  "is_dummy t = (case t of Real m \<Rightarrow> False | DummyFor _ _ \<Rightarrow> True)"

definition threadable_uid :: "'h message_info threadable \<Rightarrow> uid" where
  "threadable_uid t = (case t of Real m \<Rightarrow> mi_Uid m | DummyFor _ _ \<Rightarrow> [])"

definition node_thread :: "'h message_info threadable \<Rightarrow> thread list \<Rightarrow> thread" where
  "node_thread t ks = Thread (threadable_uid t) (if is_dummy t then 1 else 0) False False False ks"

text \<open>
  \<open>buildTree\<close>: at the root level, and below a dummy, a thread is put in front of the list;
  elsewhere it is inserted in order.  \<open>bigger\<close> looks at UIDs only, so the children may be
  built before the insertion.
\<close>

fun build_tree ::
  "(thread \<Rightarrow> thread \<Rightarrow> bool) \<Rightarrow> bool \<Rightarrow> 'h message_info threadable jtree \<Rightarrow> thread list \<Rightarrow> thread list" where
  "build_tree bigger rootLevel JNil ks = ks"
| "build_tree bigger rootLevel (JNode t ch nx) ks =
     (let th = node_thread t (build_tree bigger (is_dummy t) ch [])
      in build_tree bigger rootLevel nx
           (if rootLevel then th # ks else insert_cmp bigger th ks))"

definition bigger_of :: "'h thread_builder \<Rightarrow> uid list \<Rightarrow> bool \<Rightarrow> thread \<Rightarrow> thread \<Rightarrow> bool" where
  "bigger_of b uids inorder l r =
     (if inorder then
        map_int (index_map 0 uids Map.empty) (th_Uid l) > map_int (index_map 0 uids Map.empty) (th_Uid r)
      else
        (case (tb_threadBlocks b (th_Uid l), tb_threadBlocks b (th_Uid r)) of
           (Some ml, Some mr) \<Rightarrow> msg_subject (tb_bySubject b) ml > msg_subject (tb_bySubject b) mr
         | _ \<Rightarrow> False))"

definition buildAercThreads ::
  "'h thread_builder \<Rightarrow> 'h message_info threadable jtree \<Rightarrow> uid list \<Rightarrow> bool \<Rightarrow> thread list" where
  "buildAercThreads b structure uids inorder =
     (if structure = JNil then map new_thread uids
      else map new_thread (filter (\<lambda>u. tb_threadBlocks b u = None) uids)
             @ build_tree (bigger_of b uids inorder) True structure [])"

text \<open>
  \<open>RebuildUids\<close>: the walk over a thread takes the hidden and deleted marks of the thread
  stored for a UID, stores the thread in its place and collects the visible UIDs.
\<close>

fun rebuild_thread :: "thread \<Rightarrow> (uid \<rightharpoonup> thread) \<Rightarrow> thread \<times> (uid \<rightharpoonup> thread) \<times> uid list"
  and rebuild_kids :: "thread list \<Rightarrow> (uid \<rightharpoonup> thread) \<Rightarrow> thread list \<times> (uid \<rightharpoonup> thread) \<times> uid list" where
  "rebuild_thread (Thread u hid dl du cx ks) m =
     (let (hid, dl) = (case m u of None \<Rightarrow> (hid, dl) | Some st \<Rightarrow> (th_Hidden st, th_Deleted st));
          m = m(u \<mapsto> Thread u hid dl du cx ks);
          own = (if dl \<or> hid \<noteq> 0 then [] else [u]);
          (ks, m, us) = rebuild_kids ks m
      in (Thread u hid dl du cx ks, m, own @ us))"
| "rebuild_kids [] m = ([], m, [])"
| "rebuild_kids (k # ks) m =
     (let (k, m, us) = rebuild_thread k m; (ks, m, vs) = rebuild_kids ks m in (k # ks, m, us @ vs))"

text \<open>The outer loop, over the threads in the order of the iterator.\<close>

fun rebuild_loop :: "bool \<Rightarrow> thread list \<Rightarrow> (uid \<rightharpoonup> thread) \<Rightarrow> thread list \<times> (uid \<rightharpoonup> thread) \<times> uid list" where
  "rebuild_loop inverted [] m = ([], m, [])"
| "rebuild_loop inverted (t # ts) m =
     (let (t, m, us) = rebuild_thread t m; (ts, m, vs) = rebuild_loop inverted ts m
      in (t # ts, m, (if inverted then rev us else us) @ vs))"

definition RebuildUids ::
  "thread list \<Rightarrow> bool \<Rightarrow> 'h thread_builder \<Rightarrow> (thread list \<times> 'h thread_builder) option" where
  "RebuildUids threads inverted b =
     (case iterate_all (tb_reverse b) threads of
        None \<Rightarrow> None
      | Some ts \<Rightarrow>
          (case rebuild_loop inverted ts (tb_threadMap b) of
             (ts, m, uids) \<Rightarrow>
               map_option (\<lambda>result.
                   (if tb_reverse b then ts else rev ts, b\<lparr>tb_threadMap := m, tb_threadedUids := result\<rparr>))
                 (iterate_all (tb_reverse b) uids)))"

definition builder_Threads ::
  "nat \<Rightarrow> 'h message_info threadable_ops \<Rightarrow> ('h message_info threader \<Rightarrow> nat list) \<Rightarrow>
   ((thread \<Rightarrow> int) \<Rightarrow> thread list \<Rightarrow> thread list) \<Rightarrow> uid list \<Rightarrow> bool \<Rightarrow> bool \<Rightarrow>
   'h thread_builder \<Rightarrow> (thread list \<times> 'h thread_builder) option" where
  "builder_Threads fuel ops order srt uids inverted inorder b =
     (case generateStructure fuel ops order b uids of
        None \<Rightarrow> None
      | Some structure \<Rightarrow>
          RebuildUids (SortThreadsBy srt (buildAercThreads b structure uids inorder) uids) inverted b)"

subsection \<open>References\<close>

lemma clean_loop_spec:
  "distinct cleaned \<Longrightarrow> m \<notin> set cleaned \<Longrightarrow>
     distinct (clean_loop m refs cleaned) \<and> m \<notin> set (clean_loop m refs cleaned)
     \<and> set (clean_loop m refs cleaned) = set cleaned \<union> (set refs - {m})"
  by (induction m refs cleaned rule: clean_loop.induct) auto

lemma clean_loop_prefix: "\<exists>xs. clean_loop m refs cleaned = cleaned @ xs"
  by (induction m refs cleaned rule: clean_loop.induct) auto

subsection \<open>Trees keep their messages\<close>

lemma forest_uids_append: "forest_uids (xs @ ys) = forest_uids xs @ forest_uids ys"
  by (simp add: forest_uids_def)

lemma build_tree_uids:
  "mset (forest_uids (build_tree bigger rl t ks))
     = mset (forest_uids ks) + mset (map threadable_uid (jt_nodes t))"
proof (induction bigger rl t ks rule: build_tree.induct)
  case (1 bigger rl ks)
  then show ?case by simp
next
  case (2 bigger rl t ch nx ks)
  let ?th = "node_thread t (build_tree bigger (is_dummy t) ch [])"
  have th: "mset (map th_Uid (thread_nodes ?th)) = add_mset (threadable_uid t) (mset (map threadable_uid (jt_nodes ch)))"
    using "2.IH"(1) by (simp add: node_thread_def forest_uids_def)
  have "mset (forest_uids (if rl then ?th # ks else insert_cmp bigger ?th ks)) = mset (forest_uids (?th # ks))"
    by (intro mset_forest_uids_cong) (simp add: mset_insert_cmp)
  then have "mset (forest_uids (if rl then ?th # ks else insert_cmp bigger ?th ks))
      = add_mset (threadable_uid t) (mset (map threadable_uid (jt_nodes ch))) + mset (forest_uids ks)"
    using th by (simp only: forest_uids_Cons mset_append)
  then show ?case using "2.IH"(2)[OF refl] by (simp add: Let_def)
qed

lemma forest_uids_new: "forest_uids (map new_thread us) = us"
  by (induction us) (auto simp: forest_uids_def new_thread_def)

text \<open>The blocks are stored under the UID of their message.\<close>

definition blocks_ok :: "'h thread_builder \<Rightarrow> bool" where
  "blocks_ok b \<longleftrightarrow> (\<forall>u m. tb_threadBlocks b u = Some m \<longrightarrow> mi_Uid m = u)"

lemma blocks_ok_updates: "blocks_ok (foldr builder_Update msgs (NewThreadBuilder rv bs))"
  by (induction msgs)
    (auto simp: blocks_ok_def NewThreadBuilder_def builder_Update_def split: option.splits sum.splits)

lemma fetched_uids:
  "blocks_ok b \<Longrightarrow> map mi_Uid (fetched b uids) = filter (\<lambda>u. tb_threadBlocks b u \<noteq> None) uids"
  by (induction uids) (auto simp: fetched_def blocks_ok_def map_filter_simps split: option.splits)

lemma mset_uids_split:
  "mset (map threadable_uid ns)
     = image_mset threadable_uid (mset (filter (\<lambda>t. \<not> is_dummy t) ns)) + replicate_mset (length (filter is_dummy ns)) []"
proof (induction ns)
  case (Cons t ns)
  then show ?case by (cases t) (auto simp: is_dummy_def threadable_uid_def)
qed simp

subsection \<open>The visible messages\<close>

definition visible_uids :: "thread \<Rightarrow> uid list" where
  "visible_uids t = map th_Uid (filter (\<lambda>n. \<not> (th_Deleted n \<or> th_Hidden n \<noteq> 0)) (thread_nodes t))"

lemma visible_uids_node:
  "visible_uids (Thread u hid dl du cx ks)
     = (if dl \<or> hid \<noteq> 0 then [] else [u]) @ concat (map visible_uids ks)"
  by (auto simp: visible_uids_def[abs_def] filter_concat map_concat comp_def)

lemma rebuild_visible:
  "rebuild_thread t m = (t', m', us) \<Longrightarrow> us = visible_uids t' \<and> map th_Uid (thread_nodes t') = map th_Uid (thread_nodes t)"
  "rebuild_kids ks m = (ks', m', us) \<Longrightarrow>
     us = concat (map visible_uids ks') \<and> forest_uids ks' = forest_uids ks"
proof (induction t m and ks m arbitrary: t' m' us and ks' m' us rule: rebuild_thread_rebuild_kids.induct)
  case (1 u hid dl du cx ks m)
  obtain hid' dl' where hd': "(case m u of None \<Rightarrow> (hid, dl) | Some st \<Rightarrow> (th_Hidden st, th_Deleted st)) = (hid', dl')"
    by (cases "case m u of None \<Rightarrow> (hid, dl) | Some st \<Rightarrow> (th_Hidden st, th_Deleted st)")
  obtain ks' m1 us1 where k: "rebuild_kids ks (m(u \<mapsto> Thread u hid' dl' du cx ks)) = (ks', m1, us1)"
    by (cases "rebuild_kids ks (m(u \<mapsto> Thread u hid' dl' du cx ks))")
  have IH: "us1 = concat (map visible_uids ks') \<and> forest_uids ks' = forest_uids ks"
    using "1.IH"[OF hd'[symmetric] refl refl refl k] by blast
  have "t' = Thread u hid' dl' du cx ks'" "us = (if dl' \<or> hid' \<noteq> 0 then [] else [u]) @ us1"
    using "1.prems" hd' k by (auto simp: Let_def)
  then show ?case using IH
    by (auto simp: visible_uids_node forest_uids_def map_concat comp_def)
next
  case (2 m)
  then show ?case by (simp add: forest_uids_def)
next
  case (3 k ks m)
  then show ?case by (auto simp: Let_def forest_uids_Cons split: prod.splits)
qed

lemma rebuild_loop_visible:
  "rebuild_loop inverted ts m = (ts', m', us) \<Longrightarrow>
     us = concat (map (\<lambda>t. if inverted then rev (visible_uids t) else visible_uids t) ts')
     \<and> map (\<lambda>t. map th_Uid (thread_nodes t)) ts' = map (\<lambda>t. map th_Uid (thread_nodes t)) ts"
proof (induction inverted ts m arbitrary: ts' m' us rule: rebuild_loop.induct)
  case (1 inverted m)
  then show ?case by simp
next
  case (2 inverted t ts m)
  obtain t1 m1 u1 where r: "rebuild_thread t m = (t1, m1, u1)" by (cases "rebuild_thread t m")
  obtain ts2 m2 u2 where l: "rebuild_loop inverted ts m1 = (ts2, m2, u2)" by (cases "rebuild_loop inverted ts m1")
  have "u2 = concat (map (\<lambda>t. if inverted then rev (visible_uids t) else visible_uids t) ts2)
     \<and> map (\<lambda>t. map th_Uid (thread_nodes t)) ts2 = map (\<lambda>t. map th_Uid (thread_nodes t)) ts"
    using "2.IH" r l by simp
  then show ?case using rebuild_visible(1)[OF r] "2.prems" r l by auto
qed

text \<open>
  When the threader's structure holds the fetched messages (plus dummies), the threads hold
  exactly the UIDs asked for, besides the empty UIDs of the dummies.
\<close>

lemma buildAercThreads_mset:
  assumes "mset (filter (\<lambda>t. \<not> is_dummy t) (jt_nodes structure)) = mset (map Real (fetched b uids))"
    and "structure \<noteq> JNil" "blocks_ok b"
  shows "mset (forest_uids (buildAercThreads b structure uids inorder))
    = mset uids + replicate_mset (length (filter is_dummy (jt_nodes structure))) []"
proof -
  have "mset (map threadable_uid (jt_nodes structure))
      = mset (map threadable_uid (map Real (fetched b uids)))
        + replicate_mset (length (filter is_dummy (jt_nodes structure))) []"
    using mset_uids_split[of "jt_nodes structure"] assms(1) by (simp only: mset_map)
  also have "map threadable_uid (map Real (fetched b uids)) = filter (\<lambda>u. tb_threadBlocks b u \<noteq> None) uids"
    using fetched_uids[of b uids] assms(3)
    by (simp add: comp_def threadable_uid_def)
  finally have "mset (map threadable_uid (jt_nodes structure))
      = mset (filter (\<lambda>u. tb_threadBlocks b u \<noteq> None) uids)
        + replicate_mset (length (filter is_dummy (jt_nodes structure))) []" .
  moreover have "mset (filter (\<lambda>u. tb_threadBlocks b u = None) uids)
      + mset (filter (\<lambda>u. tb_threadBlocks b u \<noteq> None) uids) = mset uids"
    by (simp only: mset_filter multiset_partition[symmetric])
  ultimately show ?thesis using assms(2)
    by (simp add: buildAercThreads_def forest_uids_append forest_uids_new build_tree_uids forest_uids_def[of "[]"]
        add.assoc[symmetric])
qed

lemma RebuildUids_result:
  "\<exists>ts b'. RebuildUids threads inverted b = Some (ts, b')
    \<and> map (\<lambda>t. map th_Uid (thread_nodes t)) ts = map (\<lambda>t. map th_Uid (thread_nodes t)) threads
    \<and> tb_threadedUids b' = concat (map (\<lambda>t. if inverted = tb_reverse b then rev (visible_uids t) else visible_uids t) ts)"
proof -
  let ?ts = "if tb_reverse b then threads else rev threads"
  obtain ts m us where r: "rebuild_loop inverted ?ts (tb_threadMap b) = (ts, m, us)"
    by (cases "rebuild_loop inverted ?ts (tb_threadMap b)")
  note v = rebuild_loop_visible[OF r]
  have e: "RebuildUids threads inverted b =
     Some (if tb_reverse b then ts else rev ts,
       b\<lparr>tb_threadMap := m, tb_threadedUids := if tb_reverse b then us else rev us\<rparr>)"
    by (simp add: RebuildUids_def iterate_all_eq r)
  show ?thesis
  proof (cases "tb_reverse b")
    case True
    then show ?thesis using v e by simp
  next
    case False
    have "rev us = concat (map (\<lambda>t. if \<not> inverted then rev (visible_uids t) else visible_uids t) (rev ts))"
      using v by (cases inverted) (simp_all add: rev_concat rev_map comp_def)
    moreover have "map (\<lambda>t. map th_Uid (thread_nodes t)) (rev ts) = map (\<lambda>t. map th_Uid (thread_nodes t)) threads"
      using v False by (simp add: rev_map[symmetric])
    ultimately show ?thesis using e False by simp
  qed
qed

lemma RebuildUids_nodes:
  "\<exists>ts b'. RebuildUids threads inverted b = Some (ts, b')
    \<and> map (\<lambda>t. map th_Uid (thread_nodes t)) ts = map (\<lambda>t. map th_Uid (thread_nodes t)) threads"
  using RebuildUids_result[of threads inverted b] by blast

subsection \<open>Properties\<close>

text \<open>
  C18. The references handed to the threader: no message references itself, none is listed
  twice, nothing else is lost, and the message a reply answers does not come first
  unless it is the only one.
\<close>

theorem cleanRefs_spec:
  "distinct (cleanRefs m irp refs) \<and> set (cleanRefs m irp refs) = set refs - {m}
   \<and> (irp \<noteq> [] \<and> length (cleanRefs m irp refs) > 1 \<longrightarrow> hd (cleanRefs m irp refs) \<noteq> irp)"
proof -
  have c: "distinct (clean_loop m refs [])" "set (clean_loop m refs []) = set refs - {m}"
    using clean_loop_spec[of "[]" m refs] by auto
  have "distinct (cleanRefs m irp refs) \<and> set (cleanRefs m irp refs) = set (clean_loop m refs [])
     \<and> (irp \<noteq> [] \<and> length (cleanRefs m irp refs) > 1 \<longrightarrow> hd (cleanRefs m irp refs) \<noteq> irp)"
  proof (cases "clean_loop m refs []")
    case Nil
    then show ?thesis by (simp add: cleanRefs_def)
  next
    case (Cons x xs)
    then have "distinct (x # xs)" using c(1) by simp
    then show ?thesis by (cases xs) (auto simp: cleanRefs_def Cons Let_def)
  qed
  then show ?thesis using c(2) by simp
qed

lemma cleanRefs_spec_witness:
  "cleanRefs ''me'' ''p'' [''p'', ''a'', ''me'', ''a''] = [''a'', ''p'']
   \<and> hd (cleanRefs ''me'' ''p'' [''p'', ''a'', ''me'', ''a'']) \<noteq> ''p''"
proof -
  have e: "cleanRefs ''me'' ''p'' [''p'', ''a'', ''me'', ''a''] = [''a'', ''p'']"
    by code_simp
  then show ?thesis using cleanRefs_spec[of "''me''" "''p''" "[''p'', ''a'', ''me'', ''a'']"] by simp
qed

text \<open>
  The list of UIDs rebuilt from the threads holds exactly the UIDs of the nodes that
  are neither deleted nor hidden, thread after thread; a thread's messages stand in walking
  order, or backwards when the inverted option and the direction of the iterators agree.
\<close>

lemma RebuildUids_visible:
  "\<exists>ts b'. RebuildUids threads inverted b = Some (ts, b')
    \<and> map (\<lambda>t. map th_Uid (thread_nodes t)) ts = map (\<lambda>t. map th_Uid (thread_nodes t)) threads
    \<and> tb_threadedUids b' = concat (map (\<lambda>t. if inverted = tb_reverse b then rev (visible_uids t) else visible_uids t) ts)"
  by (rule RebuildUids_result)

end
