(* ===== verification/JwzTrees.thy ===== *)
theory JwzTrees
  imports JwzThread
begin

text \<open>
  The containers below the root node of \<open>lib/jwz/jwz.go\<close> read as ordered trees: what the
  pointers of a heap represent, how the assignments of the algorithm change it, and the
  trees a forest of containers spans.  The fuel of the loops is measured by the number of
  containers of the trees they walk.
\<close>

datatype ctree = CT (ct_node: nat) (ct_kids: "ctree list")

fun tree_nodes :: "ctree \<Rightarrow> nat list" where
  "tree_nodes (CT a ks) = a # concat (map tree_nodes ks)"

definition nodes :: "ctree list \<Rightarrow> nat list" where
  "nodes ts = concat (map tree_nodes ts)"

lemma nodes_simps [simp]:
  "nodes [] = []" "nodes (CT a ks # ts) = a # nodes ks @ nodes ts" "nodes (ts @ us) = nodes ts @ nodes us"
  by (simp_all add: nodes_def)

lemma tree_nodes_kids: "tree_nodes t = ct_node t # nodes (ct_kids t)"
  by (cases t) (simp add: nodes_def)

lemma nodes_Cons: "nodes (t # ts) = ct_node t # nodes (ct_kids t) @ nodes ts"
  by (cases t) simp

lemma tree_nodes_subset: "t \<in> set ts \<Longrightarrow> set (tree_nodes t) \<subseteq> set (nodes ts)"
  by (auto simp: nodes_def)

lemma node_in_nodes: "t \<in> set ts \<Longrightarrow> ct_node t \<in> set (nodes ts)"
  by (induction ts) (auto simp: nodes_Cons)

lemma kids_in_nodes: "t \<in> set ts \<Longrightarrow> x \<in> set (nodes (ct_kids t)) \<Longrightarrow> x \<in> set (nodes ts)"
  by (induction ts) (auto simp: nodes_Cons)

text \<open>
  \<open>seg h q p ts r\<close>: the pointer \<open>p\<close> leads along \<open>tc_next\<close> through the trees \<open>ts\<close>, whose
  roots have the parent \<open>q\<close>, to the pointer \<open>r\<close>.
\<close>

fun seg :: "'m heap \<Rightarrow> nat option \<Rightarrow> nat option \<Rightarrow> ctree list \<Rightarrow> nat option \<Rightarrow> bool" where
  "seg h q p [] r \<longleftrightarrow> p = r"
| "seg h q p (CT a ks # ts) r \<longleftrightarrow>
     p = Some a \<and> a < length h \<and> tc_parent (h ! a) = q
     \<and> seg h (Some a) (tc_child (h ! a)) ks None \<and> seg h q (tc_next (h ! a)) ts r"

lemma seg_append: "seg h q p (ts @ us) r \<longleftrightarrow> (\<exists>m. seg h q p ts m \<and> seg h q m us r)"
proof (induction ts arbitrary: p)
  case Nil
  then show ?case by simp
next
  case (Cons t ts)
  then show ?case by (cases t) auto
qed

lemma seg_bound: "seg h q p ts r \<Longrightarrow> x \<in> set (nodes ts) \<Longrightarrow> x < length h"
  by (induction h q p ts r rule: seg.induct) auto

lemma seg_frame:
  "seg h q p ts r \<Longrightarrow> length h \<le> length h' \<Longrightarrow>
   (\<And>x. x \<in> set (nodes ts) \<Longrightarrow> tc_parent (h' ! x) = tc_parent (h ! x)
      \<and> tc_child (h' ! x) = tc_child (h ! x) \<and> tc_next (h' ! x) = tc_next (h ! x)) \<Longrightarrow>
   seg h' q p ts r"
  by (induction h q p ts r rule: seg.induct) auto

lemma seg_frame_eq:
  "seg h q p ts r \<Longrightarrow> length h \<le> length h' \<Longrightarrow> (\<And>x. x \<in> set (nodes ts) \<Longrightarrow> h' ! x = h ! x) \<Longrightarrow> seg h' q p ts r"
  by (rule seg_frame) auto

definition first_node :: "ctree list \<Rightarrow> nat option" where
  "first_node ts = (case ts of [] \<Rightarrow> None | t # _ \<Rightarrow> Some (ct_node t))"

definition last_node :: "ctree list \<Rightarrow> nat option" where
  "last_node ts = (if ts = [] then None else Some (ct_node (last ts)))"

lemma first_node_simps [simp]:
  "first_node [] = None" "first_node (t # ts) = Some (ct_node t)"
  by (simp_all add: first_node_def)

lemma last_node_simps [simp]:
  "last_node [] = None" "last_node (ts @ [t]) = Some (ct_node t)"
  by (simp_all add: last_node_def)

lemma seg_first: "seg h q p ts None \<Longrightarrow> p = first_node ts"
  by (cases "(h, q, p, ts, None :: nat option)" rule: seg.cases) auto

lemma seg_next: "seg h q p (t # ts) None \<Longrightarrow> tc_next (h ! ct_node t) = first_node ts"
  by (cases t) (auto dest: seg_first)

lemma seg_child: "seg h q p ts r \<Longrightarrow> t \<in> set ts \<Longrightarrow>
    seg h (Some (ct_node t)) (tc_child (h ! ct_node t)) (ct_kids t) None \<and> ct_node t < length h
    \<and> tc_parent (h ! ct_node t) = q"
  by (induction ts arbitrary: p) (auto elim: seg.elims(2))

subsection \<open>What an operation leaves alone\<close>

definition same_outside :: "nat set \<Rightarrow> 'm heap \<Rightarrow> 'm heap \<Rightarrow> bool" where
  "same_outside S h h' \<longleftrightarrow> length h' = length h \<and> (\<forall>x. x \<notin> S \<longrightarrow> h' ! x = h ! x)
     \<and> (\<forall>x. tc_threadable (h' ! x) = tc_threadable (h ! x))"

lemma same_outside_refl [simp]: "same_outside S h h"
  by (simp add: same_outside_def)

lemma same_outside_trans:
  "same_outside S h h1 \<Longrightarrow> same_outside T h1 h2 \<Longrightarrow> S \<subseteq> U \<Longrightarrow> T \<subseteq> U \<Longrightarrow> same_outside U h h2"
  unfolding same_outside_def by (metis subsetD)

lemma same_outsideD:
  assumes "same_outside S h h'"
  shows "length h' = length h" "x \<notin> S \<Longrightarrow> h' ! x = h ! x" "tc_threadable (h' ! x) = tc_threadable (h ! x)"
  using assms by (auto simp: same_outside_def)

lemma same_outside_seg:
  "same_outside S h h' \<Longrightarrow> seg h q p ts r \<Longrightarrow> set (nodes ts) \<inter> S = {} \<Longrightarrow> seg h' q p ts r"
  by (rule seg_frame[of h]) (auto simp: same_outside_def disjoint_iff)

lemma set_field_same:
  "a \<in> S \<Longrightarrow> same_outside S h (set_parent h a v)"
  "a \<in> S \<Longrightarrow> same_outside S h (set_child h a v)"
  "a \<in> S \<Longrightarrow> same_outside S h (set_next h a v)"
  by (auto simp: same_outside_def set_parent_def set_child_def set_next_def update_nth)

text \<open>Redirecting the end of a segment that starts at the child pointer of \<open>parent\<close>.\<close>

lemma set_link_same:
  "parent \<in> S \<Longrightarrow> (\<And>x. prev = Some x \<Longrightarrow> x \<in> S) \<Longrightarrow> same_outside S h (set_link h parent prev v)"
  by (auto simp: set_link_def set_field_same split: option.split)

lemma set_link_parent [simp]: "tc_parent (set_link h parent prev v ! x) = tc_parent (h ! x)"
  by (simp add: set_link_def split: option.split)

lemma set_link_seg:
  assumes s: "seg h q (tc_child (h ! parent)) ts m" and d: "distinct (parent # nodes ts)" and p: "parent < length h"
  shows "seg (set_link h parent (last_node ts) v) q (tc_child (set_link h parent (last_node ts) v ! parent)) ts v"
proof (cases ts rule: rev_cases)
  case Nil
  then show ?thesis using p by (simp add: set_link_def)
next
  case (snoc us t)
  obtain a ks where t: "t = CT a ks" by (cases t)
  let ?h = "set_next h a v"
  from s obtain k where us: "seg h q (tc_child (h ! parent)) us k"
    and k: "k = Some a" "a < length h" "tc_parent (h ! a) = q" "seg h (Some a) (tc_child (h ! a)) ks None"
    unfolding snoc seg_append t by auto
  have disj: "set (nodes us) \<inter> {a} = {}" "set (nodes ks) \<inter> {a} = {}" "parent \<noteq> a"
    using d by (auto simp: snoc t)
  have same: "same_outside {a} h ?h" by (rule set_field_same) simp
  have "seg ?h q (tc_child (h ! parent)) us k" by (rule same_outside_seg[OF same us disj(1)])
  moreover have "seg ?h (Some a) (tc_child (h ! a)) ks None" by (rule same_outside_seg[OF same k(4) disj(2)])
  ultimately show ?thesis
    using k by (auto simp: snoc t seg_append set_link_def)
qed

subsection \<open>Pruning\<close>

lemma promote_seg:
  assumes "length (nodes ks) \<le> n" "seg h q (Some kid) ks None" "distinct (c # nodes ks)"
  shows "\<exists>h'. promote n h c kid = Some h' \<and> seg h' (tc_parent (h ! c)) (Some kid) ks (tc_next (h ! c))
    \<and> same_outside (set (nodes ks)) h h'"
  using assms
proof (induction n arbitrary: h kid ks)
  case 0
  then show ?case by (cases ks) (auto simp: nodes_Cons)
next
  case (Suc n)
  obtain k1 ts where ks: "ks = CT kid k1 # ts" using Suc.prems(2)
    by (cases "(h, q, Some kid, ks, None :: nat option)" rule: seg.cases) auto
  have s: "kid < length h" "seg h (Some kid) (tc_child (h ! kid)) k1 None" "seg h q (tc_next (h ! kid)) ts None"
    using Suc.prems(2) by (auto simp: ks)
  have d: "kid \<notin> set (nodes k1)" "kid \<notin> set (nodes ts)" "set (nodes k1) \<inter> set (nodes ts) = {}" "c \<noteq> kid"
    using Suc.prems(3) by (auto simp: ks)
  define h1 where "h1 = set_parent h kid (tc_parent (h ! c))"
  have same1: "same_outside {kid} h h1" unfolding h1_def by (rule set_field_same) simp
  have k1: "seg h1 (Some kid) (tc_child (h1 ! kid)) k1 None"
    using same_outside_seg[OF same1 s(2)] d(1) by (simp add: h1_def)
  have fld: "tc_parent (h1 ! kid) = tc_parent (h ! c)" "tc_next (h1 ! kid) = tc_next (h ! kid)" "length h1 = length h"
    "h1 ! c = h ! c" using s(1) d(4) same_outsideD(2)[OF same1, of c] by (simp_all add: h1_def)
  show ?case
  proof (cases ts)
    case Nil
    then have nx: "tc_next (h ! kid) = None" using s(3) by simp
    let ?h = "set_next h1 kid (tc_next (h ! c))"
    have same2: "same_outside {kid} h1 ?h" by (rule set_field_same) simp
    have "same_outside (set (nodes ks)) h ?h" by (rule same_outside_trans[OF same1 same2]) (auto simp: ks)
    moreover have "seg ?h (Some kid) (tc_child (?h ! kid)) k1 None"
      using same_outside_seg[OF same2 k1] d(1) by simp
    ultimately show ?thesis using nx s(1) fld by (simp add: ks Nil h1_def[symmetric])
  next
    case (Cons t us)
    then have nx: "tc_next (h ! kid) = Some (ct_node t)" using seg_first[OF s(3)] by simp
    have "seg h1 q (Some (ct_node t)) ts None" using same_outside_seg[OF same1 s(3)] d(2) nx by simp
    moreover have "distinct (c # nodes ts)" "length (nodes ts) \<le> n" using Suc.prems(1,3) by (auto simp: ks)
    ultimately obtain h' where h': "promote n h1 c (ct_node t) = Some h'"
      "seg h' (tc_parent (h ! c)) (Some (ct_node t)) ts (tc_next (h ! c))" "same_outside (set (nodes ts)) h1 h'"
      using Suc.IH[of ts h1 "ct_node t"] fld(4) by auto
    have "same_outside (set (nodes ks)) h h'" by (rule same_outside_trans[OF same1 h'(3)]) (auto simp: ks)
    moreover have e: "h' ! kid = h1 ! kid" using same_outsideD(2)[OF h'(3)] d(2) by simp
    moreover have "seg h' (Some kid) (tc_child (h' ! kid)) k1 None"
      using same_outside_seg[OF h'(3) k1 d(3)] e by simp
    ultimately show ?thesis using h' nx s(1) fld same_outsideD(1)[OF h'(3)] by (simp add: ks h1_def[symmetric])
  qed
qed

text \<open>
  Every container of the trees holds a message (\<open>full\<close>), or every one but a root that has
  children (\<open>tidy\<close>, for trees whose roots have the parent \<open>q\<close>).
\<close>

definition full :: "'m heap \<Rightarrow> ctree list \<Rightarrow> bool" where
  "full h ts \<longleftrightarrow> (\<forall>x\<in>set (nodes ts). tc_threadable (h ! x) \<noteq> None)"

definition tidy :: "'m heap \<Rightarrow> nat option \<Rightarrow> ctree \<Rightarrow> bool" where
  "tidy h q t \<longleftrightarrow> full h (ct_kids t) \<and> (tc_threadable (h ! ct_node t) \<noteq> None \<or> q = None \<and> ct_kids t \<noteq> [])"

lemma tidy_full: "\<forall>t\<in>set ts. tidy h (Some a) t \<Longrightarrow> full h ts"
  by (induction ts) (auto simp: full_def tidy_def nodes_Cons)

lemma tidy_same: "same_outside S h h' \<Longrightarrow> tidy h' q t = tidy h q t"
  by (simp add: tidy_def full_def same_outside_def)

text \<open>What pruning the trees \<open>ts\<close> below \<open>parent\<close> leaves.\<close>

definition prune_post :: "'m heap \<Rightarrow> nat option \<Rightarrow> nat \<Rightarrow> ctree list \<Rightarrow> 'm heap \<Rightarrow> ctree list \<Rightarrow> bool" where
  "prune_post h q parent ts h' us \<longleftrightarrow>
     seg h' q (tc_child (h' ! parent)) us None \<and> (\<forall>t\<in>set us. tidy h' q t)
     \<and> distinct (nodes us) \<and> set (nodes us) \<subseteq> set (nodes ts)
     \<and> (\<forall>x\<in>set (nodes ts) - set (nodes us). tc_threadable (h ! x) = None)
     \<and> same_outside (insert parent (set (nodes ts))) h h'
     \<and> tc_parent (h' ! parent) = tc_parent (h ! parent) \<and> tc_next (h' ! parent) = tc_next (h ! parent)"

lemma prune_post_trans:
  assumes "prune_post h1 q parent ts1 h' us" "set (nodes ts1) \<subseteq> set (nodes ts)"
    and "\<forall>x\<in>set (nodes ts) - set (nodes ts1). tc_threadable (h ! x) = None"
    and "same_outside (insert parent (set (nodes ts))) h h1"
    and "tc_parent (h1 ! parent) = tc_parent (h ! parent)" "tc_next (h1 ! parent) = tc_next (h ! parent)"
  shows "prune_post h q parent ts h' us"
proof -
  have "same_outside (insert parent (set (nodes ts))) h h'"
    using assms(1,2) by (intro same_outside_trans[OF assms(4), of "insert parent (set (nodes ts1))"])
      (auto simp: prune_post_def)
  moreover have "\<forall>x\<in>set (nodes ts) - set (nodes us). tc_threadable (h ! x) = None"
  proof
    fix x assume x: "x \<in> set (nodes ts) - set (nodes us)"
    show "tc_threadable (h ! x) = None"
    proof (cases "x \<in> set (nodes ts1)")
      case True
      then show ?thesis using x assms(1) same_outsideD(3)[OF assms(4), of x] by (auto simp: prune_post_def)
    next
      case False
      then show ?thesis using x assms(3) by blast
    qed
  qed
  ultimately show ?thesis using assms(1,2,5,6) by (auto simp: prune_post_def)
qed

text \<open>The loop runs over \<open>ts\<close> with the trees \<open>ds\<close> behind it.\<close>

definition prune_pre :: "'m heap \<Rightarrow> nat option \<Rightarrow> nat \<Rightarrow> ctree list \<Rightarrow> ctree list \<Rightarrow> bool" where
  "prune_pre h q parent ds ts \<longleftrightarrow>
     seg h q (tc_child (h ! parent)) (ds @ ts) None \<and> distinct (parent # nodes (ds @ ts)) \<and> parent < length h
     \<and> (\<forall>t\<in>set ds. tidy h q t)"

text \<open>Taking the container \<open>c\<close> out of the list, with its kids put in its place.\<close>

lemma prune_pre_remove:
  assumes pre: "prune_pre h q parent ds (CT c [] # ts)"
  defines "h1 \<equiv> set_link h parent (last_node ds) (tc_next (h ! c))"
  shows "prune_pre h1 q parent ds ts \<and> same_outside (insert parent (set (nodes ds))) h h1
    \<and> tc_next (h1 ! parent) = tc_next (h ! parent)"
proof -
  from pre have s: "seg h q (tc_child (h ! parent)) ds (Some c)" "seg h q (tc_next (h ! c)) ts None"
    and d: "distinct (parent # nodes ds @ c # nodes ts)" and p: "parent < length h"
    and t: "\<forall>t\<in>set ds. tidy h q t"
    by (auto simp: prune_pre_def seg_append)
  have ln: "x \<in> set (nodes ds)" if "last_node ds = Some x" for x
    using that by (auto simp: last_node_def node_in_nodes split: if_splits)
  have same: "same_outside (insert parent (set (nodes ds))) h h1"
    unfolding h1_def by (rule set_link_same) (auto simp: ln)
  have "seg h1 q (tc_child (h1 ! parent)) ds (tc_next (h ! c))"
    unfolding h1_def using set_link_seg[OF s(1)] d p by simp
  moreover have "seg h1 q (tc_next (h ! c)) ts None" using same_outside_seg[OF same s(2)] d by auto
  moreover have "tc_next (h1 ! parent) = tc_next (h ! parent)"
  proof (cases "last_node ds")
    case None
    then show ?thesis by (simp add: h1_def set_link_def)
  next
    case (Some x)
    then have "x < length h" "x \<noteq> parent" using ln[OF Some] seg_bound[OF s(1)] d by auto
    then show ?thesis by (simp add: h1_def set_link_def Some)
  qed
  ultimately show ?thesis
    using same d p t same_outsideD(1)[OF same] tidy_same[OF same] by (auto simp: prune_pre_def seg_append)
qed

lemma nodes_fit:
  assumes "distinct xs" "set xs \<subseteq> {..<length (h :: 'm heap)}"
  shows "length xs < jwz_fuel h"
proof -
  have "card (set xs) \<le> card {..<length h}" using assms(2) by (intro card_mono) auto
  then show ?thesis using distinct_card[OF assms(1)] by (simp add: jwz_fuel_def)
qed

lemma last_node_in: "last_node ds = Some x \<Longrightarrow> x \<in> set (nodes ds)"
  by (auto simp: last_node_def node_in_nodes split: if_splits)

lemma set_link_next_other:
  assumes "\<And>x. last_node ds = Some x \<Longrightarrow> x < length h" "a \<notin> set (nodes ds)"
  shows "tc_next (set_link h parent (last_node ds) v ! a) = tc_next (h ! a)"
  using assms last_node_in[of ds] by (auto simp: set_link_def split: option.split)

lemma prune_pre_promote:
  assumes pre: "prune_pre h q parent ds (CT c ks # ts)" and k: "tc_child (h ! c) = Some kids"
  defines "h1 \<equiv> set_link h parent (last_node ds) (Some kids)"
  shows "\<exists>h2. promote (jwz_fuel h) h1 c kids = Some h2 \<and> prune_pre h2 q parent ds (ks @ ts)
    \<and> same_outside (insert parent (set (nodes (ds @ ks)))) h h2 \<and> tc_next (h2 ! parent) = tc_next (h ! parent)
    \<and> tc_parent (h2 ! parent) = tc_parent (h ! parent)"
proof -
  from pre have s: "seg h q (tc_child (h ! parent)) ds (Some c)" "seg h q (tc_next (h ! c)) ts None"
      "c < length h" "tc_parent (h ! c) = q" "seg h (Some c) (Some kids) ks None"
    and d: "distinct (parent # nodes ds @ c # nodes ks @ nodes ts)" and p: "parent < length h"
    and t: "\<forall>t\<in>set ds. tidy h q t"
    using k by (auto simp: prune_pre_def seg_append)
  have same1: "same_outside (insert parent (set (nodes ds))) h h1"
    unfolding h1_def by (rule set_link_same) (auto simp: last_node_in)
  have nx: "tc_next (h1 ! x) = tc_next (h ! x)" if "x \<notin> set (nodes ds)" for x
    unfolding h1_def using last_node_in seg_bound[OF s(1)] that by (intro set_link_next_other) auto
  have ds1: "seg h1 q (tc_child (h1 ! parent)) ds (Some kids)"
    unfolding h1_def using set_link_seg[OF s(1)] d p by simp
  have ks1: "seg h1 (Some c) (Some kids) ks None" using same_outside_seg[OF same1 s(5)] d by auto
  have ts1: "seg h1 q (tc_next (h ! c)) ts None" using same_outside_seg[OF same1 s(2)] d by auto
  have "set (nodes ks) \<subseteq> {..<length h}" using seg_bound[OF s(5)] by auto
  then have "length (nodes ks) \<le> jwz_fuel h" using nodes_fit[of "nodes ks" h] d by auto
  then obtain h2 where h2: "promote (jwz_fuel h) h1 c kids = Some h2"
    "seg h2 (tc_parent (h1 ! c)) (Some kids) ks (tc_next (h1 ! c))" "same_outside (set (nodes ks)) h1 h2"
    using promote_seg[of ks "jwz_fuel h" h1 "Some c" kids c] ks1 d by auto
  have c1: "tc_parent (h1 ! c) = q" "tc_next (h1 ! c) = tc_next (h ! c)"
    using s(4) nx[of c] d by (auto simp: h1_def)
  have e: "h2 ! parent = h1 ! parent" using same_outsideD(2)[OF h2(3)] d by simp
  have ds2: "seg h2 q (tc_child (h2 ! parent)) ds (Some kids)"
    using same_outside_seg[OF h2(3) ds1] d e by auto
  have ts2: "seg h2 q (tc_next (h ! c)) ts None" using same_outside_seg[OF h2(3) ts1] d by auto
  have same: "same_outside (insert parent (set (nodes (ds @ ks)))) h h2"
    by (rule same_outside_trans[OF same1 h2(3)]) auto
  have "seg h2 q (tc_child (h2 ! parent)) (ds @ ks @ ts) None"
    using ds2 h2(2) ts2 c1 by (auto simp: seg_append)
  moreover have "tc_next (h2 ! parent) = tc_next (h ! parent)" "tc_parent (h2 ! parent) = tc_parent (h ! parent)"
    using e nx[of parent] d by (auto simp: h1_def)
  ultimately show ?thesis
    using h2(1) same d p t same_outsideD(1)[OF same] tidy_same[OF same] by (auto simp: prune_pre_def)
qed

text \<open>After the recursion into the children of \<open>c\<close>.\<close>

lemma prune_pre_kids:
  assumes pre: "prune_pre h q parent ds (CT c ks # ts)" and post: "prune_post h (Some c) c ks h1 vs"
  shows "prune_pre h1 q parent ds (CT c vs # ts)" "same_outside (set (c # nodes ks)) h h1" "h1 ! parent = h ! parent"
proof -
  from pre have s: "seg h q (tc_child (h ! parent)) ds (Some c)" "seg h q (tc_next (h ! c)) ts None"
      "c < length h" "tc_parent (h ! c) = q"
    and d: "distinct (parent # nodes ds @ c # nodes ks @ nodes ts)" and p: "parent < length h"
    and t: "\<forall>t\<in>set ds. tidy h q t"
    by (auto simp: prune_pre_def seg_append)
  show same: "same_outside (set (c # nodes ks)) h h1" using post by (simp add: prune_post_def)
  show e: "h1 ! parent = h ! parent" using same_outsideD(2)[OF same] d by auto
  have "seg h1 q (tc_child (h ! parent)) ds (Some c)" using same_outside_seg[OF same s(1)] d by auto
  moreover have "seg h1 q (tc_next (h ! c)) ts None" using same_outside_seg[OF same s(2)] d by auto
  ultimately have "seg h1 q (tc_child (h1 ! parent)) (ds @ CT c vs # ts) None"
    using s e post same_outsideD(1)[OF same] by (auto simp: prune_post_def seg_append)
  moreover have "distinct (parent # nodes (ds @ CT c vs # ts))"
    using d post by (auto simp: prune_post_def)
  ultimately show "prune_pre h1 q parent ds (CT c vs # ts)"
    using p t same_outsideD(1)[OF same] tidy_same[OF same] by (simp add: prune_pre_def)
qed

lemma prune_pre_next:
  "prune_pre h q parent ds ts \<Longrightarrow>
     (case first_node ts of None \<Rightarrow> None | Some x \<Rightarrow> tc_next (h ! x)) = first_node (tl ts)"
  by (cases ts) (auto simp: prune_pre_def seg_append dest: seg_next)

lemma prune_pre_snoc:
  "prune_pre h q parent ds (t # ts) \<Longrightarrow> tidy h q t \<Longrightarrow> prune_pre h q parent (ds @ [t]) ts"
  by (simp add: prune_pre_def)

text \<open>The fuel needed is the number of containers yet to be visited.\<close>

lemma prune_loop_post:
  assumes "prune_pre h q parent ds ts" "length (nodes ts) < n"
  shows "\<exists>h' us. prune_loop n h parent (last_node ds) (first_node ts) (first_node (tl ts)) = Some h'
    \<and> prune_post h q parent (ds @ ts) h' us"
  using assms
proof (induction n arbitrary: h q parent ds ts)
  case 0
  then show ?case by simp
next
  case (Suc n)
  note pre = Suc.prems(1)
  let ?goal = "\<exists>h' us. prune_loop (Suc n) h parent (last_node ds) (first_node ts) (first_node (tl ts)) = Some h'
    \<and> prune_post h q parent (ds @ ts) h' us"
  have go: ?goal
    if st: "prune_loop (Suc n) h parent (last_node ds) (first_node ts) (first_node (tl ts))
        = prune_loop n h1 parent (last_node ds1) (first_node ts1)
            (case first_node ts1 of None \<Rightarrow> None | Some x \<Rightarrow> tc_next (h1 ! x))"
      and pre1: "prune_pre h1 q parent ds1 ts1" and fewer: "length (nodes ts1) < n"
      and sub: "set (nodes (ds1 @ ts1)) \<subseteq> set (nodes (ds @ ts))"
      and gone: "\<forall>x\<in>set (nodes (ds @ ts)) - set (nodes (ds1 @ ts1)). tc_threadable (h ! x) = None"
      and same: "same_outside (insert parent (set (nodes (ds @ ts)))) h h1"
      and par: "tc_parent (h1 ! parent) = tc_parent (h ! parent)" "tc_next (h1 ! parent) = tc_next (h ! parent)"
    for h1 ds1 ts1
    using Suc.IH[OF pre1 fewer] prune_post_trans[OF _ sub gone same par]
    unfolding st prune_pre_next[OF pre1] by blast
  show ?case
  proof (cases ts)
    case Nil
    then show ?thesis using pre by (intro exI[of _ h] exI[of _ ds]) (auto simp: prune_post_def prune_pre_def)
  next
    case (Cons t us)
    obtain c ks where t: "t = CT c ks" by (cases t)
    have ts: "ts = CT c ks # us" by (simp add: Cons t)
    from pre have s: "tc_next (h ! c) = first_node us" "tc_parent (h ! c) = q"
        "seg h (Some c) (tc_child (h ! c)) ks None"
      and d: "distinct (parent # nodes ds @ c # nodes ks @ nodes us)" and cl: "c < length h"
      by (auto simp: ts prune_pre_def seg_append dest: seg_first)
    note kid = seg_first[OF s(3)]
    have mono: "same_outside S h g \<Longrightarrow> S \<subseteq> insert parent (set (nodes (ds @ ts)))
        \<Longrightarrow> same_outside (insert parent (set (nodes (ds @ ts)))) h g" for S g
      by (auto simp: same_outside_def)
    show ?thesis
    proof (cases ks)
      case Nil
      show ?thesis
      proof (cases "tc_threadable (h ! c) = None")
        case True
        note r = prune_pre_remove[OF pre[unfolded ts Nil]]
        show ?thesis
        proof (rule go[of _ ds us])
          show "same_outside (insert parent (set (nodes (ds @ ts)))) h (set_link h parent (last_node ds) (tc_next (h ! c)))"
            using r by (intro mono) auto
        qed (use r True Nil kid s Suc.prems(2) d in \<open>auto simp: ts cong: option.case_cong\<close>)
      next
        case False
        show ?thesis
        proof (rule go[of h "ds @ [t]" us])
          show "prune_pre h q parent (ds @ [t]) us"
            using pre[unfolded Cons] False by (intro prune_pre_snoc) (auto simp: t Nil tidy_def full_def)
        qed (use False Nil kid s Suc.prems(2) in \<open>auto simp: ts t\<close>)
      qed
    next
      case (Cons k ks')
      let ?k = "ct_node k"
      have child: "tc_child (h ! c) = Some ?k" using kid Cons by simp
      show ?thesis
      proof (cases "tc_threadable (h ! c) = None \<and> (tc_parent (h ! c) \<noteq> None \<or> tc_next (h ! ?k) = None)")
        case True
        from prune_pre_promote[OF pre[unfolded ts] child] obtain h2 where h2:
          "promote (jwz_fuel h) (set_link h parent (last_node ds) (Some ?k)) c ?k = Some h2"
          "prune_pre h2 q parent ds (ks @ us)" "same_outside (insert parent (set (nodes (ds @ ks)))) h h2"
          "tc_next (h2 ! parent) = tc_next (h ! parent)" "tc_parent (h2 ! parent) = tc_parent (h ! parent)" by blast
        show ?thesis
        proof (rule go[OF _ h2(2)])
          show "same_outside (insert parent (set (nodes (ds @ ts)))) h h2"
            by (rule mono[OF h2(3)]) (auto simp: ts)
          show "prune_loop (Suc n) h parent (last_node ds) (first_node ts) (first_node (tl ts))
            = prune_loop n h2 parent (last_node ds) (first_node (ks @ us))
                (case first_node (ks @ us) of None \<Rightarrow> None | Some x \<Rightarrow> tc_next (h2 ! x))"
            using True child h2(1) by (simp add: ts Cons Let_def)
        qed (use True h2 Suc.prems(2) d in \<open>auto simp: ts\<close>)
      next
        case False
        have "prune_pre h (Some c) c [] ks" using s(3) d cl by (auto simp: prune_pre_def)
        moreover have "length (nodes ks) < n" using Suc.prems(2) by (simp add: ts)
        ultimately obtain h1 vs where h1: "prune_loop n h c None (first_node ks) (first_node (tl ks)) = Some h1"
          "prune_post h (Some c) c ks h1 vs" using Suc.IH[of h "Some c" c "[]" ks] by auto
        note post = prune_pre_kids[OF pre[unfolded ts] h1(2)]
        have nk: "tc_next (h ! ?k) = first_node (tl ks)" using s(3) Cons seg_next[of h "Some c" "tc_child (h ! c)" k ks'] by simp
        have v: "seg h1 (Some c) (tc_child (h1 ! c)) vs None" "\<forall>t\<in>set vs. tidy h1 (Some c) t"
          "set (nodes vs) \<subseteq> set (nodes ks)" "\<forall>x\<in>set (nodes ks) - set (nodes vs). tc_threadable (h ! x) = None"
          "tc_next (h1 ! c) = tc_next (h ! c)"
          using h1(2) by (auto simp: prune_post_def)
        have th: "tc_threadable (h1 ! c) = tc_threadable (h ! c)" using same_outsideD(3)[OF post(2)] .
        have none: "tc_child (h1 ! c) = None \<longleftrightarrow> vs = []" using seg_first[OF v(1)] by (cases vs) auto
        have fn: "first_node ts = Some c" "first_node (tl ts) = first_node us" by (simp_all add: ts)
        have rec: "prune_loop n h c None (Some ?k) (tc_next (h ! ?k)) = Some h1" using h1(1) nk Cons by simp
        have st: "prune_loop (Suc n) h parent (last_node ds) (first_node ts) (first_node (tl ts)) =
           (let step = (\<lambda>h container nxt. prune_loop n h parent container nxt (case nxt of None \<Rightarrow> None | Some x \<Rightarrow> tc_next (h ! x)))
            in if tc_threadable (h1 ! c) = None \<and> tc_child (h1 ! c) = None
               then step (set_link h1 parent (last_node ds) (tc_next (h1 ! c))) (last_node ds) (first_node us)
               else step h1 (Some c) (first_node us))"
          unfolding fn prune_loop.simps Let_def child option.case if_not_P[OF False] rec by (rule refl)
        show ?thesis
        proof (cases "tc_threadable (h ! c) = None \<and> vs = []")
          case True
          note r = prune_pre_remove[OF post(1)[unfolded True[THEN conjunct2]]]
          have same: "same_outside (insert parent (set (nodes (ds @ ts)))) h (set_link h1 parent (last_node ds) (tc_next (h1 ! c)))"
            using r by (intro same_outside_trans[OF post(2), of "insert parent (set (nodes ds))"]) (auto simp: ts)
          show ?thesis
          proof (rule go[OF _ _ _ _ _ same])
            show "prune_pre (set_link h1 parent (last_node ds) (tc_next (h1 ! c))) q parent ds us" using r by blast
          qed (unfold st, use r True none th v post(3) Suc.prems(2) in \<open>auto simp: ts cong: option.case_cong\<close>)
        next
          case keep: False
          have full: "full h1 vs" using v(2) by (rule tidy_full)
          have q: "tc_threadable (h ! c) = None \<Longrightarrow> q = None" using False s(2) by auto
          have same: "same_outside (insert parent (set (nodes (ds @ ts)))) h h1"
            by (rule mono[OF post(2)]) (auto simp: ts)
          show ?thesis
          proof (rule go[OF _ _ _ _ _ same])
            show "prune_pre h1 q parent (ds @ [CT c vs]) us"
              using keep q th full by (intro prune_pre_snoc[OF post(1)]) (auto simp: tidy_def)
            show "\<forall>x\<in>set (nodes (ds @ ts)) - set (nodes ((ds @ [CT c vs]) @ us)). tc_threadable (h ! x) = None"
            proof
              fix x assume "x \<in> set (nodes (ds @ ts)) - set (nodes ((ds @ [CT c vs]) @ us))"
              then have "x \<in> set (nodes ks) - set (nodes vs)" by (auto simp: ts)
              with v(4) show "tc_threadable (h ! x) = None" by (rule bspec)
            qed
          qed (unfold st, use keep none th v post(3) Suc.prems(2) in \<open>auto simp: ts cong: option.case_cong\<close>)
        qed
      qed
    qed
  qed
qed

lemma pruneEmptyContainers_post:
  assumes "seg h q (tc_child (h ! root)) ts None" "distinct (root # nodes ts)" "root < length h"
    and "length (nodes ts) < fuel"
  shows "\<exists>h' us. pruneEmptyContainers fuel h root = Some h' \<and> prune_post h q root ts h' us"
proof -
  have pre: "prune_pre h q root [] ts" using assms by (simp add: prune_pre_def)
  have e: "tc_child (h ! root) = first_node ts" using seg_first[OF assms(1)] .
  show ?thesis
    using prune_loop_post[OF pre assms(4)] prune_pre_next[OF pre] unfolding pruneEmptyContainers_def e by simp
qed

subsection \<open>Reversing the children\<close>

fun mirror :: "ctree \<Rightarrow> ctree" where
  "mirror (CT a ks) = CT a (rev (map mirror ks))"

lemma ct_node_mirror [simp]: "ct_node (mirror t) = ct_node t"
  by (cases t) simp

lemma mset_nodes_mirror: "mset (nodes (map mirror ts)) = mset (nodes ts)"
proof (induction "length (nodes ts)" arbitrary: ts rule: less_induct)
  case less
  show ?case
  proof (cases ts)
    case (Cons t us)
    obtain a ks where t: "t = CT a ks" by (cases t)
    have r: "mset (nodes (rev ks)) = mset (nodes ks)" for ks
      by (induction ks) (simp_all add: nodes_Cons union_ac)
    have "mset (nodes (map mirror ks)) = mset (nodes ks)" "mset (nodes (map mirror us)) = mset (nodes us)"
      by (rule less; simp add: Cons t)+
    then show ?thesis by (simp add: Cons t r)
  qed simp
qed

lemma nodes_rev: "mset (nodes (rev ts)) = mset (nodes ts)"
  by (induction ts) (simp_all add: nodes_Cons union_ac)

lemma mirror_kids:
  "set (nodes (rev (map mirror ts))) = set (nodes ts)"
  "distinct (nodes (rev (map mirror ts))) = distinct (nodes ts)"
  "set (nodes (map mirror ts)) = set (nodes ts)"
  "distinct (nodes (map mirror ts)) = distinct (nodes ts)"
proof -
  have "mset (nodes (rev (map mirror ts))) = mset (nodes ts)" by (simp add: nodes_rev mset_nodes_mirror)
  then show "set (nodes (rev (map mirror ts))) = set (nodes ts)"
    "distinct (nodes (rev (map mirror ts))) = distinct (nodes ts)"
    by (auto dest: mset_eq_setD mset_eq_imp_distinct_iff)
  show "set (nodes (map mirror ts)) = set (nodes ts)"
    "distinct (nodes (map mirror ts)) = distinct (nodes ts)"
    using mset_nodes_mirror[of ts] by (auto dest: mset_eq_setD mset_eq_imp_distinct_iff)
qed

lemma tidy_mirror: "tidy h q (mirror t) = tidy h q t"
  by (cases t) (simp add: tidy_def full_def mirror_kids)

lemma reverse_loop_seg:
  "length ts < n \<Longrightarrow> seg h q kid ts None \<Longrightarrow> seg h q prev ds None \<Longrightarrow> distinct (nodes (ts @ ds)) \<Longrightarrow>
   \<exists>h'. reverse_loop n h prev kid = Some (h', first_node (rev ts @ ds))
     \<and> seg h' q (first_node (rev ts @ ds)) (rev ts @ ds) None \<and> same_outside (set (nodes ts)) h h'"
proof (induction n arbitrary: h prev kid ts ds)
  case 0
  then show ?case by simp
next
  case (Suc n)
  show ?case
  proof (cases ts)
    case Nil
    have "prev = first_node ds" using seg_first[OF Suc.prems(3)] .
    then show ?thesis using Suc.prems(2,3) by (simp add: Nil)
  next
    case (Cons t us)
    obtain a ks where t: "t = CT a ks" by (cases t)
    have s: "kid = Some a" "a < length h" "tc_parent (h ! a) = q" "seg h (Some a) (tc_child (h ! a)) ks None"
      "seg h q (tc_next (h ! a)) us None" using Suc.prems(2) by (auto simp: Cons t)
    have d: "distinct (a # nodes ks @ nodes us @ nodes ds)" using Suc.prems(4) by (simp add: Cons t)
    define h1 where "h1 = set_next h a prev"
    have same1: "same_outside {a} h h1" unfolding h1_def by (rule set_field_same) simp
    have "seg h1 q (tc_next (h ! a)) us None" using same_outside_seg[OF same1 s(5)] d by auto
    moreover have "seg h1 q (Some a) (t # ds) None"
      using same_outside_seg[OF same1 s(4)] same_outside_seg[OF same1 Suc.prems(3)] d s
      by (auto simp: t h1_def)
    moreover have "distinct (nodes (us @ t # ds))" using d by (auto simp: t)
    moreover have "length us < n" using Suc.prems(1) by (simp add: Cons)
    ultimately obtain h' where h': "reverse_loop n h1 (Some a) (tc_next (h ! a)) = Some (h', first_node (rev us @ t # ds))"
      "seg h' q (first_node (rev us @ t # ds)) (rev us @ t # ds) None" "same_outside (set (nodes us)) h1 h'"
      using Suc.IH by blast
    have "same_outside (set (nodes ts)) h h'"
      by (rule same_outside_trans[OF same1 h'(3)]) (auto simp: Cons t)
    then show ?thesis using h' s(1) by (simp add: Cons h1_def[symmetric])
  qed
qed

lemma nodes_length: "length ts \<le> length (nodes ts)"
  by (induction ts) (simp_all add: nodes_Cons)

lemma reverse_children_seg:
  "\<lbrakk>2 * length (nodes ks) + 2 \<le> n; seg h q (tc_child (h ! a)) ks None; distinct (a # nodes ks); a < length h\<rbrakk> \<Longrightarrow>
   \<exists>h'. reverse_children n h a = Some h' \<and> seg h' q (tc_child (h' ! a)) (rev (map mirror ks)) None
     \<and> same_outside (insert a (set (nodes ks))) h h' \<and> tc_parent (h' ! a) = tc_parent (h ! a)
     \<and> tc_next (h' ! a) = tc_next (h ! a)"
  "\<lbrakk>2 * length (nodes ts) + 1 \<le> n; seg h q kid ts None; distinct (nodes ts)\<rbrakk> \<Longrightarrow>
   \<exists>h'. reverse_kids n h kid = Some h' \<and> seg h' q kid (map mirror ts) None \<and> same_outside (set (nodes ts)) h h'"
proof (induction n arbitrary: h q a ks kid ts)
  case 0
  { case 1 then show ?case by simp }
  { case 2 then show ?case by simp }
next
  case (Suc n)
  { case 1
    note p = 1
    show ?case
    proof (cases ks)
      case Nil
      then show ?thesis using p(2) by simp
    next
      case (Cons k ks')
      have c: "tc_child (h ! a) = Some (ct_node k)" using seg_first[OF p(2)] by (simp add: Cons)
      have "set (nodes ks) \<subseteq> {..<length h}" using seg_bound[OF p(2)] by auto
      then have "length ks < jwz_fuel h" using nodes_fit[of "nodes ks" h] nodes_length[of ks] p(3) by simp
      from reverse_loop_seg[OF this p(2), of None "[]"] p(3) obtain h1 where
        r: "reverse_loop (jwz_fuel h) h None (Some (ct_node k)) = Some (h1, first_node (rev ks))"
          "seg h1 q (first_node (rev ks)) (rev ks) None" "same_outside (set (nodes ks)) h h1"
        by (auto simp: c)
      define h2 where "h2 = set_child h1 a (first_node (rev ks))"
      have same2: "same_outside {a} h1 h2" unfolding h2_def by (rule set_field_same) simp
      have sr: "set (nodes (rev ks)) = set (nodes ks)" "length (nodes (rev ks)) = length (nodes ks)"
        "distinct (nodes (rev ks)) = distinct (nodes ks)"
        using nodes_rev[of ks] by (auto dest: mset_eq_setD mset_eq_length mset_eq_imp_distinct_iff)
      have s2: "seg h2 q (first_node (rev ks)) (rev ks) None" using same_outside_seg[OF same2 r(2)] p(3) sr by auto
      have "2 * length (nodes (rev ks)) + 1 \<le> n" "distinct (nodes (rev ks))" using p(1,3) sr by auto
      from Suc.IH(2)[OF this(1) s2 this(2)] obtain h3 where h3: "reverse_kids n h2 (first_node (rev ks)) = Some h3"
        "seg h3 q (first_node (rev ks)) (map mirror (rev ks)) None" "same_outside (set (nodes (rev ks))) h2 h3" by blast
      have al: "a < length h1" "a \<notin> set (nodes ks)" using p(3,4) same_outsideD(1)[OF r(3)] by auto
      have e: "h3 ! a = h2 ! a" "h1 ! a = h ! a"
        using same_outsideD(2)[OF h3(3)] same_outsideD(2)[OF r(3)] al sr by auto
      have ch: "tc_child (h2 ! a) = first_node (rev ks)" using al(1) by (simp add: h2_def)
      have same: "same_outside (insert a (set (nodes ks))) h h3"
        by (rule same_outside_trans[OF same_outside_trans[OF r(3) same2, of "insert a (set (nodes ks))"] h3(3)])
          (auto simp: sr)
      have run: "reverse_children (Suc n) h a = Some h3"
        using c r(1) h3(1) ch by (simp add: Let_def h2_def[symmetric])
      have "tc_parent (h2 ! a) = tc_parent (h ! a)" "tc_next (h2 ! a) = tc_next (h ! a)"
        using e(2) by (simp_all add: h2_def)
      then show ?thesis using run h3(2) same e(1) ch by (simp add: rev_map)
    qed }
  { case 2
    note p = 2
    show ?case
    proof (cases ts)
      case Nil
      then show ?thesis using p(2) by simp
    next
      case (Cons t us)
      obtain a ks where t: "t = CT a ks" by (cases t)
      have s: "kid = Some a" "a < length h" "tc_parent (h ! a) = q" "seg h (Some a) (tc_child (h ! a)) ks None"
        "seg h q (tc_next (h ! a)) us None" using p(2) by (auto simp: Cons t)
      have d: "distinct (a # nodes ks @ nodes us)" using p(3) by (simp add: Cons t)
      have "2 * length (nodes ks) + 2 \<le> n" "distinct (a # nodes ks)" using p(1) d by (auto simp: Cons t)
      from Suc.IH(1)[OF this(1) s(4) this(2) s(2)] obtain h1 where h1: "reverse_children n h a = Some h1"
        "seg h1 (Some a) (tc_child (h1 ! a)) (rev (map mirror ks)) None" "same_outside (insert a (set (nodes ks))) h h1"
        "tc_parent (h1 ! a) = tc_parent (h ! a)" "tc_next (h1 ! a) = tc_next (h ! a)" by blast
      have "seg h1 q (tc_next (h ! a)) us None" using same_outside_seg[OF h1(3) s(5)] d by auto
      moreover have "2 * length (nodes us) + 1 \<le> n" "distinct (nodes us)" using p(1) d by (auto simp: Cons t)
      ultimately obtain h2 where h2: "reverse_kids n h1 (tc_next (h ! a)) = Some h2"
        "seg h2 q (tc_next (h ! a)) (map mirror us) None" "same_outside (set (nodes us)) h1 h2"
        using Suc.IH(2) by blast
      have e: "h2 ! a = h1 ! a" using same_outsideD(2)[OF h2(3)] d by auto
      have "seg h2 (Some a) (tc_child (h1 ! a)) (rev (map mirror ks)) None"
        using same_outside_seg[OF h2(3) h1(2)] d by (auto simp: mirror_kids)
      moreover have "same_outside (set (nodes ts)) h h2"
        by (rule same_outside_trans[OF h1(3) h2(3)]) (auto simp: Cons t)
      ultimately show ?thesis
        using s h1 h2 e same_outsideD(1)[OF h1(3)] same_outsideD(1)[OF h2(3)] by (simp add: Cons t)
    qed }
qed

subsection \<open>The trees of a forest\<close>

definition below :: "'m heap \<Rightarrow> nat \<Rightarrow> nat set" where
  "below h a = {x. (x, a) \<in> (parent_rel h)\<^sup>+}"

lemma chain_trees:
  assumes "chain h p xs" "distinct xs"
    and "\<forall>x\<in>set xs. tc_parent (h ! x) = q \<and> x \<notin> B x
      \<and> (\<exists>ks. seg h (Some x) (tc_child (h ! x)) ks None \<and> set (nodes ks) = B x \<and> distinct (nodes ks))"
    and "\<forall>x\<in>set xs. \<forall>y\<in>set xs. x \<noteq> y \<longrightarrow> insert x (B x) \<inter> insert y (B y) = {}"
  shows "\<exists>ts. seg h q p ts None \<and> set (nodes ts) = (\<Union>x\<in>set xs. insert x (B x)) \<and> distinct (nodes ts)"
  using assms
proof (induction xs arbitrary: p)
  case Nil
  then show ?case by (intro exI[of _ "[]"]) simp
next
  case (Cons x xs)
  from Cons.IH[of "tc_next (h ! x)"] Cons.prems obtain ts where
    ts: "seg h q (tc_next (h ! x)) ts None" "set (nodes ts) = (\<Union>x\<in>set xs. insert x (B x))" "distinct (nodes ts)" by auto
  from Cons.prems obtain ks where
    ks: "seg h (Some x) (tc_child (h ! x)) ks None" "set (nodes ks) = B x" "distinct (nodes ks)" by auto
  have "insert x (B x) \<inter> (\<Union>x\<in>set xs. insert x (B x)) = {}"
    using Cons.prems(2,4) by (fastforce simp: disjoint_iff)
  then have "distinct (nodes (CT x ks # ts))" using ts ks Cons.prems(3) by auto
  then show ?case using ts ks Cons.prems by (intro exI[of _ "CT x ks # ts"]) auto
qed

lemma parent_rel_single: "single_valued (parent_rel h)"
  by (auto intro!: single_valuedI dest: parent_rel_unique)

lemma below_disjoint:
  assumes f: "forest h kids" and n: "x \<noteq> y"
    and p: "(\<exists>a. (x, a) \<in> parent_rel h \<and> (y, a) \<in> parent_rel h) \<or> (tc_parent (h ! x) = None \<and> tc_parent (h ! y) = None)"
  shows "insert x (below h x) \<inter> insert y (below h y) = {}"
proof (rule ccontr)
  assume "insert x (below h x) \<inter> insert y (below h y) \<noteq> {}"
  then obtain z where "(z, x) \<in> (parent_rel h)\<^sup>*" "(z, y) \<in> (parent_rel h)\<^sup>*"
    by (auto simp: below_def intro: trancl_into_rtrancl)
  then have "(x, y) \<in> (parent_rel h)\<^sup>* \<or> (y, x) \<in> (parent_rel h)\<^sup>*"
    using single_valued_confluent[OF parent_rel_single] by blast
  then have c: "(x, y) \<in> (parent_rel h)\<^sup>+ \<or> (y, x) \<in> (parent_rel h)\<^sup>+" using n by (auto simp: rtrancl_eq_or_trancl)
  have no: False if "(u, w) \<in> (parent_rel h)\<^sup>+" "(u, a) \<in> parent_rel h" "(w, a) \<in> parent_rel h" for u w a
  proof -
    have "w \<in> insert a (above h a)" using that(1) above_step[OF that(2)] by (auto simp: above_def)
    then have "(a, a) \<in> (parent_rel h)\<^sup>+" using that(3) by (auto simp: above_def intro: trancl_into_trancl)
    then show False using forestD(4)[OF f] by (simp add: acyclic_def)
  qed
  have root: "tc_parent (h ! u) \<noteq> None" if "(u, w) \<in> (parent_rel h)\<^sup>+" for u w
    using tranclD[OF that] by (auto simp: parent_rel_def)
  show False using c p no root by blast
qed

lemma below_step:
  "below h a = (\<Union>x\<in>{x. (x, a) \<in> parent_rel h}. insert x (below h x))"
proof -
  have "(y, a) \<in> (parent_rel h)\<^sup>+ \<longleftrightarrow> (\<exists>x. (x, a) \<in> parent_rel h \<and> (y = x \<or> (y, x) \<in> (parent_rel h)\<^sup>+))" for y
    by (metis tranclE r_into_trancl' trancl_into_trancl)
  then show ?thesis by (auto simp: below_def)
qed

lemma forest_finite: "finite (parent_rel h)"
proof -
  have "parent_rel h \<subseteq> (\<lambda>x. (x, the (tc_parent (h ! x)))) ` {..<length h}" by (auto simp: parent_rel_def)
  then show ?thesis by (rule finite_subset) simp
qed

lemma forest_subtree:
  assumes f: "forest h kids" and a: "a < length h"
  shows "\<exists>ks. seg h (Some a) (tc_child (h ! a)) ks None \<and> set (nodes ks) = below h a \<and> distinct (nodes ks)"
  using a
proof (induction a rule: wf_induct[OF finite_acyclic_wf[OF forest_finite forestD(4)[OF f]]])
  case (1 a)
  have rel: "x \<in> set (kids a) \<longleftrightarrow> (x, a) \<in> parent_rel h" for x using forestD(3)[OF f "1.prems"] .
  have "\<exists>ts. seg h (Some a) (tc_child (h ! a)) ts None
      \<and> set (nodes ts) = (\<Union>x\<in>set (kids a). insert x (below h x)) \<and> distinct (nodes ts)"
  proof (rule chain_trees)
    show "chain h (tc_child (h ! a)) (kids a)" "distinct (kids a)" using forestD(1,2)[OF f "1.prems"] .
    show "\<forall>x\<in>set (kids a). tc_parent (h ! x) = Some a \<and> x \<notin> below h x
      \<and> (\<exists>ks. seg h (Some x) (tc_child (h ! x)) ks None \<and> set (nodes ks) = below h x \<and> distinct (nodes ks))"
    proof
      fix x assume "x \<in> set (kids a)"
      then have x: "(x, a) \<in> parent_rel h" using rel by simp
      then have "x < length h" "tc_parent (h ! x) = Some a" by (auto simp: parent_rel_def)
      then show "tc_parent (h ! x) = Some a \<and> x \<notin> below h x
        \<and> (\<exists>ks. seg h (Some x) (tc_child (h ! x)) ks None \<and> set (nodes ks) = below h x \<and> distinct (nodes ks))"
        using "1.IH" x forestD(4)[OF f] by (simp add: below_def acyclic_def)
    qed
    show "\<forall>x\<in>set (kids a). \<forall>y\<in>set (kids a). x \<noteq> y \<longrightarrow> insert x (below h x) \<inter> insert y (below h y) = {}"
      using below_disjoint[OF f] rel by blast
  qed
  moreover have "(\<Union>x\<in>set (kids a). insert x (below h x)) = below h a"
    unfolding below_step[of h a] using rel by auto
  ultimately show ?case by simp
qed

lemma root_set_loop_root:
  assumes "root_set_loop root h cs = Inr h'" "\<forall>c\<in>set cs. c < root" "root < length h"
  shows "tc_next (h' ! root) = tc_next (h ! root) \<and> tc_parent (h' ! root) = tc_parent (h ! root)
    \<and> tc_threadable (h' ! root) = tc_threadable (h ! root)"
  using assms
proof (induction cs arbitrary: h)
  case Nil
  then show ?case by simp
next
  case (Cons c cs)
  have c: "c < root" "c < length h" using Cons.prems by auto
  show ?case
  proof (cases "tc_parent (h ! c) = None")
    case True
    then show ?thesis using Cons.prems Cons.IH[of "set_child (set_next h c (tc_child (h ! root))) root (Some c)"] c
      by (auto split: if_splits)
  next
    case False
    then obtain y where "tc_parent (h ! c) = Some y" by blast
    then show ?thesis using Cons by simp
  qed
qed

lemma findRootSet_root:
  assumes "set order = {..<length h}" "findRootSet order h = Inr (h', root)"
  shows "tc_next (h' ! length h) = None \<and> tc_parent (h' ! length h) = None \<and> tc_threadable (h' ! length h) = None"
  using assms root_set_loop_root[of "length h" "h @ [new_container None []]" order h']
  by (auto simp: findRootSet_def Let_def new_container_def split: sum.splits)

text \<open>After \<open>findRootSet\<close> the root node carries all containers, as trees.\<close>

lemma findRootSet_trees:
  assumes f: "forest h kids" and d: "distinct order" "set order = {..<length h}"
  shows "\<exists>h' ts. findRootSet order h = Inr (h', length h) \<and> length h' = Suc (length h)
    \<and> seg h' None (tc_child (h' ! length h)) ts None \<and> distinct (nodes ts) \<and> set (nodes ts) = {..<length h}
    \<and> (\<forall>x<length h. tc_threadable (h' ! x) = tc_threadable (h ! x))
    \<and> tc_next (h' ! length h) = None \<and> tc_parent (h' ! length h) = None \<and> tc_threadable (h' ! length h) = None"
proof -
  let ?root = "length h"
  let ?xs = "rev (filter (\<lambda>c. tc_parent (h ! c) = None) order)"
  from findRootSet_forest[OF f d] obtain h' where h': "findRootSet order h = Inr (h', ?root)" "length h' = Suc ?root"
    "chain h' (tc_child (h' ! ?root)) ?xs"
    and fld: "\<And>x. x < ?root \<Longrightarrow> tc_threadable (h' ! x) = tc_threadable (h ! x) \<and> tc_parent (h' ! x) = tc_parent (h ! x)
         \<and> tc_child (h' ! x) = tc_child (h ! x) \<and> (tc_parent (h ! x) \<noteq> None \<longrightarrow> tc_next (h' ! x) = tc_next (h ! x))"
    by auto
  have roots: "x \<in> set ?xs \<longleftrightarrow> x < ?root \<and> tc_parent (h ! x) = None" for x using d by auto
  have ex: "\<exists>ts. seg h' None (tc_child (h' ! ?root)) ts None
      \<and> set (nodes ts) = (\<Union>x\<in>set ?xs. insert x (below h x)) \<and> distinct (nodes ts)"
  proof (rule chain_trees[OF h'(3)])
    show "distinct ?xs" using d(1) by simp
    show "\<forall>x\<in>set ?xs. \<forall>y\<in>set ?xs. x \<noteq> y \<longrightarrow> insert x (below h x) \<inter> insert y (below h y) = {}"
      using below_disjoint[OF f] roots by blast
    show "\<forall>x\<in>set ?xs. tc_parent (h' ! x) = None \<and> x \<notin> below h x
      \<and> (\<exists>ks. seg h' (Some x) (tc_child (h' ! x)) ks None \<and> set (nodes ks) = below h x \<and> distinct (nodes ks))"
    proof
      fix x assume "x \<in> set ?xs"
      then have x: "x < ?root" "tc_parent (h ! x) = None" using roots by auto
      from forest_subtree[OF f x(1)] obtain ks where
        ks: "seg h (Some x) (tc_child (h ! x)) ks None" "set (nodes ks) = below h x" "distinct (nodes ks)" by blast
      have "y < ?root \<and> tc_parent (h ! y) \<noteq> None" if "y \<in> set (nodes ks)" for y
        using that tranclD[of y x "parent_rel h"] unfolding ks(2) by (auto simp: below_def parent_rel_def)
      then have "seg h' (Some x) (tc_child (h ! x)) ks None"
        using fld h'(2) by (intro seg_frame[OF ks(1)]) auto
      then show "tc_parent (h' ! x) = None \<and> x \<notin> below h x
        \<and> (\<exists>ks. seg h' (Some x) (tc_child (h' ! x)) ks None \<and> set (nodes ks) = below h x \<and> distinct (nodes ks))"
        using ks(2,3) x fld[OF x(1)] forestD(4)[OF f] by (auto simp: below_def acyclic_def)
    qed
  qed
  have all: "(\<Union>x\<in>set ?xs. insert x (below h x)) = {..<?root}"
  proof
    show "(\<Union>x\<in>set ?xs. insert x (below h x)) \<subseteq> {..<?root}"
      using roots by (auto simp: below_def parent_rel_def dest!: tranclD)
    show "{..<?root} \<subseteq> (\<Union>x\<in>set ?xs. insert x (below h x))"
    proof
      fix x assume "x \<in> {..<?root}"
      then obtain r where "r < ?root" "tc_parent (h ! r) = None" "x \<in> insert r (below h r)"
        using forest_has_root[OF f, of x] by (auto simp: below_def)
      then show "x \<in> (\<Union>x\<in>set ?xs. insert x (below h x))" using roots[of r] by blast
    qed
  qed
  from ex[unfolded all] obtain ts where "seg h' None (tc_child (h' ! ?root)) ts None"
    "set (nodes ts) = {..<?root}" "distinct (nodes ts)" by (elim exE conjE)
  then show ?thesis using findRootSet_root[OF d(2) h'(1)] h'(1,2) fld
    by (intro exI[of _ h'] exI[of _ ts]) simp
qed

end
