(* ===== verification/JwzGather.thy ===== *)
theory JwzGather
  imports JwzTrees
begin

text \<open>
  \<open>gatherSubjects\<close> of \<open>lib/jwz/jwz.go\<close> on the trees that pruning leaves: the table finds a
  container for every subject, merging two roots never follows a nil pointer and keeps the
  messages, and the trees stay tidy (only roots may lack a message, and then have children).
\<close>

text \<open>The messages held by a list of containers.\<close>

definition held :: "'m heap \<Rightarrow> nat list \<Rightarrow> 'm threadable list" where
  "held h xs = List.map_filter (\<lambda>x. tc_threadable (h ! x)) xs"

lemma held_simps [simp]:
  "held h [] = []" "held h (xs @ ys) = held h xs @ held h ys"
  "held h (x # xs) = (case tc_threadable (h ! x) of None \<Rightarrow> held h xs | Some t \<Rightarrow> t # held h xs)"
  by (simp_all add: held_def map_filter_def split: option.split)

lemma held_cong: "(\<And>x. x \<in> set xs \<Longrightarrow> tc_threadable (h' ! x) = tc_threadable (h ! x)) \<Longrightarrow> held h' xs = held h xs"
  by (induction xs) (auto split: option.split)

lemma held_none: "(\<And>x. x \<in> set xs \<Longrightarrow> tc_threadable (h ! x) = None) \<Longrightarrow> held h xs = []"
  by (induction xs) auto

lemma mset_held: "mset (held h xs) = image_mset the (filter_mset (\<lambda>t. t \<noteq> None) (image_mset (\<lambda>x. tc_threadable (h ! x)) (mset xs)))"
  by (induction xs) (auto split: option.split)

lemma held_perm: "mset xs = mset ys \<Longrightarrow> mset (held h xs) = mset (held h ys)"
  by (simp add: mset_held)

lemma held_subset:
  assumes "distinct ys" "distinct xs" "set ys \<subseteq> set xs" "\<forall>x\<in>set xs - set ys. tc_threadable (h ! x) = None"
  shows "mset (held h ys) = mset (held h xs)"
proof -
  let ?z = "filter (\<lambda>x. x \<notin> set ys) xs"
  have "mset xs = mset ys + mset ?z"
  proof -
    have "mset (filter (\<lambda>x. x \<in> set ys) xs) = mset ys"
      using assms(1-3) by (intro set_eq_iff_mset_eq_distinct[THEN iffD1]) auto
    then show ?thesis using multiset_partition[of "mset xs" "\<lambda>x. x \<in> set ys"] by simp
  qed
  then have "mset (held h xs) = mset (held h (ys @ ?z))" by (intro held_perm) simp
  moreover have "held h ?z = []" by (rule held_none) (use assms(4) in simp)
  ultimately show ?thesis by simp
qed

subsection \<open>Handing children over\<close>

lemma set_parents_seg:
  "length ks < n \<Longrightarrow> seg h q p ks None \<Longrightarrow> distinct (nodes ks) \<Longrightarrow>
   \<exists>h'. set_parents n h p a = Some h' \<and> seg h' (Some a) p ks None \<and> same_outside (set (nodes ks)) h h'"
proof (induction n arbitrary: h p ks)
  case 0
  then show ?case by simp
next
  case (Suc n)
  show ?case
  proof (cases ks)
    case Nil
    then show ?thesis using Suc.prems(2) by simp
  next
    case (Cons t us)
    obtain x xs where t: "t = CT x xs" by (cases t)
    have s: "p = Some x" "x < length h" "seg h (Some x) (tc_child (h ! x)) xs None" "seg h q (tc_next (h ! x)) us None"
      using Suc.prems(2) by (auto simp: Cons t)
    have d: "distinct (x # nodes xs @ nodes us)" using Suc.prems(3) by (simp add: Cons t)
    define h1 where "h1 = set_parent h x (Some a)"
    have same1: "same_outside {x} h h1" unfolding h1_def by (rule set_field_same) simp
    have "seg h1 q (tc_next (h ! x)) us None" using same_outside_seg[OF same1 s(4)] d by auto
    then obtain h' where h': "set_parents n h1 (tc_next (h ! x)) a = Some h'" "seg h' (Some a) (tc_next (h ! x)) us None"
      "same_outside (set (nodes us)) h1 h'" using Suc.IH[of us h1] Suc.prems(1) d by (auto simp: Cons)
    have e: "h' ! x = h1 ! x" using same_outsideD(2)[OF h'(3)] d by auto
    have "seg h1 (Some x) (tc_child (h ! x)) xs None" using same_outside_seg[OF same1 s(3)] d by auto
    then have "seg h' (Some x) (tc_child (h ! x)) xs None" using same_outside_seg[OF h'(3)] d by auto
    moreover have "same_outside (set (nodes ks)) h h'" by (rule same_outside_trans[OF same1 h'(3)]) (auto simp: Cons t)
    moreover have "tc_parent (h' ! x) = Some a" "tc_child (h' ! x) = tc_child (h ! x)" "tc_next (h' ! x) = tc_next (h ! x)"
      using e s(2) by (simp_all add: h1_def)
    ultimately show ?thesis using s h'(1,2) same_outsideD(1)[OF \<open>same_outside (set (nodes ks)) h h'\<close>]
      by (simp add: Cons t h1_def[symmetric])
  qed
qed

lemma last_of_seg:
  "length ks \<le> n \<Longrightarrow> seg h q (Some k) ks None \<Longrightarrow> last_of n h k = last_node ks"
proof (induction n arbitrary: k ks)
  case 0
  then show ?case by simp
next
  case (Suc n)
  obtain xs us where ks: "ks = CT k xs # us" using Suc.prems(2)
    by (cases "(h, q, Some k, ks, None :: nat option)" rule: seg.cases) auto
  have s: "seg h q (tc_next (h ! k)) us None" using Suc.prems(2) by (simp add: ks)
  show ?case
  proof (cases us)
    case Nil
    then show ?thesis using s by (simp add: ks last_node_def)
  next
    case (Cons t vs)
    then have "tc_next (h ! k) = Some (ct_node t)" using seg_first[OF s] by simp
    then show ?thesis using Suc.IH[of us "ct_node t"] s Suc.prems(1) by (simp add: ks Cons last_node_def)
  qed
qed

subsection \<open>The roots and their subjects\<close>

definition roots :: "ctree list \<Rightarrow> nat set" where
  "roots ts = ct_node ` set ts"

lemma roots_simps [simp]:
  "roots [] = {}" "roots (t # ts) = insert (ct_node t) (roots ts)" "roots (ts @ us) = roots ts \<union> roots us"
  by (auto simp: roots_def)

lemma roots_nodes: "roots ts \<subseteq> set (nodes ts)"
  by (auto simp: roots_def node_in_nodes)

definition root_state :: "'m heap \<Rightarrow> nat \<Rightarrow> ctree list \<Rightarrow> bool" where
  "root_state h root rs \<longleftrightarrow>
     seg h None (tc_child (h ! root)) rs None \<and> distinct (root # nodes rs) \<and> root < length h
     \<and> (\<forall>t\<in>set rs. tidy h None t)
     \<and> tc_next (h ! root) = None \<and> tc_parent (h ! root) = None \<and> tc_threadable (h ! root) = None"

definition same_root :: "'m heap \<Rightarrow> 'm heap \<Rightarrow> nat \<Rightarrow> bool" where
  "same_root h h' x \<longleftrightarrow> representative h' x = representative h x \<and> tc_threadable (h' ! x) = tc_threadable (h ! x)"

lemma same_root_tree:
  assumes "seg h q p ts r" "t \<in> set ts" "\<And>x. x \<in> set (nodes ts) \<Longrightarrow> h' ! x = h ! x"
  shows "same_root h h' (ct_node t)"
proof -
  have e: "h' ! ct_node t = h ! ct_node t" using assms(2,3) node_in_nodes by blast
  have "h' ! k = h ! k" if "tc_child (h ! ct_node t) = Some k" for k
  proof -
    have "k \<in> set (nodes (ct_kids t))"
      using seg_child[OF assms(1,2)] that by (cases "ct_kids t") (auto simp: nodes_Cons dest: seg_first)
    then show ?thesis using assms(2,3) kids_in_nodes by blast
  qed
  then show ?thesis by (auto simp: same_root_def representative_def e split: option.split)
qed

lemma tidy_representative:
  assumes "seg h q p ts r" "t \<in> set ts" "tidy h q t"
  shows "representative h (ct_node t) \<noteq> None"
proof (cases "tc_threadable (h ! ct_node t)")
  case None
  then obtain k ks where ks: "ct_kids t = k # ks" and f: "full h (ct_kids t)"
    using assms(3) by (cases "ct_kids t") (auto simp: tidy_def)
  have "tc_child (h ! ct_node t) = Some (ct_node k)" using seg_child[OF assms(1,2)] ks by (auto dest: seg_first)
  moreover have "tc_threadable (h ! ct_node k) \<noteq> None" using f by (simp add: full_def ks nodes_Cons)
  ultimately show ?thesis using None by (simp add: representative_def)
qed (simp add: representative_def)

text \<open>Exchanging the children of one root.\<close>

lemma root_state_exchange:
  assumes R: "root_state h root (as @ CT old os # bs)" and len: "length h \<le> length h'"
    and same: "\<And>x. x \<in> insert root (set (nodes (as @ bs))) \<Longrightarrow> h' ! x = h ! x"
    and old: "tc_parent (h' ! old) = None" "tc_next (h' ! old) = tc_next (h ! old)"
    and kids: "seg h' (Some old) (tc_child (h' ! old)) ns None"
    and dist: "distinct (root # nodes as @ old # nodes ns @ nodes bs)" and tidy: "tidy h' None (CT old ns)"
    and held: "mset (held h' (old # nodes ns)) = mset (held h (old # nodes os)) + extra"
  shows "root_state h' root (as @ CT old ns # bs)
    \<and> mset (held h' (nodes (as @ CT old ns # bs))) = mset (held h (nodes (as @ CT old os # bs))) + extra
    \<and> (\<forall>x\<in>roots (as @ bs). same_root h h' x)"
proof -
  from R have s: "seg h None (tc_child (h ! root)) as (Some old)" "old < length h"
    "seg h None (tc_next (h ! old)) bs None"
    and t: "\<forall>t\<in>set (as @ bs). tidy h None t" and r: "root < length h" "tc_next (h ! root) = None"
      "tc_parent (h ! root) = None" "tc_threadable (h ! root) = None"
    by (auto simp: root_state_def seg_append)
  have e: "x \<in> set (nodes as) \<Longrightarrow> h' ! x = h ! x" "x \<in> set (nodes bs) \<Longrightarrow> h' ! x = h ! x" "h' ! root = h ! root" for x
    using same by auto
  have "seg h' None (tc_child (h ! root)) as (Some old)" by (rule seg_frame[OF s(1) len]) (simp add: e)
  moreover have "seg h' None (tc_next (h ! old)) bs None" by (rule seg_frame[OF s(3) len]) (simp add: e)
  ultimately have "seg h' None (tc_child (h' ! root)) (as @ CT old ns # bs) None"
    using old kids s(2) len e(3) by (auto simp: seg_append)
  moreover have "tidy h' None t" if t': "t \<in> set (as @ bs)" for t
  proof -
    have "h' ! x = h ! x" if "x \<in> set (nodes (ct_kids t)) \<or> x = ct_node t" for x
    proof -
      have "x \<in> set (nodes (as @ bs))" using that t' kids_in_nodes[OF t'] node_in_nodes[OF t'] by auto
      then show ?thesis using same by blast
    qed
    then show ?thesis using t t' by (auto simp: tidy_def full_def)
  qed
  moreover have "held h' (nodes as) = held h (nodes as)" "held h' (nodes bs) = held h (nodes bs)"
    using e by (auto intro: held_cong)
  moreover have "same_root h h' x" if "x \<in> roots (as @ bs)" for x
    using that same_root_tree[OF s(1) _ e(1)] same_root_tree[OF s(3) _ e(2)] by (auto simp: roots_def)
  ultimately show ?thesis using dist tidy held r len e(3) by (auto simp: root_state_def split: option.splits)
qed

subsection \<open>Merging two roots\<close>

text \<open>\<open>c\<close> is a root beside the roots \<open>as\<close>, \<open>old\<close> and \<open>bs\<close>, taken out of their chain.\<close>

definition beside :: "'m heap \<Rightarrow> nat \<Rightarrow> ctree list \<Rightarrow> nat \<Rightarrow> ctree list \<Rightarrow> ctree list \<Rightarrow> nat \<Rightarrow> ctree list \<Rightarrow> bool" where
  "beside h root as old os bs c ks \<longleftrightarrow>
     root_state h root (as @ CT old os # bs) \<and> seg h None (Some c) [CT c ks] None \<and> tidy h None (CT c ks)
     \<and> distinct (root # nodes as @ old # nodes os @ c # nodes ks @ nodes bs)"

lemma besideD:
  assumes "beside h root as old os bs c ks"
  shows "root_state h root (as @ CT old os # bs)" "c < length h" "old < length h" "tc_parent (h ! old) = None"
    "seg h (Some c) (tc_child (h ! c)) ks None" "seg h (Some old) (tc_child (h ! old)) os None"
    "tidy h None (CT c ks)" "tidy h None (CT old os)"
    "distinct (root # nodes as @ old # nodes os @ c # nodes ks @ nodes bs)"
    "length os < jwz_fuel h" "length ks < jwz_fuel h"
proof -
  show s: "root_state h root (as @ CT old os # bs)" "c < length h" "old < length h" "tc_parent (h ! old) = None"
    "seg h (Some c) (tc_child (h ! c)) ks None" "seg h (Some old) (tc_child (h ! old)) os None"
    "tidy h None (CT c ks)" "tidy h None (CT old os)"
    and d: "distinct (root # nodes as @ old # nodes os @ c # nodes ks @ nodes bs)"
    using assms by (auto simp: beside_def root_state_def seg_append)
  have "set (nodes os) \<subseteq> {..<length h}" "set (nodes ks) \<subseteq> {..<length h}" using seg_bound[OF s(5)] seg_bound[OF s(6)] by auto
  then show "length os < jwz_fuel h" "length ks < jwz_fuel h"
    using nodes_fit[of "nodes os" h] nodes_fit[of "nodes ks" h] nodes_length[of os] nodes_length[of ks] d
    by (auto simp: le_less_trans)
qed

definition merged :: "'m heap \<Rightarrow> nat \<Rightarrow> ctree list \<Rightarrow> nat \<Rightarrow> ctree list \<Rightarrow> ctree list \<Rightarrow> nat \<Rightarrow> ctree list
    \<Rightarrow> 'm heap \<Rightarrow> ctree list \<Rightarrow> bool" where
  "merged h root as old os bs c ks h' ns \<longleftrightarrow>
     root_state h' root (as @ CT old ns # bs) \<and> length h' \<le> Suc (length h)
     \<and> mset (held h' (nodes (as @ CT old ns # bs)))
         = mset (held h (nodes (as @ CT old os # bs))) + mset (held h (c # nodes ks))
     \<and> (\<forall>x\<in>roots (as @ bs). same_root h h' x)
     \<and> (tc_threadable (h ! old) = None \<longrightarrow> tc_threadable (h' ! old) = None)
     \<and> (representative h' old = representative h old
        \<or> tc_threadable (h ! c) \<noteq> None \<and> representative h' old = tc_threadable (h ! c))"

lemma mergedI:
  assumes "root_state h' root (as @ CT old ns # bs)
    \<and> mset (held h' (nodes (as @ CT old ns # bs)))
        = mset (held h (nodes (as @ CT old os # bs))) + mset (held h (c # nodes ks))
    \<and> (\<forall>x\<in>roots (as @ bs). same_root h h' x)"
    and "length h' \<le> Suc (length h)" "tc_threadable (h ! old) = None \<Longrightarrow> tc_threadable (h' ! old) = None"
    and "representative h' old = representative h old
      \<or> tc_threadable (h ! c) \<noteq> None \<and> representative h' old = tc_threadable (h ! c)"
  shows "merged h root as old os bs c ks h' ns"
  unfolding merged_def using assms by blast

lemma tidy_kids: "tidy h q (CT a ks) \<Longrightarrow> full h ks"
  by (simp add: tidy_def)

lemma merge_empty_roots:
  assumes B: "beside h root as old os bs c ks" and e: "tc_threadable (h ! old) = None" "tc_threadable (h ! c) = None"
  shows "\<exists>h' ns. merge_roots ops h old c = Some h' \<and> merged h root as old os bs c ks h' ns"
proof -
  note b = besideD[OF B]
  obtain k os' where os: "os = k # os'" using b(8) e(1) by (cases os) (auto simp: tidy_def)
  have k: "tc_child (h ! old) = Some (ct_node k)" using seg_first[OF b(6)] by (simp add: os)
  obtain tail where tail: "last_node os = Some tail" by (simp add: os last_node_def)
  have tin: "tail \<in> set (nodes os)" using last_node_in[OF tail] .
  have last: "last_of (jwz_fuel h) h (ct_node k) = Some tail"
    using last_of_seg[of os "jwz_fuel h" h "Some old" "ct_node k"] b(6,10) k tail by simp
  define h1 where "h1 = set_next h tail (tc_child (h ! c))"
  have l1: "h1 = set_link h old (last_node os) (tc_child (h ! c))" by (simp add: h1_def set_link_def tail)
  have same1: "same_outside (set (nodes os)) h h1" unfolding h1_def by (rule set_field_same(3)[OF tin])
  have s1: "seg h1 (Some old) (tc_child (h1 ! old)) os (tc_child (h ! c))"
    unfolding l1 using b(3,9) by (intro set_link_seg[OF b(6)]) auto
  have c1: "seg h1 (Some c) (tc_child (h ! c)) ks None" using same_outside_seg[OF same1 b(5)] b(9) by auto
  have "length ks < jwz_fuel h1" using b(11) by (simp add: h1_def jwz_fuel_def)
  from set_parents_seg[OF this c1, of old] b(9) obtain h2 where h2: "set_parents (jwz_fuel h1) h1 (tc_child (h ! c)) old = Some h2"
    "seg h2 (Some old) (tc_child (h ! c)) ks None" "same_outside (set (nodes ks)) h1 h2" by auto
  define h3 where "h3 = set_child h2 c None"
  have same3: "same_outside {c} h2 h3" unfolding h3_def by (rule set_field_same(2)) simp
  have run: "merge_roots ops h old c = Some h3"
    using e k last h2(1) by (simp add: merge_roots_def h1_def[symmetric] Let_def h3_def) (simp add: h1_def)
  have same: "same_outside (set (nodes os @ c # nodes ks)) h h3"
    by (rule same_outside_trans[OF same_outside_trans[OF same1 h2(3), of "set (nodes os @ c # nodes ks)"] same3]) auto
  have o3: "h3 ! old = h ! old" using same_outsideD(2)[OF same] b(9) by auto
  have "seg h2 (Some old) (tc_child (h1 ! old)) os (tc_child (h ! c))" using same_outside_seg[OF h2(3) s1] b(9) by auto
  then have "seg h2 (Some old) (tc_child (h1 ! old)) (os @ ks) None" using h2(2) by (auto simp: seg_append)
  then have "seg h3 (Some old) (tc_child (h1 ! old)) (os @ ks) None" using same_outside_seg[OF same3] b(9) by auto
  then have s3: "seg h3 (Some old) (tc_child (h3 ! old)) (os @ ks) None" by (simp add: o3 h1_def)
  have th: "tc_threadable (h3 ! x) = tc_threadable (h ! x)" for x using same_outsideD(3)[OF same] .
  have "representative h3 old = representative h old" by (simp add: representative_def o3 th split: option.split)
  moreover have "root_state h3 root (as @ CT old (os @ ks) # bs)
    \<and> mset (held h3 (nodes (as @ CT old (os @ ks) # bs))) = mset (held h (nodes (as @ CT old os # bs))) + mset (held h (c # nodes ks))
    \<and> (\<forall>x\<in>roots (as @ bs). same_root h h3 x)"
  proof (rule root_state_exchange[OF b(1)])
    show "length h \<le> length h3" using same_outsideD(1)[OF same] by simp
    show "h3 ! x = h ! x" if "x \<in> insert root (set (nodes (as @ bs)))" for x
      using that b(9) by (intro same_outsideD(2)[OF same]) auto
    show "mset (held h3 (old # nodes (os @ ks))) = mset (held h (old # nodes os)) + mset (held h (c # nodes ks))"
      using e held_cong[of "nodes os" h3 h] held_cong[of "nodes ks" h3 h] by (simp add: th)
    show "tidy h3 None (CT old (os @ ks))"
      using tidy_kids[OF b(7)] tidy_kids[OF b(8)] by (auto simp: tidy_def full_def th) (simp add: os)
  qed (use b(4,9) s3 in \<open>auto simp: o3\<close>)
  ultimately have "merged h root as old os bs c ks h3 (os @ ks)"
    using same_outsideD(1)[OF same] th by (intro mergedI) simp_all
  then show ?thesis using run by blast
qed

lemma merge_child:
  assumes B: "beside h root as old os bs c ks" and n: "tc_threadable (h ! old) = None \<Longrightarrow> tc_threadable (h ! c) \<noteq> None"
    and cond: "tc_threadable (h ! old) = None \<or> (tc_threadable (h ! c) \<noteq> None
      \<and> subject_is_reply ops (the (tc_threadable (h ! c))) \<and> \<not> subject_is_reply ops (the (tc_threadable (h ! old))))"
  shows "\<exists>h' ns. merge_roots ops h old c = Some h' \<and> merged h root as old os bs c ks h' ns"
proof -
  note b = besideD[OF B]
  define h' where "h' = set_child (set_next (set_parent h c (Some old)) c (tc_child (h ! old))) old (Some c)"
  have c: "tc_threadable (h ! c) \<noteq> None" using n cond by metis
  then obtain tc where tc: "tc_threadable (h ! c) = Some tc" by blast
  have run: "merge_roots ops h old c = Some h'"
    using cond tc unfolding merge_roots_def h'_def by (cases "tc_threadable (h ! old)") auto
  have out: "h' ! x = h ! x" if "x \<noteq> c" "x \<noteq> old" for x
    using that by (simp add: h'_def set_parent_def set_next_def set_child_def)
  have len: "length h' = length h" by (simp add: h'_def)
  have th: "tc_threadable (h' ! x) = tc_threadable (h ! x)" for x by (simp add: h'_def)
  have co: "c \<noteq> old" using b(9) by auto
  have fld: "tc_parent (h' ! c) = Some old" "tc_next (h' ! c) = tc_child (h ! old)" "tc_child (h' ! c) = tc_child (h ! c)"
    "tc_parent (h' ! old) = tc_parent (h ! old)" "tc_next (h' ! old) = tc_next (h ! old)" "tc_child (h' ! old) = Some c"
    using b(2,3) co by (simp_all add: h'_def)
  have "seg h' (Some c) (tc_child (h ! c)) ks None"
    by (rule seg_frame_eq[OF b(5)]) (simp add: len, rule out, use b(9) in auto)
  moreover have "seg h' (Some old) (tc_child (h ! old)) os None"
    by (rule seg_frame_eq[OF b(6)]) (simp add: len, rule out, use b(9) in auto)
  ultimately have s: "seg h' (Some old) (tc_child (h' ! old)) (CT c ks # os) None" using fld b(2) len by simp
  have "root_state h' root (as @ CT old (CT c ks # os) # bs)
    \<and> mset (held h' (nodes (as @ CT old (CT c ks # os) # bs)))
        = mset (held h (nodes (as @ CT old os # bs))) + mset (held h (c # nodes ks))
    \<and> (\<forall>x\<in>roots (as @ bs). same_root h h' x)"
  proof (rule root_state_exchange[OF b(1)])
    show "h' ! x = h ! x" if "x \<in> insert root (set (nodes (as @ bs)))" for x
      using that b(9) by (intro out) auto
    have "mset (held h' (old # nodes (CT c ks # os))) = mset (held h (old # nodes (CT c ks # os)))"
      using held_cong[of "old # nodes (CT c ks # os)" h' h] th by simp
    also have "\<dots> = mset (held h ((old # nodes os) @ (c # nodes ks)))" by (rule held_perm) simp
    finally show "mset (held h' (old # nodes (CT c ks # os))) = mset (held h (old # nodes os)) + mset (held h (c # nodes ks))"
      by (simp only: held_simps(2) mset_append)
    show "tidy h' None (CT old (CT c ks # os))"
      using tidy_kids[OF b(7)] tidy_kids[OF b(8)] c by (auto simp: tidy_def full_def th)
  qed (use b(4,9) s len in \<open>auto simp: fld\<close>)
  moreover have "representative h' old = representative h old
      \<or> tc_threadable (h ! c) \<noteq> None \<and> representative h' old = tc_threadable (h ! c)"
    using c by (cases "tc_threadable (h ! old)") (auto simp: representative_def th fld)
  ultimately have "merged h root as old os bs c ks h' (CT c ks # os)"
    using len th by (intro mergedI) simp_all
  then show ?thesis using run by blast
qed

lemma merge_siblings:
  assumes B: "beside h root as old os bs c ks" and o: "tc_threadable (h ! old) = Some to"
    and c: "tc_threadable (h ! c) = Some tc" and cond: "\<not> (subject_is_reply ops tc \<and> \<not> subject_is_reply ops to)"
  shows "\<exists>h' ns. merge_roots ops h old c = Some h' \<and> merged h root as old os bs c ks h' ns"
proof -
  note b = besideD[OF B]
  define newC where "newC = length h"
  define h1 where "h1 = h @ [(new_container (Some to) [])\<lparr>tc_child := tc_child (h ! old)\<rparr>]"
  have l1: "length h1 = Suc (length h)" by (simp add: h1_def)
  have h1: "h1 ! x = h ! x" if "x < length h" for x using that by (simp add: h1_def nth_append)
  have n1: "tc_child (h1 ! newC) = tc_child (h ! old)" "tc_threadable (h1 ! newC) = Some to"
    "tc_next (h1 ! newC) = None" by (simp_all add: h1_def newC_def new_container_def)
  have bd: "x < length h" if "x \<in> set (nodes os) \<union> set (nodes ks) \<union> {old, c}" for x
    using that seg_bound[OF b(5)] seg_bound[OF b(6)] b(2,3) by auto
  have s1: "seg h1 (Some old) (tc_child (h ! old)) os None"
    by (rule seg_frame[OF b(6)]) (use l1 h1 bd in auto)
  have "length os < jwz_fuel h1" using b(10) l1 by (simp add: jwz_fuel_def)
  from set_parents_seg[OF this s1, of newC] b(9) obtain h2 where h2: "set_parents (jwz_fuel h1) h1 (tc_child (h ! old)) newC = Some h2"
    "seg h2 (Some newC) (tc_child (h ! old)) os None" "same_outside (set (nodes os)) h1 h2" by auto
  define h' where "h' = (let h = set_child (set_threadable h2 old None) old None;
      h = set_parent (set_parent h c (Some old)) newC (Some old)
    in set_next (set_child h old (Some c)) c (Some newC))"
  have run: "merge_roots ops h old c = Some h'"
    using o c cond h2(1) n1(1)[unfolded newC_def]
    by (auto simp: merge_roots_def Let_def h1_def[symmetric] newC_def h'_def)
  have co: "c \<noteq> old" "newC \<noteq> old" "newC \<noteq> c" "newC \<notin> set (nodes os)" "newC \<notin> set (nodes ks)"
    using b(9) bd by (auto simp: newC_def)
  have l2: "length h2 = Suc (length h)" using same_outsideD(1)[OF h2(3)] l1 by simp
  have lt: "c < length h2" "old < length h2" "newC < length h2" using b(2,3) l2 by (auto simp: newC_def)
  have len: "length h' = Suc (length h)" by (simp add: h'_def Let_def l2)
  have out: "h' ! x = h2 ! x" if "x \<noteq> c" "x \<noteq> old" "x \<noteq> newC" for x
    using that by (simp add: h'_def Let_def set_parent_def set_next_def set_child_def set_threadable_def)
  have out1: "h' ! x = h ! x" if "x \<noteq> c" "x \<noteq> old" "x < length h" "x \<notin> set (nodes os)" for x
    using that out[of x] same_outsideD(2)[OF h2(3) that(4)] h1[OF that(3)] by (simp add: newC_def)
  have e2: "h2 ! old = h ! old" "h2 ! c = h ! c" "h2 ! newC = h1 ! newC"
    using same_outsideD(2)[OF h2(3)] h1 b(2,3,9) co by auto
  have fld: "tc_parent (h' ! c) = Some old" "tc_next (h' ! c) = Some newC" "tc_child (h' ! c) = tc_child (h ! c)"
    "tc_parent (h' ! old) = tc_parent (h ! old)" "tc_next (h' ! old) = tc_next (h ! old)" "tc_child (h' ! old) = Some c"
    "tc_parent (h' ! newC) = Some old" "tc_next (h' ! newC) = None" "tc_child (h' ! newC) = tc_child (h ! old)"
    "tc_threadable (h' ! old) = None" "tc_threadable (h' ! c) = Some tc" "tc_threadable (h' ! newC) = Some to"
    using lt co e2 n1 c by (simp_all add: h'_def Let_def)
  have th: "tc_threadable (h' ! x) = tc_threadable (h ! x)" if "x < length h" "x \<noteq> old" for x
  proof (cases "x = c")
    case False
    then show ?thesis using that out[of x] same_outsideD(3)[OF h2(3), of x] h1[of x] by (simp add: newC_def)
  qed (simp add: fld c)
  have ks: "seg h' (Some c) (tc_child (h ! c)) ks None"
    by (rule seg_frame_eq[OF b(5)]) (simp add: len, rule out1, use b(9) bd in auto)
  have "seg h' (Some newC) (tc_child (h ! old)) os None"
    by (rule seg_frame_eq[OF h2(2)]) (simp add: len l2, rule out, use b(9) co in auto)
  with ks have s: "seg h' (Some old) (tc_child (h' ! old)) [CT c ks, CT newC os] None" using fld lt len l2 by simp
  have rb: "x < length h \<and> x \<noteq> c \<and> x \<noteq> old \<and> x \<notin> set (nodes os)" if "x \<in> insert root (set (nodes (as @ bs)))" for x
    using that b(1,9) seg_bound[of h None "tc_child (h ! root)" "as @ CT old os # bs" None] by (auto simp: root_state_def)
  have R: "root_state h' root (as @ CT old [CT c ks, CT newC os] # bs)
    \<and> mset (held h' (nodes (as @ CT old [CT c ks, CT newC os] # bs)))
        = mset (held h (nodes (as @ CT old os # bs))) + mset (held h (c # nodes ks))
    \<and> (\<forall>x\<in>roots (as @ bs). same_root h h' x)"
  proof (rule root_state_exchange[OF b(1)])
    show "length h \<le> length h'" using len by simp
    show "h' ! x = h ! x" if "x \<in> insert root (set (nodes (as @ bs)))" for x
      using rb[OF that] by (intro out1) auto
    have thk: "tc_threadable (h' ! x) = tc_threadable (h ! x)" if "x \<in> set (nodes os) \<union> set (nodes ks)" for x
    proof -
      have "x \<noteq> old" "x < length h" using that b(9) bd[of x] by auto
      then show ?thesis using th by blast
    qed
    have "held h' (nodes os) = held h (nodes os)" "held h' (nodes ks) = held h (nodes ks)"
      using thk by (auto intro!: held_cong)
    then show "mset (held h' (old # nodes [CT c ks, CT newC os])) = mset (held h (old # nodes os)) + mset (held h (c # nodes ks))"
      by (simp add: fld o c)
    have "full h' ks" "full h' os" using tidy_kids[OF b(7)] tidy_kids[OF b(8)] by (simp_all add: full_def thk)
    then show "tidy h' None (CT old [CT c ks, CT newC os])" by (auto simp: tidy_def full_def fld)
    have "newC \<notin> insert root (set (nodes (as @ bs)))" using rb[of newC] by (auto simp: newC_def)
    then show "distinct (root # nodes as @ old # nodes [CT c ks, CT newC os] @ nodes bs)"
      using b(9) co by auto
  qed (use b(4) s in \<open>auto simp: fld\<close>)
  have "representative h' old = tc_threadable (h ! c)" by (simp add: representative_def fld c)
  then have "merged h root as old os bs c ks h' [CT c ks, CT newC os]"
    using R len o c by (intro mergedI) simp_all
  then show ?thesis using run by blast
qed

lemma merge_roots_merged:
  assumes B: "beside h root as old os bs c ks" and n: "tc_threadable (h ! c) = None \<Longrightarrow> tc_threadable (h ! old) = None"
  shows "\<exists>h' ns. merge_roots ops h old c = Some h' \<and> merged h root as old os bs c ks h' ns"
proof (cases "tc_threadable (h ! c)")
  case None
  then show ?thesis using merge_empty_roots[OF B n] by blast
next
  case c: (Some tc)
  show ?thesis
  proof (cases "tc_threadable (h ! old)")
    case None
    then show ?thesis using merge_child[OF B] c by simp
  next
    case o: (Some to)
    show ?thesis
    proof (cases "subject_is_reply ops tc \<and> \<not> subject_is_reply ops to")
      case True
      then show ?thesis using merge_child[OF B] c o by simp
    next
      case False
      then show ?thesis using merge_siblings[OF B o c] by blast
    qed
  qed
qed

subsection \<open>The table of subjects\<close>

definition root_subject :: "'m threadable_ops \<Rightarrow> 'm heap \<Rightarrow> nat \<Rightarrow> string" where
  "root_subject ops h x = (case representative h x of None \<Rightarrow> [] | Some t \<Rightarrow> simplified_subject ops t)"

text \<open>
  The table leads from the subject of each root of \<open>ts\<close> to a root of \<open>rs\<close> with that
  subject, an empty one if there is an empty one.
\<close>

definition subjects_ok :: "'m threadable_ops \<Rightarrow> 'm heap \<Rightarrow> ctree list \<Rightarrow> (string \<rightharpoonup> nat) \<Rightarrow> ctree list \<Rightarrow> bool" where
  "subjects_ok ops h rs tab ts \<longleftrightarrow>
     (\<forall>x\<in>roots ts. root_subject ops h x \<noteq> [] \<longrightarrow>
        (\<exists>o'. tab (root_subject ops h x) = Some o' \<and> (tc_threadable (h ! x) = None \<longrightarrow> tc_threadable (h ! o') = None)))
     \<and> (\<forall>s o'. tab s = Some o' \<longrightarrow> o' \<in> roots rs \<and> root_subject ops h o' = s)"

lemma subject_table_ok:
  assumes "seg h None p ts None" "\<forall>t\<in>set ts. tidy h None t" "length ts < n" "subjects_ok ops h ds tab ds"
  shows "\<exists>tab' cnt'. subject_table n ops h p tab cnt = Some (tab', cnt') \<and> subjects_ok ops h (ds @ ts) tab' (ds @ ts)"
  using assms
proof (induction n arbitrary: p ts ds tab cnt)
  case 0
  then show ?case by simp
next
  case (Suc n)
  show ?case
  proof (cases ts)
    case Nil
    then show ?thesis using Suc.prems by simp
  next
    case (Cons t us)
    obtain c ks where t: "t = CT c ks" by (cases t)
    have p: "p = Some c" and s: "seg h None (tc_next (h ! c)) us None" using Suc.prems(1) by (auto simp: Cons t)
    obtain m where m: "representative h c = Some m"
      using tidy_representative[OF Suc.prems(1), of t] Suc.prems(2) by (auto simp: Cons t)
    have subj: "root_subject ops h c = simplified_subject ops m" by (simp add: root_subject_def m)
    have go: "\<exists>tab' cnt'. subject_table n ops h (tc_next (h ! c)) tab1 cnt1 = Some (tab', cnt')
        \<and> subjects_ok ops h (ds @ ts) tab' (ds @ ts)"
      if "subjects_ok ops h (ds @ [t]) tab1 (ds @ [t])" for tab1 cnt1
      using Suc.IH[OF s _ _ that] Suc.prems(2,3) by (simp add: Cons)
    note ok = Suc.prems(4)[unfolded subjects_ok_def]
    show ?thesis
    proof (cases "simplified_subject ops m = []")
      case True
      have "subjects_ok ops h (ds @ [t]) tab (ds @ [t])"
        using ok True subj unfolding subjects_ok_def by (auto simp: t)
      then show ?thesis using go m True by (simp add: p)
    next
      case False
      show ?thesis
      proof (cases "more_interesting ops h c (tab (simplified_subject ops m))")
        case True
        have "tc_threadable (h ! c) = None"
          if "x \<in> roots ds" "root_subject ops h x = root_subject ops h c" "tc_threadable (h ! x) = None" for x
          using ok that True False subj by (fastforce simp: more_interesting_def split: option.splits)
        then have "subjects_ok ops h (ds @ [t]) (tab(simplified_subject ops m \<mapsto> c)) (ds @ [t])"
          using ok unfolding subjects_ok_def subj[symmetric] by (auto simp: t)
        then show ?thesis using go m False True by (simp add: p)
      next
        case nf: False
        then obtain o' where o': "tab (simplified_subject ops m) = Some o'"
          by (cases "tab (simplified_subject ops m)") (auto simp: more_interesting_def)
        have "tc_threadable (h ! c) = None \<Longrightarrow> tc_threadable (h ! o') = None"
          using nf o' by (auto simp: more_interesting_def split: option.splits)
        then have "subjects_ok ops h (ds @ [t]) tab (ds @ [t])"
          using ok o' subj unfolding subjects_ok_def by (auto simp: t)
        then show ?thesis using go m False nf by (simp add: p)
      qed
    qed
  qed
qed

subsection \<open>The gathering loop\<close>

text \<open>Taking the root \<open>c\<close> out of the chain of roots.\<close>

lemma unlink_root:
  assumes R: "root_state h root (ds @ CT c ks # us)"
  defines "h1 \<equiv> set_next (set_link h root (last_node ds) (tc_next (h ! c))) c None"
  shows "root_state h1 root (ds @ us)" "seg h1 None (Some c) [CT c ks] None" "tidy h1 None (CT c ks)"
    "length h1 = length h" "\<And>x. tc_threadable (h1 ! x) = tc_threadable (h ! x)"
    "\<And>x. x \<in> roots (ds @ CT c ks # us) \<Longrightarrow> same_root h h1 x" "tc_next (h1 ! c) = None"
proof -
  from R have s: "seg h None (tc_child (h ! root)) ds (Some c)" "seg h None (tc_next (h ! c)) us None"
      "c < length h" "tc_parent (h ! c) = None" "seg h (Some c) (tc_child (h ! c)) ks None"
    and d: "distinct (root # nodes ds @ c # nodes ks @ nodes us)" and p: "root < length h"
    and t: "\<forall>t\<in>set (ds @ CT c ks # us). tidy h None t"
    and r: "tc_next (h ! root) = None" "tc_parent (h ! root) = None" "tc_threadable (h ! root) = None"
    by (auto simp: root_state_def seg_append)
  let ?h = "set_link h root (last_node ds) (tc_next (h ! c))"
  have same0: "same_outside (insert root (set (nodes ds))) h ?h"
    by (rule set_link_same) (auto simp: last_node_in)
  have nx: "tc_next (?h ! x) = tc_next (h ! x)" if "x \<notin> set (nodes ds)" for x
    using last_node_in seg_bound[OF s(1)] that by (intro set_link_next_other) auto
  have same1: "same_outside {c} ?h h1" unfolding h1_def by (rule set_field_same) simp
  have same: "same_outside (insert c (insert root (set (nodes ds)))) h h1"
    by (rule same_outside_trans[OF same0 same1]) auto
  have ds0: "seg ?h None (tc_child (?h ! root)) ds (tc_next (h ! c))" using set_link_seg[OF s(1)] d p by simp
  have "seg h1 None (tc_child (?h ! root)) ds (tc_next (h ! c))" using same_outside_seg[OF same1 ds0] d by auto
  moreover have "seg h1 None (tc_next (h ! c)) us None" using same_outside_seg[OF same s(2)] d by auto
  moreover have ks: "seg h1 (Some c) (tc_child (h ! c)) ks None" using same_outside_seg[OF same s(5)] d by auto
  moreover have e: "h1 ! root = ?h ! root" using same_outsideD(2)[OF same1] d by auto
  moreover show th: "\<And>x. tc_threadable (h1 ! x) = tc_threadable (h ! x)" using same_outsideD(3)[OF same] .
  moreover show len: "length h1 = length h" using same_outsideD(1)[OF same] .
  moreover have "tidy h1 None t = tidy h None t" for t using tidy_same[OF same] .
  ultimately show "root_state h1 root (ds @ us)" "tidy h1 None (CT c ks)"
    using d p r t nx[of root] same_outsideD(3)[OF same0, of root] by (auto simp: root_state_def seg_append)
  have c0: "?h ! c = h ! c" using same_outsideD(2)[OF same0] d by auto
  show "tc_next (h1 ! c) = None" using s(3) same_outsideD(1)[OF same0] by (simp add: h1_def)
  have fc: "tc_parent (h1 ! c) = None" "tc_child (h1 ! c) = tc_child (h ! c)" "tc_next (h1 ! c) = None"
    using s(3,4) same_outsideD(1)[OF same0] c0 by (simp_all add: h1_def)
  then show "seg h1 None (Some c) [CT c ks] None" using ks s(3) len by simp
  have ch: "tc_child (h1 ! x) = tc_child (h ! x)" if "x \<noteq> root" for x
  proof (cases "last_node ds")
    case None
    then show ?thesis using that p by (simp add: h1_def set_link_def)
  next
    case (Some y)
    then show ?thesis by (simp add: h1_def set_link_def)
  qed
  show "same_root h h1 x" if "x \<in> roots (ds @ CT c ks # us)" for x
  proof -
    have "x \<noteq> root" using that roots_nodes[of "ds @ CT c ks # us"] d by auto
    then show ?thesis using ch[of x] th by (auto simp: same_root_def representative_def split: option.split)
  qed
qed

definition with_kids :: "nat \<Rightarrow> ctree list \<Rightarrow> ctree list \<Rightarrow> ctree list" where
  "with_kids old ns ts = map (\<lambda>t. if ct_node t = old then CT old ns else t) ts"

lemma with_kids_same [simp]:
  "last_node (with_kids old ns ts) = last_node ts" "first_node (with_kids old ns ts) = first_node ts"
  "tl (with_kids old ns ts) = with_kids old ns (tl ts)" "length (with_kids old ns ts) = length ts"
  "roots (with_kids old ns ts) = roots ts" "with_kids old ns (ts @ us) = with_kids old ns ts @ with_kids old ns us"
proof -
  show "last_node (with_kids old ns ts) = last_node ts"
    by (cases ts rule: rev_cases) (auto simp: with_kids_def last_node_def)
  show "first_node (with_kids old ns ts) = first_node ts" by (cases ts) (auto simp: with_kids_def)
  show "tl (with_kids old ns ts) = with_kids old ns (tl ts)" by (simp add: with_kids_def map_tl)
  show "roots (with_kids old ns ts) = roots ts"
    unfolding roots_def with_kids_def set_map image_image by (intro image_cong) auto
qed (simp_all add: with_kids_def)

lemma with_kids_idle: "old \<notin> roots ts \<Longrightarrow> with_kids old ns ts = ts"
  by (auto simp: with_kids_def roots_def intro!: map_idI)

lemma root_split:
  assumes "old \<in> roots rs" "distinct (nodes rs)"
  shows "\<exists>as os bs. rs = as @ CT old os # bs \<and> (\<forall>ns. with_kids old ns rs = as @ CT old ns # bs)"
proof -
  from assms(1) obtain t where t: "t \<in> set rs" "ct_node t = old" by (auto simp: roots_def)
  then obtain as bs where "rs = as @ t # bs" by (meson split_list)
  then have rs: "rs = as @ CT old (ct_kids t) # bs" using t(2) by (cases t) auto
  then have "old \<notin> roots as" "old \<notin> roots bs" using assms(2) roots_nodes[of as] roots_nodes[of bs] by auto
  then have "with_kids old ns rs = as @ CT old ns # bs" for ns
    by (simp add: rs with_kids_idle) (simp add: with_kids_def with_kids_idle[unfolded with_kids_def])
  then show ?thesis using rs by blast
qed

lemma root_state_next:
  "root_state h root (ds @ ts) \<Longrightarrow>
     (case first_node ts of None \<Rightarrow> None | Some x \<Rightarrow> tc_next (h ! x)) = first_node (tl ts)"
  by (cases ts) (auto simp: root_state_def seg_append dest: seg_next)

text \<open>The merged root keeps its subject, so the table stays right for the roots to come.\<close>

lemma subjects_ok_merged:
  assumes ok: "subjects_ok ops h rs tab (CT c ks # us)" and c: "tab (root_subject ops h c) = Some old" "old \<noteq> c"
    and sr: "\<forall>x\<in>roots rs - {c} - {old}. same_root h h' x" and us: "c \<notin> roots us" "roots us \<subseteq> roots rs"
    and o1: "tc_threadable (h ! old) = None \<longrightarrow> tc_threadable (h' ! old) = None"
    and o2: "representative h' old = representative h old
      \<or> tc_threadable (h ! c) \<noteq> None \<and> representative h' old = tc_threadable (h ! c)"
    and rs': "roots rs' = roots rs - {c}" "roots us' = roots us"
  shows "subjects_ok ops h' rs' tab us'"
proof -
  note ok' = ok[unfolded subjects_ok_def]
  from ok' have tab: "o' \<in> roots rs" "root_subject ops h o' = s" if "tab s = Some o'" for s o'
    using that by blast+
  have oS: "root_subject ops h old = root_subject ops h c" "old \<in> roots rs" using tab[OF c(1)] by auto
  have nc: "tab s \<noteq> Some c" for s using tab(2)[of s c] c by auto
  have rc: "tc_threadable (h ! c) \<noteq> None \<Longrightarrow> representative h c = tc_threadable (h ! c)"
    by (auto simp: representative_def)
  have subj: "root_subject ops h' x = root_subject ops h x" if "x \<in> roots rs - {c}" for x
  proof (cases "x = old")
    case True
    then show ?thesis using o2 oS(1) rc by (auto simp: root_subject_def)
  next
    case False
    then show ?thesis using sr that by (simp add: root_subject_def same_root_def)
  qed
  have less: "tc_threadable (h' ! x) = None" if "x \<in> roots rs - {c}" "tc_threadable (h ! x) = None" for x
    using that sr o1 by (cases "x = old") (auto simp: same_root_def)
  have "\<exists>o'. tab (root_subject ops h' x) = Some o' \<and> (tc_threadable (h' ! x) = None \<longrightarrow> tc_threadable (h' ! o') = None)"
    if x: "x \<in> roots us'" "root_subject ops h' x \<noteq> []" for x
  proof -
    have xr: "x \<in> roots rs - {c}" "x \<in> roots us" using x(1) rs' us by auto
    then obtain o' where o': "tab (root_subject ops h x) = Some o'"
      "tc_threadable (h ! x) = None \<longrightarrow> tc_threadable (h ! o') = None"
      using ok' x(2) subj[OF xr(1)] by auto
    have or: "o' \<in> roots rs - {c}" using tab(1)[OF o'(1)] o'(1) nc by auto
    show ?thesis
    proof (cases "x = old")
      case True
      then have "o' = old" using o'(1) oS(1) c(1) by simp
      then show ?thesis using o'(1) subj[OF xr(1)] True by auto
    next
      case False
      then have "tc_threadable (h' ! x) = tc_threadable (h ! x)" using sr xr(1) by (auto simp: same_root_def)
      then show ?thesis using o' subj[OF xr(1)] less[OF or] by auto
    qed
  qed
  moreover have "o' \<in> roots rs' \<and> root_subject ops h' o' = s" if "tab s = Some o'" for s o'
  proof -
    have "o' \<in> roots rs - {c}" "root_subject ops h o' = s" using tab[OF that] that nc by auto
    then show ?thesis using subj rs'(1) by simp
  qed
  ultimately show ?thesis unfolding subjects_ok_def by blast
qed

lemma gather_loop_ok:
  assumes "root_state h root (ds @ ts)" "subjects_ok ops h (ds @ ts) tab ts" "length ts < n"
  shows "\<exists>h' rs. gather_loop n ops h root tab (last_node ds) (first_node ts) (first_node (tl ts)) = Some h'
    \<and> root_state h' root rs \<and> mset (held h' (nodes rs)) = mset (held h (nodes (ds @ ts)))
    \<and> length h' \<le> length h + length ts"
  using assms
proof (induction n arbitrary: h ds ts)
  case 0
  then show ?case by simp
next
  case (Suc n)
  note R = Suc.prems(1) and ok = Suc.prems(2)
  show ?case
  proof (cases ts)
    case Nil
    then show ?thesis using R by (intro exI[of _ h] exI[of _ ds]) simp
  next
    case (Cons t us)
    obtain c ks where t: "t = CT c ks" by (cases t)
    have ts: "ts = CT c ks # us" by (simp add: Cons t)
    have s: "seg h None (tc_child (h ! root)) (ds @ ts) None" "\<forall>t\<in>set (ds @ ts). tidy h None t"
      and d: "distinct (root # nodes ds @ c # nodes ks @ nodes us)" using R by (auto simp: root_state_def ts)
    obtain m where m: "representative h c = Some m" using tidy_representative[OF s(1), of t] s(2) by (auto simp: Cons t)
    have subj: "root_subject ops h c = simplified_subject ops m" by (simp add: root_subject_def m)
    have fn: "first_node ts = Some c" "first_node (tl ts) = first_node us" by (simp_all add: ts)
    have skip: "\<exists>h' rs. gather_loop n ops h root tab (Some c) (first_node us)
          (case first_node us of None \<Rightarrow> None | Some r \<Rightarrow> tc_next (h ! r)) = Some h'
      \<and> root_state h' root rs \<and> mset (held h' (nodes rs)) = mset (held h (nodes (ds @ ts))) \<and> length h' \<le> length h + length ts"
    proof -
      have R1: "root_state h root ((ds @ [CT c ks]) @ us)" using R by (simp add: ts)
      have "subjects_ok ops h ((ds @ [CT c ks]) @ us) tab us" using ok by (simp add: ts subjects_ok_def)
      from Suc.IH[OF R1 this] Suc.prems(3) show ?thesis
        unfolding root_state_next[OF R1] by (fastforce simp: ts)
    qed
    show ?thesis
    proof (cases "simplified_subject ops m = []")
      case True
      then show ?thesis using skip by (simp only: fn gather_loop.simps m option.case Let_def if_True simp_thms)
    next
      case False
      then obtain old where old: "tab (simplified_subject ops m) = Some old"
        "tc_threadable (h ! c) = None \<longrightarrow> tc_threadable (h ! old) = None" "old \<in> roots (ds @ ts)"
        using ok subj by (auto simp: subjects_ok_def ts)
      show ?thesis
      proof (cases "old = c")
        case True
        then show ?thesis using skip False old(1)
          by (simp only: fn gather_loop.simps m option.case Let_def if_True if_False simp_thms)
      next
        case ne: False
        let ?rs = "ds @ us"
        define h1 where "h1 = set_next (set_link h root (last_node ds) (tc_next (h ! c))) c None"
        note u = unlink_root[OF R[unfolded ts], folded h1_def]
        have "old \<in> roots ?rs" "distinct (nodes ?rs)" using old(3) ne d by (auto simp: ts)
        from root_split[OF this] obtain as os bs where sp: "?rs = as @ CT old os # bs"
          "\<And>ns. with_kids old ns ?rs = as @ CT old ns # bs" by blast
        have "mset (nodes (as @ CT old os # bs)) = mset (nodes ds) + mset (nodes us)" unfolding sp(1)[symmetric] by simp
        then have perm: "mset (root # nodes as @ old # nodes os @ c # nodes ks @ nodes bs)
            = mset (root # nodes ds @ c # nodes ks @ nodes us)" by (simp add: ac_simps)
        have "distinct (root # nodes as @ old # nodes os @ c # nodes ks @ nodes bs)"
          using mset_eq_imp_distinct_iff[OF perm] d by blast
        then have B: "beside h1 root as old os bs c ks" using u(1,2,3) by (simp add: beside_def sp(1))
        have "tc_threadable (h1 ! c) = None \<Longrightarrow> tc_threadable (h1 ! old) = None" using old(2) u(5) by simp
        from merge_roots_merged[OF B this] obtain h2 ns where h2: "merge_roots ops h1 old c = Some h2"
          "merged h1 root as old os bs c ks h2 ns" by blast
        let ?ds = "with_kids old ns ds" and ?us = "with_kids old ns us"
        have rs: "as @ CT old ns # bs = ?ds @ ?us" using sp(2)[of ns] by simp
        note mg = h2(2)[unfolded merged_def rs sp(1)[symmetric]]
        have st: "gather_loop (Suc n) ops h root tab (last_node ds) (first_node ts) (first_node (tl ts))
            = gather_loop n ops h2 root tab (last_node ?ds) (first_node ?us)
                (case first_node ?us of None \<Rightarrow> None | Some r \<Rightarrow> tc_next (h2 ! r))"
          using False old(1) ne h2(1)
          by (simp only: fn gather_loop.simps m option.case Let_def if_False h1_def[symmetric] with_kids_same)
        have R2: "root_state h2 root (?ds @ ?us)" using mg by simp
        have cb: "c \<notin> roots ds" "c \<notin> roots us" using d roots_nodes[of ds] roots_nodes[of us] by auto
        have rr: "roots (as @ bs) \<supseteq> roots ?rs - {old}" unfolding sp(1) by auto
        have sr: "same_root h h2 x" if "x \<in> roots ?rs - {old}" for x
        proof -
          have "same_root h h1 x" using that u(6)[of x] by auto
          moreover have "same_root h1 h2 x" using that rr mg by blast
          ultimately show ?thesis by (simp add: same_root_def)
        qed
        have so: "same_root h h1 old" using u(6) \<open>old \<in> roots ?rs\<close> by auto
        have ok2: "subjects_ok ops h2 (?ds @ ?us) tab ?us"
        proof (rule subjects_ok_merged[where h = h and rs = "ds @ ts" and c = c and ks = ks and us = us and old = old])
          show "subjects_ok ops h (ds @ ts) tab (CT c ks # us)" using ok by (simp add: ts)
          show "tab (root_subject ops h c) = Some old" using old(1) subj by simp
          show "\<forall>x\<in>roots (ds @ ts) - {c} - {old}. same_root h h2 x" using sr by (auto simp: ts)
          show "tc_threadable (h ! old) = None \<longrightarrow> tc_threadable (h2 ! old) = None" using mg u(5) by simp
          show "representative h2 old = representative h old
              \<or> tc_threadable (h ! c) \<noteq> None \<and> representative h2 old = tc_threadable (h ! c)"
            using mg u(5) so by (simp add: same_root_def)
          show "roots (?ds @ ?us) = roots (ds @ ts) - {c}" using cb by (auto simp: ts)
        qed (use ne cb in \<open>auto simp: ts\<close>)
        have "mset (held h1 (nodes ?rs)) + mset (held h1 (c # nodes ks)) = mset (held h (nodes (ds @ ts)))"
        proof -
          have e: "held h1 xs = held h xs" for xs by (rule held_cong) (rule u(5))
          have "mset (held h1 (nodes ?rs)) + mset (held h1 (c # nodes ks)) = mset (held h (nodes ?rs @ c # nodes ks))"
            unfolding e by (simp only: held_simps(2) mset_append)
          also have "\<dots> = mset (held h (nodes (ds @ ts)))" by (rule held_perm) (simp add: ts)
          finally show ?thesis .
        qed
        then have held: "mset (held h2 (nodes (?ds @ ?us))) = mset (held h (nodes (ds @ ts)))" using mg by simp
        have "length ?us < n" "length h2 + length ?us \<le> length h + length ts" using Suc.prems(3) mg u(4) by (auto simp: ts)
        then show ?thesis using Suc.IH[OF R2 ok2] held
          unfolding st root_state_next[OF R2] by fastforce
      qed
    qed
  qed
qed

lemma gatherSubjects_ok:
  assumes R: "root_state h root rs"
  shows "\<exists>h' rs'. gatherSubjects ops h root = Some h' \<and> root_state h' root rs'
    \<and> mset (held h' (nodes rs')) = mset (held h (nodes rs)) \<and> length h' \<le> length h + length rs"
proof -
  have s: "seg h None (tc_child (h ! root)) rs None" "\<forall>t\<in>set rs. tidy h None t" "distinct (nodes rs)"
    using R by (auto simp: root_state_def)
  have "set (nodes rs) \<subseteq> {..<length h}" using seg_bound[OF s(1)] by auto
  note fuel = le_less_trans[OF nodes_length nodes_fit[OF s(3) this]]
  have "subjects_ok ops h [] Map.empty []" by (simp add: subjects_ok_def)
  from subject_table_ok[OF s(1,2) fuel this, of 0] obtain tab cnt where
    t: "subject_table (jwz_fuel h) ops h (tc_child (h ! root)) Map.empty 0 = Some (tab, cnt)"
    "subjects_ok ops h rs tab rs" by auto
  show ?thesis
  proof (cases "cnt = 0")
    case True
    then show ?thesis using t(1) R by (intro exI[of _ h] exI[of _ rs]) (simp add: gatherSubjects_def)
  next
    case False
    then have ne: "rs \<noteq> []" using t(1) seg_first[OF s(1)] by (auto simp: jwz_fuel_def)
    then obtain c ks us where rs: "rs = CT c ks # us" by (metis ctree.exhaust neq_Nil_conv)
    have c: "tc_child (h ! root) = Some c" "tc_next (h ! c) = first_node us"
      using seg_first[OF s(1)] s(1) by (auto simp: rs dest: seg_first)
    have "root_state h root ([] @ rs)" "subjects_ok ops h ([] @ rs) tab rs" using R t(2) by simp_all
    from gather_loop_ok[OF this fuel] show ?thesis
      using t(1) False c by (simp add: gatherSubjects_def rs)
  qed
qed

end
