(* ===== verification/JwzRun.thy ===== *)
theory JwzRun
  imports JwzGather ThreadBuilder
begin

text \<open>
  A whole run of \<open>ThreadSlice\<close> in \<open>lib/jwz/jwz.go\<close> and of the thread builder on top of it:
  every step returns, and the links written into the messages span trees that hold every
  message once.
\<close>

subsection \<open>Dummies for the empty roots\<close>

lemma dummy_roots_ok:
  assumes "seg h None p ts None" "\<forall>t\<in>set ts. tidy h None t" "distinct (nodes ts)" "length ts < n"
  shows "\<exists>h'. dummy_roots n h p = Some h' \<and> length h' = length h
    \<and> (\<forall>x. tc_parent (h' ! x) = tc_parent (h ! x) \<and> tc_child (h' ! x) = tc_child (h ! x) \<and> tc_next (h' ! x) = tc_next (h ! x)
      \<and> tc_threadable (h' ! x) = (if x \<in> roots ts \<and> tc_threadable (h ! x) = None
           then Some (DummyFor x (tc_forID (h ! x))) else tc_threadable (h ! x)))"
  using assms
proof (induction n arbitrary: h p ts)
  case 0
  then show ?case by simp
next
  case (Suc n)
  show ?case
  proof (cases ts)
    case Nil
    then show ?thesis using Suc.prems(1) by simp
  next
    case (Cons t us)
    obtain r ks where t: "t = CT r ks" by (cases t)
    have s: "p = Some r" "r < length h" "seg h (Some r) (tc_child (h ! r)) ks None" "seg h None (tc_next (h ! r)) us None"
      using Suc.prems(1) by (auto simp: Cons t)
    have d: "distinct (r # nodes ks @ nodes us)" using Suc.prems(3) by (simp add: Cons t)
    have ru: "r \<notin> roots us" using d roots_nodes[of us] by auto
    show ?thesis
    proof (cases "tc_threadable (h ! r)")
      case (Some m)
      from Suc.IH[OF s(4)] Suc.prems(2,4) d Cons obtain h' where "dummy_roots n h (tc_next (h ! r)) = Some h'" "length h' = length h"
        "\<forall>x. tc_parent (h' ! x) = tc_parent (h ! x) \<and> tc_child (h' ! x) = tc_child (h ! x) \<and> tc_next (h' ! x) = tc_next (h ! x)
      \<and> tc_threadable (h' ! x) = (if x \<in> roots us \<and> tc_threadable (h ! x) = None
           then Some (DummyFor x (tc_forID (h ! x))) else tc_threadable (h ! x))" by auto
      then show ?thesis using s(1) Some by (auto simp: Cons t)
    next
      case None
      then have "ks \<noteq> []" "full h ks" using Suc.prems(2) by (auto simp: Cons t tidy_def)
      then obtain k ks' where ks: "ks = k # ks'" by (cases ks) auto
      then have k: "tc_child (h ! r) = Some (ct_node k)" "tc_threadable (h ! ct_node k) \<noteq> None"
        using seg_first[OF s(3)] \<open>full h ks\<close> by (auto simp: full_def nodes_Cons)
      define h1 where "h1 = set_threadable h r (Some (DummyFor r (tc_forID (h ! r))))"
      have fld: "length h1 = length h" "\<And>x. tc_parent (h1 ! x) = tc_parent (h ! x) \<and> tc_child (h1 ! x) = tc_child (h ! x)
          \<and> tc_next (h1 ! x) = tc_next (h ! x) \<and> tc_forID (h1 ! x) = tc_forID (h ! x)"
        "\<And>x. tc_threadable (h1 ! x) = (if x = r then Some (DummyFor r (tc_forID (h ! r))) else tc_threadable (h ! x))"
        using s(2) by (auto simp: h1_def) (simp_all add: set_threadable_def update_nth)
      have s1: "seg h1 None (tc_next (h ! r)) us None" by (rule seg_frame[OF s(4)]) (simp_all add: fld)
      have "tidy h1 None u" if "u \<in> set us" for u
      proof -
        have "r \<notin> set (nodes (ct_kids u))" "r \<noteq> ct_node u" using that d kids_in_nodes[OF that] node_in_nodes[OF that] by auto
        then show ?thesis using Suc.prems(2) that by (auto simp: Cons tidy_def full_def fld)
      qed
      then obtain h' where h': "dummy_roots n h1 (tc_next (h ! r)) = Some h'" "length h' = length h1"
        "\<forall>x. tc_parent (h' ! x) = tc_parent (h1 ! x) \<and> tc_child (h' ! x) = tc_child (h1 ! x) \<and> tc_next (h' ! x) = tc_next (h1 ! x)
      \<and> tc_threadable (h' ! x) = (if x \<in> roots us \<and> tc_threadable (h1 ! x) = None
           then Some (DummyFor x (tc_forID (h1 ! x))) else tc_threadable (h1 ! x))"
        using Suc.IH[OF s1] Suc.prems(4) d Cons by auto
      have "dummy_roots (Suc n) h p = Some h'" using s(1) None k h'(1) by (simp add: h1_def[symmetric])
      then show ?thesis using h' fld ru None by (intro exI[of _ h']) (auto simp: Cons t)
    qed
  qed
qed

subsection \<open>Flushing\<close>

definition thr :: "'m heap \<Rightarrow> nat \<Rightarrow> 'm threadable" where
  "thr h x = the (tc_threadable (h ! x))"

text \<open>The links written for the trees, and the tree of messages they span.\<close>

fun linked :: "'m links \<Rightarrow> 'm heap \<Rightarrow> ctree list \<Rightarrow> bool" where
  "linked l h [] \<longleftrightarrow> True"
| "linked l h (CT a ks # us) \<longleftrightarrow>
     get_child l (thr h a) = threadable_at h (first_node ks)
     \<and> get_next l (thr h a) = threadable_at h (first_node us)
     \<and> linked l h ks \<and> linked l h us"

fun message_tree :: "'m heap \<Rightarrow> ctree list \<Rightarrow> 'm threadable jtree" where
  "message_tree h [] = JNil"
| "message_tree h (CT a ks # us) = JNode (thr h a) (message_tree h ks) (message_tree h us)"

lemma message_tree_nodes: "mset (jt_nodes (message_tree h ts)) = mset (map (thr h) (nodes ts))"
  by (induction h ts rule: message_tree.induct) auto

lemma first_full: "full h ts \<Longrightarrow> threadable_at h (first_node ts) = (case ts of [] \<Rightarrow> None | t # _ \<Rightarrow> Some (thr h (ct_node t)))"
  by (cases ts) (auto simp: threadable_at_def full_def nodes_Cons thr_def)

lemma read_links_linked:
  "length (nodes ts) < n \<Longrightarrow> full h ts \<Longrightarrow> linked l h ts \<Longrightarrow>
     read_links n l (threadable_at h (first_node ts)) = Some (message_tree h ts)"
proof (induction n arbitrary: ts)
  case 0
  then show ?case by simp
next
  case (Suc n)
  show ?case
  proof (cases ts)
    case Nil
    then show ?thesis by (simp add: threadable_at_def)
  next
    case (Cons t us)
    obtain a ks where t: "t = CT a ks" by (cases t)
    have "full h ks" "full h us" using Suc.prems(2) by (auto simp: full_def Cons t)
    then have "read_links n l (threadable_at h (first_node ks)) = Some (message_tree h ks)"
      "read_links n l (threadable_at h (first_node us)) = Some (message_tree h us)"
      using Suc.prems by (auto simp: Cons t intro: Suc.IH)
    then show ?thesis using Suc.prems(3) first_full[OF Suc.prems(2)] by (simp add: Cons t)
  qed
qed

lemma get_put [simp]:
  "get_child (put_child l (Some t) v) u = (if u = t then v else get_child l u)"
  "get_next (put_child l (Some t) v) u = get_next l u"
  "get_next (put_next l (Some t) v) u = (if u = t then v else get_next l u)"
  "get_child (put_next l (Some t) v) u = get_child l u"
  by (simp_all add: get_child_def get_next_def put_child_def put_next_def)

lemma linked_cong:
  "(\<And>x. x \<in> set (nodes ts) \<Longrightarrow> get_child l' (thr h x) = get_child l (thr h x) \<and> get_next l' (thr h x) = get_next l (thr h x))
   \<Longrightarrow> linked l' h ts = linked l h ts"
  by (induction l h ts rule: linked.induct) auto

lemma linked_heap:
  "(\<And>x. x \<in> set (nodes ts) \<Longrightarrow> tc_threadable (h' ! x) = tc_threadable (h ! x)) \<Longrightarrow> linked l h' ts = linked l h ts"
proof (induction l h ts rule: linked.induct)
  case (1 l h)
  then show ?case by simp
next
  case (2 l h a ks us)
  have "threadable_at h' (first_node ts) = threadable_at h (first_node ts)" if "set (nodes ts) \<subseteq> set (nodes (CT a ks # us))" for ts
    using that "2.prems" by (cases ts) (auto simp: threadable_at_def nodes_Cons)
  from this[of ks] this[of us] have "threadable_at h' (first_node ks) = threadable_at h (first_node ks)"
    "threadable_at h' (first_node us) = threadable_at h (first_node us)" by auto
  moreover have "thr h' a = thr h a" using "2.prems"[of a] by (simp add: thr_def)
  ultimately show ?case using 2 by simp
qed

text \<open>A flush of full trees needs one unit of fuel per container.\<close>

lemma flush_ok:
  "\<lbrakk>length (nodes ts) < n; seg h q p ts None; distinct (nodes ts); full h ts; distinct (map (thr h) (nodes ts))\<rbrakk> \<Longrightarrow>
   \<exists>h' l'. flush n h l p = Some (h', l') \<and> length h' = length h \<and> (\<forall>x. x \<notin> set (nodes ts) \<longrightarrow> h' ! x = h ! x)
     \<and> linked l' h ts
     \<and> (\<forall>u. u \<notin> thr h ` set (nodes ts) \<longrightarrow> get_child l' u = get_child l u \<and> get_next l' u = get_next l u)"
proof (induction n arbitrary: h q p ts l)
  case 0
  then show ?case by simp
next
  case (Suc n)
  show ?case
  proof (cases ts)
    case Nil
    then show ?thesis using Suc.prems by simp
  next
    case (Cons t us)
    obtain a ks where t: "t = CT a ks" by (cases t)
    have s: "p = Some a" "a < length h" "seg h (Some a) (tc_child (h ! a)) ks None" "seg h q (tc_next (h ! a)) us None"
      using Suc.prems(2) by (auto simp: Cons t)
    have d: "distinct (a # nodes ks @ nodes us)" using Suc.prems(3) by (simp add: Cons t)
    have dm: "distinct (thr h a # map (thr h) (nodes ks) @ map (thr h) (nodes us))"
      using Suc.prems(5) by (simp add: Cons t)
    have f: "full h ks" "full h us" and ta: "tc_threadable (h ! a) = Some (thr h a)"
      using Suc.prems(4) by (auto simp: full_def Cons t thr_def)
    note fst = seg_first[OF s(3)] seg_first[OF s(4)]
    define h1 where "h1 = set_parent h a None"
    have o1: "h1 ! x = h ! x" if "x \<noteq> a" for x using that by (simp add: h1_def set_parent_def)
    have l1: "length h1 = length h" by (simp add: h1_def)
    have th1: "tc_threadable (h1 ! x) = tc_threadable (h ! x)" for x by (simp add: h1_def)
    have e1: "thr h1 x = thr h x" "threadable_at h1 q = threadable_at h q" for x q
      by (simp_all add: thr_def th1 threadable_at_def split: option.split)
    have e0: "thr h1 = thr h" by (rule ext) (rule e1)
    define k where "k = put_child l (Some (thr h a)) (threadable_at h (first_node ks))"
    have s1: "seg h1 (Some a) (tc_child (h ! a)) ks None"
      by (rule seg_frame_eq[OF s(3)]) (simp add: l1, rule o1, use d in auto)
    have "full h1 ks" "distinct (nodes ks)" "distinct (map (thr h1) (nodes ks))" "length (nodes ks) < n"
      using f(1) d dm Suc.prems(1) by (simp_all add: full_def th1 e0 Cons t)
    from Suc.IH[OF this(4) s1 this(2) this(1) this(3), of k] obtain h2 l2 where
      h2: "flush n h1 k (tc_child (h ! a)) = Some (h2, l2)" "length h2 = length h1"
        "\<forall>x. x \<notin> set (nodes ks) \<longrightarrow> h2 ! x = h1 ! x" "linked l2 h1 ks"
        "\<forall>u. u \<notin> thr h1 ` set (nodes ks) \<longrightarrow> get_child l2 u = get_child k u \<and> get_next l2 u = get_next k u" by blast
    have a2: "h2 ! a = h1 ! a" using h2(3) d by auto
    define h3 where "h3 = set_child h2 a None"
    define l3 where "l3 = put_next l2 (Some (thr h a)) (threadable_at h (first_node us))"
    have o3: "h3 ! x = h ! x" if "x \<notin> set (a # nodes ks)" for x
      using that h2(3) o1[of x] by (simp add: h3_def set_child_def)
    have len3: "length h3 = length h" by (simp add: h3_def h2(2) l1)
    have s3: "seg h3 q (tc_next (h ! a)) us None"
      by (rule seg_frame_eq[OF s(4)]) (simp add: len3, rule o3, use d in auto)
    have th3: "tc_threadable (h3 ! x) = tc_threadable (h ! x)" if "x \<in> set (nodes us)" for x
    proof -
      have "x \<notin> set (a # nodes ks)" using that d by auto
      then show ?thesis using o3 by simp
    qed
    then have e3: "thr h3 x = thr h x" if "x \<in> set (nodes us)" for x using that by (simp add: thr_def)
    have "full h3 us" "distinct (nodes us)" "length (nodes us) < n"
      using f(2) d Suc.prems(1) th3 by (auto simp: full_def Cons t)
    moreover have "distinct (map (thr h3) (nodes us))"
      using dm e3 by (simp cong: map_cong)
    ultimately obtain h4 l4 where
      h4: "flush n h3 l3 (tc_next (h ! a)) = Some (h4, l4)" "length h4 = length h3"
        "\<forall>x. x \<notin> set (nodes us) \<longrightarrow> h4 ! x = h3 ! x" "linked l4 h3 us"
        "\<forall>u. u \<notin> thr h3 ` set (nodes us) \<longrightarrow> get_child l4 u = get_child l3 u \<and> get_next l4 u = get_next l3 u"
      using Suc.IH[OF _ s3, of l3] by blast
    have a3: "tc_threadable (h3 ! a) = Some (thr h a)" "tc_next (h3 ! a) = tc_next (h ! a)" "tc_child (h1 ! a) = tc_child (h ! a)"
      using a2 ta by (simp_all add: h3_def h1_def)
    have t3: "threadable_at h3 (first_node us) = threadable_at h (first_node us)"
      using th3 by (cases us) (auto simp: threadable_at_def nodes_Cons)
    define h5 where "h5 = set_threadable (set_next h4 a None) a None"
    have run: "flush (Suc n) h l p = Some (h5, l4)"
    proof -
      have E1: "flush n h1 (put_child l (tc_threadable (h1 ! a)) (threadable_at h1 (tc_child (h1 ! a)))) (tc_child (h1 ! a)) = Some (h2, l2)"
        using h2(1) by (simp add: th1 ta a3 e1 k_def fst)
      have E2: "flush n h3 (put_next l2 (tc_threadable (h3 ! a)) (threadable_at h3 (tc_next (h3 ! a)))) (tc_next (h3 ! a)) = Some (h4, l4)"
        using h4(1) by (simp add: a3 t3 l3_def fst)
      have nc: "\<not> (tc_parent (h ! a) \<noteq> None \<and> tc_threadable (h ! a) = None)" using ta by simp
      show ?thesis
        unfolding s(1) flush.simps if_not_P[OF nc] Let_def h1_def[symmetric] E1 option.case prod.case
          h3_def[symmetric] E2 h5_def by (rule refl)
    qed
    have "x \<notin> set (nodes ts) \<Longrightarrow> h5 ! x = h ! x" for x
      using h4(3) o3[of x] by (simp add: Cons t h5_def set_threadable_def set_next_def)
    moreover have "length h5 = length h" by (simp add: h5_def h4(2) len3)
    moreover have out: "get_child l4 u = get_child l u \<and> get_next l4 u = get_next l u"
      if "u \<notin> thr h ` set (nodes ts)" for u
    proof -
      have n: "u \<noteq> thr h a" "u \<notin> thr h ` set (nodes ks)" "u \<notin> thr h ` set (nodes us)" using that by (auto simp: Cons t)
      have "u \<notin> thr h3 ` set (nodes us)" "u \<notin> thr h1 ` set (nodes ks)" using n e3 e1 by (auto simp: image_iff)
      then show ?thesis using n(1) h2(5) h4(5) by (simp add: l3_def k_def)
    qed
    moreover have "linked l4 h ts"
    proof -
      have na: "thr h a \<notin> thr h3 ` set (nodes us)" "thr h a \<notin> thr h1 ` set (nodes ks)"
        using dm e3 e1 by (auto simp: image_iff)
      have "get_child l4 (thr h a) = threadable_at h (first_node ks)" "get_next l4 (thr h a) = threadable_at h (first_node us)"
        using h4(5) h2(5) na by (simp_all add: l3_def k_def)
      moreover have "linked l4 h us" using h4(4) linked_heap[of us h3 h l4] th3 by simp
      moreover have "linked l4 h ks"
      proof -
        have "linked l2 h ks" using h2(4) linked_heap[of ks h1 h l2] th1 by simp
        moreover have "get_child l4 (thr h x) = get_child l2 (thr h x) \<and> get_next l4 (thr h x) = get_next l2 (thr h x)"
          if x: "x \<in> set (nodes ks)" for x
        proof -
          have "thr h x \<notin> thr h3 ` set (nodes us)" "thr h x \<noteq> thr h a" using x dm e3 by (auto simp: image_iff)
          then show ?thesis using h4(5) by (simp add: l3_def)
        qed
        ultimately show ?thesis using linked_cong[of ks l4 h l2] by simp
      qed
      ultimately show ?thesis by (simp add: Cons t)
    qed
    ultimately show ?thesis using run by blast
  qed
qed

subsection \<open>A whole run\<close>

lemma placed_held: "placed h = held h [0..<length h]"
proof -
  have "concat (map (\<lambda>c. case tc_threadable c of None \<Rightarrow> [] | Some t \<Rightarrow> [t]) (map ((!) h) xs)) = held h xs" for xs
    by (induction xs) (auto split: option.split)
  from this[of "[0..<length h]"] show ?thesis by (simp add: placed_def map_nth)
qed

lemma held_full: "full h ts \<Longrightarrow> held h (nodes ts) = map (thr h) (nodes ts)"
proof -
  have "(\<forall>x\<in>set xs. tc_threadable (h ! x) \<noteq> None) \<Longrightarrow> held h xs = map (thr h) xs" for xs
    by (induction xs) (auto simp: thr_def)
  then show "full h ts \<Longrightarrow> held h (nodes ts) = map (thr h) (nodes ts)" by (simp add: full_def)
qed

definition is_real :: "'m threadable \<Rightarrow> bool" where
  "is_real t = (case t of Real m \<Rightarrow> True | DummyFor _ _ \<Rightarrow> False)"

text \<open>Filling in the dummies adds nothing but distinct dummies.\<close>

lemma held_dummies:
  assumes "distinct xs" "distinct (held h xs)" "\<forall>t\<in>set (held h xs). is_real t"
    and "\<And>x. x \<in> set xs \<Longrightarrow> tc_threadable (h' ! x) = tc_threadable (h ! x)
      \<or> tc_threadable (h ! x) = None \<and> (\<exists>f. tc_threadable (h' ! x) = Some (DummyFor x f))"
  shows "filter is_real (held h' xs) = held h xs \<and> distinct (held h' xs)
    \<and> (\<forall>y f. DummyFor y f \<in> set (held h' xs) \<longrightarrow> y \<in> set xs)"
  using assms
proof (induction xs)
  case Nil
  then show ?case by simp
next
  case (Cons x xs)
  have IH: "filter is_real (held h' xs) = held h xs" "distinct (held h' xs)"
    "\<forall>y f. DummyFor y f \<in> set (held h' xs) \<longrightarrow> y \<in> set xs"
    using Cons.IH Cons.prems by (auto split: option.splits)
  have mem: "t \<in> set (held h xs)" if "t \<in> set (held h' xs)" "is_real t" for t
    unfolding IH(1)[symmetric] using that by simp
  show ?case
  proof (cases "tc_threadable (h ! x)")
    case None
    then consider "tc_threadable (h' ! x) = None" | f where "tc_threadable (h' ! x) = Some (DummyFor x f)"
      using Cons.prems(4)[of x] by auto
    then show ?thesis
    proof cases
      case 1
      then show ?thesis using IH None by auto
    next
      case 2
      then have "\<not> is_real (DummyFor x f)" "DummyFor x f \<notin> set (held h' xs)"
        using IH(3) Cons.prems(1) by (auto simp: is_real_def)
      then show ?thesis using IH None 2 by auto
    qed
  next
    case (Some t)
    then have t: "tc_threadable (h' ! x) = Some t" "is_real t" "t \<notin> set (held h xs)"
      using Cons.prems(2,3) Cons.prems(4)[of x] by auto
    have "t \<noteq> DummyFor y f" for y f using t(2) by (auto simp: is_real_def)
    then show ?thesis using IH t Some mem[of t] by auto
  qed
qed

lemma prune_root_state:
  assumes "prune_post h None root ts h' us" "root < length h" "root \<notin> set (nodes ts)"
    and "tc_next (h ! root) = None" "tc_parent (h ! root) = None" "tc_threadable (h ! root) = None"
  shows "root_state h' root us"
proof -
  have same: "same_outside (insert root (set (nodes ts))) h h'" using assms(1) by (simp add: prune_post_def)
  show ?thesis using assms same_outsideD(1)[OF same] same_outsideD(3)[OF same, of root]
    by (auto simp: prune_post_def root_state_def)
qed

lemma root_state_size:
  assumes "root_state h root rs"
  shows "length (nodes rs) < length h" "length rs < length h"
proof -
  have d: "distinct (root # nodes rs)" using assms by (simp add: root_state_def)
  have "set (root # nodes rs) \<subseteq> {..<length h}" using assms seg_bound[of h] by (auto simp: root_state_def)
  from card_mono[OF _ this] distinct_card[OF d] show "length (nodes rs) < length h" by simp
  then show "length rs < length h" using nodes_length[of rs] by simp
qed

lemma flush_root:
  assumes R: "seg h None (tc_child (h ! root)) ts None" "distinct (root # nodes ts)" "root < length h"
      "tc_next (h ! root) = None" "tc_parent (h ! root) = None" "tc_threadable (h ! root) = None"
    and f: "full h ts" "distinct (map (thr h) (nodes ts))" and n: "length (nodes ts) + 2 \<le> fuel"
  shows "\<exists>h' l. flush fuel h no_links (Some root) = Some (h', l) \<and> linked l h ts"
proof -
  obtain n where n: "fuel = Suc n" "length (nodes ts) < n" using n by (cases fuel) auto
  define h1 where "h1 = set_parent h root None"
  have o1: "h1 ! x = h ! x" if "x \<noteq> root" for x using that by (simp add: h1_def set_parent_def)
  have l1: "length h1 = length h" by (simp add: h1_def)
  have th1: "tc_threadable (h1 ! x) = tc_threadable (h ! x)" for x by (simp add: h1_def)
  have e0: "thr h1 = thr h" by (rule ext) (simp add: thr_def th1)
  have s1: "seg h1 None (tc_child (h ! root)) ts None"
    by (rule seg_frame_eq[OF R(1)]) (simp add: l1, rule o1, use R(2) in auto)
  have "full h1 ts" using f(1) by (simp add: full_def th1)
  then obtain h2 l where h2: "flush n h1 no_links (tc_child (h ! root)) = Some (h2, l)" "linked l h1 ts"
    "\<forall>x. x \<notin> set (nodes ts) \<longrightarrow> h2 ! x = h1 ! x"
    using flush_ok[OF n(2) s1, of no_links] R(2) f(2) e0 by auto
  have r: "h2 ! root = h1 ! root" using h2(3) R(2) by auto
  have c1: "tc_child (h1 ! root) = tc_child (h ! root)" "tc_next (h1 ! root) = None" "tc_threadable (h1 ! root) = None"
    using R by (simp_all add: h1_def)
  obtain n' where n': "n = Suc n'" using n(2) by (cases n) auto
  have nc: "\<not> (tc_parent (h ! root) \<noteq> None \<and> tc_threadable (h ! root) = None)" using R(5) by simp
  have "\<exists>h'. flush fuel h no_links (Some root) = Some (h', l)"
    unfolding n(1) flush.simps if_not_P[OF nc] Let_def h1_def[symmetric]
    using h2(1) r c1 n' by (simp add: put_child_def put_next_def)
  moreover have "linked l h ts" using h2(2) linked_heap[of ts h1 h l] th1 by simp
  ultimately show ?thesis by blast
qed

lemma threadRoot_ok:
  assumes f: "forest (th_heap th) kids" and o: "distinct order" "set order = {..<length (th_heap th)}"
    and d: "distinct (placed (th_heap th))" "\<forall>t\<in>set (placed (th_heap th)). is_real t"
    and fuel: "2 * length (th_heap th) + 2 \<le> fuel"
  shows "\<exists>t l tree. threadRoot fuel ops order th = Inr (t, l) \<and> read_links fuel l t = Some tree
    \<and> mset (filter is_real (jt_nodes tree)) = mset (placed (th_heap th))"
proof -
  let ?h = "th_heap th" let ?root = "length ?h"
  from findRootSet_trees[OF f o] obtain h1 ts where
    h1: "findRootSet order ?h = Inr (h1, ?root)" "length h1 = Suc ?root" "seg h1 None (tc_child (h1 ! ?root)) ts None"
      "distinct (nodes ts)" "set (nodes ts) = {..<?root}" "\<forall>x<?root. tc_threadable (h1 ! x) = tc_threadable (?h ! x)"
    and r1: "tc_next (h1 ! ?root) = None" "tc_parent (h1 ! ?root) = None" "tc_threadable (h1 ! ?root) = None"
    by (elim exE conjE)
  have lt: "length (nodes ts) = ?root" using distinct_card[OF h1(4)] h1(5) by simp
  have held1: "mset (held h1 (nodes ts)) = mset (placed ?h)"
  proof -
    have "held h1 (nodes ts) = held ?h (nodes ts)" using h1(5,6) by (intro held_cong) auto
    moreover have "mset (nodes ts) = mset [0..<?root]"
      using set_eq_iff_mset_eq_distinct[OF h1(4) distinct_upt[of 0 ?root]] h1(5) by (simp add: lessThan_atLeast0)
    ultimately show ?thesis using held_perm[of "nodes ts" "[0..<?root]" ?h] by (simp add: placed_held)
  qed
  have rl: "?root < length h1" "?root \<notin> set (nodes ts)" using h1 by auto
  have "distinct (?root # nodes ts)" "length (nodes ts) < fuel" using h1(4) rl lt fuel by auto
  from pruneEmptyContainers_post[OF h1(3) this(1) rl(1) this(2)] obtain h2 us where
    h2: "pruneEmptyContainers fuel h1 ?root = Some h2" "prune_post h1 None ?root ts h2 us" by blast
  have R2: "root_state h2 ?root us" by (rule prune_root_state[OF h2(2) rl r1])
  have l2: "length h2 = Suc ?root" using h2(2) h1(2) by (auto simp: prune_post_def dest: same_outsideD(1))
  have held2: "mset (held h2 (nodes us)) = mset (held h1 (nodes ts))"
  proof -
    have "held h2 (nodes us) = held h1 (nodes us)"
      using h2(2) by (intro held_cong) (auto simp: prune_post_def dest: same_outsideD(3))
    then show ?thesis using held_subset[of "nodes us" "nodes ts" h1] h2(2) h1(4) by (simp add: prune_post_def)
  qed
  have s2: "seg h2 None (tc_child (h2 ! ?root)) us None" "distinct (?root # nodes us)" "?root < length h2"
    using R2 by (auto simp: root_state_def)
  have "2 * length (nodes us) + 2 \<le> fuel" using root_state_size(1)[OF R2] l2 fuel by simp
  from reverse_children_seg(1)[OF this s2] obtain h3 where
    h3: "reverse_children fuel h2 ?root = Some h3" "seg h3 None (tc_child (h3 ! ?root)) (rev (map mirror us)) None"
      "same_outside (insert ?root (set (nodes us))) h2 h3" "tc_parent (h3 ! ?root) = tc_parent (h2 ! ?root)"
      "tc_next (h3 ! ?root) = tc_next (h2 ! ?root)" by blast
  let ?vs = "rev (map mirror us)"
  have R3: "root_state h3 ?root ?vs"
    using h3 R2 same_outsideD(1)[OF h3(3)] same_outsideD(3)[OF h3(3), of ?root] tidy_same[OF h3(3)]
    by (auto simp: root_state_def mirror_kids tidy_mirror)
  have held3: "mset (held h3 (nodes ?vs)) = mset (held h2 (nodes us))"
  proof -
    have "mset (nodes ?vs) = mset (nodes us)" by (simp add: nodes_rev mset_nodes_mirror)
    then have "mset (held h3 (nodes ?vs)) = mset (held h3 (nodes us))" by (rule held_perm)
    moreover have "held h3 (nodes us) = held h2 (nodes us)" by (rule held_cong) (rule same_outsideD(3)[OF h3(3)])
    ultimately show ?thesis by simp
  qed
  from gatherSubjects_ok[OF R3] obtain h4 ws where h4: "gatherSubjects ops h3 ?root = Some h4" "root_state h4 ?root ws"
    "mset (held h4 (nodes ws)) = mset (held h3 (nodes ?vs))" "length h4 \<le> length h3 + length ?vs" by blast
  have l4: "length h4 \<le> 2 * ?root + 1"
    using h4(4) same_outsideD(1)[OF h3(3)] l2 root_state_size(2)[OF R3] by simp
  have s4: "seg h4 None (tc_child (h4 ! ?root)) ws None" "distinct (?root # nodes ws)" "?root < length h4"
    "\<forall>t\<in>set ws. tidy h4 None t" "tc_next (h4 ! ?root) = None" "tc_parent (h4 ! ?root) = None" "tc_threadable (h4 ! ?root) = None"
    using h4(2) by (auto simp: root_state_def)
  have "length ws < jwz_fuel h4" using root_state_size(2)[OF h4(2)] by (simp add: jwz_fuel_def)
  from dummy_roots_ok[OF s4(1,4) _ this] s4(2) obtain h5 where
    h5: "dummy_roots (jwz_fuel h4) h4 (tc_child (h4 ! ?root)) = Some h5" "length h5 = length h4"
    and fld: "\<And>x. tc_parent (h5 ! x) = tc_parent (h4 ! x) \<and> tc_child (h5 ! x) = tc_child (h4 ! x) \<and> tc_next (h5 ! x) = tc_next (h4 ! x)
      \<and> tc_threadable (h5 ! x) = (if x \<in> roots ws \<and> tc_threadable (h4 ! x) = None
           then Some (DummyFor x (tc_forID (h4 ! x))) else tc_threadable (h4 ! x))" by auto
  have s5: "seg h5 None (tc_child (h5 ! ?root)) ws None"
    using seg_frame[OF s4(1), of h5] h5(2) fld by simp
  have rw: "?root \<notin> roots ws" using s4(2) roots_nodes[of ws] by auto
  have full5: "full h5 ws"
  proof -
    have "tc_threadable (h5 ! x) \<noteq> None" if x: "x \<in> set (nodes ws)" for x
    proof -
      obtain t where t: "t \<in> set ws" "x \<in> set (tree_nodes t)" using x unfolding nodes_def by auto
      then have "x = ct_node t \<or> x \<in> set (nodes (ct_kids t))" by (simp add: tree_nodes_kids)
      then show ?thesis using s4(4) t(1) fld[of x] by (auto simp: tidy_def full_def roots_def)
    qed
    then show ?thesis by (simp add: full_def)
  qed
  have held4: "mset (held h4 (nodes ws)) = mset (placed ?h)" using h4(3) held3 held2 held1 by simp
  then have "distinct (held h4 (nodes ws))" "\<forall>t\<in>set (held h4 (nodes ws)). is_real t"
    using d mset_eq_imp_distinct_iff[OF held4] mset_eq_setD[OF held4] by simp_all
  from held_dummies[OF _ this, of h5] s4(2) fld have
    hd: "filter is_real (held h5 (nodes ws)) = held h4 (nodes ws)" "distinct (held h5 (nodes ws))" by auto
  have dist: "distinct (map (thr h5) (nodes ws))" using hd(2) held_full[OF full5] by simp
  have sz: "length (nodes ws) + 2 \<le> fuel" using root_state_size(1)[OF h4(2)] l4 fuel by simp
  have r5: "tc_next (h5 ! ?root) = None" "tc_parent (h5 ! ?root) = None" "tc_threadable (h5 ! ?root) = None"
    using fld[of ?root] s4(5-7) rw by auto
  from flush_root[OF s5 s4(2) _ r5 full5 dist sz] s4(3) h5(2) obtain h6 l where
    h6: "flush fuel h5 no_links (Some ?root) = Some (h6, l)" "linked l h5 ws" by auto
  let ?t = "threadable_at h5 (tc_child (h5 ! ?root))"
  have run: "threadRoot fuel ops order th = Inr (?t, l)"
    using h1(1) h2(1) h3(1) h4(1) s4(5) h5(1) h6(1) by (simp add: threadRoot_def and_then_def stuck_def Let_def)
  have "length (nodes ws) < fuel" using sz by simp
  then have read: "read_links fuel l ?t = Some (message_tree h5 ws)"
    using read_links_linked[OF _ full5 h6(2)] seg_first[OF s5] by simp
  have "mset (filter is_real (jt_nodes (message_tree h5 ws))) = mset (filter is_real (map (thr h5) (nodes ws)))"
    using message_tree_nodes[of h5 ws] by (simp only: mset_filter)
  also have "\<dots> = mset (placed ?h)" using hd(1) held4 held_full[OF full5] by simp
  finally show ?thesis using run read by blast
qed

subsection \<open>Properties\<close>

text \<open>A possible walk over the id table: each of its containers once, in some order.\<close>

definition walks_table :: "('m threader \<Rightarrow> nat list) \<Rightarrow> bool" where
  "walks_table order \<longleftrightarrow>
     (\<forall>th. ran (th_idTable th) = {..<length (th_heap th)} \<longrightarrow>
        distinct (order th) \<and> set (order th) = ran (th_idTable th))"

lemma walks_table_upt: "walks_table (\<lambda>th. [0..<length (th_heap th)])"
  by (simp add: walks_table_def lessThan_atLeast0)

lemma ThreadSlice_run:
  fixes ms :: "'a list"
  assumes ids: "\<forall>m\<in>set ms. ids_ok ops m" and d: "distinct (filter (\<lambda>m. \<not> op_IsDummy ops m) ms)"
    and w: "walks_table order"
  shows "\<exists>enough. \<forall>fuel\<ge>enough. \<exists>t l tree. ThreadSlice fuel ops order ms = Inr (t, l)
    \<and> read_links fuel l t = Some tree
    \<and> mset (filter is_real (jt_nodes tree)) = mset (map Real (filter (\<lambda>m. \<not> op_IsDummy ops m) ms))"
proof (cases "ms = []")
  case True
  have "read_links fuel no_links (None :: 'a threadable option) = Some JNil" if "1 \<le> fuel" for fuel
    using that by (cases fuel) auto
  then have "\<forall>fuel\<ge>1. read_links fuel no_links (None :: 'a threadable option) = Some JNil" by blast
  then show ?thesis using True by (intro exI[of _ 1]) (simp add: ThreadSlice_def)
next
  case False
  from build_all_inv[OF NewThreader_inv ids] obtain th xs where
    b: "build_all ops ms NewThreader = Inr th" "build_inv th xs"
    "mset xs = mset (filter (\<lambda>m. \<not> op_IsDummy ops m) ms)" by auto
  obtain kids where f: "forest (th_heap th) kids" and t: "table_ok th"
    and p: "mset (placed (th_heap th)) = mset (map Real xs)" using b(2) by (auto simp: build_inv_def)
  have r: "ran (th_idTable th) = {..<length (th_heap th)}" using t by (simp add: table_ok_def)
  then have o: "distinct (order th)" "set (order th) = {..<length (th_heap th)}"
    using w by (auto simp: walks_table_def)
  have "distinct xs" using mset_eq_imp_distinct_iff[OF b(3)] d by simp
  then have "distinct (map Real xs)" by (simp add: distinct_map inj_on_def)
  then have "distinct (placed (th_heap th))" using mset_eq_imp_distinct_iff[OF p] by simp
  moreover have "\<forall>t\<in>set (placed (th_heap th)). is_real t" using mset_eq_setD[OF p] by (auto simp: is_real_def)
  ultimately have run: "\<exists>t l tree. threadRoot fuel ops (order th) th = Inr (t, l) \<and> read_links fuel l t = Some tree
    \<and> mset (filter is_real (jt_nodes tree)) = mset (placed (th_heap th))"
    if "2 * length (th_heap th) + 2 \<le> fuel" for fuel
    using threadRoot_ok[OF f o _ _ that] by blast
  have "mset (placed (th_heap th)) = mset (map Real (filter (\<lambda>m. \<not> op_IsDummy ops m) ms))"
    unfolding p mset_map b(3) by (rule refl)
  with run show ?thesis using False b(1)
    by (intro exI[of _ "2 * length (th_heap th) + 2"]) (simp add: ThreadSlice_def and_then_def)
qed

text \<open>
  C1. Threading terminates and loses nothing.  For any list of different messages, with any
  references (circular, contradictory or missing) that do not use the generated ids, and for
  any order in which Go walks the id table: given enough fuel, \<open>ThreadSlice\<close> returns
  without an error (it neither runs on nor dereferences a nil pointer while pruning,
  reversing, gathering by subject, filling in dummies and flushing), and following the child
  and next links it wrote reads a finite tree that holds every message exactly once, besides
  dummies.
\<close>

theorem ThreadSlice_returns:
  assumes "\<forall>m\<in>set ms. ids_ok ops m" "distinct (filter (\<lambda>m. \<not> op_IsDummy ops m) ms)" "walks_table order"
  shows "\<exists>enough. \<forall>fuel\<ge>enough. \<exists>t l tree. ThreadSlice fuel ops order ms = Inr (t, l)
    \<and> read_links fuel l t = Some tree
    \<and> mset (filter is_real (jt_nodes tree)) = mset (map Real (filter (\<lambda>m. \<not> op_IsDummy ops m) ms))"
  using assms by (rule ThreadSlice_run)

lemma ThreadSlice_returns_witness:
  "\<exists>fuel t l tree. ThreadSlice fuel sample_threadables (\<lambda>th. [0..<length (th_heap th)]) [1, 2, 3] = Inr (t, l)
    \<and> read_links fuel l t = Some tree \<and> mset (filter is_real (jt_nodes tree)) = {#Real 1, Real 2, Real 3#}"
proof -
  have ids: "\<forall>m\<in>set [1, 2, 3]. ids_ok sample_threadables m" by (simp add: sample_ids_ok)
  have f: "filter (\<lambda>m. \<not> op_IsDummy sample_threadables m) [1, 2, 3] = [1, 2, 3]"
    by (simp add: sample_threadables_def)
  have d: "distinct [1, 2, 3 :: nat]" by simp
  obtain enough where "\<forall>fuel\<ge>enough. \<exists>t l tree.
      ThreadSlice fuel sample_threadables (\<lambda>th. [0..<length (th_heap th)]) [1, 2, 3] = Inr (t, l)
    \<and> read_links fuel l t = Some tree \<and> mset (filter is_real (jt_nodes tree)) = mset (map Real [1, 2, 3])"
    using ThreadSlice_returns[OF ids _ walks_table_upt, unfolded f, OF d] by (elim exE)
  from this[THEN spec, of enough] show ?thesis by (intro exI[of _ enough]) simp
qed

lemma is_real_dummy: "is_real t \<longleftrightarrow> \<not> is_dummy t"
  by (simp add: is_real_def is_dummy_def split: threadable.split)

lemma fetched_distinct:
  assumes "blocks_ok b" "distinct uids"
  shows "distinct (fetched b uids)"
proof -
  have "distinct (map mi_Uid (fetched b uids))" unfolding fetched_uids[OF assms(1)] using assms(2) by simp
  then show ?thesis by (rule distinct_map[THEN iffD1, THEN conjunct1])
qed

lemma forest_uids_nodes: "forest_uids ts = concat (map (\<lambda>t. map th_Uid (thread_nodes t)) ts)"
  by (simp add: forest_uids_def map_concat comp_def)

text \<open>The threads hold every UID, whichever way the blocks came to be stored under their UIDs.\<close>

lemma builder_Threads_forest:
  assumes ok: "blocks_ok b" and u: "distinct uids" "[] \<notin> set uids"
    and ids: "\<forall>m\<in>set (fetched b uids). ids_ok (msg_threadable msgIDList base bs) m"
    and w: "walks_table order" and srt: "\<And>key ts. mset (srt key ts) = mset ts"
  shows "\<exists>enough. \<forall>fuel\<ge>enough. \<exists>ts b'.
    builder_Threads fuel (msg_threadable msgIDList base bs) order srt uids inverted inorder b = Some (ts, b')
    \<and> mset (filter (\<lambda>u. u \<noteq> []) (forest_uids ts)) = mset uids"
proof -
  let ?ops = "msg_threadable msgIDList base bs" and ?ms = "fetched b uids"
  have nd: "filter (\<lambda>m. \<not> op_IsDummy ?ops m) ?ms = ?ms" by (simp add: msg_threadable_def)
  then have "distinct (filter (\<lambda>m. \<not> op_IsDummy ?ops m) ?ms)" using fetched_distinct[OF ok u(1)] by simp
  from ThreadSlice_run[OF ids this w] obtain enough where run: "\<forall>fuel\<ge>enough. \<exists>t l tree.
      ThreadSlice fuel ?ops order ?ms = Inr (t, l) \<and> read_links fuel l t = Some tree
    \<and> mset (filter is_real (jt_nodes tree)) = mset (map Real ?ms)" unfolding nd by blast
  have built: "mset (filter (\<lambda>u. u \<noteq> []) (forest_uids (buildAercThreads b tree uids inorder))) = mset uids"
    if tree: "mset (filter is_real (jt_nodes tree)) = mset (map Real ?ms)" for tree
  proof (cases "tree = JNil")
    case True
    have "filter (\<lambda>u. u \<noteq> []) uids = uids" using u(2) by (induction uids) auto
    then show ?thesis using True by (simp add: buildAercThreads_def forest_uids_new)
  next
    case False
    have "mset (forest_uids (buildAercThreads b tree uids inorder))
        = mset uids + replicate_mset (length (filter is_dummy (jt_nodes tree))) []"
      using tree by (intro buildAercThreads_mset[OF _ False ok]) (simp add: is_real_dummy)
    moreover have "filter_mset (\<lambda>u. u \<noteq> []) (mset uids) = mset uids" using u(2) by (auto simp: filter_mset_eq_conv)
    moreover have "filter_mset (\<lambda>u. u \<noteq> []) (replicate_mset n []) = {#}" for n by (induction n) auto
    ultimately show ?thesis by simp
  qed
  have "\<exists>ts b'. builder_Threads fuel ?ops order srt uids inverted inorder b = Some (ts, b')
      \<and> mset (filter (\<lambda>u. u \<noteq> []) (forest_uids ts)) = mset uids" if fuel: "enough \<le> fuel" for fuel
  proof -
    from run fuel obtain t l tree where r: "ThreadSlice fuel ?ops order ?ms = Inr (t, l)" "read_links fuel l t = Some tree"
      "mset (filter is_real (jt_nodes tree)) = mset (map Real ?ms)" by blast
    have g: "generateStructure fuel ?ops order b uids = Some tree" using r(1,2) by (simp add: generateStructure_def)
    let ?ts = "SortThreadsBy srt (buildAercThreads b tree uids inorder) uids"
    from RebuildUids_nodes[of ?ts inverted b] obtain ts b' where
      v: "RebuildUids ?ts inverted b = Some (ts, b')"
        "map (\<lambda>t. map th_Uid (thread_nodes t)) ts = map (\<lambda>t. map th_Uid (thread_nodes t)) ?ts" by blast
    have "forest_uids ts = forest_uids ?ts" unfolding forest_uids_nodes v(2) by (rule refl)
    moreover have "mset (forest_uids ?ts) = mset (forest_uids (buildAercThreads b tree uids inorder))"
      by (rule mset_forest_uids_cong) (simp add: SortThreadsBy_def srt)
    ultimately have "mset (filter (\<lambda>u. u \<noteq> []) (forest_uids ts)) = mset uids"
      using built[OF r(3)] by (metis mset_filter)
    then show ?thesis using g v(1) by (simp add: builder_Threads_def)
  qed
  then show ?thesis by blast
qed

text \<open>
  C2. The thread view of a folder is complete.  For the messages kept by \<open>Update\<close>, any
  different UIDs, whatever the headers of the messages say, with any order of the map walk
  and any sort that permutes: given enough fuel, \<open>Threads\<close> returns threads that hold every
  UID asked for exactly once, fetched or not; the only other nodes are dummies, which have no
  UID.
\<close>

theorem builder_Threads_complete:
  assumes b: "b = foldr builder_Update msgs (NewThreadBuilder rv bs)" and u: "distinct uids" "[] \<notin> set uids"
    and ids: "\<forall>m\<in>set (fetched b uids). ids_ok (msg_threadable msgIDList base bs) m"
    and w: "walks_table order" and srt: "\<And>key ts. mset (srt key ts) = mset ts"
  shows "\<exists>enough. \<forall>fuel\<ge>enough. \<exists>ts b'.
    builder_Threads fuel (msg_threadable msgIDList base bs) order srt uids inverted inorder b = Some (ts, b')
    \<and> mset (filter (\<lambda>u. u \<noteq> []) (forest_uids ts)) = mset uids"
  unfolding b by (rule builder_Threads_forest[OF blocks_ok_updates u ids[unfolded b] w srt])

lemma builder_Threads_complete_witness:
  "\<exists>fuel ts b'. builder_Threads fuel (msg_threadable (\<lambda>_ _. []) (\<lambda>s. (s, False)) False) (\<lambda>th. [0..<length (th_heap th)])
      (\<lambda>key ts. ts) [''1'', ''2'', ''3''] False True
      (foldr builder_Update [Some (sample_message ''1''), Some (sample_message ''2'')] (NewThreadBuilder False False))
      = Some (ts, b')
    \<and> mset (filter (\<lambda>u. u \<noteq> []) (forest_uids ts)) = {#''1'', ''2'', ''3''#}"
proof -
  define b where "b = foldr builder_Update [Some (sample_message ''1''), Some (sample_message ''2'')] (NewThreadBuilder False False)"
  have f: "fetched b [''1'', ''2'', ''3''] = [sample_message ''1'', sample_message ''2'']"
    by (simp add: b_def fetched_def builder_Update_def NewThreadBuilder_def mi_MsgId_def sample_message_def map_filter_simps)
  have ids: "\<forall>m\<in>set (fetched b [''1'', ''2'', ''3'']). ids_ok (msg_threadable (\<lambda>_ _. []) (\<lambda>s. (s, False)) False) m"
    unfolding f by (simp add: ids_ok_def msg_threadable_def msg_id_def msg_references_def mi_MsgId_def mi_References_def
        mi_InReplyTo_def sample_message_def bogus_id_def)
  have "distinct [''1'', ''2'', ''3'']" "[] \<notin> set [''1'', ''2'', ''3'']" by simp_all
  from builder_Threads_complete[OF b_def this ids walks_table_upt, of "\<lambda>key ts. ts" False True, OF refl] obtain enough where
    "\<forall>fuel\<ge>enough. \<exists>ts b'.
      builder_Threads fuel (msg_threadable (\<lambda>_ _. []) (\<lambda>s. (s, False)) False) (\<lambda>th. [0..<length (th_heap th)])
        (\<lambda>key ts. ts) [''1'', ''2'', ''3''] False True b = Some (ts, b')
      \<and> mset (filter (\<lambda>u. u \<noteq> []) (forest_uids ts)) = mset [''1'', ''2'', ''3'']" by (elim exE)
  from this[THEN spec, of enough] show ?thesis unfolding b_def by (intro exI[of _ enough]) simp
qed

text \<open>
  Two messages: the first refers to \<open>x\<close>, \<open>e\<close> and \<open>m\<close>; the second is \<open>m\<close> and refers to \<open>x\<close> only.
\<close>

definition disagreeing :: "nat threadable_ops" where
  "disagreeing = \<lparr>
     op_MessageThreadID = (\<lambda>k. if k = 1 then ''a'' else ''m''),
     op_MessageThreadReferences = (\<lambda>k. if k = 1 then [''x'', ''e'', ''m''] else [''x'']),
     op_SimplifiedSubject = (\<lambda>_. []), op_SubjectIsReply = (\<lambda>_. False), op_IsDummy = (\<lambda>_. False)\<rparr>"

text \<open>
  Pruning may leave a dummy with a single child.  When the references of two messages
  disagree, the unseen message \<open>x\<close> keeps an empty container with two kids until its empty kid
  is removed; by then it is too late to promote the other one, so the thread of \<open>m\<close> and its
  reply is shown below a dummy although \<open>x\<close> has no other child.
\<close>

lemma prune_single_child_dummy:
  "\<exists>l. ThreadSlice 20 disagreeing (\<lambda>th. [0..<length (th_heap th)]) [1, 2] = Inr (Some (DummyFor 1 ''x''), l)
    \<and> read_links 20 l (Some (DummyFor 1 ''x'')) = Some
        (JNode (DummyFor 1 ''x'') (JNode (Real 2) (JNode (Real 1) JNil JNil) JNil) JNil)"
proof -
  have "(case ThreadSlice 20 disagreeing (\<lambda>th. [0..<length (th_heap th)]) [1, 2] of
      Inr (t, l) \<Rightarrow> t = Some (DummyFor 1 ''x'') \<and> read_links 20 l (Some (DummyFor 1 ''x'')) = Some
        (JNode (DummyFor 1 ''x'') (JNode (Real 2) (JNode (Real 1) JNil JNil) JNil) JNil)
    | Inl e \<Rightarrow> False)"
    by code_simp
  then show ?thesis by (auto split: sum.splits)
qed

end
