(* ===== verification/Sorting.thy ===== *)
theory Sorting
  imports Threads Models
begin

text \<open>
  \<open>lib/sort/sort.go\<close>, \<open>worker/lib/sort.go\<close> and the types of \<open>worker/types/sort.go\<close>: reading
  sort criteria, sorting the messages of a folder by them, and ordering UIDs by another list.
  \<open>slices.SortStableFunc\<close> is an insertion sort; the two calls of the unstable
  \<open>slices.SortFunc\<close> compare UIDs or positions, which do not tie when no UID is repeated.
\<close>

datatype sort_field = SortArrival | SortCc | SortDate | SortFrom | SortRead | SortSize | SortSubject
  | SortTo | SortFlagged

record sort_criterion =
  sc_Field :: sort_field
  sc_Reverse :: bool

datatype sort_error = BadSortField string | ReverseWithoutField

definition parseSortField :: "string \<Rightarrow> sort_error + sort_field" where
  "parseSortField arg =
     (let a = to_lower arg
      in if a = ''arrival'' then Inr SortArrival
         else if a = ''cc'' then Inr SortCc
         else if a = ''date'' then Inr SortDate
         else if a = ''from'' then Inr SortFrom
         else if a = ''read'' then Inr SortRead
         else if a = ''size'' then Inr SortSize
         else if a = ''subject'' then Inr SortSubject
         else if a = ''to'' then Inr SortTo
         else if a = ''flagged'' then Inr SortFlagged
         else Inl (BadSortField arg))"

fun criteria_loop :: "string list \<Rightarrow> bool \<Rightarrow> sort_criterion list \<Rightarrow> sort_error + sort_criterion list" where
  "criteria_loop [] rv acc = (if rv then Inl ReverseWithoutField else Inr acc)"
| "criteria_loop (arg # args) rv acc =
     (if arg = ''-r'' then criteria_loop args True acc
      else (case parseSortField arg of
              Inl e \<Rightarrow> Inl e
            | Inr field \<Rightarrow> criteria_loop args False (acc @ [\<lparr>sc_Field = field, sc_Reverse = rv\<rparr>])))"

definition GetSortCriteria :: "string list \<Rightarrow> sort_error + sort_criterion list" where
  "GetSortCriteria args = criteria_loop args False []"

subsection \<open>Stable sorting\<close>

fun insert_by :: "('a \<Rightarrow> 'a \<Rightarrow> int) \<Rightarrow> 'a \<Rightarrow> 'a list \<Rightarrow> 'a list" where
  "insert_by cmp x [] = [x]"
| "insert_by cmp x (y # ys) = (if cmp x y \<le> 0 then x # y # ys else y # insert_by cmp x ys)"

definition sort_stable :: "('a \<Rightarrow> 'a \<Rightarrow> int) \<Rightarrow> 'a list \<Rightarrow> 'a list" where
  "sort_stable cmp xs = foldr (insert_by cmp) xs []"

text \<open>\<open>cmp.Compare\<close>\<close>

definition go_compare :: "'k::linorder \<Rightarrow> 'k \<Rightarrow> int" where
  "go_compare a b = (if a < b then -1 else if a > b then 1 else 0)"

definition sortSlice :: "sort_criterion \<Rightarrow> ('a \<Rightarrow> 'a \<Rightarrow> int) \<Rightarrow> 'a list \<Rightarrow> 'a list" where
  "sortSlice criterion compare xs =
     (if sc_Reverse criterion then sort_stable (\<lambda>a b. compare b a) xs else sort_stable compare xs)"

definition SortBy :: "uid list \<Rightarrow> uid list \<Rightarrow> uid list" where
  "SortBy toSort sortBy =
     (let uidMap = index_map 0 sortBy Map.empty
      in sort_stable (\<lambda>a b. go_compare (map_int uidMap a) (map_int uidMap b)) toSort)"

definition SortStringBy :: "string list \<Rightarrow> string list \<Rightarrow> string list" where
  "SortStringBy s order =
     (let m = index_map 0 order Map.empty
      in sort_stable (\<lambda>a b. go_compare (map_int m a) (map_int m b)) s)"

subsection \<open>Sorting messages\<close>

definition address_name :: "address \<Rightarrow> string" where
  "address_name a = (if addr_Name a \<noteq> [] then addr_Name a else addr_Address a)"

definition compare_addresses :: "address list \<Rightarrow> address list \<Rightarrow> int" where
  "compare_addresses as bs =
     (case (as, bs) of
        (a # _, b # _) \<Rightarrow> go_compare (address_name a) (address_name b)
      | (_ # _, []) \<Rightarrow> -1
      | ([], _ # _) \<Rightarrow> 1
      | ([], []) \<Rightarrow> 0)"

definition compare_flags :: "bool \<Rightarrow> bool \<Rightarrow> int" where
  "compare_flags a b = (if a = b then 0 else if a then -1 else 1)"

text \<open>\<open>sortFlags\<close> and \<open>sortStrings\<close> sort the values beside the messages.\<close>

definition sort_values :: "sort_criterion \<Rightarrow> ('m \<Rightarrow> 'v) \<Rightarrow> ('v \<Rightarrow> 'v \<Rightarrow> int) \<Rightarrow> 'm list \<Rightarrow> 'm list" where
  "sort_values criterion val compare xs =
     map snd (sortSlice criterion (\<lambda>a b. compare (fst a) (fst b)) (map (\<lambda>m. (val m, m)) xs))"

definition env_of :: "'h message_info \<Rightarrow> envelope" where
  "env_of m = the (mi_Envelope m)"

definition subject_key :: "'h message_info \<Rightarrow> string" where
  "subject_key m =
     trim_prefix (trim_prefix (to_lower (env_Subject (env_of m))) ''re: '') ''fwd: ''"

text \<open>
  Sorting by one criterion.  A message without an envelope is dereferenced, a panic
  (\<open>None\<close>), by the fields that read it, as soon as it is compared with another, or, for the
  subject, looked at.
\<close>

definition reads_envelope :: "sort_field \<Rightarrow> bool" where
  "reads_envelope f = (f \<in> {SortCc, SortDate, SortFrom, SortSubject, SortTo})"

definition sort_criterion_step ::
  "sort_criterion \<Rightarrow> 'h message_info list \<Rightarrow> 'h message_info list option" where
  "sort_criterion_step c ms =
     (if reads_envelope (sc_Field c) \<and> list_ex (\<lambda>m. mi_Envelope m = None) ms
         \<and> (length ms > 1 \<or> sc_Field c = SortSubject) then None
      else Some (case sc_Field c of
          SortArrival \<Rightarrow> sortSlice c (\<lambda>a b. go_compare (mi_InternalDate a) (mi_InternalDate b)) ms
        | SortCc \<Rightarrow> sortSlice c (\<lambda>a b. compare_addresses (env_Cc (env_of a)) (env_Cc (env_of b))) ms
        | SortDate \<Rightarrow> sortSlice c (\<lambda>a b. go_compare (env_Date (env_of a)) (env_Date (env_of b))) ms
        | SortFrom \<Rightarrow> sortSlice c (\<lambda>a b. compare_addresses (env_From (env_of a)) (env_From (env_of b))) ms
        | SortRead \<Rightarrow> sort_values c (\<lambda>m. flags_Has (mi_Flags m) SeenFlag) compare_flags ms
        | SortFlagged \<Rightarrow> sort_values c (\<lambda>m. flags_Has (mi_Flags m) FlaggedFlag) compare_flags ms
        | SortSize \<Rightarrow> sortSlice c (\<lambda>a b. go_compare (mi_Size a) (mi_Size b)) ms
        | SortSubject \<Rightarrow> sort_values c subject_key go_compare ms
        | SortTo \<Rightarrow> sortSlice c (\<lambda>a b. compare_addresses (env_To (env_of a)) (env_To (env_of b))) ms))"

text \<open>The loop goes through the criteria from the last to the first.\<close>

fun sort_loop :: "sort_criterion list \<Rightarrow> 'h message_info list \<Rightarrow> 'h message_info list option" where
  "sort_loop [] ms = Some ms"
| "sort_loop (c # cs) ms =
     (case sort_loop cs ms of None \<Rightarrow> None | Some ms \<Rightarrow> sort_criterion_step c ms)"

definition sort_messages :: "'h message_info list \<Rightarrow> sort_criterion list \<Rightarrow> uid list option" where
  "sort_messages ms criteria =
     map_option (\<lambda>ms. rev (map mi_Uid ms))
       (sort_loop criteria (sort_stable (\<lambda>a b. go_compare (mi_Uid a) (mi_Uid b)) ms))"

subsection \<open>Comparators\<close>

locale comparator =
  fixes cmp :: "'a \<Rightarrow> 'a \<Rightarrow> int"
  assumes swap: "cmp a b = - cmp b a"
    and trans: "cmp a b \<le> 0 \<Longrightarrow> cmp b c \<le> 0 \<Longrightarrow> cmp a c \<le> 0"
begin

lemma mset_insert_by: "mset (insert_by cmp x xs) = add_mset x (mset xs)"
  by (induction xs) auto

lemma mset_sort_stable: "mset (sort_stable cmp xs) = mset xs"
  by (induction xs) (auto simp: sort_stable_def mset_insert_by)

lemma set_insert_by: "set (insert_by cmp x xs) = insert x (set xs)"
  using mset_insert_by[of x xs] by (metis set_mset_add_mset_insert set_mset_mset)

text \<open>Sorting refines the order that was there before: ties keep it.\<close>

lemma insert_by_lex:
  assumes "sorted_wrt (\<lambda>a b. cmp a b < 0 \<or> cmp a b = 0 \<and> R a b) ys" "\<forall>y\<in>set ys. R x y"
  shows "sorted_wrt (\<lambda>a b. cmp a b < 0 \<or> cmp a b = 0 \<and> R a b) (insert_by cmp x ys)"
  using assms
proof (induction ys)
  case Nil
  then show ?case by simp
next
  case (Cons y ys)
  show ?case
  proof (cases "cmp x y \<le> 0")
    case True
    have "cmp x z \<le> 0" if "z \<in> set ys" for z
      using trans[OF True, of z] Cons.prems(1) that by force
    then show ?thesis using True Cons.prems by (auto simp: less_le)
  next
    case False
    then have "cmp y x < 0" using swap[of y x] by simp
    then show ?thesis using False Cons by (auto simp: set_insert_by)
  qed
qed

lemma sort_stable_lex:
  assumes "sorted_wrt R xs"
  shows "sorted_wrt (\<lambda>a b. cmp a b < 0 \<or> cmp a b = 0 \<and> R a b) (sort_stable cmp xs)"
  using assms
proof (induction xs)
  case Nil
  then show ?case by (simp add: sort_stable_def)
next
  case (Cons x xs)
  have "set (sort_stable cmp xs) = set xs" by (metis mset_sort_stable set_mset_mset)
  then show ?case using Cons insert_by_lex[of R "sort_stable cmp xs" x] by (simp add: sort_stable_def)
qed

end

lemma go_compare_swap: "go_compare a b = - go_compare b (a :: 'k::linorder)"
  by (auto simp: go_compare_def)

lemma go_compare_le: "go_compare a b \<le> 0 \<longleftrightarrow> a \<le> (b :: 'k::linorder)"
  by (auto simp: go_compare_def)

lemma go_compare_eq: "go_compare a b = 0 \<longleftrightarrow> a = (b :: 'k::linorder)"
  by (auto simp: go_compare_def)

lemma comparator_compare: "comparator (\<lambda>a b. go_compare (f a) (f b :: 'k::linorder))"
  by unfold_locales (auto simp: go_compare_le intro: go_compare_swap)

lemma comparator_addresses: "comparator (\<lambda>a b. compare_addresses (f a) (f b))"
proof
  show "compare_addresses (f a) (f b) = - compare_addresses (f b) (f a)" for a b
    by (auto simp: compare_addresses_def intro: go_compare_swap split: list.splits)
  show "compare_addresses (f a) (f c) \<le> 0"
    if "compare_addresses (f a) (f b) \<le> 0" "compare_addresses (f b) (f c) \<le> 0" for a b c
    using that by (auto simp: compare_addresses_def go_compare_le split: list.splits)
qed

lemma comparator_flags: "comparator (\<lambda>a b. compare_flags (f a) (f b))"
  by unfold_locales (auto simp: compare_flags_def split: if_splits)

lemma comparator_reverse: "comparator cmp \<Longrightarrow> comparator (\<lambda>a b. cmp b a)"
  unfolding comparator_def by metis

text \<open>The comparison a criterion stands for.\<close>

definition field_compare :: "sort_field \<Rightarrow> 'h message_info \<Rightarrow> 'h message_info \<Rightarrow> int" where
  "field_compare f a b =
     (case f of
        SortArrival \<Rightarrow> go_compare (mi_InternalDate a) (mi_InternalDate b)
      | SortCc \<Rightarrow> compare_addresses (env_Cc (env_of a)) (env_Cc (env_of b))
      | SortDate \<Rightarrow> go_compare (env_Date (env_of a)) (env_Date (env_of b))
      | SortFrom \<Rightarrow> compare_addresses (env_From (env_of a)) (env_From (env_of b))
      | SortRead \<Rightarrow> compare_flags (flags_Has (mi_Flags a) SeenFlag) (flags_Has (mi_Flags b) SeenFlag)
      | SortSize \<Rightarrow> go_compare (mi_Size a) (mi_Size b)
      | SortSubject \<Rightarrow> go_compare (subject_key a) (subject_key b)
      | SortTo \<Rightarrow> compare_addresses (env_To (env_of a)) (env_To (env_of b))
      | SortFlagged \<Rightarrow> compare_flags (flags_Has (mi_Flags a) FlaggedFlag) (flags_Has (mi_Flags b) FlaggedFlag))"

definition criterion_compare :: "sort_criterion \<Rightarrow> 'h message_info \<Rightarrow> 'h message_info \<Rightarrow> int" where
  "criterion_compare c a b = (if sc_Reverse c then field_compare (sc_Field c) b a else field_compare (sc_Field c) a b)"

lemma comparator_field: "comparator (field_compare f)"
  unfolding field_compare_def
  by (cases f) (simp_all only: sort_field.case comparator_compare comparator_addresses comparator_flags)

interpretation by_uid: comparator "\<lambda>a b :: 'h message_info. go_compare (mi_Uid a) (mi_Uid b)"
  by (rule comparator_compare)

lemma comparator_criterion: "comparator (criterion_compare c :: 'h message_info \<Rightarrow> 'h message_info \<Rightarrow> int)"
proof (cases "sc_Reverse c")
  case True
  then have "criterion_compare c = (\<lambda>a b :: 'h message_info. field_compare (sc_Field c) b a)"
    by (intro ext) (simp add: criterion_compare_def)
  then show ?thesis by (simp only:) (rule comparator_reverse[OF comparator_field])
next
  case False
  then have "criterion_compare c = (field_compare (sc_Field c) :: 'h message_info \<Rightarrow> _)"
    by (intro ext) (simp add: criterion_compare_def)
  then show ?thesis by (simp only:) (rule comparator_field)
qed

interpretation by_criterion: comparator "criterion_compare c" for c :: sort_criterion
  by (rule comparator_criterion)

interpretation by_index: comparator "\<lambda>a b. go_compare (map_int m a) (map_int m b)" for m
  by (rule comparator_compare)

lemma map_insert_by:
  "map g (insert_by (\<lambda>a b. cmp (g a) (g b)) x xs) = insert_by cmp (g x) (map g xs)"
  by (induction xs) auto

lemma map_sort_stable: "map g (sort_stable (\<lambda>a b. cmp (g a) (g b)) xs) = sort_stable cmp (map g xs)"
  by (induction xs) (auto simp: sort_stable_def map_insert_by)

text \<open>Sorting the values beside the messages sorts the messages by their values.\<close>

lemma insert_by_cong:
  "(\<And>y. y \<in> set xs \<Longrightarrow> f x y = g x y) \<Longrightarrow> insert_by f x xs = insert_by g x xs"
  by (induction xs) auto

lemma sort_decorated:
  "map snd (sort_stable (\<lambda>a b. cmp (fst a) (fst b)) (map (\<lambda>m. (val m, m)) xs))
     = sort_stable (\<lambda>a b. cmp (val a) (val b)) xs"
proof -
  let ?dec = "\<lambda>m. (val m, m)"
  have "map ?dec (sort_stable (\<lambda>a b. cmp (fst (?dec a)) (fst (?dec b))) xs)
      = sort_stable (\<lambda>a b. cmp (fst a) (fst b)) (map ?dec xs)"
    by (rule map_sort_stable)
  from arg_cong[OF this, of "map snd"] show ?thesis by (simp add: comp_def)
qed

lemma sort_values_eq:
  "sort_values c val compare xs
     = sort_stable (\<lambda>a b. if sc_Reverse c then compare (val b) (val a) else compare (val a) (val b)) xs"
  using sort_decorated[of "\<lambda>a b. compare b a" val xs] sort_decorated[of compare val xs]
  by (cases "sc_Reverse c") (simp_all add: sort_values_def sortSlice_def)

lemma sortSlice_eq:
  "sortSlice c compare xs = sort_stable (\<lambda>a b. if sc_Reverse c then compare b a else compare a b) xs"
  by (simp add: sortSlice_def)

lemma sort_criterion_step_eq:
  "sort_criterion_step c ms =
     (if reads_envelope (sc_Field c) \<and> (\<exists>m\<in>set ms. mi_Envelope m = None)
         \<and> (length ms > 1 \<or> sc_Field c = SortSubject) then None
      else Some (sort_stable (criterion_compare c) ms))"
  by (cases "sc_Field c"; cases "sc_Reverse c")
    (simp_all add: sort_criterion_step_def list_ex_iff sort_values_eq sortSlice_eq criterion_compare_def[abs_def]
      field_compare_def)

text \<open>The order the criteria stand for: the first one that tells two messages apart, then the UIDs.\<close>

fun in_order :: "sort_criterion list \<Rightarrow> 'h message_info \<Rightarrow> 'h message_info \<Rightarrow> bool" where
  "in_order [] a b = (mi_Uid a \<le> mi_Uid b)"
| "in_order (c # cs) a b =
     (criterion_compare c a b < 0 \<or> criterion_compare c a b = 0 \<and> in_order cs a b)"

lemma in_order_antisym: "in_order cs a b \<Longrightarrow> in_order cs b a \<Longrightarrow> mi_Uid a = mi_Uid b"
proof (induction cs)
  case Nil
  then show ?case by simp
next
  case (Cons c cs)
  then show ?case using by_criterion.swap[of c a b] by auto
qed

lemma sort_by_uid: "sorted_wrt (in_order []) (sort_stable (\<lambda>a b. go_compare (mi_Uid a) (mi_Uid b)) ms)"
proof (rule sorted_wrt_mono_rel[OF _ by_uid.sort_stable_lex[of "\<lambda>_ _. True"]])
  show "sorted_wrt (\<lambda>_ _. True) ms" by (induction ms) auto
  show "in_order [] a b" if "go_compare (mi_Uid a) (mi_Uid b) < 0 \<or> go_compare (mi_Uid a) (mi_Uid b) = 0 \<and> True"
    for a b :: "'a message_info"
    using that by (auto simp: go_compare_def split: if_splits)
qed

lemma sort_loop_sorted:
  assumes "sort_loop cs ms = Some ms'" "sorted_wrt (in_order []) ms"
  shows "mset ms' = mset ms \<and> sorted_wrt (in_order cs) ms'"
  using assms(1)
proof (induction cs arbitrary: ms')
  case Nil
  then show ?case using assms(2) by (simp del: in_order.simps)
next
  case (Cons c cs)
  then obtain ms1 where m: "sort_loop cs ms = Some ms1" "sort_criterion_step c ms1 = Some ms'"
    by (auto split: option.splits)
  then have e: "ms' = sort_stable (criterion_compare c) ms1" by (simp add: sort_criterion_step_eq split: if_splits)
  have "sorted_wrt (in_order cs) ms1" "mset ms1 = mset ms" using Cons.IH[OF m(1)] by auto
  with by_criterion.sort_stable_lex[of "in_order cs" ms1 c] show ?case
    by (simp add: e by_criterion.mset_sort_stable in_order.simps(2)[abs_def])
qed

lemma sort_loop_defined:
  "sort_loop cs ms \<noteq> None \<longleftrightarrow>
     (\<forall>c\<in>set cs. \<not> (reads_envelope (sc_Field c) \<and> (\<exists>m\<in>set ms. mi_Envelope m = None)
        \<and> (length ms > 1 \<or> sc_Field c = SortSubject)))"
proof -
  have len: "sort_loop cs ms = Some ms' \<Longrightarrow> mset ms' = mset ms" for cs ms'
    by (induction cs arbitrary: ms')
      (auto simp: sort_criterion_step_eq by_criterion.mset_sort_stable split: option.splits if_splits)
  show ?thesis
  proof (induction cs)
    case Nil
    then show ?case by simp
  next
    case (Cons c cs)
    show ?case
    proof (cases "sort_loop cs ms")
      case None
      then show ?thesis using Cons by auto
    next
      case (Some ms')
      then have "set ms' = set ms" "length ms' = length ms" using len by (metis set_mset_mset, metis size_mset)
      then show ?thesis using Cons Some by (auto simp: sort_criterion_step_eq)
    qed
  qed
qed

text \<open>Lists of the same messages in an antisymmetric order are the same list.\<close>

lemma sorted_wrt_unique:
  assumes "sorted_wrt R xs" "sorted_wrt R ys" "mset xs = mset ys"
    and anti: "\<And>a b. a \<in> set xs \<Longrightarrow> b \<in> set xs \<Longrightarrow> R a b \<Longrightarrow> R b a \<Longrightarrow> a = b"
  shows "xs = ys"
  using assms
proof (induction xs arbitrary: ys)
  case Nil
  then show ?case by simp
next
  case (Cons x xs)
  then obtain y ys' where ys: "ys = y # ys'" by (cases ys) auto
  have sets: "insert x (set xs) = insert y (set ys')" using Cons.prems(3) ys
    by (metis list.simps(15) set_mset_mset)
  have "x = y"
  proof (rule ccontr)
    assume "x \<noteq> y"
    then have "x \<in> set ys'" "y \<in> set xs" using sets by auto
    then have "R y x" "R x y" using Cons.prems(1,2) ys by auto
    then show False using Cons.prems(4)[of x y] \<open>x \<noteq> y\<close> \<open>y \<in> set xs\<close> by auto
  qed
  moreover have "xs = ys'" using Cons.IH[of ys'] Cons.prems ys \<open>x = y\<close> by auto
  ultimately show ?case using ys by simp
qed

subsection \<open>Properties\<close>

text \<open>
  C19. Sorting a folder: when every message has its envelope no comparison panics; the
  result lists exactly the messages, from the last to the first in the order of the
  criteria (each one deciding the ties of those before it, reversed where asked, and the
  UIDs at the end); and the order in which the messages were given does not matter.
\<close>

theorem sort_messages_spec:
  assumes "\<forall>m\<in>set ms. mi_Envelope m \<noteq> None" "distinct (map mi_Uid ms)"
  shows "\<exists>ms'. sort_messages ms cs = Some (rev (map mi_Uid ms')) \<and> mset ms' = mset ms
    \<and> sorted_wrt (in_order cs) ms'
    \<and> (\<forall>ms2. mset ms2 = mset ms \<longrightarrow> sort_messages ms2 cs = sort_messages ms cs)"
proof -
  let ?base = "\<lambda>ms. sort_stable (\<lambda>a b. go_compare (mi_Uid a) (mi_Uid b)) ms"
  have res: "\<exists>ms'. sort_loop cs (?base ms2) = Some ms' \<and> mset ms' = mset ms \<and> sorted_wrt (in_order cs) ms'"
    if "mset ms2 = mset ms" for ms2
  proof -
    have "set (?base ms2) = set ms" using that by (metis by_uid.mset_sort_stable set_mset_mset)
    then obtain ms' where "sort_loop cs (?base ms2) = Some ms'"
      using sort_loop_defined[of cs "?base ms2"] assms(1) by auto
    with sort_loop_sorted[OF this sort_by_uid] that show ?thesis by (simp add: by_uid.mset_sort_stable)
  qed
  from res[OF refl] obtain ms' where m: "sort_loop cs (?base ms) = Some ms'" "mset ms' = mset ms"
    "sorted_wrt (in_order cs) ms'" by blast
  have "sort_messages ms2 cs = sort_messages ms cs" if "mset ms2 = mset ms" for ms2
  proof -
    from res[OF that] obtain ms3 where m3: "sort_loop cs (?base ms2) = Some ms3" "mset ms3 = mset ms"
      "sorted_wrt (in_order cs) ms3" by blast
    have "inj_on mi_Uid (set ms')" using assms(2) m(2) by (metis distinct_map set_mset_mset)
    then have "ms' = ms3" using m m3
      by (intro sorted_wrt_unique[of "in_order cs"]) (auto dest: in_order_antisym inj_onD)
    then show ?thesis using m m3 by (simp add: sort_messages_def)
  qed
  then show ?thesis using m by (intro exI[of _ ms']) (simp add: sort_messages_def)
qed

lemma sort_messages_spec_witness:
  "sort_messages [sample_message ''2'', (sample_message ''1'')\<lparr>mi_Size := 7\<rparr>]
       [\<lparr>sc_Field = SortSize, sc_Reverse = True\<rparr>] = Some [''2'', ''1'']"
proof -
  let ?cs = "[\<lparr>sc_Field = SortSize, sc_Reverse = True\<rparr>]"
  let ?ms = "[(sample_message ''1'')\<lparr>mi_Size := 7\<rparr>, sample_message ''2'']"
  have "sort_messages ?ms ?cs = Some [''2'', ''1'']" by code_simp
  moreover have "\<forall>m\<in>set ?ms. mi_Envelope m \<noteq> None" "distinct (map mi_Uid ?ms)"
    by (simp_all add: sample_message_def)
  note sort_messages_spec[OF this, of ?cs]
  ultimately show ?thesis by auto
qed

text \<open>
  Ordering the results of a search by the list on the screen: the results, each of
  which is in that list, come out exactly in its order.
\<close>

lemma SortBy_filters:
  assumes "distinct sortBy" "distinct toSort" "set toSort \<subseteq> set sortBy"
  shows "SortBy toSort sortBy = filter (\<lambda>u. u \<in> set toSort) sortBy"
proof -
  have m: "map_int (index_map 0 sortBy Map.empty) (sortBy ! i) = int i" if "i < length sortBy" for i
    using index_map_nth[OF assms(1) that, of 0 Map.empty] by (simp add: map_int_def)
  let ?k = "map_int (index_map 0 sortBy Map.empty)"
  have "sorted_wrt (\<lambda>a b. ?k a \<le> ?k b) sortBy"
    by (auto simp: sorted_wrt_iff_nth_less m)
  then have f: "sorted_wrt (\<lambda>a b. ?k a \<le> ?k b) (filter (\<lambda>u. u \<in> set toSort) sortBy)"
    by (rule sorted_wrt_filter)
  have inj: "inj_on ?k (set sortBy)"
    by (rule inj_onI) (auto simp: in_set_conv_nth m)
  have s: "sorted_wrt (\<lambda>a b. ?k a \<le> ?k b) (SortBy toSort sortBy)"
  proof -
    have "sorted_wrt (\<lambda>_ _. True) toSort" by (induction toSort) auto
    from by_index.sort_stable_lex[OF this, of "index_map 0 sortBy Map.empty"] show ?thesis
      unfolding SortBy_def Let_def by (rule sorted_wrt_mono_rel[rotated]) (auto simp: go_compare_def split: if_splits)
  qed
  have "mset (SortBy toSort sortBy) = mset toSort" by (simp add: SortBy_def Let_def by_index.mset_sort_stable)
  moreover have "mset (filter (\<lambda>u. u \<in> set toSort) sortBy) = mset toSort"
    using assms by (intro set_eq_iff_mset_eq_distinct[THEN iffD1]) auto
  moreover have "a = b" if "a \<in> set toSort" "b \<in> set toSort" "?k a \<le> ?k b" "?k b \<le> ?k a" for a b
    using inj assms(3) that by (auto dest: inj_onD)
  ultimately show ?thesis using s f by (intro sorted_wrt_unique[of "\<lambda>a b. ?k a \<le> ?k b"]) (auto dest: mset_eq_setD)
qed

lemma SortBy_filters_witness: "SortBy [''3'', ''1''] [''1'', ''2'', ''3''] = [''1'', ''3'']"
  using SortBy_filters[of "[''1'', ''2'', ''3'']" "[''3'', ''1'']"] by simp

end
