(* ===== verification/Search.thy ===== *)
theory Search
  imports BodyParts "HOL-Library.AList"
begin

text \<open>
  \<open>worker/types/search.go\<close> and \<open>worker/lib/search.go\<close>: search criteria, their combination by
  successive filters, and the search in local messages.  A \<open>textproto.MIMEHeader\<close> is an
  association list with distinct keys (a Go map of string slices).  Third-party code is
  the record \<open>search_env\<close>: reading a field and the date of a header (\<open>go-message\<close>) and
  splitting the terms (\<open>opt.LexArgs\<close>).  A message answers with what reading it yields: its
  flags, its \<open>rfc822.MessageInfo\<close>, the text of a part and its whole text.
  Upper-case runes and \<open>strings.ToLower\<close> are those of theory \<open>Unicode\<close>.
\<close>

type_synonym mime_header = "(string \<times> string list) list"

record search_criteria_part =
  cp_WithFlags :: flags
  cp_WithoutFlags :: flags
  cp_From :: "string list"
  cp_To :: "string list"
  cp_Cc :: "string list"
  cp_Headers :: "mime_header option"
  cp_StartDate :: go_time
  cp_EndDate :: go_time
  cp_SearchBody :: bool
  cp_SearchAll :: bool
  cp_Terms :: "string list"
  cp_Invert :: bool

record search_criteria =
  cr_Match :: "search_criteria_part option"
  cr_Exclude :: "search_criteria_part option"
  cr_UseExtension :: bool

definition hdr_values :: "mime_header \<Rightarrow> string \<Rightarrow> string list" where
  "hdr_values h k = (case map_of h k of None \<Rightarrow> [] | Some vs \<Rightarrow> vs)"

text \<open>\<open>MIMEHeader.Add\<close>, for a key in canonical form.\<close>

definition hdr_Add :: "string \<Rightarrow> string \<Rightarrow> mime_header \<Rightarrow> mime_header" where
  "hdr_Add k v h = AList.update k (hdr_values h k @ [v]) h"

text \<open>\<open>maps.Copy(dst, src)\<close>\<close>

definition hdr_Copy :: "mime_header \<Rightarrow> mime_header \<Rightarrow> mime_header" where
  "hdr_Copy dst src = fold (\<lambda>(k, vs) h. AList.update k vs h) src dst"

definition PrepareHeader_part :: "search_criteria_part \<Rightarrow> search_criteria_part" where
  "PrepareHeader_part c =
     (let h = (case cp_Headers c of None \<Rightarrow> [] | Some h \<Rightarrow> h);
          h = fold (hdr_Add ''From'') (cp_From c) h;
          h = fold (hdr_Add ''To'') (cp_To c) h;
          h = fold (hdr_Add ''Cc'') (cp_Cc c) h
      in c\<lparr>cp_Headers := Some h\<rparr>)"

definition PrepareHeader :: "search_criteria \<Rightarrow> search_criteria" where
  "PrepareHeader c =
     c\<lparr>cr_Match := map_option PrepareHeader_part (cr_Match c),
       cr_Exclude := map_option PrepareHeader_part (cr_Exclude c)\<rparr>"

definition hdr_list :: "mime_header option \<Rightarrow> mime_header" where
  "hdr_list h = (case h of None \<Rightarrow> [] | Some h \<Rightarrow> h)"

definition Combine_part :: "search_criteria_part option \<Rightarrow> search_criteria_part \<Rightarrow> search_criteria_part" where
  "Combine_part c other =
     (case c of
        None \<Rightarrow> other
      | Some c \<Rightarrow>
          \<lparr>cp_WithFlags = cp_WithFlags c OR cp_WithFlags other,
           cp_WithoutFlags = cp_WithoutFlags c OR cp_WithoutFlags other,
           cp_From = cp_From c @ cp_From other,
           cp_To = cp_To c @ cp_To other,
           cp_Cc = cp_Cc c @ cp_Cc other,
           cp_Headers = Some (hdr_Copy (hdr_Copy [] (hdr_list (cp_Headers c))) (hdr_list (cp_Headers other))),
           cp_StartDate = (if \<not> time_IsZero (cp_StartDate other) then cp_StartDate other else cp_StartDate c),
           cp_EndDate = (if \<not> time_IsZero (cp_EndDate other) then cp_EndDate other else cp_EndDate c),
           cp_SearchBody = (cp_SearchBody c \<or> cp_SearchBody other),
           cp_SearchAll = (cp_SearchAll c \<or> cp_SearchAll other),
           cp_Terms = cp_Terms c @ cp_Terms other,
           cp_Invert = cp_Invert c\<rparr>)"

definition Combine :: "search_criteria option \<Rightarrow> search_criteria_part \<Rightarrow> search_criteria" where
  "Combine c other =
     (let c = (case c of
                 None \<Rightarrow> \<lparr>cr_Match = None, cr_Exclude = None, cr_UseExtension = False\<rparr>
               | Some c \<Rightarrow> c)
      in if cp_Invert other then c\<lparr>cr_Exclude := Some (Combine_part (cr_Exclude c) other)\<rparr>
         else c\<lparr>cr_Match := Some (Combine_part (cr_Match c) other)\<rparr>)"

subsection \<open>Searching\<close>

definition hasUpper :: "string \<Rightarrow> bool" where
  "hasUpper s = list_ex is_upper_rune (utf8_runes s)"

definition containsSmartCase :: "string \<Rightarrow> string \<Rightarrow> bool" where
  "containsSmartCase s substr =
     (if hasUpper substr then str_contains s substr
      else str_contains (to_lower s) (to_lower substr))"

text \<open>The bits of \<open>MsgParts\<close>: \<open>1 << iota\<close>.\<close>

definition part_FLAGS :: int where "part_FLAGS = push_bit 0 1"
definition part_HEADER :: int where "part_HEADER = push_bit 1 1"
definition part_DATE :: int where "part_DATE = push_bit 2 1"
definition part_BODY :: int where "part_BODY = push_bit 3 1"
definition part_ALL :: int where "part_ALL = push_bit 4 1"

lemmas part_defs = part_FLAGS_def part_HEADER_def part_DATE_def part_BODY_def part_ALL_def

definition required_parts :: "search_criteria_part option \<Rightarrow> int" where
  "required_parts criteria =
     (case criteria of
        None \<Rightarrow> 0
      | Some c \<Rightarrow>
          (let r = 0;
               r = (if length (hdr_list (cp_Headers c)) > 0 then r OR part_HEADER else r);
               r = (if \<not> time_IsZero (cp_StartDate c) \<or> \<not> time_IsZero (cp_EndDate c) then r OR part_DATE else r);
               r = (if cp_SearchBody c then r OR part_BODY else r);
               r = (if cp_SearchAll c then r OR part_ALL else r);
               r = (if cp_WithFlags c \<noteq> 0 then r OR part_FLAGS else r);
               r = (if cp_WithoutFlags c \<noteq> 0 then r OR part_FLAGS else r)
           in r))"

definition GetRequiredParts :: "search_criteria \<Rightarrow> int" where
  "GetRequiredParts criteria = required_parts (cr_Match criteria) OR required_parts (cr_Exclude criteria)"

datatype search_error = ReadFailed string | SearchPanic

record 'h raw_message =
  rm_UID :: uid
  rm_Flags :: "search_error + flags"
  rm_Info :: "search_error + 'h message_info"
  rm_Part :: "int list \<Rightarrow> search_error + string"
  rm_All :: "search_error + string"

record 'h search_env =
  se_Get :: "'h \<Rightarrow> string \<Rightarrow> string"
  se_Date :: "'h \<Rightarrow> go_time option"
  se_LexArgs :: "string \<Rightarrow> string list"

definition bind_err :: "'e + 'a \<Rightarrow> ('a \<Rightarrow> 'e + 'b) \<Rightarrow> 'e + 'b" where
  "bind_err x f = (case x of Inl e \<Rightarrow> Inl e | Inr y \<Rightarrow> f y)"

text \<open>The text searched: a part, the whole message or the subject.  nil structures are a panic.\<close>

definition search_text :: "'h raw_message \<Rightarrow> 'h message_info \<Rightarrow> int \<Rightarrow> search_error + string" where
  "search_text m info parts =
     (if parts AND part_BODY > 0 then
        (case mi_BodyStructure info of
           None \<Rightarrow> Inl SearchPanic
         | Some bs \<Rightarrow> rm_Part m (FindFirstNonMultipart bs []))
      else if parts AND part_ALL > 0 then rm_All m
      else (case mi_Envelope info of None \<Rightarrow> Inl SearchPanic | Some e \<Rightarrow> Inr (env_Subject e)))"

definition headers_match :: "'h search_env \<Rightarrow> 'h option \<Rightarrow> mime_header \<Rightarrow> search_error + bool" where
  "headers_match env h hs =
     (if hs = [] then Inr True
      else (case h of
              None \<Rightarrow> Inl SearchPanic
            | Some h \<Rightarrow> Inr (list_all (\<lambda>(k, v). list_all (containsSmartCase (se_Get env h k)) v) hs)))"

definition terms_match :: "'h search_env \<Rightarrow> string \<Rightarrow> string list \<Rightarrow> bool" where
  "terms_match env txt ts = list_all (containsSmartCase txt) (se_LexArgs env (str_join '' '' ts))"

definition flags_match :: "flags \<Rightarrow> search_criteria_part \<Rightarrow> bool" where
  "flags_match fl c \<longleftrightarrow>
     (cp_WithFlags c \<noteq> 0 \<longrightarrow> flags_Has fl (cp_WithFlags c))
     \<and> (cp_WithoutFlags c \<noteq> 0 \<longrightarrow> \<not> flags_Has fl (cp_WithoutFlags c))"

definition dates_match :: "'h search_env \<Rightarrow> 'h option \<Rightarrow> int \<Rightarrow> search_criteria_part \<Rightarrow> search_error + bool" where
  "dates_match env h parts c =
     (if parts AND part_DATE > 0 then
        (case h of
           None \<Rightarrow> Inl SearchPanic
         | Some h \<Rightarrow>
             (case se_Date env h of
                None \<Rightarrow> Inr True
              | Some d \<Rightarrow>
                  Inr (\<not> (\<not> time_IsZero (cp_StartDate c) \<and> d < cp_StartDate c)
                       \<and> \<not> (\<not> time_IsZero (cp_EndDate c) \<and> d > cp_EndDate c))))
      else Inr True)"

definition search_part ::
  "'h search_env \<Rightarrow> 'h raw_message \<Rightarrow> search_criteria_part option \<Rightarrow> int \<Rightarrow> search_error + bool" where
  "search_part env m criteria parts =
     (case criteria of
        None \<Rightarrow> Inr True
      | Some c \<Rightarrow>
          bind_err (if parts AND part_FLAGS > 0 then rm_Flags m else Inr 0) (\<lambda>fl.
          bind_err (rm_Info m) (\<lambda>info.
          bind_err (search_text m info parts) (\<lambda>txt.
          bind_err (headers_match env (mi_RFC822Headers info) (hdr_list (cp_Headers c))) (\<lambda>ok.
            if \<not> ok then Inr False
            else if \<not> terms_match env txt (cp_Terms c) then Inr False
            else if \<not> flags_match fl c then Inr False
            else dates_match env (mi_RFC822Headers info) parts c)))))"

definition SearchMessage ::
  "'h search_env \<Rightarrow> 'h raw_message \<Rightarrow> search_criteria \<Rightarrow> int \<Rightarrow> search_error + bool" where
  "SearchMessage env m criteria parts =
     (case cr_Exclude criteria of
        None \<Rightarrow> search_part env m (cr_Match criteria) parts
      | Some ex \<Rightarrow>
          bind_err (search_part env m (Some ex) parts) (\<lambda>excluded.
            if excluded then Inr False else search_part env m (cr_Match criteria) parts))"

fun search_loop ::
  "'h search_env \<Rightarrow> 'h raw_message list \<Rightarrow> search_criteria \<Rightarrow> int \<Rightarrow> search_error + uid list" where
  "search_loop env [] criteria parts = Inr []"
| "search_loop env (m # ms) criteria parts =
     bind_err (SearchMessage env m criteria parts) (\<lambda>success.
       bind_err (search_loop env ms criteria parts) (\<lambda>uids.
         Inr (if success then rm_UID m # uids else uids)))"

text \<open>\<open>PrepareHeader\<close> changes the criteria it is given: they are returned.\<close>

definition search_messages ::
  "'h search_env \<Rightarrow> 'h raw_message list \<Rightarrow> search_criteria \<Rightarrow> search_criteria \<times> (search_error + uid list)" where
  "search_messages env ms criteria =
     (let criteria = PrepareHeader criteria
      in (criteria, search_loop env ms criteria (GetRequiredParts criteria)))"

subsection \<open>Headers\<close>

lemma map_of_hdr_Copy: "distinct (map fst b) \<Longrightarrow> map_of (hdr_Copy a b) k = (case map_of b k of None \<Rightarrow> map_of a k | Some v \<Rightarrow> Some v)"
  unfolding hdr_Copy_def
proof (induction b arbitrary: a)
  case Nil
  then show ?case by simp
next
  case (Cons e b)
  then have "map_of b (fst e) = None" by (simp add: map_of_eq_None_iff)
  with Cons show ?case by (cases e) (auto simp: update_conv' split: option.splits)
qed

lemma distinct_hdr_Copy: "distinct (map fst a) \<Longrightarrow> distinct (map fst (hdr_Copy a b))"
  unfolding hdr_Copy_def by (induction b arbitrary: a) (auto simp: distinct_update)

lemma hdr_values_Copy:
  assumes "distinct (map fst b)" "fst ` set a \<inter> fst ` set b = {}"
  shows "hdr_values (hdr_Copy a b) k = hdr_values a k @ hdr_values b k"
proof (cases "map_of b k")
  case None
  then show ?thesis using assms by (simp add: hdr_values_def map_of_hdr_Copy)
next
  case (Some v)
  then have "k \<in> fst ` set b" by (metis domI dom_map_of_conv_image_fst)
  then have "map_of a k = None" using assms(2) by (auto simp: map_of_eq_None_iff)
  then show ?thesis using assms(1) Some by (simp add: hdr_values_def map_of_hdr_Copy)
qed

lemma hdr_values_Add: "hdr_values (hdr_Add k v h) j = hdr_values h j @ (if j = k then [v] else [])"
  by (auto simp: hdr_values_def hdr_Add_def update_conv' split: option.splits)

lemma hdr_values_Adds: "hdr_values (fold (hdr_Add k) vs h) j = hdr_values h j @ (if j = k then vs else [])"
  by (induction vs arbitrary: h) (auto simp: hdr_values_Add)

lemma distinct_Adds: "distinct (map fst h) \<Longrightarrow> distinct (map fst (fold (hdr_Add k) vs h))"
  by (induction vs arbitrary: h) (auto simp: hdr_Add_def distinct_update)

text \<open>The values that \<open>PrepareHeader\<close> adds for a key.\<close>

definition added_values :: "search_criteria_part \<Rightarrow> string \<Rightarrow> string list" where
  "added_values c k = (if k = ''From'' then cp_From c else if k = ''To'' then cp_To c else if k = ''Cc'' then cp_Cc c else [])"

lemma prepared_values:
  "hdr_values (hdr_list (cp_Headers (PrepareHeader_part c))) k = hdr_values (hdr_list (cp_Headers c)) k @ added_values c k"
  by (simp add: PrepareHeader_part_def Let_def hdr_values_Adds added_values_def hdr_list_def)

lemma prepared_distinct:
  "distinct (map fst (hdr_list (cp_Headers c))) \<Longrightarrow> distinct (map fst (hdr_list (cp_Headers (PrepareHeader_part c))))"
  by (simp add: PrepareHeader_part_def Let_def distinct_Adds hdr_list_def split: option.splits)

lemma prepared_fields [simp]:
  "cp_WithFlags (PrepareHeader_part c) = cp_WithFlags c" "cp_WithoutFlags (PrepareHeader_part c) = cp_WithoutFlags c"
  "cp_StartDate (PrepareHeader_part c) = cp_StartDate c" "cp_EndDate (PrepareHeader_part c) = cp_EndDate c"
  "cp_Terms (PrepareHeader_part c) = cp_Terms c" "cp_SearchBody (PrepareHeader_part c) = cp_SearchBody c"
  "cp_SearchAll (PrepareHeader_part c) = cp_SearchAll c"
  by (simp_all add: PrepareHeader_part_def Let_def)

lemma headers_match_iff:
  assumes "distinct (map fst hs)" "h \<noteq> None"
  shows "headers_match env h hs = Inr True \<longleftrightarrow>
    (\<forall>k. \<forall>v\<in>set (hdr_values hs k). containsSmartCase (se_Get env (the h) k) v)"
proof -
  have "list_all (\<lambda>(k, v). list_all (P k) v) hs \<longleftrightarrow> (\<forall>k. \<forall>v\<in>set (hdr_values hs k). P k v)" for P :: "string \<Rightarrow> string \<Rightarrow> bool"
    using assms(1)
  proof (induction hs)
    case Nil
    then show ?case by (simp add: hdr_values_def)
  next
    case (Cons e hs)
    obtain k vs where e: "e = (k, vs)" by (cases e)
    have "map_of hs k = None" using Cons.prems e by (simp add: map_of_eq_None_iff)
    then have "hdr_values (e # hs) j = (if j = k then vs else hdr_values hs j)" and "hdr_values hs k = []" for j
      by (auto simp: hdr_values_def e)
    then show ?case using Cons e by (auto simp: list_all_iff)
  qed
  from this[of "\<lambda>k. containsSmartCase (se_Get env (the h) k)"] assms(2) show ?thesis
    by (auto simp: headers_match_def)
qed

subsection \<open>The conditions of a search\<close>

lemma search_part_True_iff:
  "search_part env m (Some c) parts = Inr True \<longleftrightarrow>
     (\<exists>fl info txt. (if parts AND part_FLAGS > 0 then rm_Flags m else Inr 0) = Inr fl \<and> rm_Info m = Inr info
        \<and> search_text m info parts = Inr txt
        \<and> headers_match env (mi_RFC822Headers info) (hdr_list (cp_Headers c)) = Inr True
        \<and> terms_match env txt (cp_Terms c) \<and> flags_match fl c
        \<and> dates_match env (mi_RFC822Headers info) parts c = Inr True)"
  by (auto simp: search_part_def bind_err_def split: sum.splits if_splits)

lemma flags_Has_or: "flags_Has f (a OR b) \<longleftrightarrow> flags_Has f a \<and> flags_Has f b"
  by (auto simp: flags_Has_bits bit_or_iff)

lemma flags_match_alt:
  "flags_match fl c \<longleftrightarrow> flags_Has fl (cp_WithFlags c)
     \<and> (cp_WithoutFlags c = 0 \<or> \<not> flags_Has fl (cp_WithoutFlags c))"
  by (cases "cp_WithFlags c = 0") (auto simp: flags_match_def)

lemma flags_or_zero: "(a OR b = 0) = (a = 0 \<and> b = (0 :: flags))"
  by (auto simp: bit_eq_iff bit_or_iff)

lemma part_bit: "(p AND push_bit n 1 > (0::int)) \<longleftrightarrow> bit p n"
  using bit_iff_and_push_bit_not_eq_0[of p n] and_nonnegative_int_iff[of p "push_bit n 1"]
  by (simp add: less_le)

lemma required_bits:
  "bit (required_parts (Some c)) 0 \<longleftrightarrow> cp_WithFlags c \<noteq> 0 \<or> cp_WithoutFlags c \<noteq> 0"
  "bit (required_parts (Some c)) 2 \<longleftrightarrow> \<not> time_IsZero (cp_StartDate c) \<or> \<not> time_IsZero (cp_EndDate c)"
  "bit (required_parts (Some c)) 3 \<longleftrightarrow> cp_SearchBody c"
  "bit (required_parts (Some c)) 4 \<longleftrightarrow> cp_SearchAll c"
  by (simp_all add: required_parts_def Let_def part_defs bit_or_iff bit_push_bit_iff bit_1_iff)

lemma combine_headers:
  fixes c other
  defines "hc \<equiv> hdr_list (cp_Headers c)" and "ho \<equiv> hdr_list (cp_Headers other)"
  assumes "distinct (map fst hc)" "distinct (map fst ho)" "fst ` set hc \<inter> fst ` set ho = {}" "h \<noteq> None"
  shows "headers_match env h (hdr_list (cp_Headers (PrepareHeader_part (Combine_part (Some c) other)))) = Inr True
    \<longleftrightarrow> headers_match env h (hdr_list (cp_Headers (PrepareHeader_part c))) = Inr True
      \<and> headers_match env h (hdr_list (cp_Headers (PrepareHeader_part other))) = Inr True"
proof -
  have copy: "hdr_Copy [] hc = hc"
  proof -
    have "fold (\<lambda>(k, vs) h. AList.update k vs h) xs acc = acc @ xs"
      if "distinct (map fst xs)" "fst ` set acc \<inter> fst ` set xs = {}" for xs acc :: mime_header
      using that
    proof (induction xs arbitrary: acc)
      case (Cons e xs)
      obtain k vs where e: "e = (k, vs)" by (cases e)
      have "k \<notin> fst ` set acc" using Cons.prems e by auto
      then have "AList.update k vs acc = acc @ [(k, vs)]" by (induction acc) auto
      moreover have "fold (\<lambda>(k, vs) h. AList.update k vs h) xs (acc @ [(k, vs)]) = (acc @ [(k, vs)]) @ xs"
        using Cons.prems e by (intro Cons.IH) auto
      ultimately show ?case by (simp add: e)
    qed simp
    from this[of hc "[]"] assms(3) show ?thesis by (simp add: hdr_Copy_def)
  qed
  have ch: "hdr_list (cp_Headers (Combine_part (Some c) other)) = hdr_Copy hc ho"
    by (simp add: Combine_part_def hdr_list_def copy[unfolded hdr_list_def hc_def] hc_def ho_def)
  have ad: "added_values (Combine_part (Some c) other) k = added_values c k @ added_values other k" for k
    by (simp add: added_values_def Combine_part_def)
  have "distinct (map fst (hdr_Copy hc ho))" using assms(3) by (rule distinct_hdr_Copy)
  then have d: "distinct (map fst (hdr_list (cp_Headers (PrepareHeader_part (Combine_part (Some c) other)))))"
    "distinct (map fst (hdr_list (cp_Headers (PrepareHeader_part c))))"
    "distinct (map fst (hdr_list (cp_Headers (PrepareHeader_part other))))"
    using assms(3,4) by (auto intro!: prepared_distinct simp: ch hc_def ho_def)
  show ?thesis
    unfolding headers_match_iff[OF d(1) assms(6)] headers_match_iff[OF d(2) assms(6)] headers_match_iff[OF d(3) assms(6)]
      prepared_values ch ad hdr_values_Copy[OF assms(4,5)]
    by (auto simp: hc_def ho_def)
qed

subsection \<open>Properties\<close>

text \<open>A message whose flags, headers, envelope, first part and text can be read.\<close>

definition readable :: "'h raw_message \<Rightarrow> bool" where
  "readable m \<longleftrightarrow> (\<exists>fl info. rm_Flags m = Inr fl \<and> rm_Info m = Inr info \<and> mi_RFC822Headers info \<noteq> None
     \<and> mi_Envelope info \<noteq> None \<and> (\<exists>txt. search_text m info part_BODY = Inr txt) \<and> (\<exists>txt. rm_All m = Inr txt))"

text \<open>Whether \<open>search_messages\<close> lists a message: the parts to read are those its criteria require.\<close>

definition matches :: "'h search_env \<Rightarrow> 'h raw_message \<Rightarrow> search_criteria \<Rightarrow> bool" where
  "matches env m cr \<longleftrightarrow> SearchMessage env m (PrepareHeader cr) (GetRequiredParts (PrepareHeader cr)) = Inr True"

text \<open>What the terms are looked for in: the body, the whole message or the subject.\<close>

definition search_source :: "search_criteria \<Rightarrow> int" where
  "search_source cr =
     (if GetRequiredParts cr AND part_BODY > 0 then part_BODY else if GetRequiredParts cr AND part_ALL > 0 then part_ALL else 0)"

definition part_holds :: "'h search_env \<Rightarrow> flags \<Rightarrow> 'h \<Rightarrow> string \<Rightarrow> search_criteria_part \<Rightarrow> bool" where
  "part_holds env fl h txt c \<longleftrightarrow> headers_match env (Some h) (hdr_list (cp_Headers c)) = Inr True
     \<and> terms_match env txt (cp_Terms c) \<and> flags_match fl c \<and> dates_match env (Some h) part_DATE c = Inr True"

lemma headers_match_Inr: "\<exists>b. headers_match env (Some h) hs = Inr b"
  unfolding headers_match_def by (cases "hs = []") auto

lemma search_part_holds:
  assumes "rm_Flags m = Inr fl" "rm_Info m = Inr info" "mi_RFC822Headers info = Some h" "search_text m info p = Inr txt"
    and "\<And>n. bit (required_parts (Some c)) n \<Longrightarrow> bit p n"
  shows "search_part env m (Some c) p = Inr (part_holds env fl h txt c)"
proof -
  have req: "cp_WithFlags c \<noteq> 0 \<or> cp_WithoutFlags c \<noteq> 0 \<Longrightarrow> p AND part_FLAGS > 0"
    "\<not> time_IsZero (cp_StartDate c) \<or> \<not> time_IsZero (cp_EndDate c) \<Longrightarrow> p AND part_DATE > 0"
    using assms(5)[of 0] assms(5)[of 2] required_bits[of c] unfolding part_defs part_bit by auto
  have fl: "flags_match (if p AND part_FLAGS > 0 then fl else 0) c = flags_match fl c"
    using req(1) by (auto simp: flags_match_def)
  have "part_DATE AND part_DATE > 0" unfolding part_defs part_bit by (simp add: bit_push_bit_iff)
  then have da: "dates_match env (Some h) p c = Inr (dates_match env (Some h) part_DATE c = Inr True)"
    using req(2) by (auto simp: dates_match_def split: option.splits)
  obtain b where "headers_match env (Some h) (hdr_list (cp_Headers c)) = Inr b"
    using headers_match_Inr[of env h "hdr_list (cp_Headers c)"] by (elim exE)
  then show ?thesis
    using assms(1-4) fl da by (auto simp: search_part_def part_holds_def bind_err_def)
qed

lemma prepared_bits:
  "bit (required_parts (map_option PrepareHeader_part c)) 3 = bit (required_parts c) 3"
  "bit (required_parts (map_option PrepareHeader_part c)) 4 = bit (required_parts c) 4"
  by (cases c; simp add: required_bits required_parts_def[of None])+

lemma source_text: "search_text m info (GetRequiredParts (PrepareHeader cr)) = search_text m info (search_source cr)"
proof -
  let ?p = "GetRequiredParts (PrepareHeader cr)" and ?q = "GetRequiredParts cr"
  have bits: "?p AND part_BODY > 0 \<longleftrightarrow> ?q AND part_BODY > 0" "?p AND part_ALL > 0 \<longleftrightarrow> ?q AND part_ALL > 0"
    unfolding part_defs part_bit by (simp_all add: GetRequiredParts_def PrepareHeader_def bit_or_iff prepared_bits)
  have own: "part_BODY AND part_BODY > 0" "part_ALL AND part_ALL > 0" "\<not> part_ALL AND part_BODY > 0"
    unfolding part_defs part_bit by (simp_all add: bit_push_bit_iff bit_1_iff)
  show ?thesis
    using own by (cases "?q AND part_BODY > 0"; cases "?q AND part_ALL > 0") (simp_all add: search_text_def search_source_def bits)
qed

lemma matches_holds:
  assumes "rm_Flags m = Inr fl" "rm_Info m = Inr info" "mi_RFC822Headers info = Some h"
    and "search_text m info (search_source cr) = Inr txt"
  shows "matches env m cr \<longleftrightarrow> (\<forall>x. cr_Exclude cr = Some x \<longrightarrow> \<not> part_holds env fl h txt (PrepareHeader_part x))
    \<and> (\<forall>c. cr_Match cr = Some c \<longrightarrow> part_holds env fl h txt (PrepareHeader_part c))"
proof -
  let ?p = "GetRequiredParts (PrepareHeader cr)"
  have t: "search_text m info ?p = Inr txt" using assms(4) by (simp add: source_text)
  have m: "search_part env m (cr_Match (PrepareHeader cr)) ?p
      = Inr (\<forall>c. cr_Match cr = Some c \<longrightarrow> part_holds env fl h txt (PrepareHeader_part c))"
    using search_part_holds[OF assms(1-3) t]
    by (cases "cr_Match cr") (auto simp: search_part_def[of _ _ None] PrepareHeader_def GetRequiredParts_def bit_or_iff)
  show ?thesis
  proof (cases "cr_Exclude cr")
    case None
    then show ?thesis using m by (simp add: matches_def SearchMessage_def PrepareHeader_def)
  next
    case (Some x)
    have "search_part env m (Some (PrepareHeader_part x)) ?p = Inr (part_holds env fl h txt (PrepareHeader_part x))"
      by (rule search_part_holds[OF assms(1-3) t]) (simp add: GetRequiredParts_def PrepareHeader_def Some bit_or_iff)
    then show ?thesis using m Some
      by (auto simp: matches_def SearchMessage_def bind_err_def PrepareHeader_def)
  qed
qed

lemma readable_text:
  assumes "readable m"
  obtains fl info h where "rm_Flags m = Inr fl" "rm_Info m = Inr info" "mi_RFC822Headers info = Some h"
    "\<And>cr. \<exists>txt. search_text m info (search_source cr) = Inr txt"
proof -
  from assms obtain fl info h e x y where r: "rm_Flags m = Inr fl" "rm_Info m = Inr info" "mi_RFC822Headers info = Some h"
    "mi_Envelope info = Some e" "search_text m info part_BODY = Inr x" "rm_All m = Inr y"
    by (auto simp: readable_def)
  have "part_ALL AND part_ALL > 0" "\<not> part_ALL AND part_BODY > 0"
    unfolding part_defs part_bit by (simp_all add: bit_push_bit_iff bit_1_iff)
  then have "\<exists>txt. search_text m info (search_source cr) = Inr txt" for cr
    using r(4-6) by (auto simp: search_source_def search_text_def[of m info part_ALL] search_text_def[of m info 0])
  with r(1-3) show ?thesis by (rule that)
qed

text \<open>
  C20. Adding a filter narrows the list.  Each search reading the parts of the message its own criteria
  require, a message that can be read matches the filter extended by a criterion that is not inverted
  exactly when it matches the filter and the criterion, provided that they do not both exclude
  flags, do not give the same end of the date range or the same raw header, that their terms are
  split together as they are apart, and that the terms of each are looked for in the
  same text (body, whole message or subject) in the combination as alone.
\<close>

theorem combine_conjunction:
  assumes "readable m" "se_LexArgs env [] = []" "\<not> cp_Invert other" "cr_Match cr = Some c"
    and "distinct (map fst (hdr_list (cp_Headers c)))" "distinct (map fst (hdr_list (cp_Headers other)))"
    and "fst ` set (hdr_list (cp_Headers c)) \<inter> fst ` set (hdr_list (cp_Headers other)) = {}"
    and "cp_WithoutFlags c = 0 \<or> cp_WithoutFlags other = 0"
    and "time_IsZero (cp_StartDate c) \<or> time_IsZero (cp_StartDate other)"
    and "time_IsZero (cp_EndDate c) \<or> time_IsZero (cp_EndDate other)"
    and "se_LexArgs env (str_join '' '' (cp_Terms c @ cp_Terms other))
      = se_LexArgs env (str_join '' '' (cp_Terms c)) @ se_LexArgs env (str_join '' '' (cp_Terms other))"
    and "cp_Terms c \<noteq> [] \<or> (\<exists>x. cr_Exclude cr = Some x \<and> cp_Terms x \<noteq> []) \<longrightarrow>
      search_source (Combine (Some cr) other) = search_source cr"
    and "cp_Terms other \<noteq> [] \<longrightarrow> search_source (Combine (Some cr) other) = search_source (Combine None other)"
  shows "matches env m (Combine (Some cr) other) \<longleftrightarrow> matches env m cr \<and> matches env m (Combine None other)"
proof -
  obtain fl info h where r: "rm_Flags m = Inr fl" "rm_Info m = Inr info" "mi_RFC822Headers info = Some h"
    and can: "\<And>cr. \<exists>txt. search_text m info (search_source cr) = Inr txt" using readable_text[OF assms(1)] by blast
  obtain t t1 t2 where t: "search_text m info (search_source (Combine (Some cr) other)) = Inr t"
    "search_text m info (search_source cr) = Inr t1" "search_text m info (search_source (Combine None other)) = Inr t2"
    using can by metis
  let ?b = "Combine_part (Some c) other" and ?H = "part_holds env fl h"
  have empty: "part_holds env fl h a x = part_holds env fl h b x" if "cp_Terms x = []" for a b x
    using that assms(2) by (simp add: part_holds_def terms_match_def)
  have same1: "?H t (PrepareHeader_part x) = ?H t1 (PrepareHeader_part x)" if "x = c \<or> cr_Exclude cr = Some x" for x
    using that assms(12) t(1,2) empty[of "PrepareHeader_part x" t t1] by (cases "cp_Terms x = []") auto
  have same2: "?H t (PrepareHeader_part other) = ?H t2 (PrepareHeader_part other)"
    using assms(13) t(1,3) empty[of "PrepareHeader_part other" t t2] by (cases "cp_Terms other = []") auto
  have he: "headers_match env (Some h) (hdr_list (cp_Headers (PrepareHeader_part ?b))) = Inr True
      \<longleftrightarrow> headers_match env (Some h) (hdr_list (cp_Headers (PrepareHeader_part c))) = Inr True
        \<and> headers_match env (Some h) (hdr_list (cp_Headers (PrepareHeader_part other))) = Inr True"
    using assms(5-7) by (intro combine_headers) auto
  have fl: "flags_match fl (PrepareHeader_part ?b) \<longleftrightarrow> flags_match fl (PrepareHeader_part c) \<and> flags_match fl (PrepareHeader_part other)"
    using assms(8) by (auto simp: flags_match_alt Combine_part_def flags_Has_or)
  have te: "terms_match env t (cp_Terms ?b) \<longleftrightarrow> terms_match env t (cp_Terms c) \<and> terms_match env t (cp_Terms other)"
    using assms(11) by (simp add: terms_match_def Combine_part_def)
  have da: "dates_match env (Some h) part_DATE (PrepareHeader_part ?b) = Inr True \<longleftrightarrow>
      dates_match env (Some h) part_DATE (PrepareHeader_part c) = Inr True
      \<and> dates_match env (Some h) part_DATE (PrepareHeader_part other) = Inr True"
    using assms(9,10) by (auto simp: dates_match_def Combine_part_def split: option.splits)
  have "?H t (PrepareHeader_part ?b) \<longleftrightarrow> ?H t (PrepareHeader_part c) \<and> ?H t (PrepareHeader_part other)"
    unfolding part_holds_def prepared_fields using he fl te da by blast
  moreover have "cr_Match (Combine (Some cr) other) = Some ?b" "cr_Exclude (Combine (Some cr) other) = cr_Exclude cr"
    "cr_Match (Combine None other) = Some other" "cr_Exclude (Combine None other) = None"
    using assms(3,4) by (simp_all add: Combine_def Combine_part_def[of None])
  ultimately show ?thesis
    using same1 same2 assms(4) by (auto simp: matches_holds[OF r t(1)] matches_holds[OF r t(2)] matches_holds[OF r t(3)])
qed

definition only_without :: "flags \<Rightarrow> search_criteria_part" where
  "only_without fl =
     \<lparr>cp_WithFlags = 0, cp_WithoutFlags = fl, cp_From = [], cp_To = [], cp_Cc = [], cp_Headers = None,
      cp_StartDate = 0, cp_EndDate = 0, cp_SearchBody = False, cp_SearchAll = False, cp_Terms = [], cp_Invert = False\<rparr>"

definition sample_raw :: "flags \<Rightarrow> string \<Rightarrow> unit raw_message" where
  "sample_raw fl subject =
     \<lparr>rm_UID = ''1'', rm_Flags = Inr fl,
      rm_Info = Inr ((sample_message ''1'')\<lparr>mi_RFC822Headers := Some (), mi_Flags := fl\<rparr>),
      rm_Part = (\<lambda>_. Inl SearchPanic), rm_All = Inr subject\<rparr>"

definition sample_search_env :: "unit search_env" where
  "sample_search_env =
     \<lparr>se_Get = (\<lambda>_ k. if k = ''From'' then ''Bob'' else []), se_Date = (\<lambda>_. Some 10),
      se_LexArgs = (\<lambda>s. filter (\<lambda>w. w \<noteq> []) (str_split1 (CHR '' '') s))\<rparr>"

definition sample_readable :: "unit raw_message" where
  "sample_readable = (sample_raw 3 [])\<lparr>rm_Part := (\<lambda>_. Inr []),
     rm_Info := Inr ((sample_message ''1'')\<lparr>mi_RFC822Headers := Some (), mi_Flags := 3, mi_BodyStructure := Some (sample_leaf ''text'' ''plain'')\<rparr>)\<rparr>"

lemma combine_conjunction_witness:
  "matches sample_search_env sample_readable
     (Combine (Some \<lparr>cr_Match = Some ((only_without 32)\<lparr>cp_From := [''bob'']\<rparr>), cr_Exclude = None, cr_UseExtension = False\<rparr>)
        ((only_without 0)\<lparr>cp_StartDate := 7\<rparr>))"
proof -
  let ?m = sample_readable
  let ?c = "(only_without 32)\<lparr>cp_From := [''bob'']\<rparr>" and ?o = "(only_without 0)\<lparr>cp_StartDate := 7\<rparr>"
  let ?cr = "\<lparr>cr_Match = Some ?c, cr_Exclude = None, cr_UseExtension = False\<rparr>"
  have m: "matches sample_search_env ?m ?cr" "matches sample_search_env ?m (Combine None ?o)" by code_simp+
  have t: "time_IsZero (cp_StartDate ?c)" "time_IsZero (cp_EndDate ?c)" by (simp_all add: only_without_def time_IsZero_def)
  have "readable ?m"
    by (simp add: readable_def sample_readable_def sample_raw_def sample_message_def search_text_def part_defs)
  then show ?thesis
    using m t by (subst combine_conjunction[where c = ?c])
      (simp_all add: only_without_def hdr_list_def sample_search_env_def)
qed

text \<open>
  Excluding flags is weaker than it looks: with two flags to be absent, in one search or
  in two filters, a message is left out only if it has both of them.
\<close>

lemma without_flags_combined:
  assumes "a \<noteq> 0" "b \<noteq> 0" "rm_Flags m = Inr fl" "rm_Info m = Inr info" "mi_Envelope info = Some e"
    and "se_LexArgs env [] = []"
  shows "(search_part env m (Some (PrepareHeader_part (Combine_part (Some (only_without a)) (only_without b)))) part_FLAGS
      = Inr True) = (\<not> (flags_Has fl a \<and> flags_Has fl b))
    \<and> (search_part env m (Some (PrepareHeader_part (only_without a))) part_FLAGS = Inr True) = (\<not> flags_Has fl a)"
proof -
  have hd: "hdr_list (cp_Headers (PrepareHeader_part c)) = []"
    if "cp_From c = []" "cp_To c = []" "cp_Cc c = []" "hdr_list (cp_Headers c) = []" for c
    using that by (auto simp: PrepareHeader_part_def hdr_list_def split: option.splits)
  have bits: "part_FLAGS AND part_FLAGS > 0" "\<not> part_FLAGS AND part_BODY > 0" "\<not> part_FLAGS AND part_ALL > 0"
    "\<not> part_FLAGS AND part_DATE > 0"
    by (simp_all add: part_defs)
  have one: "(search_part env m (Some (PrepareHeader_part c)) part_FLAGS = Inr True) = flags_match fl c"
    if "cp_From c = []" "cp_To c = []" "cp_Cc c = []" "hdr_list (cp_Headers c) = []" "cp_Terms c = []" for c
    using that hd[OF that(1-4)] assms(3-6) bits
    by (auto simp: search_part_True_iff headers_match_def terms_match_def dates_match_def search_text_def flags_match_def)
  have "(search_part env m (Some (PrepareHeader_part (Combine_part (Some (only_without a)) (only_without b)))) part_FLAGS
      = Inr True) = (\<not> (flags_Has fl a \<and> flags_Has fl b))"
    using assms(1,2) by (subst one)
      (simp_all add: Combine_part_def only_without_def hdr_list_def hdr_Copy_def flags_match_alt flags_Has_or flags_or_zero)
  moreover have "(search_part env m (Some (PrepareHeader_part (only_without a))) part_FLAGS = Inr True) = (\<not> flags_Has fl a)"
    using assms(1) by (subst one) (simp_all add: only_without_def hdr_list_def flags_match_alt)
  ultimately show ?thesis by blast
qed

lemma without_flags_combined_witness:
  "search_part sample_search_env (sample_raw SeenFlag []) (Some (PrepareHeader_part
      (Combine_part (Some (only_without SeenFlag)) (only_without FlaggedFlag)))) part_FLAGS = Inr True"
proof -
  have "SeenFlag \<noteq> 0" "FlaggedFlag \<noteq> 0" "\<not> flags_Has SeenFlag FlaggedFlag"
    by (simp_all add: flag_defs flags_Has_def)
  moreover have "rm_Flags (sample_raw SeenFlag []) = Inr SeenFlag" "se_LexArgs sample_search_env [] = []"
    "rm_Info (sample_raw SeenFlag []) = Inr ((sample_message ''1'')\<lparr>mi_RFC822Headers := Some (), mi_Flags := SeenFlag\<rparr>)"
    "mi_Envelope ((sample_message ''1'')\<lparr>mi_RFC822Headers := Some (), mi_Flags := SeenFlag\<rparr>) = mi_Envelope (sample_message ''1'')"
    by (simp_all add: sample_raw_def sample_search_env_def)
  ultimately show ?thesis
    using without_flags_combined[of SeenFlag FlaggedFlag "sample_raw SeenFlag []" SeenFlag _ _ sample_search_env]
    by (simp add: sample_message_def)
qed

text \<open>
  C21. Only what a search needs is read, and that is enough: when the flags of a message can
  be read and it has headers, each part of the criteria gives the same answer as if the
  flags and the date were always read.
\<close>

theorem required_parts_enough:
  assumes "part \<in> {cr_Match cr, cr_Exclude cr}" "rm_Flags m = Inr fl" "rm_Info m = Inr info"
    and "mi_RFC822Headers info = Some h"
  shows "search_part env m part (GetRequiredParts cr)
    = search_part env m part (GetRequiredParts cr OR part_FLAGS OR part_DATE)"
proof (cases part)
  case None
  then show ?thesis by (simp add: search_part_def)
next
  case (Some c)
  let ?p = "GetRequiredParts cr" and ?q = "GetRequiredParts cr OR part_FLAGS OR part_DATE"
  have bits: "?p AND part_BODY > 0 \<longleftrightarrow> ?q AND part_BODY > 0" "?p AND part_ALL > 0 \<longleftrightarrow> ?q AND part_ALL > 0"
    "?q AND part_FLAGS > 0" "?q AND part_DATE > 0"
    unfolding part_defs part_bit by (simp_all add: bit_or_iff bit_1_iff bit_push_bit_iff)
  have req: "cp_WithFlags c \<noteq> 0 \<or> cp_WithoutFlags c \<noteq> 0 \<Longrightarrow> ?p AND part_FLAGS > 0"
    "\<not> time_IsZero (cp_StartDate c) \<or> \<not> time_IsZero (cp_EndDate c) \<Longrightarrow> ?p AND part_DATE > 0"
    using assms(1) Some required_bits[of c]
    unfolding part_defs part_bit by (auto simp: GetRequiredParts_def bit_or_iff)
  have body: "search_text m info ?p = search_text m info ?q" by (simp only: search_text_def bits)
  have fl: "flags_match (if ?p AND part_FLAGS > 0 then fl else 0) c = flags_match fl c"
    using req(1) by (auto simp: flags_match_def)
  have da: "dates_match env (Some h) ?p c = dates_match env (Some h) ?q c"
    using req(2) bits(4) by (auto simp: dates_match_def split: option.splits)
  show ?thesis
    using assms(2-4) bits(3) body fl da by (auto simp: Some search_part_def bind_err_def split: sum.splits)
qed

lemma required_parts_enough_witness:
  "search_part sample_search_env (sample_raw 3 []) (Some (only_without 0)) 0
     = search_part sample_search_env (sample_raw 3 []) (Some (only_without 0)) 5"
proof -
  let ?cr = "\<lparr>cr_Match = Some (only_without 0), cr_Exclude = None, cr_UseExtension = False\<rparr>"
  have "GetRequiredParts ?cr = 0" by code_simp
  moreover have "(0::int) OR part_FLAGS OR part_DATE = 5" by code_simp
  ultimately show ?thesis
    using required_parts_enough[of "Some (only_without 0)" ?cr "sample_raw 3 []" 3 _ "()" sample_search_env]
    by (simp add: sample_raw_def)
qed

text \<open>What the manual says otherwise: a value left out finds any message, the end date is included.\<close>

lemma empty_header_value_matches: "containsSmartCase s []"
  by (cases "to_lower s") (simp_all add: containsSmartCase_def hasUpper_def utf8_runes_def str_contains_def has_prefix_def)

lemma end_date_included:
  "se_Date env h = Some (cp_EndDate c) \<Longrightarrow> cp_StartDate c \<le> cp_EndDate c \<Longrightarrow> dates_match env (Some h) parts c = Inr True"
  by (auto simp: dates_match_def)

end
