(* ===== verification/MsgStore.thy ===== *)
theory MsgStore
  imports ThreadBuilder Marker Sorting Search "HOL-Library.Monad_Syntax"
begin

text \<open>
  \<open>lib/msgstore.go\<close>: the store behind a message list: its UIDs and messages, the selection,
  search results, pending fetches, the reaction to the worker's messages and the client-side
  threads.  An operation is a function on the state that is \<open>None\<close> where Go would panic or
  the threading runs out of fuel.  Actions posted to the worker and calls of the registered
  callbacks are appended to \<open>ms_out\<close>; a reply of the worker to an action is an operation of
  its own.  The two debounce timers are flags, their firing an operation.  The pointer to a
  message shared with the thread builder is a copy there.
\<close>

record ui_config =
  ui_ReverseOrder :: bool
  ui_ReverseThreadOrder :: bool
  ui_SelectLast :: bool
  ui_ThreadingBySubject :: bool
  ui_SortThreadSiblings :: bool
  ui_ThreadingEnabled :: bool
  ui_ThreadContext :: bool
  ui_ForceClientThreads :: bool

datatype store_out =
    FetchMessageHeaders "uid list"
  | FetchFullMessages "uid list"
  | FetchMessageFlags "uid list"
  | FetchDirectoryContents "sort_criterion list option" "search_criteria option"
  | FetchDirectoryThreaded "sort_criterion list option" "search_criteria option" bool
  | DeleteMessages "uid list"
  | CreateDirectory string
  | MoveMessages string "uid list"
  | SearchDirectory search_criteria
  | OnSelect uid | OnUpdate | OnUpdateDirs | OnFilterChange
  | NewEmail uid | DirectoryChange | MailDeleted | MailAdded string
  | BodyCallback nat uid
  | CopyMessages string "uid list"
  | AppendMessage string flags go_time int
  | FlagMessages "uid list" flags bool
  | AnsweredMessages "uid list" bool
  | ForwardedMessages "uid list" bool
  | ModifyLabels "uid list" "string list" "string list" "string list"
  | FetchMessageBodyPart uid "int list"
  | FlagChanged string
  | TagModified "string list" "string list" "string list"

text \<open>The replies the callbacks distinguish.\<close>

datatype store_reply = RError | RDone | RCancelled | RUnsupported

record 'h msgstore =
  ms_Name :: string
  ms_Deleted :: "uid set"
  ms_Messages :: "uid \<rightharpoonup> 'h message_info option"
  ms_Sorting :: bool
  ms_ui :: ui_config
  ms_uids :: "uid list"
  ms_threads :: "thread list"
  ms_scrollOffset :: int
  ms_scrollLen :: int
  ms_selectedUid :: uid
  ms_bodyCallbacks :: "uid \<rightharpoonup> nat list"
  ms_marker :: "marker option"
  ms_results :: "uid list"
  ms_resultIndex :: int
  ms_filter :: "search_criteria option"
  ms_sortCriteria :: "sort_criterion list option"
  ms_sortDefault :: "sort_criterion list option"
  ms_threadedView :: bool
  ms_threadContext :: bool
  ms_buildThreads :: bool
  ms_builder :: "'h thread_builder option"
  ms_directoryContentsLoaded :: bool
  ms_pendingBodies :: "uid set"
  ms_pendingHeaders :: "uid set"
  ms_needsFlags :: "uid list"
  ms_flagsTimer :: bool
  ms_builderTimer :: bool
  ms_threadCallback :: "int option"
  ms_iterReverse :: bool
  ms_out :: "store_out list"

definition MagicUid :: uid where "MagicUid = []"

definition NewMessageStore :: "string \<Rightarrow> ui_config \<Rightarrow> 'h msgstore" where
  "NewMessageStore name ui =
     \<lparr>ms_Name = name, ms_Deleted = {}, ms_Messages = Map.empty, ms_Sorting = False, ms_ui = ui,
      ms_uids = [], ms_threads = [], ms_scrollOffset = 0, ms_scrollLen = 25, ms_selectedUid = MagicUid,
      ms_bodyCallbacks = Map.empty, ms_marker = None, ms_results = [], ms_resultIndex = 0,
      ms_filter = None, ms_sortCriteria = None, ms_sortDefault = None, ms_threadedView = False,
      ms_threadContext = False, ms_buildThreads = False, ms_builder = None,
      ms_directoryContentsLoaded = False, ms_pendingBodies = {}, ms_pendingHeaders = {},
      ms_needsFlags = [], ms_flagsTimer = False, ms_builderTimer = False, ms_threadCallback = None,
      ms_iterReverse = False, ms_out = []\<rparr>"

definition ms_Configure :: "sort_criterion list option \<Rightarrow> bool \<Rightarrow> 'h msgstore \<Rightarrow> 'h msgstore" where
  "ms_Configure defaultSort backendThreads s =
     (let ui = ms_ui s
      in s\<lparr>ms_buildThreads := ui_ForceClientThreads ui \<or> \<not> backendThreads,
           ms_iterReverse := ui_ReverseOrder ui,
           ms_threadedView := ui_ThreadingEnabled ui,
           ms_threadContext := ui_ThreadContext ui,
           ms_sortDefault := defaultSort,
           ms_sortCriteria := (if ms_sortCriteria s = None then defaultSort else ms_sortCriteria s)\<rparr>)"

definition ms_UpdateScroll :: "int \<Rightarrow> int \<Rightarrow> 'h msgstore \<Rightarrow> 'h msgstore" where
  "ms_UpdateScroll offset len s = s\<lparr>ms_scrollOffset := offset, ms_scrollLen := len\<rparr>"

definition emit :: "store_out \<Rightarrow> 'h msgstore \<Rightarrow> 'h msgstore" where
  "emit e s = s\<lparr>ms_out := ms_out s @ [e]\<rparr>"

subsection \<open>Fetching\<close>

fun collect_headers :: "uid list \<Rightarrow> uid set \<Rightarrow> uid list \<Rightarrow> uid list \<times> uid set" where
  "collect_headers [] pending toFetch = (toFetch, pending)"
| "collect_headers (uid # uids) pending toFetch =
     (if uid \<notin> pending then collect_headers uids (insert uid pending) (toFetch @ [uid])
      else collect_headers uids pending toFetch)"

definition FetchHeaders :: "uid list \<Rightarrow> 'h msgstore \<Rightarrow> 'h msgstore" where
  "FetchHeaders uids s =
     (case collect_headers uids (ms_pendingHeaders s) [] of
        (toFetch, pending) \<Rightarrow>
          (let s = s\<lparr>ms_pendingHeaders := pending\<rparr>
           in if length toFetch > 0 then emit (FetchMessageHeaders toFetch) s else s))"

definition headers_reply :: "uid list \<Rightarrow> store_reply \<Rightarrow> 'h msgstore \<Rightarrow> 'h msgstore" where
  "headers_reply toFetch r s =
     (if r = RError \<or> r = RDone \<or> r = RCancelled
      then s\<lparr>ms_pendingHeaders := ms_pendingHeaders s - set toFetch\<rparr> else s)"

text \<open>A callback is a number; \<open>None\<close> is nil.\<close>

fun collect_bodies ::
  "uid list \<Rightarrow> nat option \<Rightarrow> uid set \<Rightarrow> (uid \<rightharpoonup> nat list) \<Rightarrow> uid list \<Rightarrow> uid list \<times> uid set \<times> (uid \<rightharpoonup> nat list)" where
  "collect_bodies [] cb pending cbs toFetch = (toFetch, pending, cbs)"
| "collect_bodies (uid # uids) cb pending cbs toFetch =
     (if uid \<notin> pending then
        collect_bodies uids cb (insert uid pending)
          (case cb of
             None \<Rightarrow> cbs
           | Some c \<Rightarrow> (case cbs uid of Some l \<Rightarrow> cbs(uid \<mapsto> l @ [c]) | None \<Rightarrow> cbs(uid \<mapsto> [c])))
          (toFetch @ [uid])
      else collect_bodies uids cb pending cbs toFetch)"

definition FetchFull :: "uid list \<Rightarrow> nat option \<Rightarrow> 'h msgstore \<Rightarrow> 'h msgstore" where
  "FetchFull uids cb s =
     (case collect_bodies uids cb (ms_pendingBodies s) (ms_bodyCallbacks s) [] of
        (toFetch, pending, cbs) \<Rightarrow>
          (let s = s\<lparr>ms_pendingBodies := pending, ms_bodyCallbacks := cbs\<rparr>
           in if length toFetch > 0 then emit (FetchFullMessages toFetch) s else s))"

definition full_reply :: "uid list \<Rightarrow> store_reply \<Rightarrow> 'h msgstore \<Rightarrow> 'h msgstore" where
  "full_reply toFetch r s =
     (if r = RError
      then s\<lparr>ms_pendingBodies := ms_pendingBodies s - set toFetch,
             ms_bodyCallbacks := ms_bodyCallbacks s |` (- set toFetch)\<rparr>
      else s)"

definition merge_info :: "'h message_info \<Rightarrow> 'h message_info \<Rightarrow> 'h message_info" where
  "merge_info to from =
     to\<lparr>mi_BodyStructure := (if mi_BodyStructure from \<noteq> None then mi_BodyStructure from else mi_BodyStructure to),
        mi_Envelope := (if mi_Envelope from \<noteq> None then mi_Envelope from else mi_Envelope to),
        mi_Labels := mi_Labels from,
        mi_Error := mi_Error from,
        mi_RFC822Headers := (if mi_RFC822Headers from \<noteq> None then mi_RFC822Headers from else mi_RFC822Headers to),
        mi_Size := (if mi_Size from \<noteq> 0 then mi_Size from else mi_Size to),
        mi_InternalDate := (if mi_InternalDate from \<noteq> 0 then mi_InternalDate from else mi_InternalDate to)\<rparr>"

definition actualPositionInList :: "int \<Rightarrow> int \<Rightarrow> bool \<Rightarrow> int" where
  "actualPositionInList pos len reverse = (if \<not> reverse then len - pos - 1 else pos)"

subsection \<open>The list and the selection\<close>

definition ms_Uids :: "'h msgstore \<Rightarrow> uid list" where
  "ms_Uids s =
     (case (ms_threadedView s, ms_builder s) of
        (True, Some b) \<Rightarrow> if length (builder_Uids b) > 0 then builder_Uids b else ms_uids s
      | _ \<Rightarrow> ms_uids s)"

definition insertUid :: "uid \<Rightarrow> int option \<Rightarrow> 'h msgstore \<Rightarrow> 'h msgstore" where
  "insertUid uid index s =
     (case index of
        None \<Rightarrow> s\<lparr>ms_uids := ms_uids s @ [uid]\<rparr>
      | Some i \<Rightarrow>
          if i \<le> 0 \<or> i \<ge> int (length (ms_uids s)) then s\<lparr>ms_uids := ms_uids s @ [uid]\<rparr>
          else s\<lparr>ms_uids := slice_insert (ms_uids s) (nat i) uid\<rparr>)"

definition ms_StartIndex :: "'h msgstore \<Rightarrow> 'a list \<Rightarrow> int" where
  "ms_StartIndex s xs = (if ms_iterReverse s then reverse_StartIndex xs else default_StartIndex xs)"

definition ms_EndIndex :: "'h msgstore \<Rightarrow> 'a list \<Rightarrow> int" where
  "ms_EndIndex s xs = (if ms_iterReverse s then reverse_EndIndex xs else default_EndIndex xs)"

definition FindIndexByUid :: "uid \<Rightarrow> 'h msgstore \<Rightarrow> int" where
  "FindIndexByUid uid s = find_idx (\<lambda>u. u = uid) (ms_Uids s)"

definition SelectedIndex :: "'h msgstore \<Rightarrow> int" where
  "SelectedIndex s = FindIndexByUid (ms_selectedUid s) s"

definition go_nth :: "'a list \<Rightarrow> int \<Rightarrow> 'a option" where
  "go_nth xs i = (if 0 \<le> i \<and> i < int (length xs) then Some (xs ! nat i) else None)"

text \<open>\<open>marker.UpdateVisualMark()\<close>, where there is a marker.\<close>

definition update_marker :: "'h msgstore \<Rightarrow> 'h msgstore option" where
  "update_marker s =
     (case ms_marker s of
        None \<Rightarrow> Some s
      | Some mc \<Rightarrow>
          map_option (\<lambda>mc. s\<lparr>ms_marker := Some mc\<rparr>) (UpdateVisualMark (ms_Uids s) (SelectedIndex s) mc))"

definition selectPriv :: "uid \<Rightarrow> 'h msgstore \<Rightarrow> 'h msgstore option" where
  "selectPriv uid s = update_marker (s\<lparr>ms_threadCallback := None, ms_selectedUid := uid\<rparr>)"

definition ms_Select :: "uid \<Rightarrow> 'h msgstore \<Rightarrow> 'h msgstore option" where
  "ms_Select uid s = do { s \<leftarrow> selectPriv uid s; Some (emit (OnSelect uid) s) }"

definition SelectedUid :: "'h msgstore \<Rightarrow> ('h msgstore \<times> uid) option" where
  "SelectedUid s =
     (if ms_selectedUid s = MagicUid \<and> length (ms_Uids s) > 0 then
        do {
          uid \<leftarrow> go_nth (ms_Uids s)
                   (if ui_SelectLast (ms_ui s) then ms_EndIndex s (ms_Uids s) else ms_StartIndex s (ms_Uids s));
          s \<leftarrow> ms_Select uid s;
          Some (s, ms_selectedUid s)
        }
      else Some (s, ms_selectedUid s))"

definition updateResults :: "'h msgstore \<Rightarrow> 'h msgstore option" where
  "updateResults s =
     (if length (ms_results s) = 0 \<or> ms_resultIndex s < 0 then Some s
      else do {
        (s, uid) \<leftarrow> SelectedUid s;
        Some (let i = find_idx (\<lambda>u. u = uid) (ms_results s)
              in if i < 0 then s else s\<lparr>ms_resultIndex := i\<rparr>)
      })"

definition NextPrev :: "int \<Rightarrow> 'h msgstore \<Rightarrow> 'h msgstore option" where
  "NextPrev delta s =
     (let uids = ms_Uids s
      in if length uids = 0 then Some s
         else do {
           (s, sel) \<leftarrow> SelectedUid s;
           let newIdx = FindIndexByUid sel s;
           if newIdx < 0 then do { u \<leftarrow> go_nth uids (ms_StartIndex s uids); ms_Select u s }
           else do {
             let newIdx = MoveIndex newIdx delta (ms_StartIndex s uids) (ms_EndIndex s uids) (Some FixBounds);
             u \<leftarrow> go_nth uids newIdx;
             s \<leftarrow> ms_Select u s;
             s \<leftarrow> update_marker (if ms_buildThreads s \<and> ms_threadedView s
                                 then s\<lparr>ms_threadCallback := Some newIdx\<rparr> else s);
             updateResults s
           }
         })"

subsection \<open>Client-side threads\<close>

record 'h thread_env =
  te_fuel :: nat
  te_ops :: "bool \<Rightarrow> 'h message_info threadable_ops"
  te_order :: "'h message_info threader \<Rightarrow> nat list"
  te_sort :: "(thread \<Rightarrow> int) \<Rightarrow> thread list \<Rightarrow> thread list"

text \<open>A new builder, empty or updated with every message (stored under its own UID).\<close>

definition empty_builder :: "'h msgstore \<Rightarrow> 'h thread_builder" where
  "empty_builder s = NewThreadBuilder (ms_iterReverse s) (ui_ThreadingBySubject (ms_ui s))"

definition filled_builder :: "'h msgstore \<Rightarrow> 'h thread_builder" where
  "filled_builder s =
     (empty_builder s)\<lparr>tb_threadBlocks := (\<lambda>u.
        case ms_Messages s u of
          Some (Some m) \<Rightarrow> (case mi_MsgId (Some m) of Inl _ \<Rightarrow> None | Inr _ \<Rightarrow> Some m)
        | _ \<Rightarrow> None)\<rparr>"

definition the_builder :: "'h msgstore \<Rightarrow> 'h thread_builder" where
  "the_builder s = (case ms_builder s of Some b \<Rightarrow> b | None \<Rightarrow> filled_builder s)"

definition runThreadBuilder :: "'h msgstore \<Rightarrow> 'h msgstore" where
  "runThreadBuilder s = s\<lparr>ms_builder := Some (the_builder s), ms_builderTimer := True\<rparr>"

definition run_callback :: "'h msgstore \<Rightarrow> 'h msgstore option" where
  "run_callback s =
     (case ms_threadCallback s of
        None \<Rightarrow> Some s
      | Some newIdx \<Rightarrow>
          if int (length (ms_Uids s)) > newIdx then
            do { u \<leftarrow> go_nth (ms_Uids s) newIdx; selectPriv u s }
          else Some s)"

definition runThreadBuilderNow :: "'h thread_env \<Rightarrow> 'h msgstore \<Rightarrow> 'h msgstore option" where
  "runThreadBuilderNow te s =
     (let b = the_builder s
      in do {
        (th, b) \<leftarrow> builder_Threads (te_fuel te) (te_ops te (tb_bySubject b)) (te_order te) (te_sort te)
                     (ms_uids s) (ui_ReverseThreadOrder (ms_ui s)) (ui_SortThreadSiblings (ms_ui s)) b;
        s \<leftarrow> run_callback (s\<lparr>ms_builder := Some b, ms_threads := th\<rparr>);
        Some (emit OnUpdate s)
      })"

text \<open>The timer of the thread builder fires.\<close>

definition builder_fires :: "'h thread_env \<Rightarrow> 'h msgstore \<Rightarrow> 'h msgstore option" where
  "builder_fires te s =
     (if ms_builderTimer s then runThreadBuilderNow te (s\<lparr>ms_builderTimer := False\<rparr>) else Some s)"

definition rebuild_threads :: "thread list \<Rightarrow> 'h msgstore \<Rightarrow> 'h msgstore option" where
  "rebuild_threads ths s =
     (let b = (case ms_builder s of Some b \<Rightarrow> b | None \<Rightarrow> empty_builder s)
      in do {
        (ths, b) \<leftarrow> RebuildUids ths (ui_ReverseThreadOrder (ms_ui s)) b;
        Some (s\<lparr>ms_builder := Some b, ms_threads := ths\<rparr>)
      })"

definition store_update :: "bool \<Rightarrow> 'h msgstore \<Rightarrow> 'h msgstore option" where
  "store_update threads s =
     (let s = emit OnUpdateDirs (emit OnUpdate s)
      in if ms_threadedView s \<and> threads then
           (if ms_buildThreads s then Some (runThreadBuilder s) else rebuild_threads (ms_threads s) s)
         else Some s)"

subsection \<open>Search results, sorting\<close>

definition nextPrevResult :: "int \<Rightarrow> 'h msgstore \<Rightarrow> 'h msgstore option" where
  "nextPrevResult delta s =
     (if length (ms_results s) = 0 then Some s
      else
        (let i = (if ms_resultIndex s < 0 then ms_StartIndex s (ms_results s)
                  else MoveIndex (ms_resultIndex s) delta (ms_StartIndex s (ms_results s))
                         (ms_EndIndex s (ms_results s)) (Some WrapBounds))
         in do {
           u \<leftarrow> go_nth (ms_results s) i;
           s \<leftarrow> ms_Select u (s\<lparr>ms_resultIndex := i\<rparr>);
           store_update False s
         }))"

definition ApplySearch :: "uid list \<Rightarrow> 'h msgstore \<Rightarrow> 'h msgstore option" where
  "ApplySearch results s = nextPrevResult 1 (s\<lparr>ms_results := results, ms_resultIndex := -1\<rparr>)"

definition IsResult :: "uid \<Rightarrow> 'h msgstore \<Rightarrow> bool" where
  "IsResult uid s = List.member (ms_results s) uid"

definition ms_Search :: "search_criteria \<Rightarrow> 'h msgstore \<Rightarrow> 'h msgstore" where
  "ms_Search terms s = emit (SearchDirectory terms) s"

text \<open>What the callback of a search is given of the worker's results.\<close>

definition search_results :: "uid list \<Rightarrow> 'h msgstore \<Rightarrow> uid list" where
  "search_results found s =
     (let allowedUids = ms_Uids s
      in SortBy (filter (\<lambda>uid. List.member allowedUids uid) found) allowedUids)"

definition SetFilter :: "search_criteria_part \<Rightarrow> 'h msgstore \<Rightarrow> 'h msgstore" where
  "SetFilter terms s = s\<lparr>ms_filter := Some (Combine (ms_filter s) terms)\<rparr>"

text \<open>\<open>Sort\<close>, with the index its reply works with.\<close>

definition ms_Sort :: "sort_criterion list option \<Rightarrow> 'h msgstore \<Rightarrow> 'h msgstore \<times> int" where
  "ms_Sort criteria s =
     (let s = s\<lparr>ms_sortCriteria := criteria, ms_Sorting := True\<rparr>;
          idx = int (length (ms_Uids s)) - (SelectedIndex s + 1)
      in (emit (if ms_threadedView s \<and> \<not> ms_buildThreads s
                then FetchDirectoryThreaded criteria (ms_filter s) (ms_threadContext s)
                else FetchDirectoryContents criteria (ms_filter s)) s, idx))"

definition sort_reply :: "int \<Rightarrow> 'h msgstore \<Rightarrow> 'h msgstore option" where
  "sort_reply idx s =
     do {
       (s, uid) \<leftarrow> SelectedUid s;
       s \<leftarrow> ms_Select uid s;
       s \<leftarrow> (if SelectedIndex s < 0 then do { s \<leftarrow> ms_Select MagicUid s; NextPrev idx s } else Some s);
       Some (s\<lparr>ms_Sorting := False\<rparr>)
     }"

definition ApplyClear :: "'h msgstore \<Rightarrow> 'h msgstore \<times> int" where
  "ApplyClear s = ms_Sort (ms_sortDefault s) (emit OnFilterChange (s\<lparr>ms_filter := None, ms_results := []\<rparr>))"

definition SetThreadedView :: "bool \<Rightarrow> 'h msgstore \<Rightarrow> 'h msgstore \<times> int option" where
  "SetThreadedView thread s =
     (let s = s\<lparr>ms_threadedView := thread\<rparr>
      in if ms_buildThreads s then
           (if ms_threadedView s then runThreadBuilder s else s\<lparr>ms_builderTimer := False\<rparr>, None)
         else map_prod id Some (ms_Sort (ms_sortCriteria s) s))"

definition ToggleThreadContext :: "'h msgstore \<Rightarrow> 'h msgstore \<times> int option" where
  "ToggleThreadContext s =
     (if \<not> ms_threadedView s then (s, None)
      else map_prod id Some (ms_Sort (ms_sortCriteria s) (s\<lparr>ms_threadContext := \<not> ms_threadContext s\<rparr>)))"

definition ms_Marker :: "'h msgstore \<Rightarrow> 'h msgstore \<times> marker" where
  "ms_Marker s =
     (case ms_marker s of
        Some mc \<Rightarrow> (s, mc)
      | None \<Rightarrow> (s\<lparr>ms_marker := Some marker_New\<rparr>, marker_New))"

subsection \<open>Deleting and moving\<close>

definition ms_Delete :: "uid list \<Rightarrow> 'h msgstore \<Rightarrow> 'h msgstore" where
  "ms_Delete uids s = emit (DeleteMessages uids) (s\<lparr>ms_Deleted := ms_Deleted s \<union> set uids\<rparr>)"

definition revertDeleted :: "uid list \<Rightarrow> 'h msgstore \<Rightarrow> 'h msgstore" where
  "revertDeleted uids s = s\<lparr>ms_Deleted := ms_Deleted s - set uids\<rparr>"

definition delete_reply :: "uid list \<Rightarrow> store_reply \<Rightarrow> 'h msgstore \<Rightarrow> 'h msgstore" where
  "delete_reply uids r s =
     (let s = (if r = RError \<or> r = RUnsupported then revertDeleted uids s else s)
      in if r = RDone then emit MailDeleted s else s)"

definition ms_Move :: "uid list \<Rightarrow> string \<Rightarrow> bool \<Rightarrow> 'h msgstore \<Rightarrow> 'h msgstore" where
  "ms_Move uids dest createDest s =
     (let s = s\<lparr>ms_Deleted := ms_Deleted s \<union> set uids\<rparr>;
          s = (if createDest then emit (CreateDirectory dest) s else s)
      in emit (MoveMessages dest uids) s)"

definition move_reply :: "uid list \<Rightarrow> string \<Rightarrow> store_reply \<Rightarrow> 'h msgstore \<Rightarrow> 'h msgstore" where
  "move_reply uids dest r s =
     (case r of
        RError \<Rightarrow> revertDeleted uids s
      | RDone \<Rightarrow> emit (MailAdded dest) (emit MailDeleted s)
      | _ \<Rightarrow> s)"

subsection \<open>Requests that leave the store as it is\<close>

definition ms_Copy :: "uid list \<Rightarrow> string \<Rightarrow> bool \<Rightarrow> 'h msgstore \<Rightarrow> 'h msgstore" where
  "ms_Copy uids dest createDest s =
     emit (CopyMessages dest uids) (if createDest then emit (CreateDirectory dest) s else s)"

definition added_reply :: "string \<Rightarrow> store_reply \<Rightarrow> 'h msgstore \<Rightarrow> 'h msgstore" where
  "added_reply dest r s = (if r = RDone then emit (MailAdded dest) s else s)"

definition ms_Append :: "string \<Rightarrow> flags \<Rightarrow> go_time \<Rightarrow> int \<Rightarrow> 'h msgstore \<Rightarrow> 'h msgstore" where
  "ms_Append dest fl date len s = emit (AppendMessage dest fl date len) (emit (CreateDirectory dest) s)"

definition ms_Flag :: "uid list \<Rightarrow> flags \<Rightarrow> bool \<Rightarrow> 'h msgstore \<Rightarrow> 'h msgstore" where
  "ms_Flag uids fl enable s = emit (FlagMessages uids fl enable) s"

definition flag_name :: "flags \<Rightarrow> string" where
  "flag_name fl =
     (if fl = SeenFlag then ''seen'' else if fl = AnsweredFlag then ''answered''
      else if fl = ForwardedFlag then ''forwarded'' else if fl = FlaggedFlag then ''flagged''
      else if fl = DraftFlag then ''draft'' else [])"

definition flag_reply :: "flags \<Rightarrow> store_reply \<Rightarrow> 'h msgstore \<Rightarrow> 'h msgstore" where
  "flag_reply fl r s = (if r = RDone then emit (FlagChanged (flag_name fl)) s else s)"

definition ms_Answered :: "uid list \<Rightarrow> bool \<Rightarrow> 'h msgstore \<Rightarrow> 'h msgstore" where
  "ms_Answered uids answered s = emit (AnsweredMessages uids answered) s"

definition ms_Forwarded :: "uid list \<Rightarrow> bool \<Rightarrow> 'h msgstore \<Rightarrow> 'h msgstore" where
  "ms_Forwarded uids forwarded s = emit (ForwardedMessages uids forwarded) s"

definition ms_ModifyLabels :: "uid list \<Rightarrow> string list \<Rightarrow> string list \<Rightarrow> string list \<Rightarrow> 'h msgstore \<Rightarrow> 'h msgstore" where
  "ms_ModifyLabels uids add remove toggle s = emit (ModifyLabels uids add remove toggle) s"

definition labels_reply :: "string list \<Rightarrow> string list \<Rightarrow> string list \<Rightarrow> store_reply \<Rightarrow> 'h msgstore \<Rightarrow> 'h msgstore" where
  "labels_reply add remove toggle r s = (if r = RDone then emit (TagModified add remove toggle) s else s)"

definition FetchBodyPart :: "uid \<Rightarrow> int list \<Rightarrow> 'h msgstore \<Rightarrow> 'h msgstore" where
  "FetchBodyPart uid part s = emit (FetchMessageBodyPart uid part) s"

subsection \<open>Folding\<close>

text \<open>
  The nodes of the threads and the entries of the builder's map are the same objects in the
  code.  The marks are kept in the map, and \<open>RebuildUids\<close>, with which every fold ends, gives
  them to the nodes.
\<close>

definition hidden_of :: "(uid \<rightharpoonup> thread) \<Rightarrow> thread \<Rightarrow> int" where
  "hidden_of m t = (case m (th_Uid t) of Some st \<Rightarrow> th_Hidden st | None \<Rightarrow> th_Hidden t)"

definition folded_hidden :: "bool \<Rightarrow> bool \<Rightarrow> bool \<Rightarrow> int \<Rightarrow> int" where
  "folded_hidden hide toggle folded h =
     (if toggle then (if folded then (if h > 1 then h - 1 else 0) else h + 1)
      else if hide then h + 1
      else if h > 1 then h - 1
      else 0)"

definition change_hidden :: "(int \<Rightarrow> int) \<Rightarrow> uid \<Rightarrow> (uid \<rightharpoonup> thread) \<Rightarrow> (uid \<rightharpoonup> thread)" where
  "change_hidden f uid m =
     (case m uid of
        None \<Rightarrow> m
      | Some t \<Rightarrow> m(uid \<mapsto> Thread (th_Uid t) (f (th_Hidden t)) (th_Deleted t) (th_Dummy t) (th_Context t) (th_kids t)))"

text \<open>The walk over the thread, except for its first message.\<close>

definition fold_marks :: "uid \<Rightarrow> bool \<Rightarrow> bool \<Rightarrow> thread \<Rightarrow> (uid \<rightharpoonup> thread) \<Rightarrow> (uid \<rightharpoonup> thread)" where
  "fold_marks uid hide toggle t m =
     (let folded = (case th_kids t of [] \<Rightarrow> False | k # _ \<Rightarrow> hidden_of m k > 0)
      in fst (thread_Walk (\<lambda>n _ m. (if th_Uid n \<noteq> uid then change_hidden (folded_hidden hide toggle folded) (th_Uid n) m
                                    else m, TOk :: unit thread_err)) t m))"

datatype fold_error = NoThread

definition doThreadFolding :: "uid \<Rightarrow> bool \<Rightarrow> bool \<Rightarrow> 'h msgstore \<Rightarrow> (fold_error + 'h msgstore) option" where
  "doThreadFolding uid hide toggle s =
     (case ms_builder s of
        None \<Rightarrow> Some (Inl NoThread)
      | Some b \<Rightarrow>
          (case ThreadForUid uid b of
             None \<Rightarrow> Some (Inl NoThread)
           | Some t \<Rightarrow>
               if length (thread_Uids (Some t)) = 1 then Some (Inr s)
               else if \<not> toggle \<and> hide \<and> (case th_kids t of [] \<Rightarrow> False | k # _ \<Rightarrow> hidden_of (tb_threadMap b) k > 0)
               then Some (Inr s)
               else do {
                 s \<leftarrow> ms_Select uid
                        (s\<lparr>ms_builder := Some (b\<lparr>tb_threadMap := fold_marks uid hide toggle t (tb_threadMap b)\<rparr>)\<rparr>);
                 s \<leftarrow> rebuild_threads (ms_threads s) s;
                 Some (Inr s)
               }))"

definition ms_Fold :: "uid \<Rightarrow> bool \<Rightarrow> 'h msgstore \<Rightarrow> (fold_error + 'h msgstore) option" where
  "ms_Fold uid toggle s = doThreadFolding uid True toggle s"

definition ms_Unfold :: "uid \<Rightarrow> bool \<Rightarrow> 'h msgstore \<Rightarrow> (fold_error + 'h msgstore) option" where
  "ms_Unfold uid toggle s = doThreadFolding uid False toggle s"

subsection \<open>Messages of the worker\<close>

datatype 'h store_msg =
    OpenDirectory
  | DirectoryContents string "uid list"
  | DirectoryThreaded string "thread list"
  | MessageInfoMsg "'h message_info" bool bool bool
  | FullMessage uid
  | MessagesDeleted string "uid list"
  | OtherMessage

text \<open>What a case of \<open>Update\<close> leaves behind: the state and its four local variables.\<close>

record 'h update_result =
  ur_store :: "'h msgstore"
  ur_update :: bool
  ur_updateThreads :: bool
  ur_directoryChange :: bool
  ur_newUids :: "uid list"

definition no_update :: "'h msgstore \<Rightarrow> 'h update_result" where
  "no_update s = \<lparr>ur_store = s, ur_update = False, ur_updateThreads = False, ur_directoryChange = False, ur_newUids = []\<rparr>"

text \<open>
  The loop over the UIDs of a directory: the new map of messages, the UIDs without a
  message and those of them that are on the screen.
\<close>

fun contents_loop ::
  "'h msgstore \<Rightarrow> int \<Rightarrow> int \<Rightarrow> uid list \<Rightarrow> (uid \<rightharpoonup> 'h message_info option) \<times> bool \<times> uid list
     \<Rightarrow> (uid \<rightharpoonup> 'h message_info option) \<times> bool \<times> uid list" where
  "contents_loop s n i [] acc = acc"
| "contents_loop s n i (uid # uids) (newMap, change, newUids) =
     contents_loop s n (i + 1) uids
       (case ms_Messages s uid of
          Some m \<Rightarrow> (newMap(uid \<mapsto> m), change, newUids)
        | None \<Rightarrow>
            (let pos = actualPositionInList i n (ui_ReverseOrder (ms_ui s))
             in (newMap(uid \<mapsto> None), True,
                 if pos \<ge> ms_scrollOffset s \<and> pos < ms_scrollOffset s + ms_scrollLen s then newUids @ [uid] else newUids)))"

definition scan_contents :: "'h msgstore \<Rightarrow> uid list \<Rightarrow> (uid \<rightharpoonup> 'h message_info option) \<times> bool \<times> uid list" where
  "scan_contents s uids = contents_loop s (int (length uids)) 0 uids (Map.empty, False, [])"

definition update_contents :: "'h thread_env \<Rightarrow> string \<Rightarrow> uid list \<Rightarrow> 'h msgstore \<Rightarrow> 'h update_result option" where
  "update_contents te dir uids s =
     (if dir \<noteq> ms_Name s then Some (no_update s)
      else
        (case scan_contents s uids of
           (newMap, change, newUids) \<Rightarrow>
             do {
               s \<leftarrow> (let s = s\<lparr>ms_Messages := newMap, ms_uids := uids\<rparr>
                     in if ms_threadedView s then runThreadBuilderNow te s else Some s);
               Some ((no_update (s\<lparr>ms_directoryContentsLoaded := True\<rparr>))
                       \<lparr>ur_directoryChange := change, ur_newUids := newUids\<rparr>)
             }))"

definition update_threaded :: "string \<Rightarrow> thread list \<Rightarrow> 'h msgstore \<Rightarrow> 'h update_result option" where
  "update_threaded dir ths s =
     (if dir \<noteq> ms_Name s then Some (no_update s)
      else
        do {
          s \<leftarrow> rebuild_threads ths s;
          let s = s\<lparr>ms_uids := builder_Uids (the_builder s)\<rparr>;
          Some (case scan_contents s (ms_uids s) of
                  (newMap, change, newUids) \<Rightarrow>
                    (no_update (s\<lparr>ms_Messages := newMap, ms_directoryContentsLoaded := True\<rparr>))
                      \<lparr>ur_update := True, ur_directoryChange := change, ur_newUids := newUids\<rparr>)
        })"

definition store_info :: "'h message_info \<Rightarrow> bool \<Rightarrow> bool \<Rightarrow> 'h msgstore \<Rightarrow> 'h msgstore" where
  "store_info info inResponse replaceFlags s =
     (let uid = mi_Uid info;
          infoUpdated = (mi_Envelope info \<noteq> None \<or> mi_Error info \<noteq> None);
          insert_new = (\<lambda>s. if \<not> inResponse \<and> \<not> List.member (ms_uids s) uid
                            then insertUid uid (mi_Index info) s else s)
      in case ms_Messages s uid of
           Some (Some existing) \<Rightarrow>
             s\<lparr>ms_Messages := (ms_Messages s)(uid \<mapsto>
                 Some ((merge_info existing info)\<lparr>mi_Flags :=
                         (if replaceFlags then mi_Flags info else mi_Flags existing OR mi_Flags info)\<rparr>))\<rparr>
         | _ \<Rightarrow>
             if infoUpdated then
               (let s = s\<lparr>ms_Messages := (ms_Messages s)(uid \<mapsto> Some info)\<rparr>;
                    s = (if ms_selectedUid s = uid then emit (OnSelect uid) s else s)
                in insert_new s)
             else if \<not> inResponse then
               insert_new (s\<lparr>ms_Messages := (ms_Messages s)(uid \<mapsto> Some info)\<rparr>)
             else s)"

definition update_info :: "'h message_info \<Rightarrow> bool \<Rightarrow> bool \<Rightarrow> bool \<Rightarrow> 'h msgstore \<Rightarrow> 'h update_result" where
  "update_info info inResponse replaceFlags needsFlags s =
     (if mi_Directory info \<noteq> ms_Name s then no_update s
      else
        (let s = store_info info inResponse replaceFlags s;
             s = (if needsFlags then s\<lparr>ms_needsFlags := ms_needsFlags s @ [mi_Uid info], ms_flagsTimer := True\<rparr> else s);
             seen = flags_Has (mi_Flags info) SeenFlag;
             recent = flags_Has (mi_Flags info) RecentFlag;
             s = (if \<not> seen \<and> recent \<and> mi_Envelope info \<noteq> None then emit (NewEmail (mi_Uid info)) s else s);
             s = (if mi_Envelope info \<noteq> None \<or> mi_Error info \<noteq> None
                  then s\<lparr>ms_pendingHeaders := ms_pendingHeaders s - {mi_Uid info}\<rparr> else s);
             s = s\<lparr>ms_builder := map_option (builder_Update (Some info)) (ms_builder s)\<rparr>
         in (no_update s)\<lparr>ur_update := True, ur_updateThreads := True\<rparr>))"

definition update_full :: "uid \<Rightarrow> 'h msgstore \<Rightarrow> 'h update_result" where
  "update_full uid s =
     (if uid \<in> ms_pendingBodies s then
        (let s = s\<lparr>ms_pendingBodies := ms_pendingBodies s - {uid}\<rparr>
         in no_update (case ms_bodyCallbacks s uid of
               Some cbs \<Rightarrow>
                 s\<lparr>ms_out := ms_out s @ map (\<lambda>cb. BodyCallback cb uid) cbs,
                   ms_bodyCallbacks := (ms_bodyCallbacks s)(uid := None)\<rparr>
             | None \<Rightarrow> s))
      else no_update s)"

definition mark_deleted :: "uid \<Rightarrow> (uid \<rightharpoonup> thread) \<Rightarrow> (uid \<rightharpoonup> thread)" where
  "mark_deleted uid m =
     (case m uid of
        None \<Rightarrow> m
      | Some t \<Rightarrow> m(uid \<mapsto> Thread (th_Uid t) (th_Hidden t) True (th_Dummy t) (th_Context t) (th_kids t)))"

definition update_deleted :: "string \<Rightarrow> uid list \<Rightarrow> 'h msgstore \<Rightarrow> 'h update_result option" where
  "update_deleted dir gone s =
     (if dir \<noteq> ms_Name s then Some (no_update s)
      else if length (ms_uids s) < length gone then Some ((no_update s)\<lparr>ur_update := True\<rparr>)
      else
        (let s = s\<lparr>ms_Messages := ms_Messages s |` (- set gone), ms_Deleted := ms_Deleted s - set gone\<rparr>;
             uids = filter (\<lambda>u. u \<notin> set gone) (ms_uids s)
         in do {
           s \<leftarrow> (let s = s\<lparr>ms_uids := uids\<rparr> in if length uids = 0 then ms_Select MagicUid s else Some s);
           let s = s\<lparr>ms_results := filter (\<lambda>u. u \<notin> set gone) (ms_results s)\<rparr>;
           let s = s\<lparr>ms_builder := map_option (\<lambda>b. b\<lparr>tb_threadMap := fold mark_deleted gone (tb_threadMap b)\<rparr>) (ms_builder s)\<rparr>;
           Some ((no_update s)\<lparr>ur_update := True, ur_updateThreads := True\<rparr>)
         }))"

definition update_case :: "'h thread_env \<Rightarrow> 'h store_msg \<Rightarrow> 'h msgstore \<Rightarrow> 'h update_result option" where
  "update_case te msg s =
     (case msg of
        OpenDirectory \<Rightarrow> Some ((no_update (fst (ms_Sort (ms_sortCriteria s) s)))\<lparr>ur_update := True\<rparr>)
      | DirectoryContents dir uids \<Rightarrow> update_contents te dir uids s
      | DirectoryThreaded dir ths \<Rightarrow> update_threaded dir ths s
      | MessageInfoMsg info inResponse replaceFlags needsFlags \<Rightarrow>
          Some (update_info info inResponse replaceFlags needsFlags s)
      | FullMessage uid \<Rightarrow> Some (update_full uid s)
      | MessagesDeleted dir gone \<Rightarrow> update_deleted dir gone s
      | OtherMessage \<Rightarrow> Some (no_update s))"

definition ms_Update :: "'h thread_env \<Rightarrow> 'h store_msg \<Rightarrow> 'h msgstore \<Rightarrow> 'h msgstore option" where
  "ms_Update te msg s =
     (let directoryContentsWasLoaded = ms_directoryContentsLoaded s
      in do {
        r \<leftarrow> update_case te msg s;
        s \<leftarrow> (if ur_update r then store_update (ur_updateThreads r) (ur_store r) else Some (ur_store r));
        let s = (if directoryContentsWasLoaded \<and> ur_directoryChange r then emit DirectoryChange s else s);
        Some (if length (ur_newUids r) > 0 then
                (let s = FetchHeaders (ur_newUids r) s
                 in if directoryContentsWasLoaded \<and> \<not> ur_directoryChange r then emit DirectoryChange s else s)
              else s)
      })"

text \<open>The timer of \<open>fetchFlags\<close> fires.\<close>

definition flags_fire :: "'h msgstore \<Rightarrow> 'h msgstore" where
  "flags_fire s =
     (if ms_flagsTimer s then
        (emit (FetchMessageFlags (ms_needsFlags s)) s)\<lparr>ms_needsFlags := [], ms_flagsTimer := False\<rparr>
      else s)"

subsection \<open>The store as a provider of UIDs\<close>

interpretation store_provider: uid_provider ms_Uids SelectedIndex
  by unfold_locales (simp add: SelectedIndex_def FindIndexByUid_def)

named_theorems store_simps

lemma ms_Uids_cong [store_simps]:
  "ms_Uids (s\<lparr>ms_marker := a\<rparr>) = ms_Uids s" "ms_Uids (s\<lparr>ms_threadCallback := b\<rparr>) = ms_Uids s"
  "ms_Uids (s\<lparr>ms_selectedUid := c\<rparr>) = ms_Uids s" "ms_Uids (s\<lparr>ms_out := d\<rparr>) = ms_Uids s"
  "ms_Uids (s\<lparr>ms_resultIndex := e\<rparr>) = ms_Uids s" "ms_Uids (s\<lparr>ms_results := f\<rparr>) = ms_Uids s"
  "ms_Uids (s\<lparr>ms_Sorting := g\<rparr>) = ms_Uids s" "ms_Uids (s\<lparr>ms_sortCriteria := h\<rparr>) = ms_Uids s"
  "ms_Uids (emit ev s) = ms_Uids s"
  by (cases "ms_threadedView s"; cases "ms_builder s"; simp add: ms_Uids_def emit_def)+

lemma emit_fields [store_simps]:
  "ms_selectedUid (emit ev s) = ms_selectedUid s" "ms_results (emit ev s) = ms_results s"
  "ms_resultIndex (emit ev s) = ms_resultIndex s" "ms_iterReverse (emit ev s) = ms_iterReverse s"
  "ms_ui (emit ev s) = ms_ui s" "ms_uids (emit ev s) = ms_uids s" "ms_Messages (emit ev s) = ms_Messages s"
  "ms_threadedView (emit ev s) = ms_threadedView s" "ms_buildThreads (emit ev s) = ms_buildThreads s"
  "ms_builder (emit ev s) = ms_builder s" "ms_threads (emit ev s) = ms_threads s" "ms_Deleted (emit ev s) = ms_Deleted s"
  "ms_Name (emit ev s) = ms_Name s" "ms_directoryContentsLoaded (emit ev s) = ms_directoryContentsLoaded s"
  by (simp_all add: emit_def)

text \<open>The marker never stops an operation: the locale's lemma, on the store.\<close>

lemma update_marker_total: "\<exists>mk. update_marker s = Some (s\<lparr>ms_marker := mk\<rparr>)"
proof (cases "ms_marker s")
  case None
  then have "s\<lparr>ms_marker := None\<rparr> = s" by (cases s) simp
  with None show ?thesis by (metis option.simps(4) update_marker_def)
next
  case (Some mc)
  then show ?thesis using store_provider.UpdateVisualMark_returns[of s mc]
    by (auto simp: update_marker_def)
qed

lemma ms_Select_total:
  "\<exists>mk. ms_Select u s = Some (emit (OnSelect u) (s\<lparr>ms_threadCallback := None, ms_selectedUid := u, ms_marker := mk\<rparr>))"
  using update_marker_total[of "s\<lparr>ms_threadCallback := None, ms_selectedUid := u\<rparr>"]
  by (auto simp: ms_Select_def selectPriv_def)

lemma ms_index_range [store_simps]:
  "xs \<noteq> [] \<Longrightarrow> 0 \<le> ms_StartIndex s xs" "xs \<noteq> [] \<Longrightarrow> ms_StartIndex s xs < int (length xs)"
  "xs \<noteq> [] \<Longrightarrow> 0 \<le> ms_EndIndex s xs" "xs \<noteq> [] \<Longrightarrow> ms_EndIndex s xs < int (length xs)"
  by (auto simp: ms_StartIndex_def ms_EndIndex_def reverse_StartIndex_def reverse_EndIndex_def
      default_StartIndex_def default_EndIndex_def Suc_le_eq)

end
