(* ===== verification/StoreProps.thy ===== *)
theory StoreProps
  imports MsgStore JwzRun
begin

text \<open>
  What the operations of the message store guarantee: the moves of the selection, the search
  results, the place kept by a sort, the bookkeeping of fetches and deletions, and the
  invariant of the list.
\<close>

subsection \<open>Selection\<close>

text \<open>What selecting leaves alone.\<close>

definition same_list :: "'h msgstore \<Rightarrow> 'h msgstore \<Rightarrow> bool" where
  "same_list s t \<longleftrightarrow> ms_Uids t = ms_Uids s \<and> ms_results t = ms_results s \<and> ms_iterReverse t = ms_iterReverse s
     \<and> ms_ui t = ms_ui s \<and> ms_threadedView t = ms_threadedView s \<and> ms_buildThreads t = ms_buildThreads s
     \<and> ms_uids t = ms_uids s \<and> ms_Messages t = ms_Messages s \<and> ms_Name t = ms_Name s
     \<and> ms_builder t = ms_builder s \<and> ms_threads t = ms_threads s
     \<and> (\<forall>i. ms_threadCallback t = Some i \<longrightarrow> 0 \<le> i \<or> ms_threadCallback s = Some i)"

lemma emit_callback [store_simps]: "ms_threadCallback (emit ev s) = ms_threadCallback s"
  by (simp add: emit_def)

lemma same_list_refl [simp]: "same_list s s"
  by (simp add: same_list_def)

lemma same_list_trans: "same_list s t \<Longrightarrow> same_list t u \<Longrightarrow> same_list s u"
  by (auto simp: same_list_def)

lemma same_list_fields [simp]:
  "same_list s (t\<lparr>ms_resultIndex := i\<rparr>) = same_list s t" "same_list s (s\<lparr>ms_threadCallback := None\<rparr>)"
  "same_list s (t\<lparr>ms_marker := mk\<rparr>) = same_list s t" "same_list s (emit ev t) = same_list s t"
  "same_list s (t\<lparr>ms_selectedUid := u\<rparr>) = same_list s t" "same_list s (t\<lparr>ms_Sorting := b\<rparr>) = same_list s t"
  by (simp_all add: same_list_def store_simps)

lemma Select_ex:
  "\<exists>t. ms_Select u s = Some t \<and> same_list s t \<and> ms_selectedUid t = u \<and> ms_resultIndex t = ms_resultIndex s"
  using ms_Select_total[of u s] by (auto simp: store_simps)

lemma update_marker_ex:
  "\<exists>t. update_marker s = Some t \<and> same_list s t \<and> ms_selectedUid t = ms_selectedUid s \<and> ms_resultIndex t = ms_resultIndex s"
  using update_marker_total[of s] by auto

lemma go_nth_in: "0 \<le> i \<Longrightarrow> i < int (length xs) \<Longrightarrow> go_nth xs i = Some (xs ! nat i)"
  by (simp add: go_nth_def)

lemma SelectedUid_ex:
  "\<exists>t. SelectedUid s = Some (t, ms_selectedUid t) \<and> same_list s t
    \<and> (ms_selectedUid s \<noteq> MagicUid \<or> ms_Uids s = [] \<longrightarrow> t = s)
    \<and> (ms_selectedUid s = MagicUid \<and> ms_Uids s \<noteq> [] \<longrightarrow>
         ms_selectedUid t = ms_Uids s ! nat (if ui_SelectLast (ms_ui s) then ms_EndIndex s (ms_Uids s) else ms_StartIndex s (ms_Uids s)))
    \<and> ms_resultIndex t = ms_resultIndex s"
proof (cases "ms_selectedUid s = MagicUid \<and> ms_Uids s \<noteq> []")
  case False
  then show ?thesis by (auto simp: SelectedUid_def)
next
  case True
  let ?i = "if ui_SelectLast (ms_ui s) then ms_EndIndex s (ms_Uids s) else ms_StartIndex s (ms_Uids s)"
  have "go_nth (ms_Uids s) ?i = Some (ms_Uids s ! nat ?i)"
    using True by (intro go_nth_in) (auto simp: store_simps)
  with Select_ex[of "ms_Uids s ! nat ?i" s] True show ?thesis by (auto simp: SelectedUid_def)
qed

lemma updateResults_ex:
  "ms_selectedUid s \<noteq> MagicUid \<Longrightarrow> \<exists>t. updateResults s = Some t \<and> same_list s t \<and> ms_selectedUid t = ms_selectedUid s"
  by (auto simp: updateResults_def SelectedUid_def Let_def)

lemma updateResults_ex': "\<exists>t. updateResults s = Some t \<and> same_list s t"
  using SelectedUid_ex[of s] by (auto simp: updateResults_def Let_def)

lemma MoveIndex_Fix:
  "MoveIndex i d a b (Some FixBounds) =
     (if b < a then max b (min a (i - d)) else max a (min b (i + d)))"
  by (auto simp: MoveIndex_def FixBounds_def Let_def)

text \<open>The index a move by \<open>delta\<close> leads to.\<close>

definition moved_index :: "'h msgstore \<Rightarrow> int \<Rightarrow> int \<Rightarrow> int" where
  "moved_index s i delta =
     max 0 (min (int (length (ms_Uids s)) - 1) (if ms_iterReverse s then i + delta else i - delta))"

lemma moved_index_range:
  "ms_Uids s \<noteq> [] \<Longrightarrow> 0 \<le> moved_index s i delta \<and> moved_index s i delta < int (length (ms_Uids s))"
  by (cases "ms_Uids s") (auto simp: moved_index_def)

lemma MoveIndex_store:
  assumes "ms_Uids s \<noteq> []" "0 \<le> i" "i < int (length (ms_Uids s))"
  shows "MoveIndex i delta (ms_StartIndex s (ms_Uids s)) (ms_EndIndex s (ms_Uids s)) (Some FixBounds) = moved_index s i delta"
  using assms unfolding MoveIndex_Fix
  by (auto simp: ms_StartIndex_def ms_EndIndex_def moved_index_def reverse_StartIndex_def reverse_EndIndex_def
      default_StartIndex_def default_EndIndex_def Suc_le_eq)

lemma same_list_moves:
  assumes "same_list s t"
  shows "ms_Uids t = ms_Uids s" "ms_StartIndex t xs = ms_StartIndex s xs" "ms_EndIndex t xs = ms_EndIndex s xs"
    "moved_index t i d = moved_index s i d" "FindIndexByUid u t = FindIndexByUid u s" "ms_ui t = ms_ui s"
  using assms by (simp_all add: same_list_def ms_StartIndex_def ms_EndIndex_def moved_index_def FindIndexByUid_def)

text \<open>A move from the selected message, once something is selected.\<close>

lemma NextPrev_ex:
  assumes "ms_Uids s \<noteq> []"
  obtains t1 t where "SelectedUid s = Some (t1, ms_selectedUid t1)" "same_list s t1"
    "NextPrev delta s = Some t" "same_list s t"
    "0 \<le> SelectedIndex t1 \<Longrightarrow> MagicUid \<notin> set (ms_Uids s) \<Longrightarrow>
       ms_selectedUid t = ms_Uids s ! nat (moved_index s (SelectedIndex t1) delta)"
proof -
  from SelectedUid_ex[of s] obtain t1 where t1: "SelectedUid s = Some (t1, ms_selectedUid t1)" "same_list s t1"
    by blast
  note e = same_list_moves[OF t1(2)]
  show ?thesis
  proof (cases "SelectedIndex t1 < 0")
    case True
    have "go_nth (ms_Uids s) (ms_StartIndex s (ms_Uids s)) = Some (ms_Uids s ! nat (ms_StartIndex s (ms_Uids s)))"
      using assms by (intro go_nth_in) (auto simp: store_simps)
    moreover obtain t where "ms_Select (ms_Uids s ! nat (ms_StartIndex s (ms_Uids s))) t1 = Some t" "same_list t1 t"
      using Select_ex by blast
    ultimately have "NextPrev delta s = Some t"
      using assms t1 True by (simp add: NextPrev_def Let_def e SelectedIndex_def)
    then show ?thesis using that[OF t1] True same_list_trans[OF t1(2) \<open>same_list t1 t\<close>] by simp
  next
    case False
    let ?j = "moved_index s (SelectedIndex t1) delta"
    have i: "0 \<le> SelectedIndex t1" "SelectedIndex t1 < int (length (ms_Uids s))"
      using False store_provider.selected_bound[of t1] by (auto simp: e)
    have j: "0 \<le> ?j" "?j < int (length (ms_Uids s))" using moved_index_range[OF assms] by auto
    have g: "go_nth (ms_Uids s) ?j = Some (ms_Uids s ! nat ?j)" using j by (rule go_nth_in)
    from Select_ex[of "ms_Uids s ! nat ?j" t1] obtain t2 where t2: "ms_Select (ms_Uids s ! nat ?j) t1 = Some t2"
      "same_list t1 t2" "ms_selectedUid t2 = ms_Uids s ! nat ?j" by blast
    let ?t2 = "if ms_buildThreads t2 \<and> ms_threadedView t2 then t2\<lparr>ms_threadCallback := Some ?j\<rparr> else t2"
    from update_marker_ex[of ?t2] obtain t3 where t3: "update_marker ?t2 = Some t3" "same_list ?t2 t3"
      "ms_selectedUid t3 = ms_selectedUid ?t2" by blast
    have sl3: "same_list s t3" "ms_selectedUid t3 = ms_Uids s ! nat ?j"
      using t1(2) t2 t3 j(1) by (auto simp: same_list_def store_simps split: if_splits)
    from updateResults_ex' obtain t4 where t4: "updateResults t3 = Some t4" "same_list t3 t4" by blast
    have sel: "ms_selectedUid t4 = ms_Uids s ! nat ?j" if "MagicUid \<notin> set (ms_Uids s)"
    proof -
      have "ms_Uids s ! nat ?j \<in> set (ms_Uids s)" using j by (intro nth_mem) auto
      then have "ms_selectedUid t3 \<noteq> MagicUid" using that sl3(2) by auto
      from updateResults_ex[OF this] t4 sl3 show ?thesis by auto
    qed
    have mv: "MoveIndex (SelectedIndex t1) delta (ms_StartIndex t1 (ms_Uids s)) (ms_EndIndex t1 (ms_Uids s)) (Some FixBounds) = ?j"
      using MoveIndex_store[OF assms i] by (simp add: e)
    have "NextPrev delta s = Some t4"
      using assms t1(1) False mv g t2(1) t3(1) t4(1) by (simp add: NextPrev_def Let_def SelectedIndex_def[symmetric])
    then show ?thesis using that[OF t1] sel same_list_trans[OF sl3(1) t4(2)] by simp
  qed
qed

subsection \<open>Properties\<close>

text \<open>
  C22. Moving through the list: whatever the state, no move panics; and from a selected
  message the selection goes \<open>delta\<close> places along the direction of the list and stops at its
  ends, the list staying as it is.
\<close>

theorem NextPrev_moves:
  "\<exists>t. NextPrev delta s = Some t \<and> ms_Uids t = ms_Uids s
    \<and> (0 \<le> SelectedIndex s \<and> MagicUid \<notin> set (ms_Uids s) \<longrightarrow>
         ms_selectedUid t = ms_Uids s ! nat (max 0 (min (int (length (ms_Uids s)) - 1)
           (if ms_iterReverse s then SelectedIndex s + delta else SelectedIndex s - delta))))"
proof (cases "ms_Uids s = []")
  case True
  then show ?thesis by (auto simp: NextPrev_def SelectedIndex_def FindIndexByUid_def)
next
  case False
  from NextPrev_ex[OF False, of delta] obtain t1 t where t: "SelectedUid s = Some (t1, ms_selectedUid t1)"
    "NextPrev delta s = Some t" "same_list s t"
    "0 \<le> SelectedIndex t1 \<Longrightarrow> MagicUid \<notin> set (ms_Uids s) \<Longrightarrow>
       ms_selectedUid t = ms_Uids s ! nat (moved_index s (SelectedIndex t1) delta)" by blast
  have "t1 = s" if "0 \<le> SelectedIndex s" "MagicUid \<notin> set (ms_Uids s)"
  proof -
    have "ms_selectedUid s \<in> set (ms_Uids s)"
      using that(1) by (auto simp: SelectedIndex_def FindIndexByUid_def find_idx_nonneg_iff)
    then have "ms_selectedUid s \<noteq> MagicUid" using that(2) by auto
    then show ?thesis using t(1) by (simp add: SelectedUid_def)
  qed
  then show ?thesis using t(2-4) by (auto simp: moved_index_def same_list_def)
qed

definition sample_ui :: ui_config where
  "sample_ui = \<lparr>ui_ReverseOrder = False, ui_ReverseThreadOrder = False, ui_SelectLast = False,
     ui_ThreadingBySubject = False, ui_SortThreadSiblings = False, ui_ThreadingEnabled = False,
     ui_ThreadContext = False, ui_ForceClientThreads = False\<rparr>"

definition sample_store :: "uid list \<Rightarrow> uid \<Rightarrow> unit msgstore" where
  "sample_store us sel =
     (NewMessageStore ''INBOX'' sample_ui)\<lparr>ms_uids := us, ms_selectedUid := sel,
        ms_Messages := (\<lambda>u. if u \<in> set us then Some None else None)\<rparr>"

definition sample_env :: "unit thread_env" where
  "sample_env = \<lparr>te_fuel = 100, te_ops = msg_threadable (\<lambda>_ _. []) (\<lambda>subj. (subj, False)),
     te_order = (\<lambda>th. [0..<length (th_heap th)]), te_sort = (\<lambda>_ ts. ts)\<rparr>"

lemma sample_store_Uids [simp]: "ms_Uids (sample_store us sel) = us"
  by (simp add: sample_store_def NewMessageStore_def ms_Uids_def)

lemma sample_store_fields [simp]:
  "ms_iterReverse (sample_store us sel) = False" "ms_selectedUid (sample_store us sel) = sel"
  "ms_ui (sample_store us sel) = sample_ui" "ms_Name (sample_store us sel) = ''INBOX''"
  "ms_uids (sample_store us sel) = us" "ms_threadedView (sample_store us sel) = False"
  "ms_results (sample_store us sel) = []"
  by (simp_all add: sample_store_def NewMessageStore_def)

lemma NextPrev_moves_witness:
  "\<exists>t. NextPrev 5 (sample_store [''1'', ''2'', ''3''] ''2'') = Some t \<and> ms_selectedUid t = ''1''"
proof -
  have "SelectedIndex (sample_store [''1'', ''2'', ''3''] ''2'') = 1"
    by (simp add: SelectedIndex_def FindIndexByUid_def)
  then show ?thesis
    using NextPrev_moves[of 5 "sample_store [''1'', ''2'', ''3''] ''2''"] by (auto simp: MagicUid_def)
qed

lemma MoveIndex_Wrap_range:
  assumes "(a = 0 \<and> b = n) \<or> (a = n \<and> b = 0)" "0 \<le> n"
  shows "0 \<le> MoveIndex i d a b (Some WrapBounds) \<and> MoveIndex i d a b (Some WrapBounds) \<le> n"
  using WrapBounds_range[OF assms(2), of "i + d"] WrapBounds_range[OF assms(2), of "i - d"] assms
  by (cases "n = 0") (auto simp: MoveIndex_def)

text \<open>
  C23. Going through search results: however the results shrank since the last step, the
  next or previous one is a result, the index stays one of the list, and nothing panics.
\<close>

theorem nextPrevResult_in_range:
  assumes "ms_results s \<noteq> []"
  shows "\<exists>t. nextPrevResult delta s = Some t \<and> ms_results t = ms_results s
    \<and> 0 \<le> ms_resultIndex t \<and> ms_resultIndex t < int (length (ms_results s))
    \<and> ms_selectedUid t = ms_results s ! nat (ms_resultIndex t)"
proof -
  let ?xs = "ms_results s"
  let ?i = "if ms_resultIndex s < 0 then ms_StartIndex s ?xs
            else MoveIndex (ms_resultIndex s) delta (ms_StartIndex s ?xs) (ms_EndIndex s ?xs) (Some WrapBounds)"
  have "(ms_StartIndex s ?xs = 0 \<and> ms_EndIndex s ?xs = int (length ?xs) - 1)
      \<or> (ms_StartIndex s ?xs = int (length ?xs) - 1 \<and> ms_EndIndex s ?xs = 0)"
    by (auto simp: ms_StartIndex_def ms_EndIndex_def reverse_StartIndex_def reverse_EndIndex_def
        default_StartIndex_def default_EndIndex_def)
  moreover have "0 \<le> int (length ?xs) - 1" using assms by (cases ?xs) auto
  ultimately have i: "0 \<le> ?i" "?i < int (length ?xs)"
    using MoveIndex_Wrap_range[of "ms_StartIndex s ?xs" "ms_EndIndex s ?xs" "int (length ?xs) - 1" "ms_resultIndex s" delta]
      assms by (auto simp: store_simps)
  define j where "j = ?i"
  have g: "go_nth ?xs j = Some (?xs ! nat j)" using i by (simp add: go_nth_in j_def)
  from Select_ex[of "?xs ! nat j" "s\<lparr>ms_resultIndex := j\<rparr>"] obtain t where
    t: "ms_Select (?xs ! nat j) (s\<lparr>ms_resultIndex := j\<rparr>) = Some t" "same_list (s\<lparr>ms_resultIndex := j\<rparr>) t"
      "ms_selectedUid t = ?xs ! nat j" "ms_resultIndex t = j" by auto
  have "nextPrevResult delta s = Some (emit OnUpdateDirs (emit OnUpdate t))"
    using assms g t(1) by (simp add: nextPrevResult_def j_def[symmetric] Let_def store_update_def)
  then show ?thesis using t i by (auto simp: store_simps same_list_def j_def)
qed

lemma nextPrevResult_in_range_witness:
  "\<exists>t. nextPrevResult (-1) ((sample_store [''1'', ''2''] ''1'')\<lparr>ms_results := [''2''], ms_resultIndex := 7\<rparr>) = Some t
    \<and> ms_selectedUid t = ''2''"
  using nextPrevResult_in_range[of "(sample_store [''1'', ''2''] ''1'')\<lparr>ms_results := [''2''], ms_resultIndex := 7\<rparr>" "-1"]
  by auto

lemma find_idx_position:
  "distinct xs \<Longrightarrow> 0 \<le> i \<Longrightarrow> i < int (length xs) \<Longrightarrow> find_idx (\<lambda>u. u = xs ! nat i) xs = i"
  using find_idx_distinct[of xs "nat i"] by simp

lemma sort_reply_moved:
  assumes "ms_Uids s \<noteq> []" "distinct (ms_Uids s)" "MagicUid \<notin> set (ms_Uids s)"
    and "ms_selectedUid s \<noteq> MagicUid" "ms_selectedUid s \<notin> set (ms_Uids s)"
  shows "\<exists>t. sort_reply idx s = Some t \<and> ms_Uids t = ms_Uids s
    \<and> SelectedIndex t = moved_index s
        (if ui_SelectLast (ms_ui s) then ms_EndIndex s (ms_Uids s) else ms_StartIndex s (ms_Uids s)) idx"
proof -
  let ?j = "if ui_SelectLast (ms_ui s) then ms_EndIndex s (ms_Uids s) else ms_StartIndex s (ms_Uids s)"
  from Select_ex[of "ms_selectedUid s" s] obtain s2 where s2: "ms_Select (ms_selectedUid s) s = Some s2" "same_list s s2"
    "ms_selectedUid s2 = ms_selectedUid s" by blast
  from Select_ex[of MagicUid s2] obtain s3 where s3: "ms_Select MagicUid s2 = Some s3" "same_list s2 s3"
    "ms_selectedUid s3 = MagicUid" by blast
  have sl: "same_list s s3" using s2(2) s3(2) by (rule same_list_trans)
  note e = same_list_moves[OF sl]
  have ne: "ms_Uids s3 \<noteq> []" using assms(1) e by simp
  have j: "0 \<le> ?j" "?j < int (length (ms_Uids s))" using assms(1) by (auto simp: store_simps)
  from NextPrev_ex[OF ne, of idx] obtain t1 t where t: "SelectedUid s3 = Some (t1, ms_selectedUid t1)" "same_list s3 t1"
    "NextPrev idx s3 = Some t" "same_list s3 t"
    "0 \<le> SelectedIndex t1 \<Longrightarrow> MagicUid \<notin> set (ms_Uids s3) \<Longrightarrow>
       ms_selectedUid t = ms_Uids s3 ! nat (moved_index s3 (SelectedIndex t1) idx)" by blast
  have "ms_selectedUid t1 = ms_Uids s ! nat ?j"
    using SelectedUid_ex[of s3] t(1) s3(3) ne by (auto simp: e)
  then have "SelectedIndex t1 = ?j"
    using find_idx_position[OF assms(2) j] same_list_moves(1)[OF t(2)] by (simp add: SelectedIndex_def FindIndexByUid_def e)
  then have "ms_selectedUid t = ms_Uids s ! nat (moved_index s ?j idx)"
    using t(5) j assms(3) by (simp add: e)
  then have idx: "SelectedIndex t = moved_index s ?j idx"
    using find_idx_position[OF assms(2)] moved_index_range[OF assms(1)] same_list_moves(1)[OF t(4)]
    by (simp add: SelectedIndex_def FindIndexByUid_def e)
  have "SelectedIndex s2 < 0"
    using assms(5) s2(2,3) by (simp add: SelectedIndex_def FindIndexByUid_def same_list_moves find_idx_neg_iff) blast
  then have "sort_reply idx s = Some (t\<lparr>ms_Sorting := False\<rparr>)"
    using assms(4) s2(1) s3(1) t(3) by (simp add: sort_reply_def SelectedUid_def)
  then show ?thesis using idx same_list_moves(1)[OF t(4)]
    by (simp add: e store_simps SelectedIndex_def FindIndexByUid_def)
qed

text \<open>
  C24. The place of the cursor after sorting or filtering, when a message was selected and the new
  list is not empty and has no UID twice: a message that is still listed stays selected.
  When the selected one is gone, the cursor keeps its row, counted from the top of the list,
  or goes to the last row; with the order reversed it does not: it lands on the row that was
  at that distance from the other end.  With the option to select the last message, the
  reply starts from the end of the list instead, and the cursor goes to its bottom row.
\<close>

theorem sort_place:
  assumes "0 \<le> SelectedIndex s0" "ms_Uids s \<noteq> []" "distinct (ms_Uids s)" "MagicUid \<notin> set (ms_Uids s)"
    and "ms_selectedUid s \<noteq> MagicUid"
  shows "\<exists>t. sort_reply (snd (ms_Sort criteria s0)) s = Some t \<and> ms_Uids t = ms_Uids s
    \<and> (ms_selectedUid s \<in> set (ms_Uids s) \<longrightarrow> ms_selectedUid t = ms_selectedUid s)
    \<and> (ms_selectedUid s \<notin> set (ms_Uids s) \<and> \<not> ui_SelectLast (ms_ui s) \<and> \<not> ms_iterReverse s \<longrightarrow>
         int (length (ms_Uids s)) - 1 - SelectedIndex t
           = min (int (length (ms_Uids s)) - 1) (int (length (ms_Uids s0)) - 1 - SelectedIndex s0))
    \<and> (ms_selectedUid s \<notin> set (ms_Uids s) \<and> \<not> ui_SelectLast (ms_ui s) \<and> ms_iterReverse s \<longrightarrow>
         SelectedIndex t = min (int (length (ms_Uids s)) - 1) (int (length (ms_Uids s0)) - 1 - SelectedIndex s0))
    \<and> (ms_selectedUid s \<notin> set (ms_Uids s) \<and> ui_SelectLast (ms_ui s) \<longrightarrow>
         SelectedIndex t = (if ms_iterReverse s then int (length (ms_Uids s)) - 1 else 0))"
proof -
  let ?n = "int (length (ms_Uids s))"
  define idx where "idx = int (length (ms_Uids s0)) - (SelectedIndex s0 + 1)"
  have i: "snd (ms_Sort criteria s0) = idx"
    by (simp add: ms_Sort_def idx_def Let_def SelectedIndex_def FindIndexByUid_def store_simps)
  have idx0: "0 \<le> idx" using store_provider.selected_bound[of s0] by (simp add: idx_def)
  have n: "1 \<le> ?n" using assms(2) by (cases "ms_Uids s") auto
  show ?thesis
  proof (cases "ms_selectedUid s \<in> set (ms_Uids s)")
    case True
    from Select_ex[of "ms_selectedUid s" s] obtain t where t: "ms_Select (ms_selectedUid s) s = Some t" "same_list s t"
      "ms_selectedUid t = ms_selectedUid s" by blast
    have "0 \<le> SelectedIndex t"
      using True t by (simp add: SelectedIndex_def FindIndexByUid_def same_list_moves find_idx_nonneg_iff)
    then have "sort_reply idx s = Some (t\<lparr>ms_Sorting := False\<rparr>)"
      using assms(5) t(1) by (simp add: sort_reply_def SelectedUid_def)
    then show ?thesis using True t by (simp add: i same_list_moves store_simps)
  next
    case False
    from sort_reply_moved[OF assms(2-5) False, of idx] obtain t where
      t: "sort_reply idx s = Some t" "ms_Uids t = ms_Uids s"
        "SelectedIndex t = moved_index s
           (if ui_SelectLast (ms_ui s) then ms_EndIndex s (ms_Uids s) else ms_StartIndex s (ms_Uids s)) idx" by auto
    have "\<not> ui_SelectLast (ms_ui s) \<Longrightarrow> ms_iterReverse s \<Longrightarrow> SelectedIndex t = min (?n - 1) idx"
      "\<not> ui_SelectLast (ms_ui s) \<Longrightarrow> \<not> ms_iterReverse s \<Longrightarrow> ?n - 1 - SelectedIndex t = min (?n - 1) idx"
      "ui_SelectLast (ms_ui s) \<Longrightarrow> SelectedIndex t = (if ms_iterReverse s then ?n - 1 else 0)"
      using idx0 n by (auto simp: t(3) moved_index_def ms_StartIndex_def reverse_StartIndex_def default_StartIndex_def
          ms_EndIndex_def reverse_EndIndex_def default_EndIndex_def)
    then show ?thesis using t(1,2) False by (cases "ui_SelectLast (ms_ui s)"; cases "ms_iterReverse s") (simp_all add: i idx_def)
  qed
qed

lemma sort_place_witness:
  "\<exists>t. sort_reply (snd (ms_Sort None (sample_store [''1'', ''2'', ''3''] ''2''))) (sample_store [''1'', ''3''] ''2'') = Some t
    \<and> SelectedIndex t = 0"
proof -
  have i: "SelectedIndex (sample_store [''1'', ''2'', ''3''] ''2'') = 1"
    by (simp add: SelectedIndex_def FindIndexByUid_def)
  show ?thesis
    using sort_place[of "sample_store [''1'', ''2'', ''3''] ''2''" "sample_store [''1'', ''3''] ''2''" None]
    by (auto simp: i MagicUid_def sample_ui_def)
qed

subsection \<open>Fetching bodies\<close>

lemma collect_bodies_pending:
  "set uids \<subseteq> pending \<Longrightarrow> collect_bodies uids cb pending cbs toFetch = (toFetch, pending, cbs)"
  by (induction uids) auto

lemma collect_bodies_adds:
  "collect_bodies uids cb pending cbs toFetch = (tf, p, cbs') \<Longrightarrow>
     p = pending \<union> set uids \<and> (\<exists>ys. tf = toFetch @ ys \<and> set ys = set uids - pending)"
proof (induction uids cb pending cbs toFetch arbitrary: tf p cbs' rule: collect_bodies.induct)
  case (1 cb pending cbs toFetch)
  then show ?case by simp
next
  case (2 uid uids cb pending cbs toFetch)
  show ?case
  proof (cases "uid \<in> pending")
    case True
    then show ?thesis using 2 by auto
  next
    case False
    then show ?thesis using "2.IH"(1)[OF False] "2.prems" by fastforce
  qed
qed

text \<open>
  C25. A body whose fetch was cancelled is lost: once the worker answers \<open>Cancelled\<close> (the
  viewer was closed while the message was loading), every later request for one of these
  messages changes nothing: nothing is posted and the new callback is dropped.  After an
  error the same request is posted again.
\<close>

theorem cancelled_body_stuck:
  assumes "set us \<subseteq> set uids" "us \<noteq> []" "set uids \<inter> ms_pendingBodies s = {}"
  shows "FetchFull us cb' (full_reply uids RCancelled (FetchFull uids cb s)) = full_reply uids RCancelled (FetchFull uids cb s)
    \<and> (\<exists>tf. tf \<noteq> [] \<and> FetchFullMessages tf \<in> set (ms_out (FetchFull us cb' (full_reply uids RError (FetchFull uids cb s)))))"
proof -
  obtain tf p cbs where c: "collect_bodies uids cb (ms_pendingBodies s) (ms_bodyCallbacks s) [] = (tf, p, cbs)"
    by (metis prod_cases3)
  have p: "p = ms_pendingBodies s \<union> set uids" using collect_bodies_adds[OF c] by simp
  let ?s = "FetchFull uids cb s"
  have pend: "ms_pendingBodies ?s = ms_pendingBodies s \<union> set uids"
    by (simp add: FetchFull_def c Let_def emit_def p)
  have "collect_bodies us cb' (ms_pendingBodies ?s) (ms_bodyCallbacks ?s) [] = ([], ms_pendingBodies ?s, ms_bodyCallbacks ?s)"
    using assms(1) by (intro collect_bodies_pending) (auto simp: pend)
  then have same: "FetchFull us cb' (full_reply uids RCancelled ?s) = full_reply uids RCancelled ?s"
    by (simp add: FetchFull_def[of us] full_reply_def)
  let ?t = "full_reply uids RError ?s"
  obtain tf2 p2 cbs2 where c2: "collect_bodies us cb' (ms_pendingBodies ?t) (ms_bodyCallbacks ?t) [] = (tf2, p2, cbs2)"
    by (metis prod_cases3)
  have "ms_pendingBodies ?t = ms_pendingBodies s" using assms(3) by (auto simp: full_reply_def pend)
  then have "set tf2 = set us - ms_pendingBodies s" using collect_bodies_adds[OF c2] by auto
  moreover have "set us \<inter> ms_pendingBodies s = {}" using assms(1,3) by auto
  ultimately have "tf2 \<noteq> []" using assms(2) by (cases us) auto
  then have "FetchFullMessages tf2 \<in> set (ms_out (FetchFull us cb' ?t))"
    by (simp add: FetchFull_def[of us] c2 Let_def emit_def)
  then show ?thesis using same \<open>tf2 \<noteq> []\<close> by blast
qed

lemma cancelled_body_stuck_witness:
  "ms_out (FetchFull [''1''] (Some 2) (full_reply [''1''] RCancelled (FetchFull [''1''] (Some 1) (sample_store [''1''] ''1''))))
     = [FetchFullMessages [''1'']]"
proof -
  have "ms_pendingBodies (sample_store [''1''] ''1'') = {}" by (simp add: sample_store_def NewMessageStore_def)
  then have "FetchFull [''1''] (Some 2) (full_reply [''1''] RCancelled (FetchFull [''1''] (Some 1) (sample_store [''1''] ''1'')))
      = full_reply [''1''] RCancelled (FetchFull [''1''] (Some 1) (sample_store [''1''] ''1''))"
    using cancelled_body_stuck[of "[''1'']" "[''1'']" "sample_store [''1''] ''1''" "Some 2" "Some 1"] by simp
  then show ?thesis
    by (simp add: full_reply_def FetchFull_def emit_def sample_store_def NewMessageStore_def)
qed

text \<open>A second request for a body that is on its way registers no callback.\<close>

lemma second_callback_dropped:
  assumes "u \<notin> ms_pendingBodies s" "ms_bodyCallbacks s u = None"
  shows "ms_out (ur_store (update_full u (FetchFull [u] (Some c2) (FetchFull [u] (Some c1) s))))
    = ms_out s @ [FetchFullMessages [u], BodyCallback c1 u]"
  using assms by (simp add: FetchFull_def update_full_def emit_def no_update_def)

subsection \<open>Deleted messages\<close>

text \<open>
  What \<open>RebuildUids\<close> does with the marks of the thread map: it keeps them for the UIDs the
  map knows and gives every node the marks of its UID.
\<close>

definition marks_kept :: "(uid \<rightharpoonup> thread) \<Rightarrow> (uid \<rightharpoonup> thread) \<Rightarrow> bool" where
  "marks_kept m m' \<longleftrightarrow> (\<forall>u st. m u = Some st \<longrightarrow> (\<exists>st'. m' u = Some st' \<and> th_Deleted st' = th_Deleted st \<and> th_Hidden st' = th_Hidden st))"

lemma marks_kept_refl: "marks_kept m m"
  by (simp add: marks_kept_def)

lemma marks_kept_trans: "marks_kept a b \<Longrightarrow> marks_kept b c \<Longrightarrow> marks_kept a c"
  unfolding marks_kept_def by metis

definition nodes_marked :: "(uid \<rightharpoonup> thread) \<Rightarrow> thread list \<Rightarrow> bool" where
  "nodes_marked m ts \<longleftrightarrow> (\<forall>n\<in>set ts. \<forall>st. m (th_Uid n) = Some st \<longrightarrow> th_Deleted n = th_Deleted st \<and> th_Hidden n = th_Hidden st)"

lemma nodes_marked_mono: "marks_kept a b \<Longrightarrow> nodes_marked b ts \<Longrightarrow> nodes_marked a ts"
  unfolding marks_kept_def nodes_marked_def by metis

lemma nodes_marked_simps:
  "nodes_marked m []" "nodes_marked m (xs @ ys) \<longleftrightarrow> nodes_marked m xs \<and> nodes_marked m ys"
  "nodes_marked m (n # xs) \<longleftrightarrow> (\<forall>st. m (th_Uid n) = Some st \<longrightarrow> th_Deleted n = th_Deleted st \<and> th_Hidden n = th_Hidden st) \<and> nodes_marked m xs"
  by (auto simp: nodes_marked_def)

lemma marks_step:
  "marks_kept m m1 \<and> nodes_marked m xs \<Longrightarrow> marks_kept m1 m2 \<and> nodes_marked m1 ys \<Longrightarrow>
     marks_kept m m2 \<and> nodes_marked m (xs @ ys)"
  using marks_kept_trans[of m m1 m2] nodes_marked_mono[of m m1 ys] by (simp add: nodes_marked_simps)

lemma rebuild_marks:
  "rebuild_thread t m = (t', m', us) \<Longrightarrow> marks_kept m m' \<and> nodes_marked m (thread_nodes t')"
  "rebuild_kids ks m = (ks', m', us) \<Longrightarrow> marks_kept m m' \<and> nodes_marked m (concat (map thread_nodes ks'))"
proof (induction t m and ks m arbitrary: t' m' us and ks' m' us rule: rebuild_thread_rebuild_kids.induct)
  case (1 u hid dl du cx ks m)
  obtain hid' dl' where hd': "(case m u of None \<Rightarrow> (hid, dl) | Some st \<Rightarrow> (th_Hidden st, th_Deleted st)) = (hid', dl')"
    by (cases "case m u of None \<Rightarrow> (hid, dl) | Some st \<Rightarrow> (th_Hidden st, th_Deleted st)")
  let ?m = "m(u \<mapsto> Thread u hid' dl' du cx ks)"
  obtain ks' m1 us1 where k: "rebuild_kids ks ?m = (ks', m1, us1)" by (cases "rebuild_kids ks ?m")
  have IH: "marks_kept ?m m1 \<and> nodes_marked ?m (concat (map thread_nodes ks'))"
    using "1.IH"[OF hd'[symmetric] refl refl refl k] by blast
  have dl: "m u = Some st \<Longrightarrow> dl' = th_Deleted st \<and> hid' = th_Hidden st" for st using hd' by (auto split: option.splits)
  have mk: "marks_kept m ?m" using dl by (auto simp: marks_kept_def)
  have "t' = Thread u hid' dl' du cx ks'" "m' = m1" using "1.prems" hd' k by (auto simp: Let_def)
  moreover have "marks_kept m m1" "nodes_marked m (concat (map thread_nodes ks'))"
    using IH nodes_marked_mono[OF mk] marks_kept_trans[OF mk] by blast+
  ultimately show ?case using dl by (simp add: nodes_marked_simps)
next
  case (2 m)
  then show ?case by (simp add: marks_kept_refl nodes_marked_def)
next
  case (3 k ks m)
  obtain k' m1 us1 where k: "rebuild_thread k m = (k', m1, us1)" by (cases "rebuild_thread k m")
  obtain ks' m2 us2 where ks: "rebuild_kids ks m1 = (ks', m2, us2)" by (cases "rebuild_kids ks m1")
  have a: "marks_kept m m1 \<and> nodes_marked m (thread_nodes k')" using "3.IH"(1) k by blast
  have b: "marks_kept m1 m2 \<and> nodes_marked m1 (concat (map thread_nodes ks'))"
    using "3.IH"(2)[OF k[symmetric] refl refl ks] by blast
  from marks_step[OF a b] "3.prems" k ks show ?case by (auto simp only: rebuild_kids.simps Let_def prod.case prod.inject
      list.map concat.simps)
qed

lemma rebuild_loop_marks:
  "rebuild_loop inverted ts m = (ts', m', us) \<Longrightarrow> marks_kept m m' \<and> nodes_marked m (concat (map thread_nodes ts'))"
proof (induction inverted ts m arbitrary: ts' m' us rule: rebuild_loop.induct)
  case (1 inverted m)
  then show ?case by (simp add: marks_kept_refl nodes_marked_def)
next
  case (2 inverted t ts m)
  obtain t1 m1 u1 where r: "rebuild_thread t m = (t1, m1, u1)" by (cases "rebuild_thread t m")
  obtain ts2 m2 u2 where l: "rebuild_loop inverted ts m1 = (ts2, m2, u2)" by (cases "rebuild_loop inverted ts m1")
  have a: "marks_kept m m1 \<and> nodes_marked m (thread_nodes t1)" using rebuild_marks(1)[OF r] .
  have b: "marks_kept m1 m2 \<and> nodes_marked m1 (concat (map thread_nodes ts2))" using "2.IH" r l by simp
  from marks_step[OF a b] "2.prems" r l show ?case
    by (auto simp only: rebuild_loop.simps Let_def prod.case prod.inject list.map concat.simps)
qed

lemma mark_deleted_fold:
  "fold mark_deleted us m u = (case m u of None \<Rightarrow> None
     | Some t \<Rightarrow> Some (if u \<in> set us then Thread (th_Uid t) (th_Hidden t) True (th_Dummy t) (th_Context t) (th_kids t) else t))"
  by (induction us arbitrary: m) (auto simp: mark_deleted_def split: option.splits)

text \<open>No node whose UID is marked deleted in the map is listed.\<close>

lemma rebuild_hides_deleted:
  assumes "RebuildUids ths inverted b = Some (ths', b')"
    and "\<forall>u\<in>set (forest_uids ths) \<inter> set gone. \<exists>st. tb_threadMap b u = Some st \<and> th_Deleted st"
  shows "set gone \<inter> set (builder_Uids b') = {}"
proof -
  let ?ts = "if tb_reverse b then ths else rev ths"
  obtain ts m us where r: "rebuild_loop inverted ?ts (tb_threadMap b) = (ts, m, us)"
    by (cases "rebuild_loop inverted ?ts (tb_threadMap b)")
  note v = rebuild_loop_visible[OF r] and mk = rebuild_loop_marks[OF r]
  have "set (builder_Uids b') = set us"
    using assms(1) r by (cases "tb_reverse b") (auto simp: RebuildUids_def iterate_all_eq builder_Uids_def)
  moreover have "u \<notin> set gone" if uin: "u \<in> set us" for u
  proof
    assume "u \<in> set gone"
    have "us = concat (map (\<lambda>t. if inverted then rev (visible_uids t) else visible_uids t) ts)" using v by blast
    then obtain t where t: "t \<in> set ts" "u \<in> set (visible_uids t)" using uin
      by (cases inverted) auto
    then obtain n where n: "n \<in> set (thread_nodes t)" "th_Uid n = u" "\<not> th_Deleted n"
      by (auto simp: visible_uids_def)
    let ?f = "\<lambda>t. map th_Uid (thread_nodes t)"
    have "?f ` set ts = ?f ` set ths" using arg_cong[OF conjunct2[OF v], of set] by (cases "tb_reverse b") simp_all
    then obtain t0 where t0: "t0 \<in> set ths" "?f t = ?f t0" using t(1) by (metis (no_types, lifting) imageE imageI)
    have "u \<in> set (?f t)" using n(1,2) by auto
    then have "u \<in> set (?f t0)" by (simp only: t0(2))
    then have "u \<in> set (forest_uids ths)" using t0(1) by (auto simp: forest_uids_def)
    with \<open>u \<in> set gone\<close> assms(2) obtain st where "tb_threadMap b u = Some st" "th_Deleted st" by blast
    then show False using mk n t(1) by (auto simp: nodes_marked_def)
  qed
  ultimately show ?thesis by blast
qed

lemma mark_deleted_marks:
  "u \<in> set gone \<Longrightarrow> m u \<noteq> None \<Longrightarrow> \<exists>st. fold mark_deleted gone m u = Some st \<and> th_Deleted st"
  by (auto simp: mark_deleted_fold)

lemma RebuildUids_ex: "\<exists>ths' b'. RebuildUids ths inverted b = Some (ths', b')"
  by (auto simp: RebuildUids_def iterate_all_eq split: prod.splits)

text \<open>The deletion proper: what is taken out, then the selection, the results and the marks.\<close>

definition take_out :: "uid list \<Rightarrow> 'h msgstore \<Rightarrow> 'h msgstore" where
  "take_out gone s = s\<lparr>ms_Messages := ms_Messages s |` (- set gone), ms_Deleted := ms_Deleted s - set gone,
    ms_uids := filter (\<lambda>u. u \<notin> set gone) (ms_uids s)\<rparr>"

definition mark_gone :: "uid list \<Rightarrow> 'h msgstore \<Rightarrow> 'h msgstore" where
  "mark_gone gone s = s\<lparr>ms_results := filter (\<lambda>u. u \<notin> set gone) (ms_results s),
    ms_builder := map_option (\<lambda>b. b\<lparr>tb_threadMap := fold mark_deleted gone (tb_threadMap b)\<rparr>) (ms_builder s)\<rparr>"

lemma update_deleted_eq:
  assumes "length gone \<le> length (ms_uids s)"
  shows "\<exists>s2. (if ms_uids (take_out gone s) = [] then ms_Select MagicUid (take_out gone s) else Some (take_out gone s)) = Some s2
    \<and> update_deleted (ms_Name s) gone s = Some ((no_update (mark_gone gone s2))\<lparr>ur_update := True, ur_updateThreads := True\<rparr>)"
proof -
  have "\<exists>s2. (if ms_uids (take_out gone s) = [] then ms_Select MagicUid (take_out gone s) else Some (take_out gone s)) = Some s2"
    using ms_Select_total[of MagicUid "take_out gone s"] by auto
  then obtain s2 where s2: "(if ms_uids (take_out gone s) = [] then ms_Select MagicUid (take_out gone s) else Some (take_out gone s)) = Some s2"
    by blast
  have "update_deleted (ms_Name s) gone s =
      (if ms_uids (take_out gone s) = [] then ms_Select MagicUid (take_out gone s) else Some (take_out gone s))
        \<bind> (\<lambda>s. Some ((no_update (mark_gone gone s))\<lparr>ur_update := True, ur_updateThreads := True\<rparr>))"
    using assms by (simp add: update_deleted_def take_out_def mark_gone_def Let_def)
  with s2 show ?thesis by simp
qed

subsection \<open>The invariant of the list\<close>

definition keeps :: "'h msgstore \<Rightarrow> 'h msgstore \<Rightarrow> bool" where
  "keeps s t \<longleftrightarrow> ms_uids t = ms_uids s \<and> ms_Messages t = ms_Messages s \<and> ms_Name t = ms_Name s"

lemma same_list_keeps: "same_list s t \<Longrightarrow> keeps s t"
  by (simp add: same_list_def keeps_def)

lemma keeps_trans: "keeps s t \<Longrightarrow> keeps t u \<Longrightarrow> keeps s u"
  by (simp add: keeps_def)

lemma Select_keeps: "ms_Select u s = Some t \<Longrightarrow> keeps s t"
  using Select_ex[of u s] by (auto intro: same_list_keeps)

lemma selectPriv_keeps: "selectPriv u s = Some t \<Longrightarrow> keeps s t"
  using update_marker_total[of "s\<lparr>ms_threadCallback := None, ms_selectedUid := u\<rparr>"]
  by (auto simp: selectPriv_def keeps_def)

lemma SelectedUid_keeps: "SelectedUid s = Some (t, u) \<Longrightarrow> keeps s t"
  using SelectedUid_ex[of s] by (auto intro: same_list_keeps)

lemma NextPrev_keeps: "NextPrev delta s = Some t \<Longrightarrow> keeps s t"
proof (cases "ms_Uids s = []")
  case True
  then show "NextPrev delta s = Some t \<Longrightarrow> keeps s t" by (simp add: NextPrev_def keeps_def)
next
  case False
  from NextPrev_ex[OF False, of delta] show "NextPrev delta s = Some t \<Longrightarrow> keeps s t"
    by (metis option.inject same_list_keeps)
qed

lemma sort_reply_keeps:
  assumes "sort_reply idx s = Some t"
  shows "keeps s t"
proof -
  from assms obtain s1 u s2 s3 where s: "SelectedUid s = Some (s1, u)" "ms_Select u s1 = Some s2"
    "(if SelectedIndex s2 < 0 then ms_Select MagicUid s2 \<bind> NextPrev idx else Some s2) = Some s3"
    "t = s3\<lparr>ms_Sorting := False\<rparr>"
    by (auto simp: sort_reply_def bind_eq_Some_conv)
  have "keeps s2 s3" using s(3)
    by (cases "SelectedIndex s2 < 0") (auto simp: bind_eq_Some_conv keeps_def dest!: Select_keeps NextPrev_keeps)
  then show ?thesis
    using SelectedUid_keeps[OF s(1)] Select_keeps[OF s(2)] by (simp add: keeps_def s(4))
qed

lemma runThreadBuilderNow_keeps:
  assumes "runThreadBuilderNow te s = Some t"
  shows "keeps s t"
proof -
  from assms obtain th b s1 where "run_callback (s\<lparr>ms_builder := Some b, ms_threads := th\<rparr>) = Some s1" "t = emit OnUpdate s1"
    by (auto simp: runThreadBuilderNow_def bind_eq_Some_conv Let_def)
  then show ?thesis
    by (auto simp: run_callback_def bind_eq_Some_conv keeps_def emit_def split: option.splits if_splits
        dest!: selectPriv_keeps)
qed

lemma rebuild_threads_keeps: "rebuild_threads ths s = Some t \<Longrightarrow> keeps s t"
  by (auto simp: rebuild_threads_def bind_eq_Some_conv keeps_def)

lemma store_update_keeps:
  assumes "store_update b s = Some t"
  shows "keeps s t"
proof -
  have "keeps s (emit OnUpdateDirs (emit OnUpdate s))" by (simp add: keeps_def emit_def)
  then show ?thesis
    using assms rebuild_threads_keeps[of "ms_threads s" "emit OnUpdateDirs (emit OnUpdate s)" t]
    by (auto simp: store_update_def Let_def keeps_def runThreadBuilder_def emit_fields split: if_splits)
qed

lemma nextPrevResult_keeps: "nextPrevResult d s = Some t \<Longrightarrow> keeps s t"
  by (auto simp: nextPrevResult_def bind_eq_Some_conv Let_def keeps_def split: if_splits
      dest!: Select_keeps store_update_keeps)

lemma contents_loop_dom: "dom (fst (contents_loop s n i us acc)) = dom (fst acc) \<union> set us"
proof (induction s n i us acc rule: contents_loop.induct)
  case (1 s n i acc)
  then show ?case by simp
next
  case (2 s n i uid uids nm c nu)
  show ?case
  proof (cases "ms_Messages s uid")
    case None
    with "2.IH" show ?thesis by (simp add: Let_def) auto
  next
    case (Some m)
    with "2.IH" show ?thesis by simp auto
  qed
qed

definition list_inv :: "'h msgstore \<Rightarrow> bool" where
  "list_inv s \<longleftrightarrow> set (ms_uids s) \<subseteq> dom (ms_Messages s)"

lemma list_inv_keeps: "keeps s t \<Longrightarrow> list_inv t = list_inv s"
  by (simp add: keeps_def list_inv_def)

lemma keepsI: "keeps s t \<Longrightarrow> list_inv s \<Longrightarrow> list_inv t"
  by (simp add: list_inv_keeps)

lemma insertUid_fields:
  "set (ms_uids (insertUid u i s)) = insert u (set (ms_uids s))" "ms_Messages (insertUid u i s) = ms_Messages s"
  by (auto simp: insertUid_def split: option.splits)

lemma store_info_inv:
  fixes s :: "'h msgstore"
  shows "list_inv s \<Longrightarrow> list_inv (store_info info r f s)"
proof -
  assume i: "list_inv s"
  let ?u = "mi_Uid info"
  have ins: "list_inv (if b then insertUid ?u (mi_Index info) t else t)"
    if "set (ms_uids t) \<subseteq> dom (ms_Messages t) \<and> ?u \<in> dom (ms_Messages t)" for b t
    using that by (cases b) (auto simp: list_inv_def insertUid_fields)
  define s1 where "s1 = s\<lparr>ms_Messages := (ms_Messages s)(?u \<mapsto> Some info)\<rparr>"
  define s2 where "s2 = (if ms_selectedUid s = ?u then emit (OnSelect ?u) s1 else s1)"
  have f1: "set (ms_uids s1) \<subseteq> dom (ms_Messages s1) \<and> ?u \<in> dom (ms_Messages s1)"
    using i by (auto simp: s1_def list_inv_def)
  then have f2: "set (ms_uids s2) \<subseteq> dom (ms_Messages s2) \<and> ?u \<in> dom (ms_Messages s2)"
    by (simp add: s2_def emit_fields)
  show ?thesis
  proof (cases "\<exists>ex. ms_Messages s ?u = Some (Some ex)")
    case True
    then show ?thesis using i by (auto simp: store_info_def list_inv_def)
  next
    case False
    then have c: "ms_Messages s ?u = None \<or> ms_Messages s ?u = Some None" by (metis not_None_eq)
    define new where "new = (\<lambda>t :: 'h msgstore. \<not> r \<and> \<not> List.member (ms_uids t) ?u)"
    have e: "store_info info r f s =
       (if mi_Envelope info \<noteq> None \<or> mi_Error info \<noteq> None
        then (if new s2 then insertUid ?u (mi_Index info) s2 else s2)
        else if \<not> r then (if new s1 then insertUid ?u (mi_Index info) s1 else s1) else s)"
      using c by (elim disjE) (simp_all add: store_info_def Let_def new_def s2_def s1_def)
    have "list_inv (if new s2 then insertUid ?u (mi_Index info) s2 else s2)"
      "list_inv (if new s1 then insertUid ?u (mi_Index info) s1 else s1)"
      using ins[OF f2] ins[OF f1] by blast+
    then show ?thesis using i unfolding e
      by (cases "mi_Envelope info \<noteq> None \<or> mi_Error info \<noteq> None"; cases r) (simp_all only: if_True if_False simp_thms)
  qed
qed

lemma update_info_inv: "list_inv s \<Longrightarrow> list_inv (ur_store (update_info info ir rf nf s))"
  using store_info_inv[of s info ir rf]
  by (simp add: update_info_def no_update_def Let_def list_inv_def emit_fields)

lemma update_full_keeps: "keeps s (ur_store (update_full u s))"
  by (cases "u \<in> ms_pendingBodies s"; cases "ms_bodyCallbacks s u")
    (simp_all add: update_full_def no_update_def keeps_def Let_def)

lemma update_case_inv:
  assumes "update_case te msg s = Some r" "list_inv s"
  shows "list_inv (ur_store r)"
proof (cases msg)
  case OpenDirectory
  then show ?thesis using assms by (auto simp: update_case_def no_update_def ms_Sort_def Let_def list_inv_def emit_fields)
next
  case (DirectoryContents dir uids)
  obtain nm c nu where sc: "scan_contents s uids = (nm, c, nu)" by (metis prod_cases3)
  have d: "dom nm = set uids" using contents_loop_dom[of s "int (length uids)" 0 uids "(Map.empty, False, [])"] sc
    by (simp add: scan_contents_def)
  show ?thesis
  proof (cases "dir = ms_Name s")
    case False
    then show ?thesis using assms DirectoryContents by (auto simp: update_case_def update_contents_def no_update_def)
  next
    case True
    let ?s = "s\<lparr>ms_Messages := nm, ms_uids := uids\<rparr>"
    obtain t where t: "(if ms_threadedView s then runThreadBuilderNow te ?s else Some ?s) = Some t"
      "r = (no_update (t\<lparr>ms_directoryContentsLoaded := True\<rparr>))\<lparr>ur_directoryChange := c, ur_newUids := nu\<rparr>"
      using assms(1) True DirectoryContents by (auto simp: update_case_def update_contents_def sc Let_def bind_eq_Some_conv)
    have "keeps ?s t" using t(1) runThreadBuilderNow_keeps[of te ?s t]
      by (cases "ms_threadedView s") (auto simp: keeps_def)
    then show ?thesis using d by (simp add: t(2) no_update_def list_inv_def keeps_def)
  qed
next
  case (DirectoryThreaded dir ths)
  show ?thesis
  proof (cases "dir = ms_Name s")
    case False
    then show ?thesis using assms DirectoryThreaded by (auto simp: update_case_def update_threaded_def no_update_def)
  next
    case True
    obtain t where t: "rebuild_threads ths s = Some t"
      using assms(1) True DirectoryThreaded by (auto simp: update_case_def update_threaded_def bind_eq_Some_conv)
    define t1 where "t1 = t\<lparr>ms_uids := builder_Uids (the_builder t)\<rparr>"
    obtain nm c nu where sc: "scan_contents t1 (ms_uids t1) = (nm, c, nu)" by (metis prod_cases3)
    have d: "dom nm = set (ms_uids t1)"
      using contents_loop_dom[of t1 "int (length (ms_uids t1))" 0 "ms_uids t1" "(Map.empty, False, [])"] sc
      by (simp add: scan_contents_def)
    have "r = (no_update (t1\<lparr>ms_Messages := nm, ms_directoryContentsLoaded := True\<rparr>))
        \<lparr>ur_update := True, ur_directoryChange := c, ur_newUids := nu\<rparr>"
      using assms(1) True DirectoryThreaded t sc by (simp add: update_case_def update_threaded_def t1_def)
    then show ?thesis using d by (simp add: no_update_def list_inv_def)
  qed
next
  case (MessageInfoMsg info ir rf nf)
  then show ?thesis using assms update_info_inv by (auto simp: update_case_def)
next
  case (FullMessage u)
  then show ?thesis using assms update_full_keeps list_inv_keeps by (auto simp: update_case_def)
next
  case (MessagesDeleted dir gone)
  show ?thesis
  proof (cases "dir = ms_Name s \<and> length gone \<le> length (ms_uids s)")
    case False
    then show ?thesis using assms MessagesDeleted
      by (auto simp: update_case_def update_deleted_def no_update_def split: if_splits)
  next
    case True
    then have "length gone \<le> length (ms_uids s)" by simp
    from update_deleted_eq[OF this] obtain s2 where
      sel: "(if ms_uids (take_out gone s) = [] then ms_Select MagicUid (take_out gone s) else Some (take_out gone s)) = Some s2"
      and up: "update_deleted (ms_Name s) gone s = Some ((no_update (mark_gone gone s2))\<lparr>ur_update := True, ur_updateThreads := True\<rparr>)"
      by blast
    have "list_inv (take_out gone s)" using assms(2) by (auto simp: list_inv_def take_out_def)
    moreover have "keeps (take_out gone s) s2"
      using sel Select_keeps[of MagicUid "take_out gone s" s2]
      by (cases "ms_uids (take_out gone s) = []") (auto simp: keeps_def)
    moreover have "keeps s2 (ur_store r)"
      using assms(1) True MessagesDeleted up by (auto simp: update_case_def no_update_def mark_gone_def keeps_def)
    ultimately show ?thesis by (blast intro: keepsI keeps_trans)
  qed
next
  case OtherMessage
  then show ?thesis using assms by (auto simp: update_case_def no_update_def)
qed

lemma FetchHeaders_fields:
  "ms_uids (FetchHeaders us s) = ms_uids s" "ms_Messages (FetchHeaders us s) = ms_Messages s"
  by (simp_all add: FetchHeaders_def emit_def Let_def split: prod.splits)

lemma ms_Update_inv:
  assumes "ms_Update te msg s = Some t" "list_inv s"
  shows "list_inv t"
proof -
  from assms(1) obtain r s1 where r: "update_case te msg s = Some r"
    "(if ur_update r then store_update (ur_updateThreads r) (ur_store r) else Some (ur_store r)) = Some s1"
    "ms_uids t = ms_uids s1" "ms_Messages t = ms_Messages s1"
    by (auto simp: ms_Update_def Let_def bind_eq_Some_conv FetchHeaders_fields emit_fields simp del: if_split)
  have "keeps (ur_store r) s1" using r(2) store_update_keeps by (cases "ur_update r") (auto simp: keeps_def)
  then have "list_inv s1" using update_case_inv[OF r(1) assms(2)] list_inv_keeps by blast
  then show ?thesis using r(3,4) by (simp add: list_inv_def)
qed

subsection \<open>The invariant of the threads\<close>

text \<open>
  Messages and blocks are stored under their own UID, the map of the builder knows every
  node of the threads, and a move that waits for the threads goes to a row that exists.
\<close>

definition view_inv :: "'h msgstore \<Rightarrow> bool" where
  "view_inv s \<longleftrightarrow> (\<forall>u m. ms_Messages s u = Some (Some m) \<longrightarrow> mi_Uid m = u)
     \<and> (ms_builder s = None \<longrightarrow> ms_threads s = [])
     \<and> (\<forall>b. ms_builder s = Some b \<longrightarrow> blocks_ok b \<and> (\<forall>u\<in>set (forest_uids (ms_threads s)). tb_threadMap b u \<noteq> None))
     \<and> (\<forall>i. ms_threadCallback s = Some i \<longrightarrow> 0 \<le> i)"

lemma forest_uids_Nil [simp]: "forest_uids [] = []"
  by (simp add: forest_uids_def)

lemma same_list_view: "same_list s t \<Longrightarrow> view_inv s \<Longrightarrow> view_inv t"
  by (auto simp: same_list_def view_inv_def)

lemma rebuild_known:
  "rebuild_thread t m = (t', m', us) \<Longrightarrow> dom m \<subseteq> dom m' \<and> th_Uid ` set (thread_nodes t') \<subseteq> dom m'"
  "rebuild_kids ks m = (ks', m', us) \<Longrightarrow> dom m \<subseteq> dom m' \<and> th_Uid ` set (concat (map thread_nodes ks')) \<subseteq> dom m'"
proof (induction t m and ks m arbitrary: t' m' us and ks' m' us rule: rebuild_thread_rebuild_kids.induct)
  case (1 u hid dl du cx ks m)
  obtain hid' dl' where hd': "(case m u of None \<Rightarrow> (hid, dl) | Some st \<Rightarrow> (th_Hidden st, th_Deleted st)) = (hid', dl')"
    by (cases "case m u of None \<Rightarrow> (hid, dl) | Some st \<Rightarrow> (th_Hidden st, th_Deleted st)")
  let ?m = "m(u \<mapsto> Thread u hid' dl' du cx ks)"
  obtain ks' m1 us1 where k: "rebuild_kids ks ?m = (ks', m1, us1)" by (cases "rebuild_kids ks ?m")
  have IH: "dom ?m \<subseteq> dom m1 \<and> th_Uid ` set (concat (map thread_nodes ks')) \<subseteq> dom m1"
    using "1.IH"[OF hd'[symmetric] refl refl refl k] by blast
  have "t' = Thread u hid' dl' du cx ks'" "m' = m1" using "1.prems" hd' k by (auto simp: Let_def)
  then show ?case using IH by auto
next
  case (2 m)
  then show ?case by simp
next
  case (3 k ks m)
  obtain k' m1 us1 where k: "rebuild_thread k m = (k', m1, us1)" by (cases "rebuild_thread k m")
  obtain ks' m2 us2 where ks: "rebuild_kids ks m1 = (ks', m2, us2)" by (cases "rebuild_kids ks m1")
  have "dom m \<subseteq> dom m1 \<and> th_Uid ` set (thread_nodes k') \<subseteq> dom m1" using "3.IH"(1) k by blast
  moreover have "dom m1 \<subseteq> dom m2 \<and> th_Uid ` set (concat (map thread_nodes ks')) \<subseteq> dom m2"
    using "3.IH"(2)[OF k[symmetric] refl refl ks] by blast
  ultimately have "dom m \<subseteq> dom m2 \<and> th_Uid ` set (concat (map thread_nodes (k' # ks'))) \<subseteq> dom m2"
    unfolding list.map concat.simps set_append image_Un by blast
  then show ?case using "3.prems" k ks by (auto simp only: rebuild_kids.simps Let_def prod.case prod.inject)
qed

lemma rebuild_loop_known:
  "rebuild_loop inverted ts m = (ts', m', us) \<Longrightarrow>
     dom m \<subseteq> dom m' \<and> th_Uid ` set (concat (map thread_nodes ts')) \<subseteq> dom m'"
proof (induction inverted ts m arbitrary: ts' m' us rule: rebuild_loop.induct)
  case (1 inverted m)
  then show ?case by simp
next
  case (2 inverted t ts m)
  obtain t1 m1 u1 where r: "rebuild_thread t m = (t1, m1, u1)" by (cases "rebuild_thread t m")
  obtain ts2 m2 u2 where l: "rebuild_loop inverted ts m1 = (ts2, m2, u2)" by (cases "rebuild_loop inverted ts m1")
  have "dom m1 \<subseteq> dom m2 \<and> th_Uid ` set (concat (map thread_nodes ts2)) \<subseteq> dom m2" using "2.IH" r l by simp
  moreover have "dom m \<subseteq> dom m1 \<and> th_Uid ` set (thread_nodes t1) \<subseteq> dom m1" using rebuild_known(1)[OF r] .
  ultimately have "dom m \<subseteq> dom m2 \<and> th_Uid ` set (concat (map thread_nodes (t1 # ts2))) \<subseteq> dom m2"
    unfolding list.map concat.simps set_append image_Un by blast
  then show ?case using "2.prems" r l by (auto simp only: rebuild_loop.simps Let_def prod.case prod.inject)
qed

text \<open>A rebuild leaves every node of the threads in the map and lists nodes of the threads only.\<close>

lemma RebuildUids_known:
  assumes "RebuildUids ths inverted b = Some (ths', b')"
  shows "\<forall>u\<in>set (forest_uids ths'). tb_threadMap b' u \<noteq> None" "tb_threadBlocks b' = tb_threadBlocks b"
    "set (builder_Uids b') \<subseteq> set (forest_uids ths')"
proof -
  let ?ts = "if tb_reverse b then ths else rev ths"
  obtain ts m us where r: "rebuild_loop inverted ?ts (tb_threadMap b) = (ts, m, us)"
    by (cases "rebuild_loop inverted ?ts (tb_threadMap b)")
  have f: "set ths' = set ts" "tb_threadMap b' = m" "tb_threadBlocks b' = tb_threadBlocks b" "set (builder_Uids b') = set us"
    using assms r by (cases "tb_reverse b"; auto simp: RebuildUids_def iterate_all_eq builder_Uids_def)+
  have nodes: "set (forest_uids ths') = th_Uid ` set (concat (map thread_nodes ts))"
    by (simp add: forest_uids_def f(1) image_UN)
  show "\<forall>u\<in>set (forest_uids ths'). tb_threadMap b' u \<noteq> None" "tb_threadBlocks b' = tb_threadBlocks b"
    using rebuild_loop_known[OF r] by (auto simp: nodes f(2,3) image_subset_iff dom_def)
  have "set us = (\<Union>t\<in>set ts. set (visible_uids t))"
    using arg_cong[OF conjunct1[OF rebuild_loop_visible[OF r]], of set] by (cases inverted) simp_all
  then show "set (builder_Uids b') \<subseteq> set (forest_uids ths')" unfolding nodes f(4) by (auto simp: visible_uids_def)
qed

lemma blocks_ok_cong: "tb_threadBlocks b' = tb_threadBlocks b \<Longrightarrow> blocks_ok b' = blocks_ok b"
  by (simp add: blocks_ok_def)

lemma new_blocks_ok: "blocks_ok (empty_builder s)"
  by (simp add: blocks_ok_def empty_builder_def NewThreadBuilder_def)

lemma the_builder_ok: "view_inv s \<Longrightarrow> blocks_ok (the_builder s)"
  by (auto simp: view_inv_def the_builder_def filled_builder_def blocks_ok_def split: option.splits sum.splits)

lemma emit_view: "view_inv (emit ev s) = view_inv s"
  by (simp add: view_inv_def emit_def)

lemma rebuild_threads_view:
  assumes "rebuild_threads ths s = Some t" "view_inv s"
  shows "view_inv t"
proof -
  define b where "b = (case ms_builder s of Some b \<Rightarrow> b | None \<Rightarrow> empty_builder s)"
  obtain ths' b' where r: "RebuildUids ths (ui_ReverseThreadOrder (ms_ui s)) b = Some (ths', b')"
    "t = s\<lparr>ms_builder := Some b', ms_threads := ths'\<rparr>"
    using assms(1) by (auto simp: rebuild_threads_def b_def bind_eq_Some_conv)
  have "blocks_ok b" using assms(2) by (cases "ms_builder s") (auto simp: b_def view_inv_def new_blocks_ok)
  then have "blocks_ok b'" using blocks_ok_cong[OF RebuildUids_known(2)[OF r(1)]] by blast
  then show ?thesis using assms(2) RebuildUids_known(1)[OF r(1)] by (auto simp: view_inv_def r(2))
qed

lemma run_callback_same: "run_callback s = Some t \<Longrightarrow> same_list s t"
proof -
  have "same_list s t" if "selectPriv u s = Some t" for u
    using that update_marker_total[of "s\<lparr>ms_threadCallback := None, ms_selectedUid := u\<rparr>"] by (auto simp: selectPriv_def)
  then show "run_callback s = Some t \<Longrightarrow> same_list s t"
    by (auto simp: run_callback_def bind_eq_Some_conv split: option.splits if_splits)
qed

lemma run_callback_ex:
  assumes "\<forall>i. ms_threadCallback s = Some i \<longrightarrow> 0 \<le> i"
  shows "\<exists>t. run_callback s = Some t"
proof (cases "ms_threadCallback s")
  case (Some i)
  have "\<exists>t. selectPriv u s = Some t" for u
    using update_marker_total[of "s\<lparr>ms_threadCallback := None, ms_selectedUid := u\<rparr>"] by (auto simp: selectPriv_def)
  then show ?thesis using Some assms by (auto simp: run_callback_def go_nth_def)
qed (simp add: run_callback_def)

lemma builder_Threads_known:
  assumes "builder_Threads fuel ops order srt us inverted inorder b = Some (th, b')" "blocks_ok b"
  shows "blocks_ok b'" "\<forall>u\<in>set (forest_uids th). tb_threadMap b' u \<noteq> None" "set (builder_Uids b') \<subseteq> set (forest_uids th)"
  using assms RebuildUids_known blocks_ok_cong
  by (auto simp: builder_Threads_def split: option.splits) blast+

lemma runThreadBuilderNow_view:
  assumes "runThreadBuilderNow te s = Some t" "view_inv s"
  shows "view_inv t"
proof -
  let ?b = "the_builder s"
  from assms(1) obtain th b s1 where r: "builder_Threads (te_fuel te) (te_ops te (tb_bySubject ?b)) (te_order te) (te_sort te)
       (ms_uids s) (ui_ReverseThreadOrder (ms_ui s)) (ui_SortThreadSiblings (ms_ui s)) ?b = Some (th, b)"
    "run_callback (s\<lparr>ms_builder := Some b, ms_threads := th\<rparr>) = Some s1" "t = emit OnUpdate s1"
    by (auto simp: runThreadBuilderNow_def bind_eq_Some_conv Let_def)
  have "view_inv (s\<lparr>ms_builder := Some b, ms_threads := th\<rparr>)"
    using assms(2) builder_Threads_known[OF r(1) the_builder_ok[OF assms(2)]] by (simp add: view_inv_def)
  then show ?thesis using same_list_view[OF run_callback_same[OF r(2)]] by (simp add: r(3) emit_view)
qed

lemma runThreadBuilder_view: "view_inv s \<Longrightarrow> view_inv (runThreadBuilder s)"
  using the_builder_ok[of s]
  by (cases "ms_builder s") (auto simp: view_inv_def runThreadBuilder_def the_builder_def)


lemma store_update_view:
  assumes "store_update b s = Some t" "view_inv s"
  shows "view_inv t"
proof -
  let ?e = "emit OnUpdateDirs (emit OnUpdate s)"
  have "view_inv ?e" using assms(2) by (simp add: emit_view)
  then show ?thesis
    using assms(1) rebuild_threads_view[of "ms_threads ?e" ?e t] runThreadBuilder_view[of ?e]
    by (auto simp: store_update_def Let_def split: if_splits)
qed

lemma contents_loop_keyed:
  "(\<And>u m. ms_Messages s u = Some (Some m) \<Longrightarrow> mi_Uid m = u) \<Longrightarrow>
   (\<And>u m. fst acc u = Some (Some m) \<Longrightarrow> mi_Uid m = u) \<Longrightarrow>
   fst (contents_loop s n i us acc) u = Some (Some m) \<Longrightarrow> mi_Uid m = u"
proof (induction s n i us acc arbitrary: u m rule: contents_loop.induct)
  case (1 s n i acc)
  then show ?case by simp
next
  case (2 s n i uid uids nm c nu)
  show ?case
  proof (rule "2.IH"[OF "2.prems"(1)])
    show "fst (contents_loop s n (i + 1) uids
       (case ms_Messages s uid of
          Some m \<Rightarrow> (nm(uid \<mapsto> m), c, nu)
        | None \<Rightarrow>
            (let pos = actualPositionInList i n (ui_ReverseOrder (ms_ui s))
             in (nm(uid \<mapsto> None), True,
                 if pos \<ge> ms_scrollOffset s \<and> pos < ms_scrollOffset s + ms_scrollLen s then nu @ [uid] else nu)))) u
        = Some (Some m)"
      using "2.prems"(3) by simp
  qed (use "2.prems"(1,2) in \<open>auto simp: Let_def split: option.splits if_splits\<close>)
qed

lemma scan_keyed:
  "scan_contents s us = (nm, c, nu) \<Longrightarrow> view_inv s \<Longrightarrow> nm u = Some (Some m) \<Longrightarrow> mi_Uid m = u"
  using contents_loop_keyed[of s "(Map.empty, False, [])" "int (length us)" 0 us u m]
  by (simp add: scan_contents_def view_inv_def)

lemma insertUid_view: "view_inv (insertUid u i s) = view_inv s"
  by (simp add: insertUid_def view_inv_def split: option.splits)

lemma store_info_view:
  assumes "view_inv s"
  shows "view_inv (store_info info r f s)"
proof -
  have put: "view_inv (s\<lparr>ms_Messages := (ms_Messages s)(mi_Uid info \<mapsto> Some m)\<rparr>)" if "mi_Uid m = mi_Uid info" for m
    using assms that by (simp add: view_inv_def)
  show ?thesis
  proof (cases "\<exists>ex. ms_Messages s (mi_Uid info) = Some (Some ex)")
    case True
    then obtain ex where "ms_Messages s (mi_Uid info) = Some (Some ex)" by blast
    moreover from this have "mi_Uid ex = mi_Uid info" using assms by (simp add: view_inv_def)
    ultimately show ?thesis by (simp add: store_info_def put merge_info_def)
  next
    case False
    then have "ms_Messages s (mi_Uid info) = None \<or> ms_Messages s (mi_Uid info) = Some None" by (metis not_None_eq)
    then show ?thesis using put[of info] assms
      by (elim disjE) (simp_all add: store_info_def Let_def emit_view insertUid_view)
  qed
qed

lemma builder_Update_known:
  "blocks_ok b \<Longrightarrow> blocks_ok (builder_Update (Some info) b)" "tb_threadMap (builder_Update m b) = tb_threadMap b"
  by (auto simp: builder_Update_def blocks_ok_def split: option.splits sum.splits)

lemma update_info_view: "view_inv s \<Longrightarrow> view_inv (ur_store (update_info info ir rf nf s))"
proof -
  assume v: "view_inv s"
  have fields: "view_inv (t\<lparr>ms_needsFlags := x, ms_flagsTimer := y\<rparr>) = view_inv t"
    "view_inv (t\<lparr>ms_pendingHeaders := z\<rparr>) = view_inv t" for t :: "'a msgstore" and x y z
    by (simp_all add: view_inv_def)
  have upd: "view_inv t \<Longrightarrow> view_inv (t\<lparr>ms_builder := map_option (builder_Update (Some info)) (ms_builder t)\<rparr>)"
    for t :: "'a msgstore"
    by (cases "ms_builder t") (simp_all add: view_inv_def builder_Update_known)
  show ?thesis
    using v store_info_view[OF v, of info ir rf] by (simp add: update_info_def no_update_def Let_def upd fields emit_view)
qed

lemma update_full_view: "view_inv s \<Longrightarrow> view_inv (ur_store (update_full u s))"
  by (cases "u \<in> ms_pendingBodies s"; cases "ms_bodyCallbacks s u")
    (simp_all add: update_full_def no_update_def Let_def view_inv_def)

lemma take_out_view: "view_inv s \<Longrightarrow> view_inv (take_out gone s)"
  by (auto simp: view_inv_def take_out_def restrict_map_def)

lemma mark_gone_view:
  assumes "view_inv s"
  shows "view_inv (mark_gone gone s)"
proof (cases "ms_builder s")
  case None
  then show ?thesis using assms by (simp add: view_inv_def mark_gone_def)
next
  case (Some b)
  then show ?thesis using assms by (auto simp: view_inv_def mark_gone_def blocks_ok_def mark_deleted_fold split: option.splits)
qed

lemma update_case_view:
  assumes "update_case te msg s = Some r" "view_inv s"
  shows "view_inv (ur_store r)"
proof (cases msg)
  case OpenDirectory
  then show ?thesis using assms by (auto simp: update_case_def no_update_def ms_Sort_def Let_def emit_view) (simp_all add: view_inv_def)
next
  case (DirectoryContents dir uids)
  obtain nm c nu where sc: "scan_contents s uids = (nm, c, nu)" by (metis prod_cases3)
  show ?thesis
  proof (cases "dir = ms_Name s")
    case False
    then show ?thesis using assms DirectoryContents by (auto simp: update_case_def update_contents_def no_update_def)
  next
    case True
    let ?s = "s\<lparr>ms_Messages := nm, ms_uids := uids\<rparr>"
    obtain t where t: "(if ms_threadedView s then runThreadBuilderNow te ?s else Some ?s) = Some t"
      "r = (no_update (t\<lparr>ms_directoryContentsLoaded := True\<rparr>))\<lparr>ur_directoryChange := c, ur_newUids := nu\<rparr>"
      using assms(1) True DirectoryContents by (auto simp: update_case_def update_contents_def sc Let_def bind_eq_Some_conv)
    have "view_inv ?s" using scan_keyed[OF sc assms(2)] assms(2) by (simp add: view_inv_def)
    then have "view_inv t" using t(1) runThreadBuilderNow_view[of te ?s t] by (cases "ms_threadedView s") auto
    then show ?thesis by (simp add: t(2) no_update_def view_inv_def)
  qed
next
  case (DirectoryThreaded dir ths)
  show ?thesis
  proof (cases "dir = ms_Name s")
    case False
    then show ?thesis using assms DirectoryThreaded by (auto simp: update_case_def update_threaded_def no_update_def)
  next
    case True
    obtain t where t: "rebuild_threads ths s = Some t"
      using assms(1) True DirectoryThreaded by (auto simp: update_case_def update_threaded_def bind_eq_Some_conv)
    define t1 where "t1 = t\<lparr>ms_uids := builder_Uids (the_builder t)\<rparr>"
    obtain nm c nu where sc: "scan_contents t1 (ms_uids t1) = (nm, c, nu)" by (metis prod_cases3)
    have v: "view_inv t1" using rebuild_threads_view[OF t assms(2)] by (simp add: t1_def view_inv_def)
    have "r = (no_update (t1\<lparr>ms_Messages := nm, ms_directoryContentsLoaded := True\<rparr>))
        \<lparr>ur_update := True, ur_directoryChange := c, ur_newUids := nu\<rparr>"
      using assms(1) True DirectoryThreaded t sc by (simp add: update_case_def update_threaded_def t1_def)
    then show ?thesis using scan_keyed[OF sc v] v by (simp add: no_update_def view_inv_def)
  qed
next
  case (MessageInfoMsg info ir rf nf)
  then show ?thesis using assms update_info_view by (auto simp: update_case_def)
next
  case (FullMessage u)
  then show ?thesis using assms update_full_view by (auto simp: update_case_def)
next
  case (MessagesDeleted dir gone)
  show ?thesis
  proof (cases "dir = ms_Name s \<and> length gone \<le> length (ms_uids s)")
    case False
    then show ?thesis using assms MessagesDeleted
      by (auto simp: update_case_def update_deleted_def no_update_def split: if_splits)
  next
    case True
    then have "length gone \<le> length (ms_uids s)" by simp
    from update_deleted_eq[OF this] obtain s2 where
      sel: "(if ms_uids (take_out gone s) = [] then ms_Select MagicUid (take_out gone s) else Some (take_out gone s)) = Some s2"
      and up: "update_deleted (ms_Name s) gone s = Some ((no_update (mark_gone gone s2))\<lparr>ur_update := True, ur_updateThreads := True\<rparr>)"
      by blast
    have "view_inv s2"
      using sel take_out_view[OF assms(2), of gone] Select_ex[of MagicUid "take_out gone s"] same_list_view
      by (cases "ms_uids (take_out gone s) = []") auto
    then show ?thesis
      using assms(1) True MessagesDeleted up mark_gone_view[of s2 gone] by (auto simp: update_case_def no_update_def)
  qed
next
  case OtherMessage
  then show ?thesis using assms by (auto simp: update_case_def no_update_def)
qed

lemma FetchHeaders_view: "view_inv (FetchHeaders us s) = view_inv s"
  by (simp add: FetchHeaders_def view_inv_def emit_def Let_def split: prod.splits)

lemma ms_Update_view:
  assumes "ms_Update te msg s = Some t" "view_inv s"
  shows "view_inv t"
proof -
  from assms(1) obtain r s1 where r: "update_case te msg s = Some r"
    "(if ur_update r then store_update (ur_updateThreads r) (ur_store r) else Some (ur_store r)) = Some s1"
    "view_inv t = view_inv s1"
    by (auto simp: ms_Update_def Let_def bind_eq_Some_conv FetchHeaders_view emit_view simp del: if_split)
  have "view_inv s1" using r(2) store_update_view update_case_view[OF r(1) assms(2)] by (cases "ur_update r") auto
  then show ?thesis using r(3) by simp
qed

lemma nextPrevResult_same:
  assumes "nextPrevResult d s = Some t"
  shows "same_list s t"
proof (cases "ms_results s = []")
  case True
  then show ?thesis using assms by (simp add: nextPrevResult_def)
next
  case False
  then obtain i u s1 where s1: "ms_Select u (s\<lparr>ms_resultIndex := i\<rparr>) = Some s1" "store_update False s1 = Some t"
    using assms by (auto simp: nextPrevResult_def bind_eq_Some_conv Let_def split: if_splits)
  have "same_list (s\<lparr>ms_resultIndex := i\<rparr>) s1" using Select_ex[of u "s\<lparr>ms_resultIndex := i\<rparr>"] s1(1) by auto
  then have "same_list s s1" by (simp add: same_list_def store_simps)
  then show ?thesis using s1(2) by (auto simp: store_update_def Let_def)
qed

lemma NextPrev_same: "NextPrev delta s = Some t \<Longrightarrow> same_list s t"
proof (cases "ms_Uids s = []")
  case True
  then show "NextPrev delta s = Some t \<Longrightarrow> same_list s t" by (simp add: NextPrev_def)
next
  case False
  from NextPrev_ex[OF False, of delta] show "NextPrev delta s = Some t \<Longrightarrow> same_list s t" by (metis option.inject)
qed

lemma Select_same: "ms_Select u s = Some t \<Longrightarrow> same_list s t"
  using Select_ex[of u s] by auto

lemma SelectedUid_same: "SelectedUid s = Some (t, u) \<Longrightarrow> same_list s t"
  using SelectedUid_ex[of s] by auto

lemma sort_reply_same:
  assumes "sort_reply idx s = Some t"
  shows "same_list s t"
proof -
  from assms obtain s1 u s2 s3 where s: "SelectedUid s = Some (s1, u)" "ms_Select u s1 = Some s2"
    "(if SelectedIndex s2 < 0 then ms_Select MagicUid s2 \<bind> NextPrev idx else Some s2) = Some s3"
    "t = s3\<lparr>ms_Sorting := False\<rparr>"
    by (auto simp: sort_reply_def bind_eq_Some_conv)
  have "same_list s2 s3" using s(3)
    by (cases "SelectedIndex s2 < 0") (auto simp: bind_eq_Some_conv dest!: Select_same NextPrev_same intro: same_list_trans)
  then show ?thesis
    using SelectedUid_same[OF s(1)] Select_same[OF s(2)] by (simp add: s(4)) (blast intro: same_list_trans)
qed

text \<open>Folding changes the marks only.\<close>

lemma change_hidden_dom: "dom (change_hidden f u m) = dom m"
  by (auto simp: change_hidden_def split: option.splits)

lemma fold_marks_dom: "dom (fold_marks uid hide toggle t m) = dom m"
proof -
  have "dom (foldl (\<lambda>m n. if th_Uid n \<noteq> uid then change_hidden f (th_Uid n) m else m) m ns) = dom m" for f ns m
    by (induction ns arbitrary: m) (auto simp: change_hidden_dom)
  then show ?thesis
    using Walk_fold[where g = "\<lambda>n m. if th_Uid n \<noteq> uid then change_hidden f (th_Uid n) m else m" and 'e = unit for f]
    by (simp add: fold_marks_def)
qed

lemma folding_inv:
  assumes "doThreadFolding uid hide toggle s = Some (Inr t)"
  shows "keeps s t" "view_inv s \<Longrightarrow> view_inv t"
proof -
  have "t = s \<or> (\<exists>b th s1. ms_builder s = Some b
      \<and> ms_Select uid (s\<lparr>ms_builder := Some (b\<lparr>tb_threadMap := fold_marks uid hide toggle th (tb_threadMap b)\<rparr>)\<rparr>) = Some s1
      \<and> rebuild_threads (ms_threads s1) s1 = Some t)"
    using assms by (auto simp: doThreadFolding_def bind_eq_Some_conv split: option.splits if_splits)
  then have "keeps s t \<and> (view_inv s \<longrightarrow> view_inv t)"
  proof (elim disjE exE conjE)
    fix b th s1
    let ?s = "s\<lparr>ms_builder := Some (b\<lparr>tb_threadMap := fold_marks uid hide toggle th (tb_threadMap b)\<rparr>)\<rparr>"
    assume b: "ms_builder s = Some b" and s1: "ms_Select uid ?s = Some s1" and t: "rebuild_threads (ms_threads s1) s1 = Some t"
    have "view_inv ?s" if "view_inv s"
      using that b fold_marks_dom[of uid hide toggle th "tb_threadMap b"]
      by (auto simp: view_inv_def blocks_ok_def domIff set_eq_iff)
    moreover have "keeps s t"
      using Select_keeps[OF s1] rebuild_threads_keeps[OF t] by (simp add: keeps_def)
    ultimately show ?thesis using same_list_view[OF Select_same[OF s1]] rebuild_threads_view[OF t] by blast
  qed (simp add: keeps_def)
  then show "keeps s t" "view_inv s \<Longrightarrow> view_inv t" by auto
qed

text \<open>
  What can happen to a store: messages of the worker, replies, timers and the user's commands.
  The commands that mark messages work on the marker, which may thus change in any way.
\<close>

inductive store_step :: "'h thread_env \<Rightarrow> 'h msgstore \<Rightarrow> 'h msgstore \<Rightarrow> bool" for te :: "'h thread_env" where
  Step_Update: "ms_Update te msg s = Some t \<Longrightarrow> store_step te s t"
| Step_timer: "builder_fires te s = Some t \<Longrightarrow> store_step te s t"
| Step_flags: "store_step te s (flags_fire s)"
| Step_Configure: "store_step te s (ms_Configure dflt b s)"
| Step_scroll: "store_step te s (ms_UpdateScroll a b s)"
| Step_Select: "ms_Select u s = Some t \<Longrightarrow> store_step te s t"
| Step_SelectedUid: "SelectedUid s = Some (t, u) \<Longrightarrow> store_step te s t"
| Step_NextPrev: "NextPrev delta s = Some t \<Longrightarrow> store_step te s t"
| Step_result: "nextPrevResult delta s = Some t \<Longrightarrow> store_step te s t"
| Step_ApplySearch: "ApplySearch rs s = Some t \<Longrightarrow> store_step te s t"
| Step_Search: "store_step te s (ms_Search terms s)"
| Step_SetFilter: "store_step te s (SetFilter terms s)"
| Step_ApplyClear: "store_step te s (fst (ApplyClear s))"
| Step_Sort: "store_step te s (fst (ms_Sort criteria s))"
| Step_sort_reply: "sort_reply idx s = Some t \<Longrightarrow> store_step te s t"
| Step_threaded: "store_step te s (fst (SetThreadedView b s))"
| Step_context: "store_step te s (fst (ToggleThreadContext s))"
| Step_marker: "store_step te s (fst (ms_Marker s))"
| Step_FetchHeaders: "store_step te s (FetchHeaders us s)"
| Step_headers: "store_step te s (headers_reply us r s)"
| Step_FetchFull: "store_step te s (FetchFull us cb s)"
| Step_full: "store_step te s (full_reply us r s)"
| Step_Delete: "store_step te s (ms_Delete us s)"
| Step_delete: "store_step te s (delete_reply us r s)"
| Step_Move: "store_step te s (ms_Move us dest c s)"
| Step_move: "store_step te s (move_reply us dest r s)"
| Step_Copy: "store_step te s (ms_Copy us dest c s)"
| Step_Append: "store_step te s (ms_Append dest fl date len s)"
| Step_added: "store_step te s (added_reply dest r s)"
| Step_Flag: "store_step te s (ms_Flag us fl enable s)"
| Step_flag: "store_step te s (flag_reply fl r s)"
| Step_Answered: "store_step te s (ms_Answered us enable s)"
| Step_Forwarded: "store_step te s (ms_Forwarded us enable s)"
| Step_Labels: "store_step te s (ms_ModifyLabels us add remove tog s)"
| Step_labels: "store_step te s (labels_reply add remove tog r s)"
| Step_body: "store_step te s (FetchBodyPart u part s)"
| Step_Fold: "ms_Fold u tog s = Some (Inr t) \<Longrightarrow> store_step te s t"
| Step_Unfold: "ms_Unfold u tog s = Some (Inr t) \<Longrightarrow> store_step te s t"
| Step_mark: "store_step te s (s\<lparr>ms_marker := mk\<rparr>)"

inductive store_reachable :: "'h thread_env \<Rightarrow> 'h msgstore \<Rightarrow> bool" for te :: "'h thread_env" where
  Reach_New: "store_reachable te (NewMessageStore name ui)"
| Reach_step: "store_reachable te s \<Longrightarrow> store_step te s t \<Longrightarrow> store_reachable te t"

lemma plain_keeps:
  "keeps s (flags_fire s)" "keeps s (ms_Configure dflt b s)" "keeps s (ms_UpdateScroll x y s)"
  "keeps s (ms_Search terms s)" "keeps s (SetFilter f s)" "keeps s (fst (ms_Sort criteria s))" "keeps s (fst (ApplyClear s))"
  "keeps s (fst (SetThreadedView b s))" "keeps s (fst (ToggleThreadContext s))" "keeps s (fst (ms_Marker s))"
  "keeps s (FetchHeaders us s)" "keeps s (headers_reply us r s)" "keeps s (FetchFull us cb s)" "keeps s (full_reply us r s)"
  "keeps s (ms_Delete us s)" "keeps s (delete_reply us r s)" "keeps s (ms_Move us dest b s)" "keeps s (move_reply us dest r s)"
  "keeps s (ms_Copy us dest b s)" "keeps s (ms_Append dest fl date len s)" "keeps s (added_reply dest r s)"
  "keeps s (ms_Flag us fl b s)" "keeps s (flag_reply fl r s)" "keeps s (ms_Answered us b s)" "keeps s (ms_Forwarded us b s)"
  "keeps s (ms_ModifyLabels us add rem tog s)" "keeps s (labels_reply add rem tog r s)" "keeps s (FetchBodyPart u part s)"
  "keeps s (s\<lparr>ms_marker := mk\<rparr>)"
  by (simp_all add: ms_Copy_def ms_Append_def added_reply_def ms_Flag_def flag_reply_def ms_Answered_def ms_Forwarded_def
      ms_ModifyLabels_def labels_reply_def FetchBodyPart_def keeps_def flags_fire_def ms_Configure_def ms_UpdateScroll_def ms_Search_def SetFilter_def ms_Sort_def
      ApplyClear_def SetThreadedView_def ToggleThreadContext_def ms_Marker_def FetchHeaders_def headers_reply_def
      FetchFull_def full_reply_def ms_Delete_def delete_reply_def revertDeleted_def ms_Move_def move_reply_def
      runThreadBuilder_def emit_def Let_def split: prod.splits option.splits store_reply.splits)

lemma store_step_inv: "store_step te s t \<Longrightarrow> list_inv s \<Longrightarrow> list_inv t"
proof (induction rule: store_step.induct)
  case (Step_Update msg s t)
  then show ?case by (rule ms_Update_inv)
next
  case (Step_timer s t)
  then have "keeps s t" using runThreadBuilderNow_keeps[of te "s\<lparr>ms_builderTimer := False\<rparr>" t]
    by (cases "ms_builderTimer s") (auto simp: builder_fires_def keeps_def)
  then show ?case using Step_timer.prems list_inv_keeps by blast
next
  case (Step_ApplySearch rs s t)
  then have "keeps s t" using nextPrevResult_keeps[of 1 "s\<lparr>ms_results := rs, ms_resultIndex := -1\<rparr>" t]
    by (simp add: ApplySearch_def keeps_def)
  then show ?case using Step_ApplySearch.prems list_inv_keeps by blast
next
  case (Step_Fold u tog s t)
  then show ?case using folding_inv(1)[of u True tog s t] keepsI by (auto simp: ms_Fold_def)
next
  case (Step_Unfold u tog s t)
  then show ?case using folding_inv(1)[of u False tog s t] keepsI by (auto simp: ms_Unfold_def)
qed (rule keepsI; (rule plain_keeps | erule Select_keeps | erule SelectedUid_keeps | erule NextPrev_keeps
      | erule nextPrevResult_keeps | erule sort_reply_keeps | assumption))+

lemma plain_view:
  "view_inv s \<Longrightarrow> view_inv (flags_fire s)" "view_inv s \<Longrightarrow> view_inv (ms_Configure dflt b s)"
  "view_inv s \<Longrightarrow> view_inv (ms_UpdateScroll x y s)" "view_inv s \<Longrightarrow> view_inv (ms_Search terms s)"
  "view_inv s \<Longrightarrow> view_inv (SetFilter f s)" "view_inv s \<Longrightarrow> view_inv (fst (ms_Sort criteria s))"
  "view_inv s \<Longrightarrow> view_inv (fst (ApplyClear s))" "view_inv s \<Longrightarrow> view_inv (fst (ToggleThreadContext s))"
  "view_inv s \<Longrightarrow> view_inv (fst (ms_Marker s))" "view_inv s \<Longrightarrow> view_inv (FetchHeaders us s)"
  "view_inv s \<Longrightarrow> view_inv (headers_reply us r s)" "view_inv s \<Longrightarrow> view_inv (FetchFull us cb s)"
  "view_inv s \<Longrightarrow> view_inv (full_reply us r s)" "view_inv s \<Longrightarrow> view_inv (ms_Delete us s)"
  "view_inv s \<Longrightarrow> view_inv (delete_reply us r s)" "view_inv s \<Longrightarrow> view_inv (ms_Move us dest b s)"
  "view_inv s \<Longrightarrow> view_inv (move_reply us dest r s)" "view_inv s \<Longrightarrow> view_inv (ms_Copy us dest b s)"
  "view_inv s \<Longrightarrow> view_inv (ms_Append dest fl date len s)" "view_inv s \<Longrightarrow> view_inv (added_reply dest r s)"
  "view_inv s \<Longrightarrow> view_inv (ms_Flag us fl b s)" "view_inv s \<Longrightarrow> view_inv (flag_reply fl r s)"
  "view_inv s \<Longrightarrow> view_inv (ms_Answered us b s)" "view_inv s \<Longrightarrow> view_inv (ms_Forwarded us b s)"
  "view_inv s \<Longrightarrow> view_inv (ms_ModifyLabels us add rem tog s)" "view_inv s \<Longrightarrow> view_inv (labels_reply add rem tog r s)"
  "view_inv s \<Longrightarrow> view_inv (FetchBodyPart u part s)" "view_inv s \<Longrightarrow> view_inv (s\<lparr>ms_marker := mk\<rparr>)"
  by (simp_all add: ms_Copy_def ms_Append_def added_reply_def ms_Flag_def flag_reply_def ms_Answered_def ms_Forwarded_def
      ms_ModifyLabels_def labels_reply_def FetchBodyPart_def flags_fire_def ms_Configure_def ms_UpdateScroll_def
      ms_Search_def SetFilter_def ms_Sort_def ApplyClear_def ToggleThreadContext_def ms_Marker_def FetchHeaders_def
      headers_reply_def FetchFull_def full_reply_def ms_Delete_def delete_reply_def revertDeleted_def ms_Move_def
      move_reply_def emit_def view_inv_def Let_def split: prod.splits option.splits store_reply.splits)

lemma SetThreadedView_view:
  assumes "view_inv s"
  shows "view_inv (fst (SetThreadedView b s))"
proof -
  have v: "view_inv (s\<lparr>ms_threadedView := b\<rparr>)" "view_inv (s\<lparr>ms_threadedView := b, ms_builderTimer := False\<rparr>)"
    using assms by (simp_all add: view_inv_def)
  then show ?thesis using runThreadBuilder_view[OF v(1)] plain_view(6)[OF v(1)]
    by (cases b) (simp_all add: SetThreadedView_def Let_def)
qed

lemma store_step_view: "store_step te s t \<Longrightarrow> view_inv s \<Longrightarrow> view_inv t"
proof (induction rule: store_step.induct)
  case (Step_Update msg s t)
  then show ?case by (rule ms_Update_view)
next
  case (Step_timer s t)
  moreover have "view_inv (s\<lparr>ms_builderTimer := False\<rparr>)" using Step_timer.prems by (simp add: view_inv_def)
  ultimately show ?case using runThreadBuilderNow_view[of te "s\<lparr>ms_builderTimer := False\<rparr>" t]
    by (auto simp: builder_fires_def split: if_splits)
next
  case (Step_ApplySearch rs s t)
  moreover have "view_inv (s\<lparr>ms_results := rs, ms_resultIndex := -1\<rparr>)" using Step_ApplySearch.prems by (simp add: view_inv_def)
  ultimately show ?case using same_list_view[OF nextPrevResult_same] by (auto simp: ApplySearch_def)
next
  case (Step_Fold u tog s t)
  then show ?case using folding_inv(2)[of u True tog s t] by (auto simp: ms_Fold_def)
next
  case (Step_Unfold u tog s t)
  then show ?case using folding_inv(2)[of u False tog s t] by (auto simp: ms_Unfold_def)
qed ((erule plain_view SetThreadedView_view | erule same_list_view[OF Select_same] same_list_view[OF SelectedUid_same]
      same_list_view[OF NextPrev_same] same_list_view[OF nextPrevResult_same] same_list_view[OF sort_reply_same]; assumption))+

lemma reachable_view: "store_reachable te s \<Longrightarrow> view_inv s"
proof (induction rule: store_reachable.induct)
  case (Reach_New name ui)
  then show ?case by (simp add: NewMessageStore_def view_inv_def)
next
  case (Reach_step s t)
  then show ?case by (blast intro: store_step_view)
qed

text \<open>No operation renames a store.\<close>

lemma insertUid_name [simp]: "ms_Name (insertUid u i s) = ms_Name s"
  by (simp add: insertUid_def split: option.splits)

lemma store_info_name: "ms_Name (store_info info r f s) = ms_Name s"
  by (auto simp: store_info_def Let_def emit_fields split: option.splits)

lemma update_contents_name: "update_contents te d us s = Some r \<Longrightarrow> ms_Name (ur_store r) = ms_Name s"
  by (auto simp: update_contents_def no_update_def Let_def bind_eq_Some_conv keeps_def split: if_splits prod.splits
      dest!: runThreadBuilderNow_keeps)

lemma update_threaded_name: "update_threaded d ths s = Some r \<Longrightarrow> ms_Name (ur_store r) = ms_Name s"
  by (cases "rebuild_threads ths s"; cases "scan_contents ((the (rebuild_threads ths s))\<lparr>ms_uids :=
      builder_Uids (the_builder (the (rebuild_threads ths s)))\<rparr>) (builder_Uids (the_builder (the (rebuild_threads ths s))))")
    (auto simp: update_threaded_def no_update_def Let_def keeps_def split: if_splits dest!: rebuild_threads_keeps)

lemma update_deleted_name: "update_deleted d gone s = Some r \<Longrightarrow> ms_Name (ur_store r) = ms_Name s"
  by (auto simp: update_deleted_def no_update_def Let_def bind_eq_Some_conv keeps_def split: if_splits
      dest!: Select_keeps)

lemma update_case_name: "update_case te msg s = Some r \<Longrightarrow> ms_Name (ur_store r) = ms_Name s"
  using update_full_keeps
  by (cases msg) (auto simp: update_case_def no_update_def ms_Sort_def Let_def emit_fields update_info_def keeps_def
      store_info_name dest: update_contents_name update_threaded_name update_deleted_name)

lemma FetchHeaders_name: "ms_Name (FetchHeaders us s) = ms_Name s"
  by (simp add: FetchHeaders_def emit_def Let_def split: prod.splits)

lemma ms_Update_name:
  assumes "ms_Update te msg s = Some t"
  shows "ms_Name t = ms_Name s"
proof -
  from assms obtain r s1 where r: "update_case te msg s = Some r"
    "(if ur_update r then store_update (ur_updateThreads r) (ur_store r) else Some (ur_store r)) = Some s1"
    "ms_Name t = ms_Name s1"
    by (auto simp: ms_Update_def Let_def bind_eq_Some_conv FetchHeaders_name emit_fields simp del: if_split)
  have "keeps (ur_store r) s1" using r(2) store_update_keeps by (cases "ur_update r") (auto simp: keeps_def)
  then show ?thesis using update_case_name[OF r(1)] r(3) by (simp add: keeps_def)
qed

lemma store_step_name: "store_step te s t \<Longrightarrow> ms_Name t = ms_Name s"
proof (induction rule: store_step.induct)
  case (Step_Update msg s t)
  then show ?case by (rule ms_Update_name)
next
  case (Step_timer s t)
  then show ?case using runThreadBuilderNow_keeps[of te "s\<lparr>ms_builderTimer := False\<rparr>" t]
    by (cases "ms_builderTimer s") (auto simp: builder_fires_def keeps_def)
next
  case (Step_ApplySearch rs s t)
  then show ?case using nextPrevResult_keeps[of 1 "s\<lparr>ms_results := rs, ms_resultIndex := -1\<rparr>" t]
    by (simp add: ApplySearch_def keeps_def)
next
  case (Step_Fold u tog s t)
  then show ?case using folding_inv(1)[of u True tog s t] by (auto simp: ms_Fold_def keeps_def)
next
  case (Step_Unfold u tog s t)
  then show ?case using folding_inv(1)[of u False tog s t] by (auto simp: ms_Unfold_def keeps_def)
qed (auto simp: keeps_def[THEN iffD1, OF plain_keeps(1), THEN conjunct2, THEN conjunct2] dest!: Select_keeps SelectedUid_keeps
      NextPrev_keeps nextPrevResult_keeps sort_reply_keeps simp: plain_keeps[unfolded keeps_def] keeps_def)

text \<open>
  C3. Whatever the worker sends and the user does, in any order, every listed UID has an entry
  among the messages (its header or the mark that it is to be fetched).
\<close>

theorem listed_messages_known:
  assumes "store_reachable te s"
  shows "set (ms_uids s) \<subseteq> dom (ms_Messages s)"
proof -
  have "list_inv s" using assms
  proof induction
    case (Reach_New name ui)
    then show ?case by (simp add: NewMessageStore_def list_inv_def)
  next
    case (Reach_step s t)
    then show ?case by (blast intro: store_step_inv)
  qed
  then show ?thesis by (simp add: list_inv_def)
qed

lemma listed_messages_known_witness:
  "\<exists>t. ms_Update sample_env (DirectoryContents ''INBOX'' [''7'', ''8'']) (NewMessageStore ''INBOX'' sample_ui) = Some t
    \<and> ''7'' \<in> dom (ms_Messages t)"
proof -
  let ?s = "NewMessageStore ''INBOX'' sample_ui"
  have "\<exists>t. ms_Update sample_env (DirectoryContents ''INBOX'' [''7'', ''8'']) ?s = Some t \<and> ms_uids t = [''7'', ''8'']"
    by (simp add: ms_Update_def update_case_def update_contents_def scan_contents_def NewMessageStore_def
        no_update_def Let_def FetchHeaders_def emit_fields split: prod.splits)
  then obtain t where t: "ms_Update sample_env (DirectoryContents ''INBOX'' [''7'', ''8'']) ?s = Some t" "ms_uids t = [''7'', ''8'']"
    by blast
  have "store_reachable sample_env t" by (rule Reach_step[OF Reach_New Step_Update[OF t(1)]])
  from listed_messages_known[OF this] t show ?thesis by auto
qed

subsection \<open>Deletions\<close>

lemma update_deleted_run:
  assumes "length gone \<le> length (ms_uids s)"
  obtains s4 where "ms_Update te (MessagesDeleted (ms_Name s) gone) s =
      (if ms_threadedView s then (if ms_buildThreads s then Some (runThreadBuilder s4) else rebuild_threads (ms_threads s4) s4)
       else Some s4)"
    "ms_uids s4 = filter (\<lambda>u. u \<notin> set gone) (ms_uids s)" "ms_Messages s4 = ms_Messages s |` (- set gone)"
    "ms_Deleted s4 = ms_Deleted s - set gone" "ms_results s4 = filter (\<lambda>u. u \<notin> set gone) (ms_results s)"
    "ms_threads s4 = ms_threads s" "ms_threadedView s4 = ms_threadedView s" "ms_ui s4 = ms_ui s"
    "ms_builder s4 = map_option (\<lambda>b. b\<lparr>tb_threadMap := fold mark_deleted gone (tb_threadMap b)\<rparr>) (ms_builder s)"
    "ms_iterReverse s4 = ms_iterReverse s"
proof -
  from update_deleted_eq[OF assms(1)] obtain s2 where
    sel: "(if ms_uids (take_out gone s) = [] then ms_Select MagicUid (take_out gone s) else Some (take_out gone s)) = Some s2"
    and up: "update_deleted (ms_Name s) gone s = Some ((no_update (mark_gone gone s2))\<lparr>ur_update := True, ur_updateThreads := True\<rparr>)"
    by blast
  have s2: "ms_uids s2 = filter (\<lambda>u. u \<notin> set gone) (ms_uids s)" "ms_Messages s2 = ms_Messages s |` (- set gone)"
    "ms_Deleted s2 = ms_Deleted s - set gone" "ms_results s2 = ms_results s" "ms_builder s2 = ms_builder s"
    "ms_threads s2 = ms_threads s" "ms_threadedView s2 = ms_threadedView s" "ms_buildThreads s2 = ms_buildThreads s"
    "ms_ui s2 = ms_ui s" "ms_iterReverse s2 = ms_iterReverse s"
    using sel ms_Select_total[of MagicUid "take_out gone s"]
    by (cases "ms_uids (take_out gone s) = []"; auto simp: take_out_def emit_def)+
  define s4 where "s4 = emit OnUpdateDirs (emit OnUpdate (mark_gone gone s2))"
  have f: "ms_uids s4 = filter (\<lambda>u. u \<notin> set gone) (ms_uids s)" "ms_Messages s4 = ms_Messages s |` (- set gone)"
    "ms_Deleted s4 = ms_Deleted s - set gone" "ms_results s4 = filter (\<lambda>u. u \<notin> set gone) (ms_results s)"
    "ms_threads s4 = ms_threads s" "ms_threadedView s4 = ms_threadedView s" "ms_buildThreads s4 = ms_buildThreads s"
    "ms_ui s4 = ms_ui s" "ms_iterReverse s4 = ms_iterReverse s"
    "ms_builder s4 = map_option (\<lambda>b. b\<lparr>tb_threadMap := fold mark_deleted gone (tb_threadMap b)\<rparr>) (ms_builder s)"
    using s2 by (simp_all add: s4_def mark_gone_def emit_def)
  have "ms_Update te (MessagesDeleted (ms_Name s) gone) s = store_update True (mark_gone gone s2)"
    by (cases "store_update True (mark_gone gone s2)") (simp_all add: ms_Update_def update_case_def up no_update_def)
  also have "\<dots> = (if ms_threadedView s then (if ms_buildThreads s then Some (runThreadBuilder s4)
       else rebuild_threads (ms_threads s4) s4) else Some s4)"
    using f by (simp add: store_update_def s4_def[symmetric] Let_def)
  finally show ?thesis using that f by blast
qed

text \<open>A report that is longer than the list, such as a filtered one, is not applied at all.\<close>

lemma long_deletion_ignored:
  "length (ms_uids s) < length gone \<Longrightarrow>
     ms_Update te (MessagesDeleted (ms_Name s) gone) s = Some (emit OnUpdateDirs (emit OnUpdate s))"
  by (simp add: ms_Update_def update_case_def update_deleted_def store_update_def no_update_def Let_def)

text \<open>What a rebuild of the threads in the client needs to return: see \<open>builder_Threads_complete\<close>.\<close>

definition rebuilds :: "'h thread_env \<Rightarrow> 'h msgstore \<Rightarrow> bool" where
  "rebuilds te s \<longleftrightarrow> distinct (ms_uids s) \<and> [] \<notin> set (ms_uids s) \<and> walks_table (te_order te)
     \<and> (\<forall>key ts. mset (te_sort te key ts) = mset ts) \<and> (\<exists>ids base. te_ops te = msg_threadable ids base)
     \<and> (\<forall>m\<in>set (fetched (the_builder s) (ms_uids s)). ids_ok (te_ops te (tb_bySubject (the_builder s))) m)"

lemma rebuild_lists_uids:
  assumes "view_inv s" "rebuilds te s" "ms_builderTimer s" "ms_threadedView s"
  shows "\<exists>enough. \<forall>fuel\<ge>enough. \<exists>t. builder_fires (te\<lparr>te_fuel := fuel\<rparr>) s = Some t \<and> set (ms_Uids t) \<subseteq> insert [] (set (ms_uids s))"
proof -
  let ?s = "s\<lparr>ms_builderTimer := False\<rparr>" let ?b = "the_builder s"
  have sb: "the_builder ?s = ?b"
    by (cases "ms_builder s") (simp_all add: the_builder_def filled_builder_def empty_builder_def)
  obtain ids base where ops: "te_ops te = msg_threadable ids base" using assms(2) by (auto simp: rebuilds_def)
  have "\<forall>m\<in>set (fetched ?b (ms_uids s)). ids_ok (msg_threadable ids base (tb_bySubject ?b)) m"
    using assms(2) by (simp add: rebuilds_def ops)
  moreover have "distinct (ms_uids s)" "[] \<notin> set (ms_uids s)" "walks_table (te_order te)"
    "\<And>key ts. mset (te_sort te key ts) = mset ts" using assms(2) by (simp_all add: rebuilds_def)
  ultimately obtain enough where
    e: "\<forall>fuel\<ge>enough. \<exists>ts b'. builder_Threads fuel (msg_threadable ids base (tb_bySubject ?b)) (te_order te) (te_sort te)
        (ms_uids s) (ui_ReverseThreadOrder (ms_ui s)) (ui_SortThreadSiblings (ms_ui s)) ?b = Some (ts, b')
      \<and> mset (filter (\<lambda>u. u \<noteq> []) (forest_uids ts)) = mset (ms_uids s)"
    using builder_Threads_forest[OF the_builder_ok[OF assms(1)], of "ms_uids s" ids base "tb_bySubject ?b" "te_order te"
        "te_sort te" "ui_ReverseThreadOrder (ms_ui s)" "ui_SortThreadSiblings (ms_ui s)"] by blast
  have "\<exists>t. builder_fires (te\<lparr>te_fuel := fuel\<rparr>) s = Some t \<and> set (ms_Uids t) \<subseteq> insert [] (set (ms_uids s))"
    if fuel: "enough \<le> fuel" for fuel
  proof -
    from e fuel obtain ts b' where r: "builder_Threads fuel (msg_threadable ids base (tb_bySubject ?b)) (te_order te) (te_sort te)
        (ms_uids s) (ui_ReverseThreadOrder (ms_ui s)) (ui_SortThreadSiblings (ms_ui s)) ?b = Some (ts, b')"
      and m: "mset (filter (\<lambda>u. u \<noteq> []) (forest_uids ts)) = mset (ms_uids s)" by blast
    have "set (filter (\<lambda>u. u \<noteq> []) (forest_uids ts)) = set (ms_uids s)" using mset_eq_setD[OF m] .
    then have "set (builder_Uids b') \<subseteq> insert [] (set (ms_uids s))"
      using builder_Threads_known(3)[OF r the_builder_ok[OF assms(1)]] by auto
    let ?v = "?s\<lparr>ms_builder := Some b', ms_threads := ts\<rparr>"
    obtain t where t: "run_callback ?v = Some t" "same_list ?v t" using run_callback_ex[of ?v] run_callback_same assms(1) by (auto simp: view_inv_def)
    have "builder_fires (te\<lparr>te_fuel := fuel\<rparr>) s = Some (emit OnUpdate t)"
      using assms(3) r t(1) by (simp add: builder_fires_def runThreadBuilderNow_def sb ops Let_def)
    moreover have "ms_Uids (emit OnUpdate t) = ms_Uids ?v" using t(2) by (simp add: same_list_def store_simps)
    moreover have "set (ms_Uids ?v) \<subseteq> insert [] (set (ms_uids s))"
      using \<open>set (builder_Uids b') \<subseteq> _\<close> assms(4) by (auto simp: ms_Uids_def split: if_splits)
    ultimately show ?thesis by simp
  qed
  then show ?thesis by blast
qed

lemma rebuilds_take_out:
  assumes "rebuilds te s" "ms_uids t = filter (\<lambda>u. u \<notin> set gone) (ms_uids s)" "ms_Messages t = ms_Messages s |` (- set gone)"
    and "ms_builder t = map_option (\<lambda>b. b\<lparr>tb_threadMap := fold mark_deleted gone (tb_threadMap b)\<rparr>) (ms_builder s)"
    and "ms_ui t = ms_ui s" "ms_iterReverse t = ms_iterReverse s"
  shows "rebuilds te (runThreadBuilder t)"
proof -
  have same: "the_builder (runThreadBuilder t) = the_builder t" by (simp add: the_builder_def runThreadBuilder_def)
  have subj: "tb_bySubject (the_builder t) = tb_bySubject (the_builder s)"
    by (cases "ms_builder s") (simp_all add: the_builder_def assms(4,5,6) filled_builder_def empty_builder_def)
  have "tb_threadBlocks (the_builder t) u = tb_threadBlocks (the_builder s) u" if "u \<notin> set gone" for u
    using that by (cases "ms_builder s") (simp_all add: the_builder_def assms(3,4) filled_builder_def restrict_map_def)
  then have "set (fetched (the_builder t) (ms_uids t)) \<subseteq> set (fetched (the_builder s) (ms_uids s))"
    unfolding fetched_def assms(2) List.map_filter_def by force
  then show ?thesis
    using assms(1,2) unfolding rebuilds_def same subj by (auto simp: runThreadBuilder_def)
qed

text \<open>
  C4. Deleted messages disappear.  In every state a store can reach, a report of the worker that messages
  of this folder are gone removes them from the list, the messages, the pending deletions
  and the results; they are no longer listed, at once or, when the threads are built in the
  client, as soon as the timer of the thread builder, which the report starts, has fired (the UIDs
  being different and not empty, as the rebuild of the threads needs).  A report on another folder
  changes nothing, and one with more messages than are listed only has the screen drawn anew:
  its messages stay.
\<close>

theorem deleted_messages_gone:
  assumes "store_reachable te s"
  shows "\<exists>t. ms_Update te (MessagesDeleted dir gone) s = Some t
    \<and> (if dir \<noteq> ms_Name s then t = s
       else if length (ms_uids s) < length gone then t = emit OnUpdateDirs (emit OnUpdate s)
       else ms_uids t = filter (\<lambda>u. u \<notin> set gone) (ms_uids s)
         \<and> dom (ms_Messages t) = dom (ms_Messages s) - set gone \<and> ms_Deleted t = ms_Deleted s - set gone
         \<and> ms_results t = filter (\<lambda>u. u \<notin> set gone) (ms_results s)
         \<and> (if ms_threadedView s \<and> ms_buildThreads s then
              ms_builderTimer t \<and> (rebuilds te s \<and> [] \<notin> set gone \<longrightarrow>
                (\<exists>enough. \<forall>fuel\<ge>enough. \<exists>t'. builder_fires (te\<lparr>te_fuel := fuel\<rparr>) t = Some t' \<and> set gone \<inter> set (ms_Uids t') = {}))
            else set gone \<inter> set (ms_Uids t) = {}))"
proof -
  have v: "view_inv s" using assms by (rule reachable_view)
  consider "dir \<noteq> ms_Name s" | "dir = ms_Name s" "length (ms_uids s) < length gone"
    | "dir = ms_Name s" "length gone \<le> length (ms_uids s)" by linarith
  then show ?thesis
  proof cases
    case 1
    then show ?thesis by (simp add: ms_Update_def update_case_def update_deleted_def no_update_def)
  next
    case 2
    then show ?thesis using long_deletion_ignored[of s gone te] by simp
  next
    case 3
    obtain s4 where run: "ms_Update te (MessagesDeleted (ms_Name s) gone) s =
      (if ms_threadedView s then (if ms_buildThreads s then Some (runThreadBuilder s4) else rebuild_threads (ms_threads s4) s4)
       else Some s4)"
      and f4: "ms_uids s4 = filter (\<lambda>u. u \<notin> set gone) (ms_uids s)" "ms_Messages s4 = ms_Messages s |` (- set gone)"
      "ms_Deleted s4 = ms_Deleted s - set gone" "ms_results s4 = filter (\<lambda>u. u \<notin> set gone) (ms_results s)"
      "ms_threads s4 = ms_threads s" "ms_threadedView s4 = ms_threadedView s" "ms_ui s4 = ms_ui s"
      "ms_builder s4 = map_option (\<lambda>b. b\<lparr>tb_threadMap := fold mark_deleted gone (tb_threadMap b)\<rparr>) (ms_builder s)"
      "ms_iterReverse s4 = ms_iterReverse s"
      using update_deleted_run[OF 3(2), of te] by blast
    have d4: "dom (ms_Messages s4) = dom (ms_Messages s) - set gone" by (auto simp: f4(2))
    consider "\<not> ms_threadedView s" | "ms_threadedView s" "\<not> ms_buildThreads s" | "ms_threadedView s" "ms_buildThreads s"
      by blast
    then show ?thesis
    proof cases
      case 1
      then have "ms_Uids s4 = ms_uids s4" by (simp add: ms_Uids_def f4(6))
      then show ?thesis using 1 3 f4 d4 by (intro exI[of _ s4]) (auto simp: run)
    next
      case 2
      define b where "b = (case ms_builder s4 of Some b \<Rightarrow> b | None \<Rightarrow> empty_builder s4)"
      obtain ths' b' where r: "RebuildUids (ms_threads s4) (ui_ReverseThreadOrder (ms_ui s4)) b = Some (ths', b')"
        using RebuildUids_ex by blast
      have "\<exists>st. tb_threadMap b u = Some st \<and> th_Deleted st" if "u \<in> set (forest_uids (ms_threads s4))" "u \<in> set gone" for u
        using that v mark_deleted_marks[OF that(2)]
        by (cases "ms_builder s") (auto simp: f4 b_def view_inv_def)
      then have hid: "set gone \<inter> set (builder_Uids b') = {}" using rebuild_hides_deleted[OF r] by blast
      define t where "t = s4\<lparr>ms_builder := Some b', ms_threads := ths'\<rparr>"
      have "rebuild_threads (ms_threads s4) s4 = Some t" using r by (simp add: rebuild_threads_def b_def t_def)
      moreover have "set gone \<inter> set (ms_Uids t) = {}"
        using hid f4(1) by (auto simp: ms_Uids_def t_def split: bool.splits)
      ultimately show ?thesis using 2 3 f4 d4 by (intro exI[of _ t]) (auto simp: run t_def)
    next
      case c: 3
      let ?t = "runThreadBuilder s4"
      have fields: "ms_uids ?t = ms_uids s4" "ms_Messages ?t = ms_Messages s4" "ms_Deleted ?t = ms_Deleted s4"
        "ms_results ?t = ms_results s4" "ms_builderTimer ?t" "ms_threadedView ?t = ms_threadedView s4"
        by (simp_all add: runThreadBuilder_def)
      have up: "ms_Update te (MessagesDeleted (ms_Name s) gone) s = Some ?t" using run c by simp
      then have vt: "view_inv ?t" using ms_Update_view v by blast
      have "\<exists>enough. \<forall>fuel\<ge>enough. \<exists>t'. builder_fires (te\<lparr>te_fuel := fuel\<rparr>) ?t = Some t' \<and> set gone \<inter> set (ms_Uids t') = {}"
        if r: "rebuilds te s" "[] \<notin> set gone"
      proof -
        have "rebuilds te ?t" using rebuilds_take_out[OF r(1) f4(1,2,8,7,9)] .
        moreover have "set gone \<inter> insert [] (set (ms_uids ?t)) = {}" using r(2) by (auto simp: fields f4(1))
        ultimately show ?thesis
          using rebuild_lists_uids[OF vt _ fields(5)] c(1) by (fastforce simp: fields f4(6))
      qed
      then show ?thesis using 3 c f4 d4 fields up by (intro exI[of _ ?t]) simp
    qed
  qed
qed


lemma sample_contents:
  "\<exists>t. ms_Update sample_env (DirectoryContents ''INBOX'' [''7'', ''8'']) (NewMessageStore ''INBOX'' ui) = Some t
    \<and> ms_uids t = [''7'', ''8''] \<and> ms_Messages t = [''7'' \<mapsto> None, ''8'' \<mapsto> None] \<and> ms_builder t = None
    \<and> ms_Name t = ''INBOX'' \<and> ms_ui t = ui"
  by (simp add: ms_Update_def update_case_def update_contents_def scan_contents_def NewMessageStore_def
      no_update_def Let_def FetchHeaders_def emit_def split: prod.splits)

lemma deleted_messages_gone_witness:
  "\<exists>s t fuel t'. ms_uids s = [''7'', ''8''] \<and> ms_threadedView s \<and> ms_buildThreads s
    \<and> ms_Update sample_env (MessagesDeleted ''INBOX'' [''8'']) s = Some t \<and> ms_uids t = [''7'']
    \<and> builder_fires (sample_env\<lparr>te_fuel := fuel\<rparr>) t = Some t' \<and> ''8'' \<notin> set (ms_Uids t')"
proof -
  let ?ui = "sample_ui\<lparr>ui_ThreadingEnabled := True, ui_ForceClientThreads := True\<rparr>"
  obtain t0 where t0: "ms_Update sample_env (DirectoryContents ''INBOX'' [''7'', ''8'']) (NewMessageStore ''INBOX'' ?ui) = Some t0"
    and f: "ms_uids t0 = [''7'', ''8'']" "ms_Messages t0 = [''7'' \<mapsto> None, ''8'' \<mapsto> None]" "ms_builder t0 = None"
      "ms_Name t0 = ''INBOX''" "ms_ui t0 = ?ui" using sample_contents by blast
  define s where "s = ms_Configure None True t0"
  have s: "ms_uids s = [''7'', ''8'']" "ms_Messages s = [''7'' \<mapsto> None, ''8'' \<mapsto> None]" "ms_builder s = None"
    "ms_Name s = ''INBOX''" "ms_threadedView s" "ms_buildThreads s"
    using f by (simp_all add: s_def ms_Configure_def Let_def)
  have "store_reachable sample_env s"
    unfolding s_def by (rule Reach_step[OF Reach_step[OF Reach_New Step_Update[OF t0]] Step_Configure])
  moreover have "rebuilds sample_env s"
  proof -
    have "fetched (the_builder s) (ms_uids s) = []"
      by (simp add: fetched_def the_builder_def filled_builder_def s map_filter_simps)
    then show ?thesis using walks_table_upt by (auto simp: rebuilds_def s sample_env_def)
  qed
  ultimately obtain t enough where t: "ms_Update sample_env (MessagesDeleted ''INBOX'' [''8'']) s = Some t" "ms_uids t = [''7'']"
    and e: "\<forall>fuel\<ge>enough. \<exists>t'. builder_fires (sample_env\<lparr>te_fuel := fuel\<rparr>) t = Some t' \<and> set [''8''] \<inter> set (ms_Uids t') = {}"
    using deleted_messages_gone[of sample_env s "''INBOX''" "[''8'']"] s by auto
  from e[THEN spec, of enough] obtain t' where "builder_fires (sample_env\<lparr>te_fuel := enough\<rparr>) t = Some t'"
    "''8'' \<notin> set (ms_Uids t')" by auto
  then show ?thesis using s(1,5,6) t by blast
qed

subsection \<open>Folding threads\<close>

definition visible_mark :: "(uid \<rightharpoonup> thread) \<Rightarrow> uid \<Rightarrow> bool" where
  "visible_mark m u = (case m u of None \<Rightarrow> False | Some st \<Rightarrow> \<not> th_Deleted st \<and> th_Hidden st = 0)"

text \<open>With every node known to the map, what is listed depends on the marks in the map only.\<close>

lemma rebuild_listed:
  assumes "RebuildUids ths inverted b = Some (ths', b')"
    and "\<forall>u\<in>set (forest_uids ths). tb_threadMap b u \<noteq> None"
  shows "set (builder_Uids b') = {u \<in> set (forest_uids ths). visible_mark (tb_threadMap b) u}"
proof -
  let ?ts = "if tb_reverse b then ths else rev ths" and ?m = "tb_threadMap b"
  obtain ts m us where r: "rebuild_loop inverted ?ts ?m = (ts, m, us)"
    by (cases "rebuild_loop inverted ?ts ?m")
  note v = rebuild_loop_visible[OF r] and mk = rebuild_loop_marks[OF r]
  have bu: "set (builder_Uids b') = set us"
    using assms(1) r by (cases "tb_reverse b") (auto simp: RebuildUids_def iterate_all_eq builder_Uids_def)
  let ?ns = "concat (map thread_nodes ts)"
  have us: "set us = {u. \<exists>n\<in>set ?ns. th_Uid n = u \<and> \<not> (th_Deleted n \<or> th_Hidden n \<noteq> 0)}"
  proof -
    have "set us = (\<Union>t\<in>set ts. set (visible_uids t))"
      by (subst conjunct1[OF v]) (cases inverted; simp)
    then show ?thesis by (auto simp: visible_uids_def)
  qed
  let ?f = "\<lambda>t. map th_Uid (thread_nodes t)"
  have "?f ` set ts = ?f ` set ths" using arg_cong[OF conjunct2[OF v], of set] by (cases "tb_reverse b") simp_all
  from arg_cong[OF this, of "\<lambda>X. \<Union> (set ` X)"]
  have "(\<Union>t\<in>set ts. set (?f t)) = (\<Union>t\<in>set ths. set (?f t))" by (simp only: image_image)
  then have nodes: "th_Uid ` set ?ns = set (forest_uids ths)" by (simp add: forest_uids_def image_UN)
  have "(\<not> (th_Deleted n \<or> th_Hidden n \<noteq> 0)) = visible_mark ?m (th_Uid n)" if "n \<in> set ?ns" for n
  proof -
    have "th_Uid n \<in> set (forest_uids ths)" using that nodes by blast
    then obtain st where "?m (th_Uid n) = Some st" using assms(2) by auto
    then show ?thesis using mk that by (auto simp: nodes_marked_def visible_mark_def)
  qed
  then have "set us = {u. \<exists>n\<in>set ?ns. th_Uid n = u \<and> visible_mark ?m (th_Uid n)}"
    unfolding us by blast
  also have "\<dots> = {u \<in> th_Uid ` set ?ns. visible_mark ?m u}" by blast
  finally show ?thesis unfolding bu nodes .
qed

lemma change_hidden_fold:
  "distinct (map th_Uid ns) \<Longrightarrow>
     foldl (\<lambda>m n. if th_Uid n \<noteq> uid then change_hidden f (th_Uid n) m else m) m ns u
       = (if u \<in> th_Uid ` set ns \<and> u \<noteq> uid
          then map_option (\<lambda>t. Thread (th_Uid t) (f (th_Hidden t)) (th_Deleted t) (th_Dummy t) (th_Context t) (th_kids t)) (m u)
          else m u)"
proof (induction ns arbitrary: m)
  case Nil
  then show ?case by simp
next
  case (Cons n ns)
  then show ?case by (auto simp: change_hidden_def split: option.splits)
qed

text \<open>
  C26. Folding and unfolding a thread: the message becomes the selected one; every other message
  of its thread has its fold count changed (one more level, one less, or by toggling), the
  rest keep theirs; and exactly the messages that are neither deleted nor folded away at
  any level are listed.
\<close>

theorem folding_lists:
  assumes "ms_builder s = Some b" "tb_threadMap b uid = Some t" "length (thread_nodes t) \<noteq> 1"
    and "distinct (map th_Uid (thread_nodes t))"
    and "\<forall>u\<in>set (forest_uids (ms_threads s)). tb_threadMap b u \<noteq> None"
    and "folded = (case th_kids t of [] \<Rightarrow> False | k # _ \<Rightarrow> hidden_of (tb_threadMap b) k > 0)"
    and "toggle \<or> \<not> hide \<or> \<not> folded"
  shows "\<exists>s' b'. doThreadFolding uid hide toggle s = Some (Inr s') \<and> ms_selectedUid s' = uid \<and> ms_builder s' = Some b'
    \<and> set (builder_Uids b') = {u \<in> set (forest_uids (ms_threads s)). \<exists>st. tb_threadMap b u = Some st \<and> \<not> th_Deleted st
        \<and> (if u \<in> th_Uid ` set (thread_nodes t) \<and> u \<noteq> uid then folded_hidden hide toggle folded (th_Hidden st)
           else th_Hidden st) = 0}"
proof -
  let ?m = "fold_marks uid hide toggle t (tb_threadMap b)"
  define b1 where "b1 = b\<lparr>tb_threadMap := ?m\<rparr>"
  have m: "?m u = (if u \<in> th_Uid ` set (thread_nodes t) \<and> u \<noteq> uid
      then map_option (\<lambda>t. Thread (th_Uid t) (folded_hidden hide toggle folded (th_Hidden t)) (th_Deleted t) (th_Dummy t)
             (th_Context t) (th_kids t)) (tb_threadMap b u)
      else tb_threadMap b u)" for u
    using Walk_fold[where g = "\<lambda>n m. if th_Uid n \<noteq> uid then change_hidden (folded_hidden hide toggle folded) (th_Uid n) m else m"
        and 'e = unit]
    by (simp add: fold_marks_def assms(6)[symmetric] change_hidden_fold[OF assms(4)])
  obtain s1 where s1: "ms_Select uid (s\<lparr>ms_builder := Some b1\<rparr>) = Some s1" "ms_selectedUid s1 = uid"
    "ms_builder s1 = Some b1" "ms_threads s1 = ms_threads s" "ms_ui s1 = ms_ui s"
    using ms_Select_total[of uid "s\<lparr>ms_builder := Some b1\<rparr>"] by (auto simp: emit_fields)
  obtain ths' b' where r: "RebuildUids (ms_threads s) (ui_ReverseThreadOrder (ms_ui s)) b1 = Some (ths', b')"
    using RebuildUids_ex by blast
  have known: "\<forall>u\<in>set (forest_uids (ms_threads s)). tb_threadMap b1 u \<noteq> None"
    using assms(5) by (auto simp: b1_def m)
  have "doThreadFolding uid hide toggle s = Some (Inr (s1\<lparr>ms_builder := Some b', ms_threads := ths'\<rparr>))"
    using assms(1-3,6,7) s1 r
    by (auto simp: doThreadFolding_def ThreadForUid_def thread_Uids_nodes b1_def rebuild_threads_def)
  moreover have "visible_mark (tb_threadMap b1) u \<longleftrightarrow> (\<exists>st. tb_threadMap b u = Some st \<and> \<not> th_Deleted st
        \<and> (if u \<in> th_Uid ` set (thread_nodes t) \<and> u \<noteq> uid then folded_hidden hide toggle folded (th_Hidden st)
           else th_Hidden st) = 0)" for u
    by (auto simp: visible_mark_def b1_def m split: option.splits)
  ultimately show ?thesis using rebuild_listed[OF r known] s1(2) by auto
qed

lemma fold_then_unfold: "0 \<le> h \<Longrightarrow> folded_hidden False False f' (folded_hidden True False f h) = h"
  by (simp add: folded_hidden_def)

definition sample_thread :: thread where
  "sample_thread = Thread ''1'' 0 False False False [Thread ''2'' 0 False False False []]"

lemma folding_lists_witness:
  "\<exists>s' b'. doThreadFolding ''1'' True False ((sample_store [''1'', ''2''] ''2'')
      \<lparr>ms_threads := [sample_thread],
       ms_builder := Some ((NewThreadBuilder False False)
         \<lparr>tb_threadMap := [''1'' \<mapsto> sample_thread, ''2'' \<mapsto> Thread ''2'' 0 False False False []]\<rparr>)\<rparr>) = Some (Inr s')
    \<and> ms_builder s' = Some b' \<and> set (builder_Uids b') = {''1''}"
proof -
  let ?b = "(NewThreadBuilder False False :: unit thread_builder)
      \<lparr>tb_threadMap := [''1'' \<mapsto> sample_thread, ''2'' \<mapsto> Thread ''2'' 0 False False False []]\<rparr>"
  let ?s = "(sample_store [''1'', ''2''] ''2'')\<lparr>ms_threads := [sample_thread], ms_builder := Some ?b\<rparr>"
  have "(case th_kids sample_thread of [] \<Rightarrow> False | k # _ \<Rightarrow> hidden_of (tb_threadMap ?b) k > 0) = False"
    by (simp add: sample_thread_def hidden_of_def)
  moreover have "forest_uids (ms_threads ?s) = [''1'', ''2'']" by (simp add: forest_uids_def sample_thread_def)
  ultimately show ?thesis
    using folding_lists[of ?s ?b "''1''" sample_thread False False True]
    by (fastforce simp: sample_thread_def folded_hidden_def)
qed

end
