(* ===== verification/WorkerQueue.thy ===== *)
theory WorkerQueue
  imports Prelude "HOL-Library.Word"
begin

text \<open>
  \<open>worker/types/worker.go\<close> and the message header of \<open>worker/types/messages.go\<close>: the
  interface between the user interface and a worker.  Actions and messages get ids from a
  counter shared by all workers; a callback is kept under the id of its action and called for
  every message that answers it.  The channels are lists.  A callback is a value \<open>'c\<close>:
  processing a message returns the callback to be called with it.  What an answer carries is
  \<open>'p\<close>.
\<close>

datatype 'p wkind = DoneMsg | ErrorMsg | CancelledMsg | UnsupportedMsg | OtherMsg 'p

datatype wcontext = Background | Ctx nat

text \<open>Of the message it answers only the id is ever read.\<close>

record 'p wmessage =
  wm_kind :: "'p wkind"
  wm_inResponseTo :: "64 word option"
  wm_Id :: "64 word"
  wm_Acct :: string
  wm_Ctx :: "wcontext option"

definition new_message :: "'p wkind \<Rightarrow> 'p wmessage" where
  "new_message k = \<lparr>wm_kind = k, wm_inResponseTo = None, wm_Id = 0, wm_Acct = [], wm_Ctx = None\<rparr>"

definition RespondTo :: "'p wkind \<Rightarrow> 'p wmessage \<Rightarrow> 'p wmessage" where
  "RespondTo k msg = (new_message k)\<lparr>wm_inResponseTo := Some (wm_Id msg)\<rparr>"

definition wm_Context :: "'p wmessage \<Rightarrow> wcontext" where
  "wm_Context m = (case wm_Ctx m of Some c \<Rightarrow> c | None \<Rightarrow> Background)"

definition wm_SetContext :: "wcontext \<Rightarrow> 'p wmessage \<Rightarrow> 'p wmessage" where
  "wm_SetContext c m = m\<lparr>wm_Ctx := Some c\<rparr>"

text \<open>The counter \<open>lastId\<close> is global; here it is passed as part of the worker's state.\<close>

record ('p, 'c) worker =
  wk_lastId :: "64 word"
  wk_name :: string
  wk_actions :: "'p wmessage list"
  wk_actionCallbacks :: "64 word \<rightharpoonup> 'c"
  wk_messages :: "'p wmessage list"
  wk_messageCallbacks :: "64 word \<rightharpoonup> 'c"

definition NewWorker :: "string \<Rightarrow> ('p, 'c) worker" where
  "NewWorker name = \<lparr>wk_lastId = 1, wk_name = name, wk_actions = [], wk_actionCallbacks = Map.empty,
     wk_messages = [], wk_messageCallbacks = Map.empty\<rparr>"

definition setId :: "'p wmessage \<Rightarrow> ('p, 'c) worker \<Rightarrow> 'p wmessage \<times> ('p, 'c) worker" where
  "setId msg w = (msg\<lparr>wm_Id := wk_lastId w + 1\<rparr>, w\<lparr>wk_lastId := wk_lastId w + 1\<rparr>)"

definition add_callback :: "64 word \<Rightarrow> 'c option \<Rightarrow> (64 word \<rightharpoonup> 'c) \<Rightarrow> (64 word \<rightharpoonup> 'c)" where
  "add_callback i cb m = (case cb of None \<Rightarrow> m | Some f \<Rightarrow> m(i \<mapsto> f))"

definition PostAction ::
  "wcontext option \<Rightarrow> 'p wmessage \<Rightarrow> 'c option \<Rightarrow> ('p, 'c) worker \<Rightarrow> ('p, 'c) worker" where
  "PostAction ctx msg cb w =
     (let (msg, w) = setId msg w;
          msg = (case ctx of None \<Rightarrow> msg | Some c \<Rightarrow> wm_SetContext c msg);
          msg = msg\<lparr>wm_Acct := wk_name w\<rparr>;
          w = w\<lparr>wk_actionCallbacks := add_callback (wm_Id msg) cb (wk_actionCallbacks w)\<rparr>
      in w\<lparr>wk_actions := wk_actions w @ [msg]\<rparr>)"

definition PostMessage :: "'p wmessage \<Rightarrow> 'c option \<Rightarrow> ('p, 'c) worker \<Rightarrow> ('p, 'c) worker" where
  "PostMessage msg cb w =
     (let (msg, w) = setId msg w;
          msg = msg\<lparr>wm_Acct := wk_name w\<rparr>;
          w = w\<lparr>wk_messageCallbacks := add_callback (wm_Id msg) cb (wk_messageCallbacks w)\<rparr>
      in w\<lparr>wk_messages := wk_messages w @ [msg]\<rparr>)"

text \<open>
  The callback to call, and the worker once it has returned.  What the callback posts gets
  other ids, so removing the entry before or after the call makes no difference.
\<close>

definition ProcessMessage :: "'p wmessage \<Rightarrow> ('p, 'c) worker \<Rightarrow> 'c option \<times> ('p, 'c) worker" where
  "ProcessMessage msg w =
     (case wm_inResponseTo msg of
        None \<Rightarrow> (None, w)
      | Some i \<Rightarrow>
          (case wk_actionCallbacks w i of
             None \<Rightarrow> (None, w)
           | Some f \<Rightarrow>
               (Some f,
                if wm_kind msg = CancelledMsg \<or> wm_kind msg = DoneMsg
                then w\<lparr>wk_actionCallbacks := (wk_actionCallbacks w)(i := None)\<rparr> else w)))"

definition ProcessAction :: "'p wmessage \<Rightarrow> ('p, 'c) worker \<Rightarrow> 'c option \<times> ('p, 'c) worker" where
  "ProcessAction msg w =
     (case wm_inResponseTo msg of
        None \<Rightarrow> (None, w)
      | Some i \<Rightarrow>
          (case wk_messageCallbacks w i of
             None \<Rightarrow> (None, w)
           | Some f \<Rightarrow>
               (Some f,
                if wm_kind msg = DoneMsg
                then w\<lparr>wk_messageCallbacks := (wk_messageCallbacks w)(i := None)\<rparr> else w)))"

subsection \<open>Histories\<close>

text \<open>
  What may happen to a worker: the user interface posts an action or processes a message, the
  worker posts a message or processes an action, another worker draws an id.
\<close>

datatype ('p, 'c) wevent =
    UI_posts "wcontext option" "'p wmessage" "'c option"
  | UI_processes "'p wmessage"
  | Worker_posts "'p wmessage" "'c option"
  | Worker_processes "'p wmessage"
  | Other_posts

text \<open>A history returns the calls of action callbacks, with the messages they are called with.\<close>

fun history :: "('p, 'c) wevent list \<Rightarrow> ('p, 'c) worker \<Rightarrow> ('c \<times> 'p wmessage) list \<times> ('p, 'c) worker" where
  "history [] w = ([], w)"
| "history (UI_posts ctx msg cb # es) w = history es (PostAction ctx msg cb w)"
| "history (UI_processes msg # es) w =
     (let (f, w) = ProcessMessage msg w; (cs, w) = history es w
      in (case f of None \<Rightarrow> (cs, w) | Some f \<Rightarrow> ((f, msg) # cs, w)))"
| "history (Worker_posts msg cb # es) w = history es (PostMessage msg cb w)"
| "history (Worker_processes msg # es) w = history es (snd (ProcessAction msg w))"
| "history (Other_posts # es) w = history es (w\<lparr>wk_lastId := wk_lastId w + 1\<rparr>)"

fun posts :: "('p, 'c) wevent list \<Rightarrow> nat" where
  "posts [] = 0"
| "posts (UI_posts _ _ _ # es) = Suc (posts es)"
| "posts (UI_processes _ # es) = posts es"
| "posts (Worker_posts _ _ # es) = Suc (posts es)"
| "posts (Worker_processes _ # es) = posts es"
| "posts (Other_posts # es) = Suc (posts es)"

text \<open>The answers to an id that a history processes, up to the one that settles the action.\<close>

fun answers :: "64 word \<Rightarrow> ('p, 'c) wevent list \<Rightarrow> 'p wmessage list" where
  "answers i [] = []"
| "answers i (UI_processes msg # es) =
     (if wm_inResponseTo msg = Some i then
        (if wm_kind msg = CancelledMsg \<or> wm_kind msg = DoneMsg then [msg] else msg # answers i es)
      else answers i es)"
| "answers i (_ # es) = answers i es"

lemma post_callbacks:
  "wk_actionCallbacks (PostAction ctx msg cb w) = add_callback (wk_lastId w + 1) cb (wk_actionCallbacks w)"
  "wk_lastId (PostAction ctx msg cb w) = wk_lastId w + 1"
  "wk_actionCallbacks (PostMessage msg cb w) = wk_actionCallbacks w"
  "wk_lastId (PostMessage msg cb w) = wk_lastId w + 1"
  "wk_actionCallbacks (snd (ProcessAction msg w)) = wk_actionCallbacks w"
  "wk_lastId (snd (ProcessAction msg w)) = wk_lastId w"
  "wk_lastId (snd (ProcessMessage msg w)) = wk_lastId w"
  by (simp_all add: PostAction_def PostMessage_def ProcessAction_def ProcessMessage_def setId_def Let_def
      wm_SetContext_def split: option.split)

lemma add_callback_other: "i \<noteq> j \<Longrightarrow> add_callback j cb m i = m i"
  by (simp add: add_callback_def split: option.split)

lemma fresh_id:
  fixes i :: "64 word"
  assumes "Suc k < 2 ^ 64"
  shows "i \<noteq> i + of_nat k + 1"
proof
  assume "i = i + of_nat k + 1"
  then have "(of_nat (Suc k) :: 64 word) = 0" by (simp add: add.assoc add.commute)
  then have "2 ^ 64 dvd Suc k" by (simp only: word_of_nat_eq_0_iff) simp
  then show False using assms by (auto dest: dvd_imp_le)
qed

lemma answered_only:
  "ProcessMessage msg w = (f, w') \<Longrightarrow> wm_inResponseTo msg \<noteq> Some i \<Longrightarrow> wk_actionCallbacks w' i = wk_actionCallbacks w i"
  by (auto simp: ProcessMessage_def split: option.splits if_splits)

abbreviation calls_for :: "64 word \<Rightarrow> ('c \<times> 'p wmessage) list \<Rightarrow> ('c \<times> 'p wmessage) list" where
  "calls_for i cs \<equiv> filter (\<lambda>(_, msg). wm_inResponseTo msg = Some i) cs"

text \<open>An id that has been drawn is not drawn again, so a settled action stays settled.\<close>

lemma history_settled:
  "wk_lastId w = i + of_nat k \<Longrightarrow> k + posts es < 2 ^ 64 \<Longrightarrow> wk_actionCallbacks w i = None \<Longrightarrow>
     calls_for i (fst (history es w)) = []"
proof (induction es w arbitrary: k rule: history.induct)
  case (1 w)
  then show ?case by simp
next
  case (2 ctx msg cb es w)
  have "i \<noteq> wk_lastId w + 1" unfolding 2(2) using 2(3) by (intro fresh_id) simp
  then have "wk_actionCallbacks (PostAction ctx msg cb w) i = None"
    using 2(4) by (simp add: post_callbacks add_callback_other)
  moreover have "wk_lastId (PostAction ctx msg cb w) = i + of_nat (Suc k)" by (simp add: post_callbacks 2(2))
  ultimately show ?case using "2.IH"[of "Suc k"] 2(3) by simp
next
  case (3 msg es w)
  obtain f w' where p: "ProcessMessage msg w = (f, w')" by (cases "ProcessMessage msg w")
  have l: "wk_lastId w' = i + of_nat k" using post_callbacks(7)[of msg w] p 3(2) by simp
  have n: "wk_actionCallbacks w' i = None \<and> (wm_inResponseTo msg = Some i \<longrightarrow> f = None)"
  proof (cases "wm_inResponseTo msg = Some i")
    case True
    then show ?thesis using p 3(4) by (simp add: ProcessMessage_def)
  next
    case False
    then show ?thesis using answered_only[OF p False] 3(4) by simp
  qed
  have "calls_for i (fst (history es w')) = []"
    using "3.IH"[OF p[symmetric] refl, of k] l n 3(3) by simp
  then show ?case using n p by (cases f) (auto split: prod.split)
next
  case (4 msg cb es w)
  then show ?case using "4.IH"[of "Suc k"] by (simp add: post_callbacks)
next
  case (5 msg es w)
  then show ?case using "5.IH"[of k] by (simp add: post_callbacks)
next
  case (6 es w)
  then show ?case using "6.IH"[of "Suc k"] by simp
qed

lemma history_calls:
  "wk_lastId w = i + of_nat k \<Longrightarrow> k + posts es < 2 ^ 64 \<Longrightarrow> wk_actionCallbacks w i = Some f \<Longrightarrow>
     calls_for i (fst (history es w)) = map (\<lambda>m. (f, m)) (answers i es)"
proof (induction es w arbitrary: k rule: history.induct)
  case (1 w)
  then show ?case by simp
next
  case (2 ctx msg cb es w)
  have "i \<noteq> wk_lastId w + 1" unfolding 2(2) using 2(3) by (intro fresh_id) simp
  then have "wk_actionCallbacks (PostAction ctx msg cb w) i = Some f"
    using 2(4) by (simp add: post_callbacks add_callback_other)
  moreover have "wk_lastId (PostAction ctx msg cb w) = i + of_nat (Suc k)" by (simp add: post_callbacks 2(2))
  ultimately show ?case using "2.IH"[of "Suc k"] 2(3) by simp
next
  case (3 msg es w)
  obtain g w' where p: "ProcessMessage msg w = (g, w')" by (cases "ProcessMessage msg w")
  have l: "wk_lastId w' = i + of_nat k" using post_callbacks(7)[of msg w] p 3(2) by simp
  show ?case
  proof (cases "wm_inResponseTo msg = Some i")
    case False
    have "calls_for i (fst (history es w')) = map (\<lambda>m. (f, m)) (answers i es)"
      using "3.IH"[OF p[symmetric] refl, of k] l answered_only[OF p False] 3(3,4) by simp
    then show ?thesis using False p by (cases g) (auto split: prod.split)
  next
    case True
    show ?thesis
    proof (cases "wm_kind msg = CancelledMsg \<or> wm_kind msg = DoneMsg")
      case settled: True
      then have g: "g = Some f" "wk_actionCallbacks w' i = None"
        using p True 3(4) by (auto simp: ProcessMessage_def)
      then show ?thesis using history_settled[OF l _ g(2), of es] 3(3) p True settled
        by (auto split: prod.split)
    next
      case open_: False
      then have g: "g = Some f" "wk_actionCallbacks w' i = Some f"
        using p True 3(4) by (auto simp: ProcessMessage_def)
      have "calls_for i (fst (history es w')) = map (\<lambda>m. (f, m)) (answers i es)"
        using "3.IH"[OF p[symmetric] refl, of k] l g 3(3) by simp
      then show ?thesis using g p True open_ by (auto split: prod.split)
    qed
  qed
next
  case (4 msg cb es w)
  then show ?case using "4.IH"[of "Suc k"] by (simp add: post_callbacks)
next
  case (5 msg es w)
  then show ?case using "5.IH"[of k] by (simp add: post_callbacks)
next
  case (6 es w)
  then show ?case using "6.IH"[of "Suc k"] by simp
qed

text \<open>
  C27. Every answer reaches the callback of its action, and only that callback.  After an
  action was posted, whatever is posted and processed next (by this worker or others, less
  than \<open>2 ^ 64\<close> posts in all), the calls made for messages that answer the action are calls of
  its own callback, one for each such message in the order they are processed, up to the
  \<open>Done\<close> or \<open>Cancelled\<close> message that settles the action, and none after it.
\<close>

theorem callbacks_get_answers:
  assumes "Suc (posts es) < 2 ^ 64"
  shows "calls_for (wk_lastId w + 1) (fst (history (UI_posts ctx msg (Some f) # es) w))
    = map (\<lambda>m. (f, m)) (answers (wk_lastId w + 1) es)"
  using assms history_calls[of "PostAction ctx msg (Some f) w" "wk_lastId w + 1" 0 es f]
  by (simp add: post_callbacks add_callback_def)

lemma callbacks_get_answers_witness:
  "calls_for 2 (fst (history [UI_posts None (new_message (OtherMsg ())) (Some (7 :: nat)),
      UI_processes ((new_message ErrorMsg)\<lparr>wm_inResponseTo := Some 2\<rparr>),
      UI_processes ((new_message DoneMsg)\<lparr>wm_inResponseTo := Some 2\<rparr>),
      UI_processes ((new_message DoneMsg)\<lparr>wm_inResponseTo := Some 2\<rparr>)] (NewWorker ''work'')))
    = [(7, (new_message ErrorMsg)\<lparr>wm_inResponseTo := Some 2\<rparr>), (7, (new_message DoneMsg)\<lparr>wm_inResponseTo := Some 2\<rparr>)]"
proof -
  let ?e = "\<lambda>k. (new_message k :: unit wmessage)\<lparr>wm_inResponseTo := Some 2\<rparr>"
  let ?es = "[UI_processes (?e ErrorMsg), UI_processes (?e DoneMsg), UI_processes (?e DoneMsg)] :: (unit, nat) wevent list"
  let ?w = "NewWorker ''work'' :: (unit, nat) worker"
  have id: "wk_lastId ?w + 1 = 2" by (simp add: NewWorker_def)
  have "Suc (posts ?es) < 2 ^ 64" by simp
  then have "calls_for 2 (fst (history (UI_posts None (new_message (OtherMsg ())) (Some 7) # ?es) ?w))
      = map (\<lambda>m. (7, m)) (answers 2 ?es)"
    using callbacks_get_answers[of ?es ?w None "new_message (OtherMsg ())" 7] unfolding id by blast
  also have "answers 2 ?es = [?e ErrorMsg, ?e DoneMsg]" by (simp add: new_message_def)
  finally show ?thesis by (simp only: list.map)
qed

text \<open>
  An error does not settle an action: the callback of an action that is only answered by an
  error is kept for good.
\<close>

lemma error_keeps_callback:
  "wk_actionCallbacks w i = Some f \<Longrightarrow> wm_inResponseTo msg = Some i \<Longrightarrow> wm_kind msg = ErrorMsg \<or> wm_kind msg = UnsupportedMsg \<Longrightarrow>
     wk_actionCallbacks (snd (ProcessMessage msg w)) i = Some f"
  by (auto simp: ProcessMessage_def)

end
