(* ===== verification/Scrollable.thy ===== *)
theory Scrollable
  imports Prelude Complex_Main
begin

text \<open>
  \<open>app/scrollable.go\<close>: vertical scrolling, shared by the lists of the user interface.  The
  ratios are rational numbers; \<open>float64\<close> rounds them, which does not change how they compare
  with 1 for sizes below \<open>2 ^ 53\<close>.
\<close>

record scrollable =
  sc_scroll :: int
  sc_offset :: int
  sc_height :: int
  sc_elems :: int

definition new_scrollable :: scrollable where
  "new_scrollable = \<lparr>sc_scroll = 0, sc_offset = 0, sc_height = 0, sc_elems = 0\<rparr>"

definition Scroll :: "scrollable \<Rightarrow> int" where "Scroll s = sc_scroll s"
definition SetOffset :: "int \<Rightarrow> scrollable \<Rightarrow> scrollable" where "SetOffset off s = s\<lparr>sc_offset := off\<rparr>"
definition ScrollOffset :: "scrollable \<Rightarrow> int" where "ScrollOffset s = sc_offset s"

definition PercentVisible :: "scrollable \<Rightarrow> rat" where
  "PercentVisible s = (if sc_elems s \<le> 0 then 1 else of_int (sc_height s) / of_int (sc_elems s))"

definition PercentScrolled :: "scrollable \<Rightarrow> rat" where
  "PercentScrolled s = (if sc_elems s \<le> 0 then 1 else of_int (sc_scroll s) / of_int (sc_elems s))"

definition NeedScrollbar :: "scrollable \<Rightarrow> bool" where
  "NeedScrollbar s = (\<not> PercentVisible s \<ge> 1)"

definition UpdateScroller :: "int \<Rightarrow> int \<Rightarrow> scrollable \<Rightarrow> scrollable" where
  "UpdateScroller height elems s = s\<lparr>sc_height := height, sc_elems := elems\<rparr>"

definition checkBounds :: "scrollable \<Rightarrow> scrollable" where
  "checkBounds s =
     (let maxScroll = max (sc_elems s - sc_height s) 0;
          s = (if sc_scroll s > maxScroll then s\<lparr>sc_scroll := maxScroll\<rparr> else s)
      in if sc_scroll s < 0 then s\<lparr>sc_scroll := 0\<rparr> else s)"

text \<open>Go's division by 2 rounds to zero; heights are not negative.\<close>

definition EnsureScroll :: "int \<Rightarrow> scrollable \<Rightarrow> scrollable" where
  "EnsureScroll idx s =
     (if idx < 0 then s
      else
        (let middle = sc_height s div 2;
             s = (if sc_offset s > middle then s\<lparr>sc_scroll := idx - middle\<rparr>
                  else if idx < sc_scroll s + sc_offset s then s\<lparr>sc_scroll := idx - sc_offset s\<rparr>
                  else if idx \<ge> sc_scroll s - sc_offset s + sc_height s
                  then s\<lparr>sc_scroll := idx + sc_offset s - sc_height s + 1\<rparr>
                  else s)
         in checkBounds s))"

datatype align_position = AlignTop | AlignCenter | AlignBottom

definition Align :: "int \<Rightarrow> align_position \<Rightarrow> scrollable \<Rightarrow> scrollable" where
  "Align idx pos s =
     checkBounds (case pos of
        AlignTop \<Rightarrow> s\<lparr>sc_scroll := idx\<rparr>
      | AlignCenter \<Rightarrow> s\<lparr>sc_scroll := idx - sc_height s div 2\<rparr>
      | AlignBottom \<Rightarrow> s\<lparr>sc_scroll := idx - sc_height s + 1\<rparr>)"

subsection \<open>Facts\<close>

lemma NeedScrollbar_iff: "0 \<le> sc_height s \<Longrightarrow> NeedScrollbar s \<longleftrightarrow> sc_height s < sc_elems s"
  by (auto simp: NeedScrollbar_def PercentVisible_def divide_simps)

lemma checkBounds_eq:
  "checkBounds s = s\<lparr>sc_scroll := max 0 (min (sc_scroll s) (max (sc_elems s - sc_height s) 0))\<rparr>"
  by (cases s) (auto simp: checkBounds_def Let_def)

definition in_view :: "int \<Rightarrow> scrollable \<Rightarrow> bool" where
  "in_view idx s \<longleftrightarrow> sc_scroll s \<le> idx \<and> idx < sc_scroll s + sc_height s"

text \<open>The scroll position never leaves blank lines after the end, and starts at the top.\<close>

lemma EnsureScroll_bounds:
  assumes "0 \<le> idx"
  shows "0 \<le> sc_scroll (EnsureScroll idx s)" "sc_scroll (EnsureScroll idx s) \<le> max (sc_elems s - sc_height s) 0"
  using assms by (simp_all add: EnsureScroll_def checkBounds_eq Let_def)

lemma EnsureScroll_height [simp]: "sc_height (EnsureScroll idx s) = sc_height s"
  by (simp add: EnsureScroll_def checkBounds_eq Let_def)

lemma clamp_view:
  fixes t h e i :: int
  assumes "t \<le> i" "i < t + h" "0 \<le> i" "i < e"
  shows "max 0 (min t (max (e - h) 0)) \<le> i" "i < max 0 (min t (max (e - h) 0)) + h"
  using assms by (auto simp: max_def min_def)

lemma EnsureScroll_raw:
  assumes "0 \<le> idx"
  shows "sc_scroll (EnsureScroll idx s) = max 0 (min
    (if sc_offset s > sc_height s div 2 then idx - sc_height s div 2
     else if idx < sc_scroll s + sc_offset s then idx - sc_offset s
     else if idx \<ge> sc_scroll s - sc_offset s + sc_height s then idx + sc_offset s - sc_height s + 1
     else sc_scroll s) (max (sc_elems s - sc_height s) 0))"
  using assms by (simp add: EnsureScroll_def checkBounds_eq Let_def)

lemma raw_view:
  fixes idx off h scr :: int
  assumes "0 < h" "0 \<le> off"
  shows "(if off > h div 2 then idx - h div 2 else if idx < scr + off then idx - off
      else if idx \<ge> scr - off + h then idx + off - h + 1 else scr) \<le> idx
    \<and> idx < (if off > h div 2 then idx - h div 2 else if idx < scr + off then idx - off
      else if idx \<ge> scr - off + h then idx + off - h + 1 else scr) + h"
proof -
  have "h div 2 < h" "0 \<le> h div 2" "off \<le> h div 2 \<Longrightarrow> off < h" using assms by linarith+
  then show ?thesis using assms by (simp only: split: if_split) linarith
qed

lemma EnsureScroll_view:
  assumes "0 \<le> idx" "idx < sc_elems s" "0 < sc_height s" "0 \<le> sc_offset s"
  shows "in_view idx (EnsureScroll idx s)"
proof -
  let ?t = "if sc_offset s > sc_height s div 2 then idx - sc_height s div 2
     else if idx < sc_scroll s + sc_offset s then idx - sc_offset s
     else if idx \<ge> sc_scroll s - sc_offset s + sc_height s then idx + sc_offset s - sc_height s + 1
     else sc_scroll s"
  have "?t \<le> idx \<and> idx < ?t + sc_height s"
    using raw_view[OF assms(3,4)] .
  then have "?t \<le> idx" "idx < ?t + sc_height s" by blast+
  from clamp_view[OF this assms(1,2)] show ?thesis
    unfolding in_view_def EnsureScroll_raw[OF assms(1)] EnsureScroll_height by (rule conjI)
qed

lemma margin_view:
  fixes idx off h scr i :: int
  assumes "2 * off < h" "idx - off \<le> i" "i \<le> idx + off"
  shows "(if idx < scr + off then idx - off else if idx \<ge> scr - off + h then idx + off - h + 1 else scr) \<le> i
    \<and> i < (if idx < scr + off then idx - off else if idx \<ge> scr - off + h then idx + off - h + 1 else scr) + h"
proof (cases "idx < scr + off")
  case True
  then show ?thesis unfolding if_P[OF True] using assms by (intro conjI; linarith)
next
  case f: False
  show ?thesis
  proof (cases "idx \<ge> scr - off + h")
    case True
    then show ?thesis unfolding if_not_P[OF f] if_P[OF True] using assms by (intro conjI; linarith)
  next
    case False
    then show ?thesis unfolding if_not_P[OF f] if_not_P[OF False] using f assms by (intro conjI; linarith)
  qed
qed

text \<open>The margin is kept, too, unless the ends of the list forbid it.\<close>

lemma EnsureScroll_margin:
  assumes "2 * sc_offset s < sc_height s" "0 \<le> idx" "0 \<le> sc_offset s"
    and i: "idx - sc_offset s \<le> i" "i \<le> idx + sc_offset s" "0 \<le> i" "i < sc_elems s"
  shows "in_view i (EnsureScroll idx s)"
proof -
  have o: "\<not> sc_offset s > sc_height s div 2" using assms(1) by linarith
  from margin_view[OF assms(1) i(1,2), of "sc_scroll s"] have
    "(if idx < sc_scroll s + sc_offset s then idx - sc_offset s
      else if idx \<ge> sc_scroll s - sc_offset s + sc_height s then idx + sc_offset s - sc_height s + 1
      else sc_scroll s) \<le> i"
    "i < (if idx < sc_scroll s + sc_offset s then idx - sc_offset s
      else if idx \<ge> sc_scroll s - sc_offset s + sc_height s then idx + sc_offset s - sc_height s + 1
      else sc_scroll s) + sc_height s" by blast+
  from clamp_view[OF this i(3,4)] show ?thesis
    unfolding in_view_def EnsureScroll_raw[OF assms(2)] EnsureScroll_height if_not_P[OF o] by (rule conjI)
qed

lemma Align_view:
  assumes "0 \<le> idx" "idx < sc_elems s" "0 < sc_height s"
  shows "in_view idx (Align idx pos s)"
proof -
  let ?t = "case pos of AlignTop \<Rightarrow> idx | AlignCenter \<Rightarrow> idx - sc_height s div 2 | AlignBottom \<Rightarrow> idx - sc_height s + 1"
  have e: "sc_scroll (Align idx pos s) = max 0 (min ?t (max (sc_elems s - sc_height s) 0))"
    "sc_height (Align idx pos s) = sc_height s"
    by (simp_all add: Align_def checkBounds_eq split: align_position.split)
  have "?t \<le> idx" "idx < ?t + sc_height s" using assms(3) by (cases pos; simp; linarith)+
  from clamp_view[OF this assms(1,2)] show ?thesis unfolding in_view_def e by (rule conjI)
qed

end
