(* ===== verification/Messages.thy ===== *)
theory Messages
  imports Models Sorting Search Threads
begin

text \<open>
  The actions and messages of \<open>worker/types/messages.go\<close> with their fields, in the order of the
  source, and the strategies of \<open>worker/types/mfs.go\<close>.  The header that every message embeds is
  modelled in WorkerQueue; here an answer only carries the action it answers.  Configurations
  (\<open>'c\<close>) and readers and writers (\<open>'r\<close>) are opaque to the interface.  A pointer that may be nil
  is an option; durations are nanoseconds.
\<close>

datatype multi_file_strategy = Refuse | ActAll | ActOne | ActOneDelRest | ActDir | ActDirDelRest

definition StrToStrategy :: "(string \<times> multi_file_strategy) list" where
  "StrToStrategy = [(''refuse'', Refuse), (''act-all'', ActAll), (''act-one'', ActOne),
     (''act-one-delete-rest'', ActOneDelRest), (''act-dir'', ActDir),
     (''act-dir-delete-rest'', ActDirDelRest)]"

record directory_info =
  di_Name :: string
  di_Uid :: string
  di_Exists :: int
  di_Recent :: int
  di_Unseen :: int

record 'r body_reader =
  br_Reader :: 'r
  br_Uid :: uid

datatype ('c, 'r) action =
    Configure 'c
  | Connect
  | Reconnect
  | Disconnect
  | ListDirectories
  | OpenDirectory string string bool
  | FetchDirectoryContents string "sort_criterion list" "search_criteria option"
  | FetchDirectoryThreaded string "sort_criterion list" "search_criteria option" bool
  | SearchDirectory string "search_criteria option"
  | CreateDirectory string bool
  | RemoveDirectory string bool
  | FetchMessageHeaders string "uid list"
  | FetchFullMessages string "uid list"
  | FetchMessageBodyPart string uid "int list"
  | FetchMessageFlags string "uid list"
  | DeleteMessages string "uid list" "multi_file_strategy option"
  | FlagMessages bool flags string "uid list"
  | AnsweredMessages bool string "uid list"
  | ForwardedMessages bool string "uid list"
  | CopyMessages string string "uid list" "multi_file_strategy option"
  | MoveMessages string string "uid list" "multi_file_strategy option"
  | AppendMessage string flags go_time 'r int
  | CheckMail "string list" string int
  | StartSendingMessage "address option" "address list" "string list"
  | ModifyLabels "uid list" "string list" "string list" "string list"

text \<open>
  \<open>Done\<close> and the other outcomes name the action they respond to, if any; workers also post an
  action as a message to tell the interface of it (\<open>Posted\<close>).
\<close>

datatype ('h, 'c, 'r) wmsg =
    Done "('c, 'r) action option"
  | ErrorOf "('c, 'r) action option" string
  | Cancelled "('c, 'r) action option"
  | ConnError string
  | Unsupported "('c, 'r) action option"
  | Posted "('c, 'r) action"
  | DirectoryMsg directory
  | DirectoryInfoMsg directory_info bool
  | DirectoryContents string "search_criteria option" "uid list"
  | DirectoryThreaded string "search_criteria option" "thread list"
  | SearchResults string "search_criteria option" "uid list"
  | MessageInfoMsg "'h message_info option" bool bool
  | FullMessage "'r body_reader"
  | MessageBodyPart "'r body_reader"
  | MessagesDeleted string "search_criteria option" "uid list"
  | MessagesCopied string "uid list"
  | MessagesMoved string "uid list"
  | LabelList "string list"
  | CheckMailDirectories "string list"
  | MessageWriter 'r

text \<open>The directories an action names, and renaming them; the number is the place of the name.\<close>

fun action_dirs :: "('c, 'r) action \<Rightarrow> string list" where
  "action_dirs (OpenDirectory d q f) = [d]"
| "action_dirs (FetchDirectoryContents d s f) = [d]"
| "action_dirs (FetchDirectoryThreaded d s f c) = [d]"
| "action_dirs (SearchDirectory d c) = [d]"
| "action_dirs (CreateDirectory d q) = [d]"
| "action_dirs (RemoveDirectory d q) = [d]"
| "action_dirs (FetchMessageHeaders d us) = [d]"
| "action_dirs (FetchFullMessages d us) = [d]"
| "action_dirs (FetchMessageBodyPart d u p) = [d]"
| "action_dirs (FetchMessageFlags d us) = [d]"
| "action_dirs (DeleteMessages d us m) = [d]"
| "action_dirs (FlagMessages e fl d us) = [d]"
| "action_dirs (AnsweredMessages a d us) = [d]"
| "action_dirs (ForwardedMessages f d us) = [d]"
| "action_dirs (CopyMessages s d us m) = [s, d]"
| "action_dirs (MoveMessages s d us m) = [s, d]"
| "action_dirs (AppendMessage d fl t r n) = [d]"
| "action_dirs (CheckMail ds c t) = ds"
| "action_dirs a = []"

end
