(* ===== verification/FolderMapper.thy ===== *)
theory FolderMapper
  imports Messages
begin

text \<open>
  \<open>worker/middleware/foldermapper.go\<close>: the layer between the interface and a worker that
  renames folders.  The table maps the names shown to the names of the backend.  Go walks a map
  in an order of its own on each walk: \<open>walk i\<close> lists the keys for the \<open>i\<close>-th search of the
  table within one message.  The mutex is not modelled.
\<close>

subsection \<open>The configured mapping\<close>

record folder_map =
  fm_mapping :: "string \<rightharpoonup> string"
  fm_order :: "string list"

text \<open>\<open>for strings.Contains(prefix, "**")\<close>\<close>

function squeeze_stars :: "string \<Rightarrow> string" where
  "squeeze_stars p =
     (if str_contains p ''**'' then squeeze_stars (str_replace_all p ''**'' ''*'') else p)"
  by pat_completeness auto
termination
  by (relation "measure length") (use str_replace_all_shorter[of "''*''" "''**''"] in auto)

declare squeeze_stars.simps [simp del]

definition apply_key :: "(string \<rightharpoonup> string) \<Rightarrow> string \<Rightarrow> string \<Rightarrow> string" where
  "apply_key mapping k s =
     (let v = (case mapping k of Some v \<Rightarrow> v | None \<Rightarrow> []);
          strict = (\<not> has_suffix v ''*'');
          v = trim_suffix v ''*''
      in if has_prefix s v \<and> \<not> strict \<or> s = v \<and> strict
         then (let term = trim_prefix s v
               in if str_contains k ''*'' \<and> \<not> strict
                  then str_replace1 (squeeze_stars k) ''*'' term
                  else k @ term)
         else s)"

definition Apply :: "folder_map \<Rightarrow> string \<Rightarrow> string" where
  "Apply fm s = fold (apply_key (fm_mapping fm)) (fm_order fm) s"

subsection \<open>The table\<close>

type_synonym fm_table = "string \<rightharpoonup> string"

record folder_mapper =
  fmp_fm :: folder_map
  fmp_table :: fm_table

definition NewFolderMapper :: "(string \<rightharpoonup> string) \<Rightarrow> string list \<Rightarrow> folder_mapper" where
  "NewFolderMapper mapping order = \<lparr>fmp_fm = \<lparr>fm_mapping = mapping, fm_order = order\<rparr>, fmp_table = Map.empty\<rparr>"

definition longest_key :: "string \<Rightarrow> string list \<Rightarrow> nat \<times> string" where
  "longest_key s ks =
     fold (\<lambda>k (mx, key). if has_prefix s k \<and> length k > mx then (length k, k) else (mx, key)) ks (0, [])"

definition createFolder :: "string list \<Rightarrow> fm_table \<Rightarrow> string \<Rightarrow> string" where
  "createFolder walk tab s =
     (let (mx, key) = longest_key s walk
      in if mx > 0 \<and> key \<noteq> []
         then (case tab key of Some b \<Rightarrow> b | None \<Rightarrow> []) @ trim_prefix s key
         else s)"

definition incoming :: "fm_table \<Rightarrow> string \<Rightarrow> string" where
  "incoming tab dir = (case tab dir of None \<Rightarrow> dir | Some mapped \<Rightarrow> mapped)"

definition outgoing :: "string list \<Rightarrow> fm_table \<Rightarrow> string \<Rightarrow> string" where
  "outgoing walk tab dir = (case find (\<lambda>k. tab k = Some dir) walk of Some k \<Rightarrow> k | None \<Rightarrow> dir)"

definition fm_store :: "string \<Rightarrow> folder_mapper \<Rightarrow> folder_mapper" where
  "fm_store s f = f\<lparr>fmp_table := (fmp_table f)(Apply (fmp_fm f) s \<mapsto> s)\<rparr>"

datatype mapper_error = FolderExists string

text \<open>\<open>create\<close> returns a name besides the error; its caller only logs the error.\<close>

definition fm_create ::
  "string list \<Rightarrow> string \<Rightarrow> folder_mapper \<Rightarrow> (string \<times> mapper_error option) \<times> folder_mapper" where
  "fm_create walk s f =
     (let backend = createFolder walk (fmp_table f) s
      in if s \<in> dom (fmp_table f) then ((s, Some (FolderExists s)), f)
         else ((backend, None), f\<lparr>fmp_table := (fmp_table f)(s \<mapsto> backend)\<rparr>))"

subsection \<open>Actions on their way to the worker\<close>

definition fm_ProcessAction ::
  "string list \<Rightarrow> ('c, 'r) action \<Rightarrow> folder_mapper \<Rightarrow> ('c, 'r) action \<times> folder_mapper" where
  "fm_ProcessAction walk msg f =
     (let tab = fmp_table f
      in case msg of
        CheckMail ds c t \<Rightarrow> (CheckMail (map (incoming tab) ds) c t, f)
      | CopyMessages s d us m \<Rightarrow> (CopyMessages (incoming tab s) (incoming tab d) us m, f)
      | AppendMessage d fl t r n \<Rightarrow> (AppendMessage (incoming tab d) fl t r n, f)
      | MoveMessages s d us m \<Rightarrow> (MoveMessages (incoming tab s) (incoming tab d) us m, f)
      | CreateDirectory d q \<Rightarrow> (case fm_create walk d f of ((d, err), f) \<Rightarrow> (CreateDirectory d q, f))
      | RemoveDirectory d q \<Rightarrow> (RemoveDirectory (incoming tab d) q, f)
      | OpenDirectory d q fo \<Rightarrow> (OpenDirectory (incoming tab d) q fo, f)
      | FetchDirectoryContents d s fi \<Rightarrow> (FetchDirectoryContents (incoming tab d) s fi, f)
      | FetchDirectoryThreaded d s fi c \<Rightarrow> (FetchDirectoryThreaded (incoming tab d) s fi c, f)
      | SearchDirectory d c \<Rightarrow> (SearchDirectory (incoming tab d) c, f)
      | FetchMessageHeaders d us \<Rightarrow> (FetchMessageHeaders (incoming tab d) us, f)
      | FetchFullMessages d us \<Rightarrow> (FetchFullMessages (incoming tab d) us, f)
      | FetchMessageBodyPart d u p \<Rightarrow> (FetchMessageBodyPart (incoming tab d) u p, f)
      | FetchMessageFlags d us \<Rightarrow> (FetchMessageFlags (incoming tab d) us, f)
      | DeleteMessages d us m \<Rightarrow> (DeleteMessages (incoming tab d) us m, f)
      | FlagMessages e fl d us \<Rightarrow> (FlagMessages e fl (incoming tab d) us, f)
      | AnsweredMessages a d us \<Rightarrow> (AnsweredMessages a (incoming tab d) us, f)
      | ForwardedMessages fw d us \<Rightarrow> (ForwardedMessages fw (incoming tab d) us, f)
      | _ \<Rightarrow> (msg, f))"

subsection \<open>Messages on their way to the interface\<close>

text \<open>The action a \<open>Done\<close> answers is renamed back: the interface reads its directory.\<close>

definition done_outgoing :: "(nat \<Rightarrow> string list) \<Rightarrow> fm_table \<Rightarrow> ('c, 'r) action \<Rightarrow> ('c, 'r) action" where
  "done_outgoing walk tab msg =
     (case msg of
        CheckMail ds c t \<Rightarrow> CheckMail (map2 (\<lambda>i. outgoing (walk i) tab) [0..<length ds] ds) c t
      | CopyMessages s d us m \<Rightarrow> CopyMessages (outgoing (walk 0) tab s) (outgoing (walk 1) tab d) us m
      | AppendMessage d fl t r n \<Rightarrow> AppendMessage (outgoing (walk 0) tab d) fl t r n
      | MoveMessages s d us m \<Rightarrow> MoveMessages (outgoing (walk 0) tab s) (outgoing (walk 1) tab d) us m
      | CreateDirectory d q \<Rightarrow> CreateDirectory (outgoing (walk 0) tab d) q
      | RemoveDirectory d q \<Rightarrow> RemoveDirectory (outgoing (walk 0) tab d) q
      | OpenDirectory d q fo \<Rightarrow> OpenDirectory (outgoing (walk 0) tab d) q fo
      | FetchDirectoryContents d s fi \<Rightarrow> FetchDirectoryContents (outgoing (walk 0) tab d) s fi
      | FetchDirectoryThreaded d s fi c \<Rightarrow> FetchDirectoryThreaded (outgoing (walk 0) tab d) s fi c
      | SearchDirectory d c \<Rightarrow> SearchDirectory (outgoing (walk 0) tab d) c
      | FetchMessageHeaders d us \<Rightarrow> FetchMessageHeaders (outgoing (walk 0) tab d) us
      | FetchFullMessages d us \<Rightarrow> FetchFullMessages (outgoing (walk 0) tab d) us
      | FetchMessageBodyPart d u p \<Rightarrow> FetchMessageBodyPart (outgoing (walk 0) tab d) u p
      | FetchMessageFlags d us \<Rightarrow> FetchMessageFlags (outgoing (walk 0) tab d) us
      | DeleteMessages d us m \<Rightarrow> DeleteMessages (outgoing (walk 0) tab d) us m
      | FlagMessages e fl d us \<Rightarrow> FlagMessages e fl (outgoing (walk 0) tab d) us
      | AnsweredMessages a d us \<Rightarrow> AnsweredMessages a (outgoing (walk 0) tab d) us
      | ForwardedMessages fw d us \<Rightarrow> ForwardedMessages fw (outgoing (walk 0) tab d) us
      | _ \<Rightarrow> msg)"

definition fm_PostMessage ::
  "(nat \<Rightarrow> string list) \<Rightarrow> ('h, 'c, 'r) wmsg \<Rightarrow> folder_mapper \<Rightarrow> ('h, 'c, 'r) wmsg \<times> folder_mapper" where
  "fm_PostMessage walk msg f =
     (let tab = fmp_table f
      in case msg of
        Done (Some a) \<Rightarrow> (Done (Some (done_outgoing walk tab a)), f)
      | CheckMailDirectories ds \<Rightarrow>
          (CheckMailDirectories (map2 (\<lambda>i. outgoing (walk i) tab) [0..<length ds] ds), f)
      | DirectoryMsg d \<Rightarrow>
          (if dir_Role d \<noteq> QueryRole
           then (let f = fm_store (dir_Name d) f
                 in (DirectoryMsg (d\<lparr>dir_Name := outgoing (walk 0) (fmp_table f) (dir_Name d)\<rparr>), f))
           else (msg, f))
      | DirectoryInfoMsg i r \<Rightarrow>
          (DirectoryInfoMsg (i\<lparr>di_Name := outgoing (walk 0) tab (di_Name i)\<rparr>) r, f)
      | MessagesMoved d us \<Rightarrow> (MessagesMoved (outgoing (walk 0) tab d) us, f)
      | MessagesCopied d us \<Rightarrow> (MessagesCopied (outgoing (walk 0) tab d) us, f)
      | Posted (RemoveDirectory d q) \<Rightarrow> (Posted (RemoveDirectory (outgoing (walk 0) tab d) q), f)
      | DirectoryContents d fi us \<Rightarrow> (DirectoryContents (outgoing (walk 0) tab d) fi us, f)
      | DirectoryThreaded d fi ts \<Rightarrow> (DirectoryThreaded (outgoing (walk 0) tab d) fi ts, f)
      | SearchResults d c us \<Rightarrow> (SearchResults (outgoing (walk 0) tab d) c us, f)
      | MessageInfoMsg (Some i) nf rf \<Rightarrow>
          (MessageInfoMsg (Some (i\<lparr>mi_Directory := outgoing (walk 0) tab (mi_Directory i)\<rparr>)) nf rf, f)
      | MessagesDeleted d c us \<Rightarrow> (MessagesDeleted (outgoing (walk 0) tab d) c us, f)
      | _ \<Rightarrow> (msg, f))"

subsection \<open>Naming a new folder\<close>

lemma prefixes_of_length:
  "has_prefix s k \<Longrightarrow> has_prefix s k' \<Longrightarrow> length k = length k' \<Longrightarrow> k = k'"
  unfolding has_prefix_def by metis

lemma longest_key_loop:
  fixes s :: string
  defines "step \<equiv> \<lambda>k (mx :: nat, key). if has_prefix s k \<and> length k > mx then (length k, k) else (mx, key)"
  assumes "length key = mx" "has_prefix s key"
  shows "let (m, k) = fold step ks (mx, key) in
    length k = m \<and> has_prefix s k \<and> (k = key \<or> k \<in> set ks) \<and> mx \<le> m \<and>
    (\<forall>k'\<in>set ks. has_prefix s k' \<longrightarrow> length k' \<le> m)"
  using assms(2,3)
proof (induction ks arbitrary: mx key)
  case Nil
  then show ?case by simp
next
  case (Cons a ks)
  show ?case
  proof (cases "has_prefix s a \<and> length a > mx")
    case True
    then have e: "fold step (a # ks) (mx, key) = fold step ks (length a, a)" by (simp add: step_def)
    show ?thesis unfolding e using Cons.IH[of a "length a"] True by (auto simp: Let_def split: prod.splits)
  next
    case False
    then have "step a (mx, key) = (mx, key)" unfolding step_def prod.case by (rule if_not_P)
    then have e: "fold step (a # ks) (mx, key) = fold step ks (mx, key)" by simp
    show ?thesis unfolding e using Cons.IH[of key mx] Cons.prems False by (auto simp: Let_def split: prod.splits)
  qed
qed

lemma longest_key_spec:
  assumes "longest_key s ks = (m, k)"
  shows "length k = m" "has_prefix s k" "k = [] \<or> k \<in> set ks" "k' \<in> set ks \<Longrightarrow> has_prefix s k' \<Longrightarrow> length k' \<le> m"
  using longest_key_loop[of "[]" 0 s ks] assms unfolding longest_key_def
  by (auto simp: has_prefix_def)

text \<open>The map may be walked in any order.\<close>

lemma longest_key_order:
  assumes "set ks = set ks'"
  shows "longest_key s ks = longest_key s ks'"
proof -
  obtain m k where a: "longest_key s ks = (m, k)" by (cases "longest_key s ks")
  obtain m' k' where b: "longest_key s ks' = (m', k')" by (cases "longest_key s ks'")
  note A = longest_key_spec[OF a] and B = longest_key_spec[OF b]
  have "length k \<le> length k'" using A(1,2,3) B(1) B(4)[of k] assms by auto
  moreover have "length k' \<le> length k" using B(1,2,3) A(1) A(4)[of k'] assms by auto
  ultimately have "k = k'" using prefixes_of_length[OF A(2) B(2)] by simp
  then show ?thesis using a b A(1) B(1) by simp
qed

lemma createFolder_below:
  assumes "set walk = dom tab" "k \<in> dom tab" "k \<noteq> []" "has_prefix s k"
    and longest: "\<And>k'. k' \<in> dom tab \<Longrightarrow> has_prefix s k' \<Longrightarrow> length k' \<le> length k"
  shows "createFolder walk tab s = the (tab k) @ trim_prefix s k"
proof -
  obtain m kk where a: "longest_key s walk = (m, kk)" by (cases "longest_key s walk")
  note A = longest_key_spec[OF a]
  have "length k \<le> m" using A(4)[of k] assms(1,2,4) by simp
  then have "kk \<noteq> []" "m > 0" using A(1) assms(3) by (auto simp: Suc_le_eq)
  then have "length kk \<le> length k" using A(2,3) assms(1) longest[of kk] by auto
  then have "kk = k" using \<open>length k \<le> m\<close> A(1,2) assms(4) prefixes_of_length by simp
  then show ?thesis using a \<open>kk \<noteq> []\<close> \<open>m > 0\<close> assms(2) by (auto simp: createFolder_def)
qed

lemma createFolder_alone:
  assumes "set walk = dom tab" "\<And>k. k \<in> dom tab \<Longrightarrow> has_prefix s k \<Longrightarrow> k = []"
  shows "createFolder walk tab s = s"
proof -
  obtain m k where a: "longest_key s walk = (m, k)" by (cases "longest_key s walk")
  have "k = []" using longest_key_spec(2,3)[OF a] assms by auto
  then show ?thesis using a by (simp add: createFolder_def)
qed

subsection \<open>The table agrees with the mapping\<close>

definition table_agrees :: "folder_mapper \<Rightarrow> bool" where
  "table_agrees f \<longleftrightarrow> (\<forall>k b. fmp_table f k = Some b \<longrightarrow> Apply (fmp_fm f) b = k)"

text \<open>A new folder is in order when the mapping shows the name it gets under the name asked for.\<close>

fun creation_in_order :: "string list \<Rightarrow> ('c, 'r) action \<Rightarrow> folder_mapper \<Rightarrow> bool" where
  "creation_in_order walk (CreateDirectory s q) f =
     (s \<in> dom (fmp_table f) \<or> Apply (fmp_fm f) (createFolder walk (fmp_table f) s) = s)"
| "creation_in_order walk _ f = True"

datatype ('h, 'c, 'r) mapper_event =
    ActionEvent "string list" "('c, 'r) action"
  | MessageEvent "nat \<Rightarrow> string list" "('h, 'c, 'r) wmsg"

fun mapper_run :: "('h, 'c, 'r) mapper_event list \<Rightarrow> folder_mapper \<Rightarrow> folder_mapper" where
  "mapper_run [] f = f"
| "mapper_run (ActionEvent walk a # es) f = mapper_run es (snd (fm_ProcessAction walk a f))"
| "mapper_run (MessageEvent walks m # es) f = mapper_run es (snd (fm_PostMessage walks m f))"

fun events_in_order :: "('h, 'c, 'r) mapper_event list \<Rightarrow> folder_mapper \<Rightarrow> bool" where
  "events_in_order [] f = True"
| "events_in_order (ActionEvent walk a # es) f \<longleftrightarrow>
     creation_in_order walk a f \<and> events_in_order es (snd (fm_ProcessAction walk a f))"
| "events_in_order (MessageEvent walks m # es) f = events_in_order es (snd (fm_PostMessage walks m f))"

fun is_creation :: "('c, 'r) action \<Rightarrow> bool" where
  "is_creation (CreateDirectory s q) = True"
| "is_creation _ = False"

lemma process_other:
  assumes "\<not> is_creation a"
  shows "snd (fm_ProcessAction walk a f) = f"
  using assms by (cases a) (simp_all add: fm_ProcessAction_def Let_def)

lemma process_create:
  "fm_ProcessAction walk (CreateDirectory s q) f =
     (CreateDirectory (fst (fst (fm_create walk s f))) q, snd (fm_create walk s f))"
  by (simp add: fm_ProcessAction_def split: prod.splits)

lemma post_state:
  "snd (fm_PostMessage walks m f) =
     (case m of DirectoryMsg d \<Rightarrow> if dir_Role d \<noteq> QueryRole then fm_store (dir_Name d) f else f | _ \<Rightarrow> f)"
  unfolding fm_PostMessage_def by (cases m) (auto simp: Let_def split: option.splits action.splits)

lemma action_agrees:
  assumes "table_agrees f" "creation_in_order walk a f"
  shows "table_agrees (snd (fm_ProcessAction walk a f)) \<and> fmp_fm (snd (fm_ProcessAction walk a f)) = fmp_fm f"
proof (cases "is_creation a")
  case True
  then obtain d q where "a = CreateDirectory d q" by (cases a) simp_all
  then show ?thesis using assms by (auto simp: process_create fm_create_def table_agrees_def Let_def)
next
  case False
  then have "snd (fm_ProcessAction walk a f) = f" by (rule process_other)
  then show ?thesis using assms(1) by simp
qed

lemma message_agrees:
  assumes "table_agrees f"
  shows "table_agrees (snd (fm_PostMessage walks m f)) \<and> fmp_fm (snd (fm_PostMessage walks m f)) = fmp_fm f"
  using assms unfolding post_state by (cases m) (auto simp: fm_store_def table_agrees_def)

lemma run_agrees:
  "table_agrees f \<Longrightarrow> events_in_order es f \<Longrightarrow> table_agrees (mapper_run es f) \<and> fmp_fm (mapper_run es f) = fmp_fm f"
proof (induction es arbitrary: f)
  case Nil
  then show ?case by simp
next
  case (Cons e es)
  show ?case
  proof (cases e)
    case (ActionEvent w a)
    with Cons.prems have "creation_in_order w a f" by simp
    from action_agrees[OF Cons.prems(1) this] show ?thesis using Cons.IH Cons.prems(2) ActionEvent by simp
  next
    case (MessageEvent w m)
    then show ?thesis using message_agrees[OF Cons.prems(1), of w m] Cons.IH Cons.prems(2) by simp
  qed
qed

lemma new_agrees: "table_agrees (NewFolderMapper mapping order)"
  by (simp add: table_agrees_def NewFolderMapper_def)

subsection \<open>Round trips\<close>

lemma outgoing_shown:
  assumes "table_agrees f" "set walk = dom (fmp_table f)" "b \<in> ran (fmp_table f)"
  shows "outgoing walk (fmp_table f) b = Apply (fmp_fm f) b"
proof -
  obtain k where k: "fmp_table f k = Some b" using assms(3) by (auto simp: ran_def)
  then have "k \<in> set walk" using assms(2) by auto
  with k obtain k' where f: "find (\<lambda>k. fmp_table f k = Some b) walk = Some k'"
    by (cases "find (\<lambda>k. fmp_table f k = Some b) walk") (auto simp: find_None_iff)
  then have "fmp_table f k' = Some b" by (auto simp: find_Some_iff)
  then show ?thesis using f assms(1) by (simp add: outgoing_def table_agrees_def)
qed

lemma incoming_shown:
  assumes "table_agrees f" "d \<in> dom (fmp_table f)"
  shows "incoming (fmp_table f) d \<in> ran (fmp_table f)" "Apply (fmp_fm f) (incoming (fmp_table f) d) = d"
  using assms by (auto simp: incoming_def table_agrees_def ran_def)

lemma incoming_outgoing:
  assumes "table_agrees f" "set walk = dom (fmp_table f)" "b \<in> ran (fmp_table f)"
  shows "incoming (fmp_table f) (outgoing walk (fmp_table f) b) = b"
  using assms outgoing_shown[OF assms] by (auto simp: incoming_def table_agrees_def ran_def)

lemma map2_index:
  assumes "\<And>i d. d \<in> set ds \<Longrightarrow> g i (h d) = d"
  shows "map2 g [0..<length ds] (map h ds) = ds"
  by (rule nth_equalityI) (auto simp: assms)

lemma round_trip_names:
  assumes g: "\<And>i d. d \<in> set (action_dirs a) \<Longrightarrow> outgoing (walks i) tab (incoming (fmp_table f) d) = d"
    and "\<not> is_creation a"
  shows "done_outgoing walks tab (fst (fm_ProcessAction walk a f)) = a"
  using assms(2) map2_index[of "action_dirs a" "\<lambda>i. outgoing (walks i) tab" "incoming (fmp_table f)", OF g]
  by (cases a) (simp_all add: fm_ProcessAction_def done_outgoing_def g Let_def)

lemma process_dirs:
  assumes "\<not> is_creation a"
  shows "action_dirs (fst (fm_ProcessAction walk a f)) = map (incoming (fmp_table f)) (action_dirs a)"
  using assms by (cases a) (simp_all add: fm_ProcessAction_def Let_def)

lemma process_dirs_known:
  assumes "is_creation a \<longrightarrow> set (action_dirs a) \<inter> dom (fmp_table f) = {}" and f1_def: "f1 = snd (fm_ProcessAction walk a f)"
  shows "action_dirs (fst (fm_ProcessAction walk a f)) = map (incoming (fmp_table f1)) (action_dirs a)"
proof (cases "is_creation a")
  case True
  then obtain d q where "a = CreateDirectory d q" by (cases a) simp_all
  then show ?thesis using assms(1) by (auto simp: f1_def process_create fm_create_def incoming_def Let_def)
next
  case False
  then show ?thesis using process_other[OF False, of walk f] by (simp add: f1_def process_dirs)
qed

lemma round_trip_known:
  assumes g: "\<And>i d. d \<in> set (action_dirs a) \<Longrightarrow> outgoing (walks i) tab (incoming (fmp_table f1) d) = d"
    and "is_creation a \<longrightarrow> set (action_dirs a) \<inter> dom (fmp_table f) = {}" and f1: "f1 = snd (fm_ProcessAction walk a f)"
  shows "done_outgoing walks tab (fst (fm_ProcessAction walk a f)) = a"
proof (cases "is_creation a")
  case True
  then obtain d q where "a = CreateDirectory d q" by (cases a) simp_all
  then show ?thesis using assms(2) g[of d 0]
    by (auto simp: f1 process_create fm_create_def incoming_def done_outgoing_def Let_def)
next
  case False
  then have "f1 = f" using process_other[OF False, of walk f] by (simp add: f1)
  then show ?thesis using round_trip_names[of a walks tab f walk] g False by blast
qed

lemma outgoing_absent: "d \<notin> ran tab \<Longrightarrow> outgoing walk tab d = d"
  by (auto simp: outgoing_def ran_def split: option.splits) (metis find_Some_iff)

lemma names_round_trip:
  assumes "events_in_order es (NewFolderMapper mapping order)"
    and f: "f = mapper_run es (NewFolderMapper mapping order)"
    and new: "is_creation a \<longrightarrow> set (action_dirs a) \<inter> dom (fmp_table f) = {}"
    and ev: "events_in_order (ActionEvent walk a # es') f"
    and f1: "f1 = snd (fm_ProcessAction walk a f)" and f': "f' = mapper_run es' f1"
    and walks: "\<And>i. set (walks i) = dom (fmp_table f')"
    and known: "\<forall>d\<in>set (action_dirs a). if d \<in> dom (fmp_table f1) then incoming (fmp_table f1) d \<in> ran (fmp_table f')
      else d \<notin> ran (fmp_table f')"
  shows "\<forall>d\<in>set (action_dirs a). d \<in> dom (fmp_table f1) \<longrightarrow> Apply (fmp_fm f) (incoming (fmp_table f1) d) = d"
    and "fm_PostMessage walks (Done (Some (fst (fm_ProcessAction walk a f)))) f' = (Done (Some a), f')"
proof -
  have ag: "table_agrees f" using run_agrees[OF new_agrees assms(1)] f by simp
  have ag1: "table_agrees f1" "fmp_fm f1 = fmp_fm f" using action_agrees[OF ag, of walk a] ev by (simp_all add: f1)
  have ag': "table_agrees f'" "fmp_fm f' = fmp_fm f"
    using run_agrees[OF ag1(1), of es'] ev ag1(2) by (simp_all add: f' f1)
  show shown: "\<forall>d\<in>set (action_dirs a). d \<in> dom (fmp_table f1) \<longrightarrow> Apply (fmp_fm f) (incoming (fmp_table f1) d) = d"
    using incoming_shown(2)[OF ag1(1)] by (simp add: ag1(2))
  have "outgoing (walks i) (fmp_table f') (incoming (fmp_table f1) d) = d" if d: "d \<in> set (action_dirs a)" for i d
  proof (cases "d \<in> dom (fmp_table f1)")
    case True
    then have "incoming (fmp_table f1) d \<in> ran (fmp_table f')" using d known by auto
    from outgoing_shown[OF ag'(1) walks this] show ?thesis using shown d True ag'(2) by simp
  next
    case False
    then have "incoming (fmp_table f1) d = d" by (auto simp: incoming_def split: option.splits)
    then show ?thesis using known d False outgoing_absent by auto
  qed
  from round_trip_known[OF this new f1]
  show "fm_PostMessage walks (Done (Some (fst (fm_ProcessAction walk a f)))) f' = (Done (Some a), f')"
    by (simp add: fm_PostMessage_def)
qed

text \<open>A new folder is known under the name it was asked for, below the folder that contains it.\<close>

lemma new_folder_known:
  assumes "s \<notin> dom (fmp_table f)"
  shows "fm_ProcessAction walk (CreateDirectory s q) f =
      (CreateDirectory (createFolder walk (fmp_table f) s) q,
       f\<lparr>fmp_table := (fmp_table f)(s \<mapsto> createFolder walk (fmp_table f) s)\<rparr>)"
  using assms by (auto simp: process_create fm_create_def Let_def)

subsection \<open>Examples and departures\<close>

definition inbox_map :: folder_map where
  "inbox_map = \<lparr>fm_mapping = [''*'' \<mapsto> ''INBOX/*''], fm_order = [''*'']\<rparr>"

lemma inbox_map_examples:
  "Apply inbox_map ''INBOX/A'' = ''A''" "Apply inbox_map ''INBOX'' = ''INBOX''" "Apply inbox_map ''Sent'' = ''Sent''"
  by code_simp+

definition strict_map :: folder_map where
  "strict_map = \<lparr>fm_mapping = [''Drafts'' \<mapsto> ''INBOX/Drafts''], fm_order = [''Drafts'']\<rparr>"

definition chain_map :: folder_map where
  "chain_map = \<lparr>fm_mapping = [''Archive/existing'' \<mapsto> ''Archive*'', ''Archive'' \<mapsto> ''Archivum*''],
     fm_order = [''Archive/existing'', ''Archive'']\<rparr>"

lemma chain_map_examples:
  "map (Apply chain_map) [''Archive'', ''Archive/sub'', ''Archivum'', ''Archivum/year1'']
     = [''Archive/existing'', ''Archive/existing/sub'', ''Archive'', ''Archive/year1'']"
  by code_simp

text \<open>
  A removed folder stays in the table, so that creating it again is taken for an error; the error is
  only logged and the worker is asked to create a folder under the name shown, unmapped.
\<close>

lemma recreated_folder_unmapped:
  assumes "s \<in> dom (fmp_table f)"
  shows "fst (fm_ProcessAction walk (CreateDirectory s q)
      (mapper_run [ActionEvent walk' (RemoveDirectory s q), MessageEvent walks (Done (Some (RemoveDirectory b q)))] f))
    = CreateDirectory s q"
  using assms by (simp add: fm_ProcessAction_def fm_PostMessage_def fm_create_def Let_def)

text \<open>
  A folder created below a folder that is mapped by its exact name is shown under two names once the
  backend lists it; which one depends on the order in which the table is walked.
\<close>

definition drafts_table :: fm_table where
  "drafts_table = fmp_table (mapper_run
     [MessageEvent (\<lambda>i. []) (DirectoryMsg \<lparr>dir_Name = ''INBOX/Drafts'', dir_Uid = [], dir_Exists = 0,
        dir_Recent = 0, dir_Unseen = 0, dir_Role = []\<rparr>),
      ActionEvent [''Drafts''] (CreateDirectory ''Drafts/Sub'' False),
      MessageEvent (\<lambda>i. []) (DirectoryMsg \<lparr>dir_Name = ''INBOX/Drafts/Sub'', dir_Uid = [], dir_Exists = 0,
        dir_Recent = 0, dir_Unseen = 0, dir_Role = []\<rparr>) :: (unit, unit, unit) mapper_event]
     (NewFolderMapper (fm_mapping strict_map) (fm_order strict_map)))"

lemma created_folder_two_names:
  "outgoing [''Drafts'', ''Drafts/Sub'', ''INBOX/Drafts/Sub''] drafts_table ''INBOX/Drafts/Sub'' = ''Drafts/Sub''"
  "outgoing [''INBOX/Drafts/Sub'', ''Drafts'', ''Drafts/Sub''] drafts_table ''INBOX/Drafts/Sub'' = ''INBOX/Drafts/Sub''"
  by code_simp+

text \<open>
  The IMAP worker posts \<open>CheckMail\<close> actions for itself with the backend's names; they are renamed
  like those of the interface, to the folder that is shown under the backend's name of another.
\<close>

lemma own_action_renamed:
  "incoming (fmp_table (fm_store ''Archivum'' (fm_store ''Archive''
     (NewFolderMapper (fm_mapping chain_map) (fm_order chain_map))))) ''Archive'' = ''Archivum''"
  by code_simp

subsection \<open>Properties\<close>

text \<open>
  C28. Names survive the way to the worker and back.  An action, the creation of a folder that is not in the
  table included, reaches the worker with the names the table has for its folders, which are the
  backend's names that the mapping shows under the names used; and when the worker reports it
  done, however much later, the interface sees the names it used, in whatever order the table
  is walked.  The conditions: every folder created before, by the action or since is shown by the mapping
  under the name it was asked for (\<open>creation_in_order\<close>; \<open>created_folder_two_names\<close> shows what
  happens otherwise), the backend's name of a folder used is still in the table when the answer
  comes (no other folder has taken its place there), and a name that is not in the table, which the
  worker gets as it is, is not the backend's name of a folder shown under another one.
\<close>

theorem folder_names_round_trip:
  assumes "events_in_order es (NewFolderMapper mapping order)"
    and "f = mapper_run es (NewFolderMapper mapping order)"
    and "is_creation a \<longrightarrow> set (action_dirs a) \<inter> dom (fmp_table f) = {}"
    and "events_in_order (ActionEvent walk a # es') f"
    and "f1 = snd (fm_ProcessAction walk a f)" and "f' = mapper_run es' f1"
    and "\<And>i. set (walks i) = dom (fmp_table f')"
    and "\<forall>d\<in>set (action_dirs a). if d \<in> dom (fmp_table f1) then incoming (fmp_table f1) d \<in> ran (fmp_table f')
      else d \<notin> ran (fmp_table f')"
  shows "action_dirs (fst (fm_ProcessAction walk a f)) = map (incoming (fmp_table f1)) (action_dirs a)
    \<and> (\<forall>d\<in>set (action_dirs a). d \<in> dom (fmp_table f1) \<longrightarrow> Apply (fmp_fm f) (incoming (fmp_table f1) d) = d)
    \<and> fm_PostMessage walks (Done (Some (fst (fm_ProcessAction walk a f)))) f' = (Done (Some a), f')"
  by (intro conjI, rule process_dirs_known[OF assms(3,5)], rule names_round_trip(1)[where walks = walks, OF assms],
      rule names_round_trip(2)[where walks = walks, OF assms])

definition sample_events :: "(unit, unit, unit) mapper_event list" where
  "sample_events =
     [MessageEvent (\<lambda>i. []) (DirectoryMsg \<lparr>dir_Name = ''INBOX/A'', dir_Uid = [], dir_Exists = 0,
        dir_Recent = 0, dir_Unseen = 0, dir_Role = []\<rparr>)]"

lemma sample_table:
  "fmp_table (mapper_run sample_events (NewFolderMapper [''*'' \<mapsto> ''INBOX/*''] [''*''])) = [''A'' \<mapsto> ''INBOX/A'']"
  using inbox_map_examples(1)
  by (simp add: sample_events_def fm_PostMessage_def fm_store_def QueryRole_def NewFolderMapper_def Let_def inbox_map_def)

lemma sample_creation:
  fixes f :: folder_mapper
  assumes "f = mapper_run sample_events (NewFolderMapper [''*'' \<mapsto> ''INBOX/*''] [''*''])"
  shows "fm_ProcessAction [''A''] (CreateDirectory ''A/B'' False :: (unit, unit) action) f
    = (CreateDirectory ''INBOX/A/B'' False, f\<lparr>fmp_table := [''A'' \<mapsto> ''INBOX/A'', ''A/B'' \<mapsto> ''INBOX/A/B'']\<rparr>)"
    "events_in_order [ActionEvent [''A''] (CreateDirectory ''A/B'' False) :: (unit, unit, unit) mapper_event] f"
    "events_in_order sample_events (NewFolderMapper [''*'' \<mapsto> ''INBOX/*''] [''*''])"
proof -
  have c: "createFolder [''A''] [''A'' \<mapsto> ''INBOX/A''] ''A/B'' = ''INBOX/A/B''" by code_simp
  show "fm_ProcessAction [''A''] (CreateDirectory ''A/B'' False :: (unit, unit) action) f
    = (CreateDirectory ''INBOX/A/B'' False, f\<lparr>fmp_table := [''A'' \<mapsto> ''INBOX/A'', ''A/B'' \<mapsto> ''INBOX/A/B'']\<rparr>)"
    using c by (simp add: new_folder_known assms sample_table)
  have "fmp_fm f = inbox_map"
    by (simp add: assms sample_events_def fm_PostMessage_def fm_store_def NewFolderMapper_def inbox_map_def Let_def QueryRole_def)
  moreover have "Apply inbox_map ''INBOX/A/B'' = ''A/B''" by code_simp
  ultimately show "events_in_order [ActionEvent [''A''] (CreateDirectory ''A/B'' False) :: (unit, unit, unit) mapper_event] f"
    using c by (simp add: assms sample_table)
qed (simp add: sample_events_def)

lemma folder_names_round_trip_witness:
  "\<exists>f1 :: folder_mapper. fmp_table f1 = [''A'' \<mapsto> ''INBOX/A'', ''A/B'' \<mapsto> ''INBOX/A/B'']
    \<and> fm_PostMessage (\<lambda>i. [''A'', ''A/B'']) (Done (Some (CreateDirectory ''INBOX/A/B'' False)) :: (unit, unit, unit) wmsg) f1
      = (Done (Some (CreateDirectory ''A/B'' False)), f1)"
proof -
  define f where "f = mapper_run sample_events (NewFolderMapper [''*'' \<mapsto> ''INBOX/*''] [''*''])"
  note c = sample_creation[OF f_def]
  let ?f1 = "f\<lparr>fmp_table := [''A'' \<mapsto> ''INBOX/A'', ''A/B'' \<mapsto> ''INBOX/A/B'']\<rparr>"
  have "fm_PostMessage (\<lambda>i. [''A'', ''A/B'']) (Done (Some (fst (fm_ProcessAction [''A''] (CreateDirectory ''A/B'' False) f)))
      :: (unit, unit, unit) wmsg) ?f1 = (Done (Some (CreateDirectory ''A/B'' False)), ?f1)"
  proof (rule folder_names_round_trip[OF c(3) f_def, where es' = "[]" and ?f1.0 = ?f1, THEN conjunct2, THEN conjunct2])
    show "is_creation (CreateDirectory ''A/B'' False :: (unit, unit) action) \<longrightarrow>
        set (action_dirs (CreateDirectory ''A/B'' False :: (unit, unit) action)) \<inter> dom (fmp_table f) = {}"
      by (simp add: f_def sample_table)
  qed (use c in \<open>auto simp: incoming_def ran_def\<close>)
  then show ?thesis using c(1) by (intro exI[of _ ?f1]) simp
qed

end
