(* ===== verification/DirList.thy ===== *)
theory DirList
  imports Scrollable Messages
begin

text \<open>
  \<open>lib/dirstore.go\<close> and \<open>app/dirlist.go\<close>: the directories of an account, the flat list of them in
  the side bar and the requests to open one.  A message store is a reference \<open>'m\<close>, a callback a
  value \<open>'k\<close>; what the list does to a message store is recorded in \<open>dl_out\<close>.  A context is a
  number, live while it is the list's newest one.  The regular expressions and the glob matching of
  Go's library are part of the configuration \<open>dir_config\<close>.
\<close>

subsection \<open>The directory store\<close>

record 'm dirstore =
  ds_dirs :: "string \<rightharpoonup> directory"
  ds_msgStores :: "string \<rightharpoonup> 'm"
  ds_order :: "string list"

definition NewDirStore :: "'m dirstore" where
  "NewDirStore = \<lparr>ds_dirs = Map.empty, ds_msgStores = Map.empty, ds_order = []\<rparr>"

text \<open>\<open>walk\<close>: the names in the order in which the map of stores is walked.\<close>

definition ds_List :: "string list \<Rightarrow> 'm dirstore \<Rightarrow> string list" where
  "ds_List walk s = SortStringBy walk (ds_order s)"

definition ds_MessageStore :: "string \<Rightarrow> 'm dirstore \<Rightarrow> 'm option" where
  "ds_MessageStore name s = ds_msgStores s name"

definition ds_SetMessageStore :: "directory \<Rightarrow> 'm \<Rightarrow> 'm dirstore \<Rightarrow> 'm dirstore" where
  "ds_SetMessageStore dir m st =
     (let s = dir_Name dir;
          st = (if s \<notin> dom (ds_dirs st) then st\<lparr>ds_order := ds_order st @ [s]\<rparr> else st)
      in st\<lparr>ds_dirs := (ds_dirs st)(s \<mapsto> dir), ds_msgStores := (ds_msgStores st)(s \<mapsto> m)\<rparr>)"

definition ds_Remove :: "string \<Rightarrow> 'm dirstore \<Rightarrow> 'm dirstore" where
  "ds_Remove name s = s\<lparr>ds_dirs := (ds_dirs s)(name := None), ds_msgStores := (ds_msgStores s)(name := None)\<rparr>"

definition ds_Directory :: "string \<Rightarrow> 'm dirstore \<Rightarrow> directory option" where
  "ds_Directory name s = ds_dirs s name"

subsection \<open>Configuration\<close>

record dir_config =
  dc_Folders :: "string list"
  dc_FoldersExclude :: "string list"
  dc_FoldersSort :: "string list"
  dc_EnableFoldersSort :: bool
  dc_DirListDelay :: "string \<Rightarrow> int"
  dc_DirListCollapse :: "string \<Rightarrow> int"
  dc_Compile :: "string \<Rightarrow> (string \<Rightarrow> bool) option"
  dc_PathMatch :: "string \<Rightarrow> string \<Rightarrow> bool option"

definition folderMatches :: "dir_config \<Rightarrow> string \<Rightarrow> string \<Rightarrow> bool" where
  "folderMatches cf folder pat =
     (if length pat = 0 then False
      else if pat ! 0 = CHR ''~'' then (case dc_Compile cf (drop 1 pat) of None \<Rightarrow> False | Some r \<Rightarrow> r folder)
      else pat = folder)"

definition findString :: "string list \<Rightarrow> string \<Rightarrow> int" where
  "findString xs s = find_idx (\<lambda>x. s = x) xs"

definition findFirstMatchingString :: "dir_config \<Rightarrow> string list \<Rightarrow> string \<Rightarrow> int" where
  "findFirstMatchingString cf xs s = find_idx (\<lambda>x. dc_PathMatch cf x s = Some True) xs"

text \<open>The comparison of \<open>sortDirsByFoldersSortConfig\<close>.\<close>

definition folder_compare :: "dir_config \<Rightarrow> string \<Rightarrow> string \<Rightarrow> int" where
  "folder_compare cf a b =
     (let idxA = findFirstMatchingString cf (dc_FoldersSort cf) a;
          idxB = findFirstMatchingString cf (dc_FoldersSort cf) b
      in if idxA \<noteq> idxB
         then (if idxA \<ge> 0 \<and> idxB \<ge> 0 then go_compare idxA idxB
               else if idxA \<ge> 0 then -1
               else if idxB \<ge> 0 then 1
               else go_compare a b)
         else go_compare a b)"

definition FilterDirs :: "dir_config \<Rightarrow> string list \<Rightarrow> string list \<Rightarrow> bool \<Rightarrow> string list" where
  "FilterDirs cf orig filters exclude =
     (if length filters = 0 then orig
      else filter (\<lambda>folder. if list_ex (folderMatches cf folder) filters then \<not> exclude else exclude) orig)"

subsection \<open>The list\<close>

record 'k open_request =
  or_ctx :: nat
  or_name :: string
  or_query :: string
  or_delay :: int
  or_force :: bool
  or_cb :: "'k option"

datatype 'm dirlist_out = SetStoreContext 'm nat | SortStore 'm | PostOpen nat string string bool | VirtualNode

record ('m, 'k) dirlist =
  dl_scroll :: scrollable
  dl_store :: "'m dirstore"
  dl_dirs :: "string list"
  dl_selecting :: string
  dl_selected :: string
  dl_previous :: string
  dl_spinning :: bool
  dl_ctx :: nat
  dl_pending :: "'k open_request list"
  dl_out :: "'m dirlist_out list"

definition dl_NewContext :: "('m, 'k) dirlist \<Rightarrow> ('m, 'k) dirlist" where
  "dl_NewContext s = s\<lparr>dl_ctx := dl_ctx s + 1\<rparr>"

definition NewDirectoryList :: "('m, 'k) dirlist" where
  "NewDirectoryList = dl_NewContext
     \<lparr>dl_scroll = new_scrollable, dl_store = NewDirStore, dl_dirs = [], dl_selecting = [], dl_selected = [],
      dl_previous = [], dl_spinning = True, dl_ctx = 0, dl_pending = [], dl_out = []\<rparr>"

definition dl_ClearList :: "('m, 'k) dirlist \<Rightarrow> ('m, 'k) dirlist" where
  "dl_ClearList s = s\<lparr>dl_store := NewDirStore, dl_dirs := []\<rparr>"

definition dl_Directory :: "string \<Rightarrow> ('m, 'k) dirlist \<Rightarrow> directory option" where
  "dl_Directory name s = ds_Directory name (dl_store s)"

definition dl_SelectedMsgStore :: "('m, 'k) dirlist \<Rightarrow> 'm option" where
  "dl_SelectedMsgStore s = ds_MessageStore (dl_selected s) (dl_store s)"

definition dl_SetMsgStore :: "directory \<Rightarrow> 'm \<Rightarrow> ('m, 'k) dirlist \<Rightarrow> ('m, 'k) dirlist" where
  "dl_SetMsgStore dir m s = s\<lparr>dl_store := ds_SetMessageStore dir m (dl_store s)\<rparr>"

text \<open>The Recent, Unseen and Exists counts.\<close>

definition GetRUECount :: "string \<Rightarrow> ('m, 'k) dirlist \<Rightarrow> int \<times> int \<times> int" where
  "GetRUECount name s =
     (case dl_Directory name s of None \<Rightarrow> (0, 0, 0) | Some d \<Rightarrow> (dir_Recent d, dir_Unseen d, dir_Exists d))"

definition dl_emit :: "'m dirlist_out \<Rightarrow> ('m, 'k) dirlist \<Rightarrow> ('m, 'k) dirlist" where
  "dl_emit out s = s\<lparr>dl_out := dl_out s @ [out]\<rparr>"

definition filterDirsByFoldersConfig :: "dir_config \<Rightarrow> string list \<Rightarrow> ('m, 'k) dirlist \<Rightarrow> ('m, 'k) dirlist" where
  "filterDirsByFoldersConfig cf walk s =
     (let dirs = ds_List walk (dl_store s);
          dirs = FilterDirs cf dirs (dc_Folders cf) False;
          dirs = FilterDirs cf dirs (dc_FoldersExclude cf) True
      in s\<lparr>dl_dirs := dirs\<rparr>)"

definition sortDirsByFoldersSortConfig :: "dir_config \<Rightarrow> ('m, 'k) dirlist \<Rightarrow> ('m, 'k) dirlist" where
  "sortDirsByFoldersSortConfig cf s =
     (if \<not> dc_EnableFoldersSort cf then s
      else s\<lparr>dl_dirs := sort_stable (folder_compare cf) (dl_dirs s)\<rparr>)"

text \<open>\<open>actx\<close>: the context of the action that is answered.\<close>

definition dl_Update ::
  "dir_config \<Rightarrow> string list \<Rightarrow> nat \<Rightarrow> ('h, 'c, 'r) wmsg \<Rightarrow> ('m, 'k) dirlist \<Rightarrow> ('m, 'k) dirlist" where
  "dl_Update cf walk actx msg s =
     (case msg of
        Done (Some (OpenDirectory d q f)) \<Rightarrow>
          (let s = s\<lparr>dl_previous := dl_selected s\<rparr>;
               s = s\<lparr>dl_selected := d\<rparr>;
               s = filterDirsByFoldersConfig cf walk s;
               hasSelected = (dl_selected s \<in> set (dl_dirs s));
               s = (if \<not> hasSelected \<and> dl_selected s \<noteq> [] then s\<lparr>dl_dirs := dl_dirs s @ [dl_selected s]\<rparr> else s);
               s = (if dc_EnableFoldersSort cf then s\<lparr>dl_dirs := sort_stable go_compare (dl_dirs s)\<rparr> else s);
               s = sortDirsByFoldersSortConfig cf s
           in case dl_SelectedMsgStore s of None \<Rightarrow> s | Some m \<Rightarrow> dl_emit (SetStoreContext m actx) s)
      | Done (Some ListDirectories) \<Rightarrow>
          (sortDirsByFoldersSortConfig cf (filterDirsByFoldersConfig cf walk s))\<lparr>dl_spinning := False\<rparr>
      | Done (Some (RemoveDirectory d q)) \<Rightarrow>
          sortDirsByFoldersSortConfig cf
            (filterDirsByFoldersConfig cf walk (s\<lparr>dl_store := ds_Remove d (dl_store s)\<rparr>))
      | Done (Some (CreateDirectory d q)) \<Rightarrow>
          sortDirsByFoldersSortConfig cf (filterDirsByFoldersConfig cf walk s)
      | DirectoryInfoMsg i refetch \<Rightarrow>
          (case dl_Directory (di_Name i) s of
             None \<Rightarrow> s
           | Some d \<Rightarrow>
               (let d = d\<lparr>dir_Exists := di_Exists i, dir_Recent := di_Recent i, dir_Unseen := di_Unseen i\<rparr>;
                    s = s\<lparr>dl_store := (dl_store s)\<lparr>ds_dirs := (ds_dirs (dl_store s))(di_Name i \<mapsto> d)\<rparr>\<rparr>
                in if refetch
                   then (case dl_SelectedMsgStore s of None \<Rightarrow> s | Some m \<Rightarrow> dl_emit (SortStore m) s)
                   else s))
      | _ \<Rightarrow> s)"

subsection \<open>Opening a directory\<close>

definition dl_Open ::
  "string \<Rightarrow> string \<Rightarrow> int \<Rightarrow> 'k option \<Rightarrow> bool \<Rightarrow> ('m, 'k) dirlist \<Rightarrow> ('m, 'k) dirlist" where
  "dl_Open name query delay cb force s =
     (let s = dl_NewContext (s\<lparr>dl_selecting := name\<rparr>)
      in s\<lparr>dl_pending := dl_pending s @
           [\<lparr>or_ctx = dl_ctx s, or_name = name, or_query = query, or_delay = delay, or_force = force, or_cb = cb\<rparr>]\<rparr>)"

text \<open>
  The goroutine of a request waits for its timer or for its context to be cancelled: the
  operations \<open>dl_timer\<close> and \<open>dl_cancelled\<close> on the \<open>i\<close>-th waiting request.
\<close>

definition dl_timer :: "nat \<Rightarrow> ('m, 'k) dirlist \<Rightarrow> ('m, 'k) dirlist" where
  "dl_timer i s =
     (if i < length (dl_pending s)
      then (let r = dl_pending s ! i
            in dl_emit (PostOpen (or_ctx r) (or_name r) (or_query r) (or_force r))
                 (s\<lparr>dl_pending := slice_delete (dl_pending s) i\<rparr>))
      else s)"

definition dl_cancelled :: "nat \<Rightarrow> ('m, 'k) dirlist \<Rightarrow> ('m, 'k) dirlist" where
  "dl_cancelled i s =
     (if i < length (dl_pending s) \<and> or_ctx (dl_pending s ! i) \<noteq> dl_ctx s
      then s\<lparr>dl_pending := slice_delete (dl_pending s) i\<rparr> else s)"

text \<open>The callback of the action: the new state and the caller's callback, to be run next.\<close>

definition dl_open_reply ::
  "'k option \<Rightarrow> ('h, 'c, 'r) wmsg \<Rightarrow> ('m, 'k) dirlist \<Rightarrow> ('m, 'k) dirlist \<times> 'k option" where
  "dl_open_reply cb msg s =
     ((case msg of ErrorOf a e \<Rightarrow> s\<lparr>dl_selecting := []\<rparr> | _ \<Rightarrow> s), cb)"

text \<open>\<open>UiConfig\<close> of the empty name is that of the selected directory.\<close>

definition dl_UiConfig :: "(string \<Rightarrow> 'u) \<Rightarrow> string \<Rightarrow> ('m, 'k) dirlist \<Rightarrow> 'u" where
  "dl_UiConfig conf dir s = conf (if dir = [] then dl_selected s else dir)"

definition dl_Select :: "dir_config \<Rightarrow> string \<Rightarrow> ('m, 'k) dirlist \<Rightarrow> ('m, 'k) dirlist" where
  "dl_Select cf name s = dl_Open name [] (dl_UiConfig (dc_DirListDelay cf) name s) None False s"

subsection \<open>Moving\<close>

definition dl_NextPrevDelta :: "dir_config \<Rightarrow> int \<Rightarrow> ('m, 'k) dirlist \<Rightarrow> ('m, 'k) dirlist" where
  "dl_NextPrevDelta cf delta s =
     (if delta = 0 then s
      else
        (let curIdx = findString (dl_dirs s) (dl_selecting s);
             ndirs = int (length (dl_dirs s));
             newIdx = curIdx + delta
         in if curIdx = ndirs then s
            else if ndirs = 0 then s
            else
              (let newIdx = (if newIdx < 0 then ndirs - 1 else if newIdx \<ge> ndirs then 0 else newIdx)
               in dl_Select cf (dl_dirs s ! nat newIdx) s)))"

text \<open>A directory that is listed but not in the store is dereferenced: a panic, \<open>None\<close>.\<close>

fun dl_next_unseen :: "dir_config \<Rightarrow> nat \<Rightarrow> int \<Rightarrow> ('m, 'k) dirlist \<Rightarrow> ('m, 'k) dirlist option" where
  "dl_next_unseen cf 0 delta s = Some s"
| "dl_next_unseen cf (Suc n) delta s =
     (let s = dl_NextPrevDelta cf delta s
      in if findString (dl_dirs s) (dl_selecting s) \<ge> 0
         then (case dl_Directory (dl_selecting s) s of
                 None \<Rightarrow> None
               | Some d \<Rightarrow> if dir_Unseen d > 0 then Some s else dl_next_unseen cf n delta s)
         else dl_next_unseen cf n delta s)"

definition dl_NextPrev :: "dir_config \<Rightarrow> int \<Rightarrow> bool \<Rightarrow> ('m, 'k) dirlist \<Rightarrow> ('m, 'k) dirlist option" where
  "dl_NextPrev cf delta unseen s =
     (if unseen then dl_next_unseen cf (length (dl_dirs s)) delta s
      else Some (dl_NextPrevDelta cf delta s))"

subsection \<open>On the screen\<close>

datatype dirlist_view = ViewSpinner | ViewEmpty | ViewTooNarrow | ViewRows "(int \<times> string \<times> bool) list"

text \<open>The rows of \<open>Draw\<close>: the directories from the scroll position on, until the height is used up.\<close>

fun dl_rows :: "int \<Rightarrow> int \<Rightarrow> string \<Rightarrow> int \<Rightarrow> string list \<Rightarrow> (int \<times> string \<times> bool) list" where
  "dl_rows scroll height selecting i [] = []"
| "dl_rows scroll height selecting i (name # names) =
     (if i < scroll then dl_rows scroll height selecting (i + 1) names
      else if i - scroll \<ge> height then []
      else (i - scroll, name, name = selecting) # dl_rows scroll height selecting (i + 1) names)"

definition dl_Draw :: "int \<Rightarrow> int \<Rightarrow> ('m, 'k) dirlist \<Rightarrow> ('m, 'k) dirlist \<times> dirlist_view" where
  "dl_Draw width height s =
     (if dl_spinning s then (s, ViewSpinner)
      else if length (dl_dirs s) = 0 then (s, ViewEmpty)
      else
        (let sc = EnsureScroll (findString (dl_dirs s) (dl_selecting s))
                    (UpdateScroller height (int (length (dl_dirs s))) (dl_scroll s));
             s = s\<lparr>dl_scroll := sc\<rparr>;
             textWidth = (if NeedScrollbar sc then width - 1 else width)
         in if textWidth < 0 then (s, ViewTooNarrow)
            else (s, ViewRows (dl_rows (Scroll sc) height (dl_selecting s) 0 (dl_dirs s)))))"

text \<open>Size and offset of the pill in the scroll bar.\<close>

definition scrollbar_pill :: "int \<Rightarrow> scrollable \<Rightarrow> int \<times> int" where
  "scrollbar_pill height sc =
     (ceiling (of_int height * PercentVisible sc), floor (of_int height * PercentScrolled sc))"

fun dl_clicked_loop :: "int \<Rightarrow> int \<Rightarrow> string list \<Rightarrow> string \<times> bool" where
  "dl_clicked_loop i y [] = ([], False)"
| "dl_clicked_loop i y (name # names) = (if i = y then (name, True) else dl_clicked_loop (i + 1) y names)"

definition dl_Clicked :: "int \<Rightarrow> ('m, 'k) dirlist \<Rightarrow> string \<times> bool" where
  "dl_Clicked y s = (if length (dl_dirs s) = 0 then ([], False) else dl_clicked_loop 0 y (dl_dirs s))"

datatype mouse_event = MouseLeftButton int | MouseWheelDown | MouseWheelUp | MouseOther

definition dl_MouseEvent :: "dir_config \<Rightarrow> mouse_event \<Rightarrow> ('m, 'k) dirlist \<Rightarrow> ('m, 'k) dirlist" where
  "dl_MouseEvent cf ev s =
     (case ev of
        MouseLeftButton y \<Rightarrow> (case dl_Clicked y s of (dir, ok) \<Rightarrow> if ok then dl_Select cf dir s else s)
      | MouseWheelDown \<Rightarrow> dl_NextPrevDelta cf 1 s
      | MouseWheelUp \<Rightarrow> dl_NextPrevDelta cf (-1) s
      | MouseOther \<Rightarrow> s)"

subsection \<open>Ordering by another list\<close>

lemma index_map_other: "v \<notin> set us \<Longrightarrow> index_map i us m v = m v"
  by (induction i us m rule: index_map.induct) auto

lemma index_map_member: "v \<in> set us \<Longrightarrow> \<exists>j \<ge> i. index_map i us m v = Some j"
proof (induction i us m rule: index_map.induct)
  case (1 i m)
  then show ?case by simp
next
  case (2 i u us m)
  show ?case
  proof (cases "v \<in> set us")
    case True
    from "2.IH"[OF this] obtain j where j: "i + 1 \<le> j" "index_map (i + 1) us (m(u \<mapsto> i)) v = Some j" by blast
    then show ?thesis by (intro exI[of _ j] conjI; (simp only: index_map.simps)?; linarith?)
  next
    case False
    then have "v = u" using "2.prems" by simp
    with False show ?thesis by (simp add: index_map_other)
  qed
qed

lemma index_map_ge: "v \<in> set us \<Longrightarrow> i \<le> map_int (index_map i us m) v"
  using index_map_member[of v us i m] by (auto simp: map_int_def)

lemma index_map_increasing:
  "sorted_wrt (\<lambda>a b. map_int (index_map i us m) a < map_int (index_map i us m) b) (remdups us)"
proof (induction i us m rule: index_map.induct)
  case (1 i m)
  then show ?case by simp
next
  case (2 i u us m)
  have "map_int (index_map i (u # us) m) u = i" if "u \<notin> set us"
    using that by (simp add: index_map_other map_int_def)
  moreover have "i < map_int (index_map i (u # us) m) v" if "v \<in> set us" for v
    using index_map_ge[OF that, of "i + 1" "m(u \<mapsto> i)"] unfolding index_map.simps by linarith
  ultimately show ?case using "2.IH" by (simp add: fun_upd_def)
qed

context comparator
begin

lemma sorted_sort: "sorted_wrt (\<lambda>a b. cmp a b \<le> 0) (sort_stable cmp xs)"
proof -
  have "sorted_wrt (\<lambda>_ _. True) xs" by (induction xs) auto
  from sort_stable_lex[OF this] show ?thesis by (rule sorted_wrt_mono_rel[rotated]) auto
qed

text \<open>When only equal elements compare equal there is one sorted list, whatever sort is used.\<close>

lemma sort_unique:
  assumes "\<And>a b. a \<in> set xs \<Longrightarrow> b \<in> set xs \<Longrightarrow> cmp a b = 0 \<Longrightarrow> a = b"
    and "mset ys = mset xs" "sorted_wrt (\<lambda>a b. cmp a b \<le> 0) ys"
  shows "sort_stable cmp xs = ys"
proof (rule sorted_wrt_unique[OF sorted_sort assms(3)])
  show "mset (sort_stable cmp xs) = mset ys" using assms(2) by (simp add: mset_sort_stable)
  show "a = b" if "a \<in> set (sort_stable cmp xs)" "b \<in> set (sort_stable cmp xs)" "cmp a b \<le> 0" "cmp b a \<le> 0" for a b
  proof -
    have "set (sort_stable cmp xs) = set xs" by (metis mset_sort_stable set_mset_mset)
    moreover have "cmp a b = 0" using that(3,4) swap[of a b] by simp
    ultimately show ?thesis using that(1,2) assms(1) by simp
  qed
qed

lemma sort_mset_eq:
  assumes "\<And>a b. cmp a b = 0 \<Longrightarrow> a = b" "mset xs = mset ys"
  shows "sort_stable cmp xs = sort_stable cmp ys"
  using assms by (intro sort_unique) (simp_all add: mset_sort_stable sorted_sort)

end

lemma SortStringBy_filters:
  assumes "distinct xs" "set xs \<subseteq> set order"
  shows "SortStringBy xs order = filter (\<lambda>x. x \<in> set xs) (remdups order)"
proof -
  let ?k = "map_int (index_map 0 order Map.empty)"
  have inc: "sorted_wrt (\<lambda>a b. ?k a < ?k b) (filter (\<lambda>x. x \<in> set xs) (remdups order))"
    by (rule sorted_wrt_filter) (rule index_map_increasing)
  have m: "mset (filter (\<lambda>x. x \<in> set xs) (remdups order)) = mset xs"
    using assms by (intro set_eq_iff_mset_eq_distinct[THEN iffD1]) auto
  have inj: "a = b" if ab: "a \<in> set xs" "b \<in> set xs" "go_compare (?k a) (?k b) = 0" for a b
  proof (rule ccontr)
    assume "a \<noteq> b"
    obtain i j where "i < length (remdups order)" "j < length (remdups order)"
      "remdups order ! i = a" "remdups order ! j = b"
      using ab(1,2) assms(2) by (metis in_set_conv_nth set_remdups subsetD)
    moreover have "i < j \<or> j < i" using calculation(3,4) \<open>a \<noteq> b\<close> by (metis linorder_neqE_nat)
    ultimately have "?k a < ?k b \<or> ?k b < ?k a"
      using index_map_increasing[of 0 order Map.empty] unfolding sorted_wrt_iff_nth_less by blast
    with ab(3) show False by (auto simp: go_compare_eq)
  qed
  show ?thesis unfolding SortStringBy_def Let_def
  proof (rule by_index.sort_unique)
    show "sorted_wrt (\<lambda>a b. go_compare (?k a) (?k b) \<le> 0) (filter (\<lambda>x. x \<in> set xs) (remdups order))"
      using inc by (rule sorted_wrt_mono_rel[rotated]) (simp add: go_compare_le)
  qed (use inj m in auto)
qed

subsection \<open>What the store lists\<close>

definition dirstore_ok :: "'m dirstore \<Rightarrow> bool" where
  "dirstore_ok st \<longleftrightarrow> dom (ds_msgStores st) = dom (ds_dirs st) \<and> dom (ds_dirs st) \<subseteq> set (ds_order st)"

lemma NewDirStore_ok: "dirstore_ok NewDirStore"
  by (simp add: dirstore_ok_def NewDirStore_def)

lemma SetMessageStore_ok: "dirstore_ok st \<Longrightarrow> dirstore_ok (ds_SetMessageStore dir m st)"
  by (auto simp: dirstore_ok_def ds_SetMessageStore_def Let_def)

lemma Remove_ok: "dirstore_ok st \<Longrightarrow> dirstore_ok (ds_Remove name st)"
  by (auto simp: dirstore_ok_def ds_Remove_def)

text \<open>Directories are listed in the order in which they were last added.\<close>

lemma ds_List_order:
  assumes "dirstore_ok st" "distinct walk" "set walk = dom (ds_msgStores st)"
  shows "ds_List walk st = filter (\<lambda>d. d \<in> dom (ds_msgStores st)) (remdups (ds_order st))"
  using SortStringBy_filters[of walk "ds_order st"] assms by (simp add: ds_List_def dirstore_ok_def)

subsection \<open>The folder order\<close>

lemma comparator_folders: "comparator (folder_compare cf)"
proof
  let ?i = "findFirstMatchingString cf (dc_FoldersSort cf)"
  show "folder_compare cf a b = - folder_compare cf b a" for a b
    using go_compare_swap[of "?i a" "?i b"] go_compare_swap[of a b] by (auto simp: folder_compare_def Let_def)
  have le: "folder_compare cf a b \<le> 0 \<longleftrightarrow>
      (?i a \<ge> 0 \<and> ?i b < 0) \<or> (?i a \<ge> 0 \<and> ?i b \<ge> 0 \<and> ?i a < ?i b) \<or>
      ((?i a = ?i b \<or> ?i a < 0 \<and> ?i b < 0) \<and> a \<le> b)" for a b
    by (auto simp: folder_compare_def Let_def go_compare_le)
  show "folder_compare cf a c \<le> 0" if "folder_compare cf a b \<le> 0" "folder_compare cf b c \<le> 0" for a b c
    using that unfolding le by (elim disjE; auto)
qed

interpretation folders: comparator "folder_compare cf" for cf
  by (rule comparator_folders)

lemma folder_compare_zero: "folder_compare cf a b = 0 \<Longrightarrow> a = b"
  by (auto simp: folder_compare_def Let_def go_compare_def split: if_splits)

lemma mset_folders: "mset (sort_stable (folder_compare cf) xs) = mset xs"
  by (rule folders.mset_sort_stable)

lemma set_folders: "set (sort_stable (folder_compare cf) xs) = set xs"
  using mset_folders[of cf xs] by (metis set_mset_mset)

lemma sorted_folders:
  assumes "distinct xs"
  shows "sorted_wrt (\<lambda>a b. folder_compare cf a b < 0) (sort_stable (folder_compare cf) xs)"
proof -
  have d: "distinct (sort_stable (folder_compare cf) xs)"
    using assms mset_folders[of cf xs] by (metis distinct_count_atmost_1 set_folders)
  have "sorted_wrt (\<lambda>a b. folder_compare cf a b \<le> 0) (sort_stable (folder_compare cf) xs)"
    by (rule folders.sorted_sort)
  then show ?thesis
    unfolding sorted_wrt_iff_nth_less
  proof (intro allI impI)
    fix i j
    assume h: "\<forall>i j. i < j \<longrightarrow> j < length (sort_stable (folder_compare cf) xs) \<longrightarrow>
        folder_compare cf (sort_stable (folder_compare cf) xs ! i) (sort_stable (folder_compare cf) xs ! j) \<le> 0"
      and ij: "i < j" "j < length (sort_stable (folder_compare cf) xs)"
    then have "sort_stable (folder_compare cf) xs ! i \<noteq> sort_stable (folder_compare cf) xs ! j"
      using d by (simp add: nth_eq_iff_index_eq)
    then show "folder_compare cf (sort_stable (folder_compare cf) xs ! i) (sort_stable (folder_compare cf) xs ! j) < 0"
      using h ij folder_compare_zero[of cf] by (metis order_le_less)
  qed
qed

subsection \<open>What the list shows\<close>

definition folder_shown :: "dir_config \<Rightarrow> string \<Rightarrow> bool" where
  "folder_shown cf d \<longleftrightarrow>
     (dc_Folders cf = [] \<or> list_ex (folderMatches cf d) (dc_Folders cf)) \<and>
     \<not> list_ex (folderMatches cf d) (dc_FoldersExclude cf)"

definition store_dirs :: "dir_config \<Rightarrow> 'm dirstore \<Rightarrow> string list" where
  "store_dirs cf st = filter (folder_shown cf) (filter (\<lambda>d. d \<in> dom (ds_msgStores st)) (remdups (ds_order st)))"

lemma FilterDirs_eq:
  "FilterDirs cf ds fs False = filter (\<lambda>d. fs = [] \<or> list_ex (folderMatches cf d) fs) ds"
  "FilterDirs cf ds fs True = filter (\<lambda>d. \<not> list_ex (folderMatches cf d) fs) ds"
  by (auto simp: FilterDirs_def intro!: filter_cong)

lemma filtered_dirs:
  assumes "dirstore_ok (dl_store s)" "distinct walk" "set walk = dom (ds_msgStores (dl_store s))"
  shows "filterDirsByFoldersConfig cf walk s = s\<lparr>dl_dirs := store_dirs cf (dl_store s)\<rparr>"
  using ds_List_order[OF assms]
  by (simp add: filterDirsByFoldersConfig_def store_dirs_def FilterDirs_eq folder_shown_def Let_def conj_commute
      cong: filter_cong)

definition arranged :: "dir_config \<Rightarrow> string list \<Rightarrow> string list" where
  "arranged cf ds = (if dc_EnableFoldersSort cf then sort_stable (folder_compare cf) ds else ds)"

lemma sortDirs_eq: "sortDirsByFoldersSortConfig cf s = s\<lparr>dl_dirs := arranged cf (dl_dirs s)\<rparr>"
  by (simp add: sortDirsByFoldersSortConfig_def arranged_def)

fun relists :: "('c, 'r) action \<Rightarrow> bool" where
  "relists ListDirectories = True"
| "relists (OpenDirectory d q f) = True"
| "relists (CreateDirectory d q) = True"
| "relists (RemoveDirectory d q) = True"
| "relists a = False"

text \<open>An opened directory is shown even if the configuration leaves it out.\<close>

fun opened :: "('c, 'r) action \<Rightarrow> string list \<Rightarrow> string list" where
  "opened (OpenDirectory d q f) ds = (if d \<notin> set ds \<and> d \<noteq> [] then [d] else [])"
| "opened a ds = []"

lemma update_store:
  "dl_store (dl_Update cf walk actx (Done (Some a)) s) =
     (case a of RemoveDirectory d q \<Rightarrow> ds_Remove d (dl_store s) | _ \<Rightarrow> dl_store s)"
  by (cases a) (simp_all add: dl_Update_def sortDirs_eq filterDirsByFoldersConfig_def dl_emit_def Let_def split: option.split)

lemma update_dirs:
  assumes "dirstore_ok (dl_store s)" "relists a" "distinct walk"
    and "set walk = dom (ds_msgStores (dl_store (dl_Update cf walk actx (Done (Some a) :: ('h, 'c, 'r) wmsg) s)))"
  shows "dl_dirs (dl_Update cf walk actx (Done (Some a) :: ('h, 'c, 'r) wmsg) s) =
    (let ds = store_dirs cf (dl_store (dl_Update cf walk actx (Done (Some a) :: ('h, 'c, 'r) wmsg) s)) in arranged cf (ds @ opened a ds))"
proof (cases a)
  case (OpenDirectory d q f)
  have w: "set walk = dom (ds_msgStores (dl_store s))" using assms(4) by (simp add: update_store OpenDirectory)
  have c: "comparator (\<lambda>a b. go_compare a (b :: string))" by (rule comparator_compare)
  have e: "sort_stable (folder_compare cf) (sort_stable go_compare xs) = sort_stable (folder_compare cf) xs" for xs
    using comparator.mset_sort_stable[OF c, of xs] by (intro folders.sort_mset_eq) (simp_all add: folder_compare_zero)
  have fd: "filterDirsByFoldersConfig cf walk (s\<lparr>dl_previous := p, dl_selected := q\<rparr>)
      = s\<lparr>dl_previous := p, dl_selected := q, dl_dirs := store_dirs cf (dl_store s)\<rparr>" for p q
    using assms(1,3) w by (subst filtered_dirs) simp_all
  show ?thesis
    unfolding OpenDirectory update_store action.case
    by (simp add: dl_Update_def fd sortDirs_eq dl_emit_def arranged_def e Let_def dl_SelectedMsgStore_def
        split: option.split)
next
  case (RemoveDirectory d q)
  have "filterDirsByFoldersConfig cf walk (s\<lparr>dl_store := ds_Remove d (dl_store s)\<rparr>)
      = s\<lparr>dl_store := ds_Remove d (dl_store s), dl_dirs := store_dirs cf (ds_Remove d (dl_store s))\<rparr>"
    using assms(1,3,4) Remove_ok[OF assms(1)] by (subst filtered_dirs) (simp_all add: update_store RemoveDirectory)
  then show ?thesis unfolding RemoveDirectory update_store
    by (simp add: dl_Update_def sortDirs_eq Let_def)
next
  case ListDirectories
  then show ?thesis using filtered_dirs[OF assms(1,3)] assms(4)
    by (simp add: update_store) (simp add: dl_Update_def sortDirs_eq)
next
  case (CreateDirectory d q)
  then show ?thesis using filtered_dirs[OF assms(1,3)] assms(4)
    by (simp add: update_store) (simp add: dl_Update_def sortDirs_eq)
qed (use assms(2) in simp_all)

lemma Update_store_ok: "dirstore_ok (dl_store s) \<Longrightarrow> dirstore_ok (dl_store (dl_Update cf walk actx msg s))"
proof (cases msg)
  case (Done a)
  assume ok: "dirstore_ok (dl_store s)"
  show ?thesis
  proof (cases a)
    case None
    then show ?thesis using ok Done by (simp add: dl_Update_def)
  next
    case (Some b)
    then show ?thesis using ok Done by (cases b) (simp_all add: update_store Remove_ok)
  qed
next
  case (DirectoryInfoMsg i r)
  assume "dirstore_ok (dl_store s)"
  then show ?thesis using DirectoryInfoMsg
    by (auto simp: dl_Update_def dl_emit_def dl_Directory_def ds_Directory_def dirstore_ok_def Let_def
        split: option.split if_split)
qed (simp_all add: dl_Update_def)

lemma distinct_opened: "distinct ds \<Longrightarrow> distinct (ds @ opened a ds)"
  by (cases a) auto

lemma set_opened: "set (ds @ opened a ds) = set ds \<union> set (opened a [])"
  by (cases a) auto

lemma distinct_arranged: "distinct (arranged cf ds) = distinct ds"
  using mset_folders[of cf ds] by (auto simp: arranged_def distinct_count_atmost_1 set_folders)

lemma set_arranged: "set (arranged cf ds) = set ds"
  by (simp add: arranged_def set_folders)

subsection \<open>The rows\<close>

lemma dl_rows_eq:
  "dl_rows scroll height sel (int k) names =
     map (\<lambda>(j, n). (int j - scroll, n, n = sel))
       (filter (\<lambda>(j, n). scroll \<le> int j \<and> int j - scroll < height) (enumerate k names))"
proof (induction names arbitrary: k)
  case Nil
  then show ?case by simp
next
  case (Cons n names)
  have s: "int k + 1 = int (Suc k)" by simp
  consider "int k < scroll" | "scroll \<le> int k" "int k - scroll \<ge> height" | "scroll \<le> int k" "int k - scroll < height"
    by linarith
  then show ?case
  proof cases
    case 1
    then show ?thesis using Cons.IH[of "Suc k"] by (simp add: s del: of_nat_Suc)
  next
    case 2
    then have "filter (\<lambda>(j, n). scroll \<le> int j \<and> int j - scroll < height) (enumerate (Suc k) names) = []"
      by (auto simp: filter_empty_conv in_set_enumerate_eq)
    with 2 show ?thesis by simp
  next
    case 3
    then show ?thesis using Cons.IH[of "Suc k"] by (simp add: s del: of_nat_Suc)
  qed
qed

lemma row_shown:
  assumes "0 \<le> scroll"
  shows "(row, n, b) \<in> set (dl_rows scroll height sel 0 dirs) \<longleftrightarrow>
    0 \<le> row \<and> row < height \<and> scroll + row < int (length dirs) \<and> n = dirs ! nat (scroll + row) \<and> b = (n = sel)"
proof -
  have "(row, n, b) \<in> set (dl_rows scroll height sel 0 dirs) \<longleftrightarrow>
      (\<exists>j < length dirs. row = int j - scroll \<and> n = dirs ! j \<and> b = (n = sel) \<and> scroll \<le> int j \<and> int j - scroll < height)"
    using dl_rows_eq[of scroll height sel 0 dirs] by (auto simp: in_set_enumerate_eq)
  also have "\<dots> \<longleftrightarrow> 0 \<le> row \<and> row < height \<and> scroll + row < int (length dirs) \<and>
      n = dirs ! nat (scroll + row) \<and> b = (n = sel)"
    (is "?L \<longleftrightarrow> ?R")
  proof
    assume ?L
    then obtain j where "j < length dirs" "row = int j - scroll" "n = dirs ! j" "b = (n = sel)"
      "scroll \<le> int j" "int j - scroll < height" by blast
    then show ?R by simp
  next
    assume ?R
    then show ?L using assms by (intro exI[of _ "nat (scroll + row)"]) (simp add: nat_less_iff)
  qed
  finally show ?thesis .
qed

text \<open>The scroll bar: the pill stays within its gutter.\<close>

lemma pill_in_gutter:
  assumes "0 < h" "sc_height sc = h" "0 \<le> sc_scroll sc" "sc_scroll sc + h \<le> sc_elems sc"
  shows "0 \<le> snd (scrollbar_pill h sc)" "fst (scrollbar_pill h sc) + snd (scrollbar_pill h sc) \<le> h"
proof -
  let ?e = "sc_elems sc" and ?s = "sc_scroll sc"
  have e: "0 < ?e" using assms by linarith
  let ?x = "of_int h * (of_int h / of_int ?e) :: rat" and ?y = "of_int h * (of_int ?s / of_int ?e) :: rat"
  have p: "scrollbar_pill h sc = (ceiling ?x, floor ?y)"
    using e assms(2) by (simp add: scrollbar_pill_def PercentVisible_def PercentScrolled_def)
  have "0 \<le> ?y" using assms(1,3) e by simp
  then show "0 \<le> snd (scrollbar_pill h sc)" by (simp add: p)
  have "?x + ?y = of_int h * (of_int (?s + h) / of_int ?e)" by (simp add: add_divide_distrib distrib_left add.commute)
  also have "\<dots> \<le> of_int h * 1"
    using assms(1,4) e by (intro mult_left_mono) (simp_all flip: of_int_add)
  finally have "?y \<le> of_int (h - ceiling ?x) + (of_int (ceiling ?x) - ?x)" by simp
  then have "of_int (floor ?y) < (of_int (h - ceiling ?x + 1) :: rat)"
    using ceiling_correct[of ?x] floor_correct[of ?y] by linarith
  then show "fst (scrollbar_pill h sc) + snd (scrollbar_pill h sc) \<le> h" unfolding p by simp
qed

subsection \<open>Departures\<close>

text \<open>A click on a row is taken for a click on that row of the unscrolled list.\<close>

definition scrolled_list :: "(unit, unit) dirlist" where
  "scrolled_list = NewDirectoryList
     \<lparr>dl_dirs := [''a'', ''b'', ''c''], dl_selecting := ''c'', dl_spinning := False\<rparr>"

lemma click_ignores_scroll:
  "snd (dl_Draw 10 2 scrolled_list) = ViewRows [(0, ''b'', False), (1, ''c'', True)]"
  "dl_Clicked 0 (fst (dl_Draw 10 2 scrolled_list)) = (''a'', True)"
  by code_simp+

text \<open>
  An opened directory that the backend does not list is shown without being in the store; looking
  for unseen messages dereferences it.
\<close>

definition no_folder_config :: dir_config where
  "no_folder_config = \<lparr>dc_Folders = [], dc_FoldersExclude = [], dc_FoldersSort = [],
     dc_EnableFoldersSort = False, dc_DirListDelay = (\<lambda>_. 0), dc_DirListCollapse = (\<lambda>_. 0),
     dc_Compile = (\<lambda>_. None), dc_PathMatch = (\<lambda>p s. Some (p = s))\<rparr>"

lemma next_unseen_panics:
  "dl_NextPrev no_folder_config 1 True
     (dl_Update no_folder_config [] 1 (Done (Some (OpenDirectory ''Hidden'' [] False)) :: (unit, unit, unit) wmsg)
        (dl_Open ''Hidden'' [] 0 None False (NewDirectoryList :: (unit, unit) dirlist))) = None"
  by code_simp

text \<open>The error of a request that was given up clears the name that is being selected by now.\<close>

lemma late_error_clears:
  "dl_selecting (fst (dl_open_reply None (ErrorOf (Some (OpenDirectory ''a'' [] False)) e)
     (dl_Open ''b'' [] 0 None False (dl_timer 0 (dl_Open ''a'' [] 0 None False s))))) = []"
  by (simp add: dl_open_reply_def)

subsection \<open>Properties\<close>

text \<open>
  C29. After the directories were listed, or one was opened, created or removed, the side bar shows
  each directory of the store that the configuration includes and does not exclude exactly once, and
  besides them only the directory just opened.  With sorting they are in the configured folder order,
  otherwise in the order they were last added.  Neither depends on how the map of stores is walked.
\<close>

theorem directories_listed:
  assumes "dirstore_ok (dl_store s)" "relists a"
    and s': "s' = dl_Update cf walk actx (Done (Some a) :: ('h, 'c, 'r) wmsg) s"
    and "distinct walk" "set walk = dom (ds_msgStores (dl_store s'))"
    and "distinct walk'" "set walk' = dom (ds_msgStores (dl_store s'))"
  shows "distinct (dl_dirs s') \<and>
    set (dl_dirs s') = {d \<in> dom (ds_msgStores (dl_store s')). folder_shown cf d} \<union> set (opened a []) \<and>
    (if dc_EnableFoldersSort cf
     then sorted_wrt (\<lambda>d e. folder_compare cf d e < 0) (dl_dirs s')
     else dl_dirs s' = store_dirs cf (dl_store s') @ opened a (store_dirs cf (dl_store s'))) \<and>
    dl_dirs (dl_Update cf walk' actx (Done (Some a) :: ('h, 'c, 'r) wmsg) s) = dl_dirs s'"
proof -
  let ?ds = "store_dirs cf (dl_store s')"
  have e: "dl_dirs s' = arranged cf (?ds @ opened a ?ds)"
    using update_dirs[where ?'h = 'h, OF assms(1,2,4), of cf actx] assms(5) unfolding s' by (simp add: Let_def)
  have st: "dl_store (dl_Update cf walk' actx (Done (Some a) :: ('h, 'c, 'r) wmsg) s) = dl_store s'" unfolding s' by (simp add: update_store)
  have e': "dl_dirs (dl_Update cf walk' actx (Done (Some a) :: ('h, 'c, 'r) wmsg) s) = dl_dirs s'"
    using update_dirs[where ?'h = 'h, OF assms(1,2,6), of cf actx] assms(7) unfolding st e by (simp add: Let_def)
  have ok: "dirstore_ok (dl_store s')" unfolding s' by (rule Update_store_ok[OF assms(1)])
  have d: "distinct (?ds @ opened a ?ds)" by (intro distinct_opened) (simp add: store_dirs_def)
  have "set ?ds = {d \<in> dom (ds_msgStores (dl_store s')). folder_shown cf d}"
    using ok by (auto simp: store_dirs_def dirstore_ok_def)
  then show ?thesis
    using d e' sorted_folders[OF d, of cf] unfolding e
    by (simp only: distinct_arranged set_arranged set_opened) (simp add: arranged_def)
qed

definition two_folders :: "(nat, unit) dirlist" where
  "two_folders = dl_SetMsgStore
     \<lparr>dir_Name = ''b'', dir_Uid = [], dir_Exists = 0, dir_Recent = 0, dir_Unseen = 0, dir_Role = []\<rparr> 1
     (dl_SetMsgStore
        \<lparr>dir_Name = ''a'', dir_Uid = [], dir_Exists = 0, dir_Recent = 0, dir_Unseen = 0, dir_Role = []\<rparr> 0
        NewDirectoryList)"

lemma two_folders_store:
  "dom (ds_msgStores (dl_store two_folders)) = {''b'', ''a''}" "dirstore_ok (dl_store two_folders)"
  by (auto simp: two_folders_def dl_SetMsgStore_def NewDirectoryList_def dl_NewContext_def ds_SetMessageStore_def
      NewDirStore_def dirstore_ok_def Let_def)

lemma directories_listed_witness:
  "dl_dirs (dl_Update no_folder_config [''b'', ''a''] 1 (Done (Some ListDirectories) :: (unit, unit, unit) wmsg) two_folders)
   = dl_dirs (dl_Update no_folder_config [''a'', ''b''] 1 (Done (Some ListDirectories) :: (unit, unit, unit) wmsg) two_folders)"
  using directories_listed[where ?'h = unit, OF two_folders_store(2) _ refl, of "ListDirectories :: (unit, unit) action" "[''a'', ''b'']" no_folder_config 1 "[''b'', ''a'']"]
  by (simp add: update_store two_folders_store insert_commute)

text \<open>
  C30. Whenever the list is drawn, the directory that is being selected is on the screen, in one row,
  highlighted, and no other row is.
\<close>

theorem selected_row_drawn:
  assumes "\<not> dl_spinning s" "dl_selecting s \<in> set (dl_dirs s)" "distinct (dl_dirs s)"
    and "0 < height" "0 < width" "0 \<le> sc_offset (dl_scroll s)"
  shows "\<exists>rows row. snd (dl_Draw width height s) = ViewRows rows \<and> 0 \<le> row \<and> row < height \<and>
    {(r, n). (r, n, True) \<in> set rows} = {(row, dl_selecting s)}"
proof -
  define i where "i = findString (dl_dirs s) (dl_selecting s)"
  define sc where "sc = EnsureScroll i (UpdateScroller height (int (length (dl_dirs s))) (dl_scroll s))"
  have i: "0 \<le> i" "i < int (length (dl_dirs s))" "dl_dirs s ! nat i = dl_selecting s"
    unfolding i_def findString_def using assms(2) find_idx_hit[of "\<lambda>x. dl_selecting s = x" "dl_dirs s", symmetric]
    by (simp_all add: find_idx_facts)
  have h: "sc_height sc = height" by (simp add: sc_def UpdateScroller_def)
  have v: "sc_scroll sc \<le> i" "i < sc_scroll sc + height" "0 \<le> sc_scroll sc"
    using EnsureScroll_view[of i "UpdateScroller height (int (length (dl_dirs s))) (dl_scroll s)"]
      EnsureScroll_bounds(1)[OF i(1)] i assms(4,6) h
    by (auto simp: sc_def in_view_def UpdateScroller_def)
  have "\<not> (if NeedScrollbar sc then width - 1 else width) < 0" using assms(5) by simp
  then have "snd (dl_Draw width height s) = ViewRows (dl_rows (sc_scroll sc) height (dl_selecting s) 0 (dl_dirs s))"
    using assms(1,2) unfolding sc_def i_def by (auto simp: dl_Draw_def Let_def Scroll_def)
  moreover have "{(r, n). (r, n, True) \<in> set (dl_rows (sc_scroll sc) height (dl_selecting s) 0 (dl_dirs s))}
      = {(i - sc_scroll sc, dl_selecting s)}" (is "?L = ?R")
  proof (rule set_eqI, clarify)
    fix r n
    have "r = i - sc_scroll sc" if "dl_dirs s ! nat (sc_scroll sc + r) = dl_dirs s ! nat i"
      "0 \<le> r" "sc_scroll sc + r < int (length (dl_dirs s))"
    proof -
      have "nat (sc_scroll sc + r) = nat i"
        using that i(1,2) v(3) nth_eq_iff_index_eq[OF assms(3)] by (simp add: nat_less_iff)
      then show ?thesis using that(2) i(1) v(3) by linarith
    qed
    then show "(r, n) \<in> ?L \<longleftrightarrow> (r, n) \<in> ?R" using i v by (auto simp: row_shown[OF v(3)])
  qed
  ultimately show ?thesis using v
    by (intro exI[of _ "dl_rows (sc_scroll sc) height (dl_selecting s) 0 (dl_dirs s)"] exI[of _ "i - sc_scroll sc"] conjI)
      (assumption | linarith)+
qed

lemma selected_row_drawn_witness:
  "\<exists>rows row. snd (dl_Draw 10 2 scrolled_list) = ViewRows rows \<and> 0 \<le> row \<and> row < 2 \<and>
    {(r, n). (r, n, True) \<in> set rows} = {(row, ''c'')}"
  using selected_row_drawn[of scrolled_list 2 10]
  by (simp add: scrolled_list_def NewDirectoryList_def dl_NewContext_def new_scrollable_def)

end
