(* ===== verification/DirTree.thy ===== *)
theory DirTree
  imports DirList
begin

text \<open>
  \<open>app/dirtree.go\<close>: the side bar as a tree.  The tree is rebuilt as a whole from the names of the
  directories; \<open>dt_list\<close> holds its nodes in the order of the screen.  A node is named by its place
  in that list: its parent pointer is the place of the parent, and \<open>tn_child\<close> says whether it has a
  first child.  The path separator is one byte, as it is in all workers.  A panic, or a loop that
  does not end, is \<open>None\<close>.
\<close>

record tnode =
  tn_Uid :: string
  tn_Hidden :: int
  tn_Dummy :: bool
  tn_parent :: "nat option"
  tn_child :: bool

text \<open>The callback that \<open>Open\<close> hands to the list below it.\<close>

record 'u tree_cb =
  tc_cb :: "'u option"
  tc_name :: string
  tc_again :: bool

record ('m, 'u) dirtree =
  dt_list :: "tnode list"
  dt_listIdx :: int
  dt_virtual :: bool
  dt_dl :: "('m, 'u tree_cb) dirlist"

definition NewDirectoryTree :: "('m, 'u tree_cb) dirlist \<Rightarrow> ('m, 'u) dirtree" where
  "NewDirectoryTree dl = \<lparr>dt_list = [], dt_listIdx = -1, dt_virtual = False, dt_dl = dl\<rparr>"

subsection \<open>Nodes\<close>

text \<open>The chain of parent pointers; a parent stands before its children (\<open>parents_first\<close>).\<close>

function ancestors :: "tnode list \<Rightarrow> nat \<Rightarrow> nat list" where
  "ancestors ns i =
     (case tn_parent (ns ! i) of
        None \<Rightarrow> []
      | Some p \<Rightarrow> if p < i then p # ancestors ns p else [])"
  by pat_completeness auto
termination by (relation "measure snd") auto

declare ancestors.simps [simp del]

definition isVisible :: "tnode list \<Rightarrow> nat \<Rightarrow> bool" where
  "isVisible ns i = list_all (\<lambda>p. tn_Hidden (ns ! p) = 0) (ancestors ns i)"

definition makeVisible :: "tnode list \<Rightarrow> nat \<Rightarrow> tnode list" where
  "makeVisible ns i = fold (\<lambda>p ns. ns[p := (ns ! p)\<lparr>tn_Hidden := 0\<rparr>]) (ancestors ns i) ns"

definition countLevels :: "tnode list \<Rightarrow> nat \<Rightarrow> nat" where
  "countLevels ns i = length (ancestors ns i)"

text \<open>The visible nodes among the first \<open>k\<close>.\<close>

definition countVisible :: "tnode list \<Rightarrow> nat \<Rightarrow> int" where
  "countVisible ns k = int (length (filter (isVisible ns) [0..<k]))"

definition nodeElems :: "char \<Rightarrow> tnode \<Rightarrow> string list" where
  "nodeElems sep node = str_split1 sep (tn_Uid node)"

definition nodeName :: "char \<Rightarrow> tnode \<Rightarrow> string" where
  "nodeName sep node = (let elems = nodeElems sep node in if length elems > 0 then last elems else [])"

definition getFlag :: "tnode \<Rightarrow> string" where
  "getFlag node = (if \<not> tn_child node then [] else if tn_Hidden node \<noteq> 0 then ''+'' else [])"

text \<open>\<open>getTreeNode\<close>: the place of a node, \<open>-1\<close> if there is none.\<close>

definition getTreeNode :: "tnode list \<Rightarrow> string \<Rightarrow> int" where
  "getTreeNode ns uid = find_idx (\<lambda>n. tn_Uid n = uid) ns"

definition childPath :: "char \<Rightarrow> string \<Rightarrow> string \<Rightarrow> string" where
  "childPath sep base relpath = (if base = [] then relpath else base @ [sep] @ relpath)"

subsection \<open>Building the tree\<close>

definition dirmap_add :: "char \<Rightarrow> string \<Rightarrow> (string \<rightharpoonup> string list) \<Rightarrow> (string \<rightharpoonup> string list)" where
  "dirmap_add sep dir m =
     (let (base, rest, cut) = str_cut dir [sep]
      in case m base of
           Some ds \<Rightarrow> if cut then m(base \<mapsto> ds @ [rest]) else m
         | None \<Rightarrow> if cut then m(base \<mapsto> [rest]) else m(base \<mapsto> []))"

definition dir_base :: "char \<Rightarrow> string \<Rightarrow> string" where
  "dir_base sep dir = fst (str_cut dir [sep])"

definition dir_rests :: "char \<Rightarrow> string \<Rightarrow> string list \<Rightarrow> string list" where
  "dir_rests sep base dirs =
     map (\<lambda>d. fst (snd (str_cut d [sep]))) (filter (\<lambda>d. dir_base sep d = base \<and> snd (snd (str_cut d [sep]))) dirs)"

lemma dirmap_eq:
  "fold (dirmap_add sep) dirs m base =
     (if base \<in> dir_base sep ` set dirs \<or> base \<in> dom m
      then Some ((case m base of None \<Rightarrow> [] | Some ds \<Rightarrow> ds) @ dir_rests sep base dirs) else None)"
proof (induction dirs arbitrary: m)
  case Nil
  then show ?case by (auto simp: dir_rests_def split: option.split)
next
  case (Cons d dirs)
  obtain b r c where x: "str_cut d [sep] = (b, r, c)" by (cases "str_cut d [sep]") auto
  show ?case
  proof (cases "b = base")
    case True
    have "dirmap_add sep d m base = Some ((case m base of None \<Rightarrow> [] | Some ds \<Rightarrow> ds) @ (if c then [r] else []))"
      using True by (simp add: dirmap_add_def x split: option.split)
    then show ?thesis using True
      by (simp add: Cons.IH dir_base_def dir_rests_def x dom_def split: option.split)
  next
    case False
    then have "dirmap_add sep d m base = m base"
      by (simp add: dirmap_add_def x split: option.split)
    then show ?thesis using False by (simp add: Cons.IH dir_base_def dir_rests_def x dom_def)
  qed
qed

text \<open>A cut at one byte.\<close>

lemma str_cut_cases:
  "(sep \<notin> set d \<and> str_cut d [sep] = (d, [], False)) \<or>
   (\<exists>b r. sep \<notin> set b \<and> d = b @ sep # r \<and> str_cut d [sep] = (b, r, True))"
proof (cases "sep \<in> set d")
  case True
  then obtain b r where "d = b @ sep # r" "sep \<notin> set b" by (meson split_list_first)
  then show ?thesis by (auto simp: str_cut_first)
next
  case False
  then show ?thesis by (simp add: str_cut_absent)
qed

lemma str_cut_shorter: "snd (snd (str_cut d [sep])) \<Longrightarrow> Suc (length (fst (snd (str_cut d [sep])))) \<le> length d"
  using str_cut_cases[of sep d] by auto

lemma dir_rests_le:
  "sum_list (map (\<lambda>d. Suc (length d)) (dir_rests sep base dirs)) \<le> sum_list (map length dirs)"
proof (induction dirs)
  case Nil
  then show ?case by (simp add: dir_rests_def)
next
  case (Cons d dirs)
  show ?case
  proof (cases "dir_base sep d = base \<and> snd (snd (str_cut d [sep]))")
    case True
    then have "dir_rests sep base (d # dirs) = fst (snd (str_cut d [sep])) # dir_rests sep base dirs"
      by (simp add: dir_rests_def)
    then show ?thesis using str_cut_shorter[of d sep] True Cons by simp
  next
    case False
    then have "dir_rests sep base (d # dirs) = dir_rests sep base dirs" by (simp add: dir_rests_def)
    then show ?thesis using Cons by simp
  qed
qed

lemma dir_rests_smaller:
  assumes "dirs \<noteq> []"
  shows "sum_list (map (\<lambda>d. Suc (length d)) (dir_rests sep base dirs)) < sum_list (map (\<lambda>d. Suc (length d)) dirs)"
proof -
  have "sum_list (map length dirs) < sum_list (map (\<lambda>d. Suc (length d)) dirs)"
    using assms by (induction dirs) (auto simp: sum_list_Suc)
  with dir_rests_le[of sep base dirs] show ?thesis by linarith
qed

lemma sum_list_sort: "sum_list (map f (sort xs)) = sum_list (map (f :: _ \<Rightarrow> nat) xs)"
  by (metis mset_map mset_sort sum_mset_sum_list)

text \<open>
  The children of a node: one for each first element of the remaining names, in order, with the
  rests of the names that start with it.
\<close>

function buildTreeNode :: "(string \<Rightarrow> int) \<Rightarrow> char \<Rightarrow> string list \<Rightarrow> string \<Rightarrow> bool \<Rightarrow> string list \<Rightarrow> int \<Rightarrow> thread" where
  "buildTreeNode collapse sep all basePath dummy dirs depth =
     (let dirmap = fold (dirmap_add sep) dirs Map.empty;
          bases = sort (remdups (map (dir_base sep) dirs));
          hidden = (if collapse basePath \<noteq> 0 \<and> depth > collapse basePath then 1 else 0)
      in Thread basePath hidden False dummy False
           (map (\<lambda>base. let path = childPath sep basePath base
                        in buildTreeNode collapse sep all path (findString all path = -1)
                             (sort (case dirmap base of None \<Rightarrow> [] | Some ds \<Rightarrow> ds)) (depth + 1)) bases))"
  by pat_completeness auto
termination
proof (relation "measure (\<lambda>(collapse, sep, all, basePath, dummy, dirs, depth). sum_list (map (\<lambda>d. Suc (length d)) dirs))", goal_cases)
  case 1
  then show ?case by simp
next
  case (2 collapse sep all basePath dummy dirs depth dirmap bases hidden base path)
  then have "dirs \<noteq> []" "base \<in> dir_base sep ` set dirs" by auto
  then show ?case using dir_rests_smaller[of dirs sep base] 2(1)
    by (simp add: dirmap_eq sum_list_sort)
qed

declare buildTreeNode.simps [simp del]

text \<open>For evaluation, without a recursive call under a lambda.\<close>

definition build_child ::
  "(string \<Rightarrow> int) \<Rightarrow> char \<Rightarrow> string list \<Rightarrow> string \<Rightarrow> (string \<rightharpoonup> string list) \<Rightarrow> int \<Rightarrow> string \<Rightarrow> thread" where
  "build_child collapse sep all basePath dirmap depth base =
     (let path = childPath sep basePath base
      in buildTreeNode collapse sep all path (findString all path = -1)
           (sort (case dirmap base of None \<Rightarrow> [] | Some ds \<Rightarrow> ds)) depth)"

lemma buildTreeNode_code [code]:
  "buildTreeNode collapse sep all basePath dummy dirs depth =
     Thread basePath (if collapse basePath \<noteq> 0 \<and> depth > collapse basePath then 1 else 0) False dummy False
       (map (build_child collapse sep all basePath (fold (dirmap_add sep) dirs Map.empty) (depth + 1))
          (sort (remdups (map (dir_base sep) dirs))))"
  by (subst buildTreeNode.simps) (simp add: build_child_def Let_def)

text \<open>The walk that puts the nodes into a list; the parent is the place given.\<close>

fun flatten_node :: "nat option \<Rightarrow> nat \<Rightarrow> thread \<Rightarrow> tnode list"
  and flatten_nodes :: "nat option \<Rightarrow> nat \<Rightarrow> thread list \<Rightarrow> tnode list" where
  "flatten_node par n (Thread u h d du c ks) =
     \<lparr>tn_Uid = u, tn_Hidden = h, tn_Dummy = du, tn_parent = par, tn_child = (ks \<noteq> [])\<rparr>
       # flatten_nodes (Some n) (n + 1) ks"
| "flatten_nodes par n [] = []"
| "flatten_nodes par n (t # ts) =
     (let l = flatten_node par n t in l @ flatten_nodes par (n + length l) ts)"

text \<open>What \<open>hiddenDirectories\<close> and \<open>setHiddenDirectories\<close> remember a node by.\<close>

definition hidden_key :: "char \<Rightarrow> tnode list \<Rightarrow> nat \<Rightarrow> string option" where
  "hidden_key sep ns i =
     (let elems = nodeElems sep (ns ! i);
          levels = countLevels ns i
      in if levels < length elems
         then (let levels = (if tn_child (ns ! i) \<and> levels + 1 < length elems then levels + 1 else levels)
               in Some (str_join [sep] (take levels elems)))
         else None)"

definition hiddenDirectories :: "char \<Rightarrow> tnode list \<Rightarrow> string list" where
  "hiddenDirectories sep ns =
     concat (map (\<lambda>i. if tn_Hidden (ns ! i) \<noteq> 0 \<and> tn_child (ns ! i)
                      then (case hidden_key sep ns i of Some k \<Rightarrow> if k \<noteq> [] then [k] else [] | None \<Rightarrow> []) else [])
                 [0..<length ns])"

definition setHiddenDirectories :: "char \<Rightarrow> string list \<Rightarrow> tnode list \<Rightarrow> tnode list" where
  "setHiddenDirectories sep hidden ns =
     map (\<lambda>i. case hidden_key sep ns i of
                Some k \<Rightarrow> if k \<in> set hidden then (ns ! i)\<lparr>tn_Hidden := 1\<rparr> else ns ! i
              | None \<Rightarrow> ns ! i) [0..<length ns]"

definition tree_roots :: "dir_config \<Rightarrow> char \<Rightarrow> ('m, 'u) dirtree \<Rightarrow> thread list" where
  "tree_roots cf sep t =
     (let dirs = dl_dirs (dt_dl t);
          collapse = (\<lambda>dir. dl_UiConfig (dc_DirListCollapse cf) dir (dt_dl t));
          root = buildTreeNode collapse sep dirs [] False dirs 1;
          threads = th_kids root
      in if dc_EnableFoldersSort cf
         then sort_stable (\<lambda>a b. folder_compare cf (th_Uid a) (th_Uid b)) threads else threads)"

definition buildTree :: "dir_config \<Rightarrow> char \<Rightarrow> ('m, 'u) dirtree \<Rightarrow> ('m, 'u) dirtree" where
  "buildTree cf sep t =
     (let hiddenDirs = (if length (dt_list t) \<noteq> 0 then Some (hiddenDirectories sep (dt_list t)) else None);
          ns = flatten_nodes None 0 (tree_roots cf sep t)
      in t\<lparr>dt_list := (case hiddenDirs of None \<Rightarrow> ns | Some h \<Rightarrow> setHiddenDirectories sep h ns)\<rparr>)"

subsection \<open>Selection\<close>

text \<open>A negative slice bound does not occur: \<open>countLevels\<close> counts.\<close>

definition dt_Selected :: "char \<Rightarrow> ('m, 'u) dirtree \<Rightarrow> string" where
  "dt_Selected sep t =
     (if dt_listIdx t < 0 \<or> dt_listIdx t \<ge> int (length (dt_list t)) then dl_selected (dt_dl t)
      else
        (let i = nat (dt_listIdx t);
             elems = nodeElems sep (dt_list t ! i);
             n = countLevels (dt_list t) i
         in if n \<ge> length elems then [] else str_join [sep] (take (n + 1) elems)))"

definition dt_SelectedDirectory :: "char \<Rightarrow> ('m, 'u) dirtree \<Rightarrow> directory option" where
  "dt_SelectedDirectory sep t =
     (if dt_virtual t
      then Some \<lparr>dir_Name = dt_Selected sep t, dir_Uid = [], dir_Exists = 0, dir_Recent = 0, dir_Unseen = 0,
                 dir_Role = VirtualRole\<rparr>
      else dl_Directory (dl_selected (dt_dl t)) (dt_dl t))"

definition dt_ClearList :: "('m, 'u) dirtree \<Rightarrow> ('m, 'u) dirtree" where
  "dt_ClearList t = t\<lparr>dt_list := []\<rparr>"

definition reindex :: "string \<Rightarrow> ('m, 'u) dirtree \<Rightarrow> ('m, 'u) dirtree" where
  "reindex name t =
     (let selIdx = getTreeNode (dt_list t) name
      in if selIdx \<ge> 0
         then t\<lparr>dt_list := makeVisible (dt_list t) (nat selIdx), dt_listIdx := selIdx\<rparr> else t)"

definition dt_SelectedMsgStore :: "dir_config \<Rightarrow> char \<Rightarrow> ('m, 'u) dirtree \<Rightarrow> ('m, 'u) dirtree \<times> 'm option" where
  "dt_SelectedMsgStore cf sep t =
     (if dt_virtual t then (t, None)
      else
        (let selected = dl_selected (dt_dl t);
             t = (if getTreeNode (dt_list t) selected < 0 then reindex selected (buildTree cf sep t) else t)
         in (t, dl_SelectedMsgStore (dt_dl t))))"

definition dt_Update ::
  "dir_config \<Rightarrow> char \<Rightarrow> string list \<Rightarrow> nat \<Rightarrow> ('h, 'c, 'r) wmsg \<Rightarrow> ('m, 'u) dirtree \<Rightarrow> ('m, 'u) dirtree" where
  "dt_Update cf sep walk actx msg t =
     (let selected = dt_Selected sep t;
          t = t\<lparr>dt_dl := dl_Update cf walk actx msg (dt_dl t)\<rparr>
      in if (case msg of
               Done (Some (RemoveDirectory d q)) \<Rightarrow> True
             | Done (Some ListDirectories) \<Rightarrow> True
             | Done (Some (CreateDirectory d q)) \<Rightarrow> True
             | _ \<Rightarrow> False)
         then (let t = buildTree cf sep t in if selected \<noteq> [] then reindex selected t else t)
         else t)"

definition dt_Open ::
  "string \<Rightarrow> string \<Rightarrow> int \<Rightarrow> 'u option \<Rightarrow> bool \<Rightarrow> ('m, 'u) dirtree \<Rightarrow> ('m, 'u) dirtree" where
  "dt_Open name query delay cb force t =
     (if name = [] then t
      else
        (let again = (getTreeNode (dt_list t) name < 0);
             t = (if again then t else reindex name t)
         in t\<lparr>dt_dl := dl_Open name query delay
                (Some \<lparr>tc_cb = cb, tc_name = name, tc_again = again\<rparr>) force (dt_dl t)\<rparr>))"

text \<open>The callback, after that of the list; the caller's callback is run in between.\<close>

definition dt_open_callback ::
  "dir_config \<Rightarrow> char \<Rightarrow> 'u tree_cb \<Rightarrow> ('h, 'c, 'r) wmsg \<Rightarrow> ('m, 'u) dirtree \<Rightarrow> ('m, 'u) dirtree" where
  "dt_open_callback cf sep cb msg t =
     (case msg of
        Done a \<Rightarrow>
          if tc_again cb
          then (let dl = dt_dl t;
                    dl = (if findString (dl_dirs dl) (tc_name cb) < 0
                          then dl\<lparr>dl_dirs := dl_dirs dl @ [tc_name cb]\<rparr> else dl)
                in reindex (tc_name cb) (buildTree cf sep (t\<lparr>dt_dl := dl\<rparr>)))
          else t
      | _ \<Rightarrow> t)"

definition dt_Select :: "dir_config \<Rightarrow> string \<Rightarrow> ('m, 'u) dirtree \<Rightarrow> ('m, 'u) dirtree" where
  "dt_Select cf name t =
     (if name = [] then t
      else dt_Open name [] (dl_UiConfig (dc_DirListDelay cf) name (dt_dl t)) None False t)"

definition selectIndex :: "dir_config \<Rightarrow> int \<Rightarrow> ('m, 'u) dirtree \<Rightarrow> ('m, 'u) dirtree option" where
  "selectIndex cf i t =
     (if i < 0 \<or> i \<ge> int (length (dt_list t)) then None
      else
        (let t = t\<lparr>dt_listIdx := i\<rparr>;
             node = dt_list t ! nat i
         in Some (if tn_Dummy node
                  then t\<lparr>dt_virtual := True, dt_dl := dl_emit VirtualNode (dl_NewContext (dt_dl t))\<rparr>
                  else dt_Select cf (tn_Uid node) (t\<lparr>dt_virtual := False\<rparr>))))"

subsection \<open>Moving\<close>

text \<open>The loop of \<open>NextPrevDelta\<close>: it goes on until it met \<open>k\<close> visible nodes.\<close>

partial_function (option) tree_steps :: "tnode list \<Rightarrow> int \<Rightarrow> nat \<Rightarrow> int \<Rightarrow> int option" where
  "tree_steps ns step k newIdx =
     (if k = 0 then Some newIdx
      else
        (let ndirs = int (length ns);
             newIdx = newIdx + step;
             newIdx = (if newIdx < 0 then ndirs - 1 else if newIdx \<ge> ndirs then 0 else newIdx)
         in tree_steps ns step (if isVisible ns (nat newIdx) then k - 1 else k) newIdx))"

definition dt_NextPrevDelta :: "dir_config \<Rightarrow> int \<Rightarrow> ('m, 'u) dirtree \<Rightarrow> ('m, 'u) dirtree option" where
  "dt_NextPrevDelta cf delta t =
     (let newIdx = dt_listIdx t; ndirs = int (length (dt_list t))
      in if newIdx = ndirs \<or> ndirs = 0 then Some t
         else Option.bind (tree_steps (dt_list t) (if delta < 0 then -1 else 1) (nat \<bar>delta\<bar>) newIdx)
                (\<lambda>i. selectIndex cf i t))"

definition visibleDirsCount :: "tnode list \<Rightarrow> nat" where
  "visibleDirsCount ns = length (filter (isVisible ns) [0..<length ns])"

fun dt_next_unseen :: "dir_config \<Rightarrow> char \<Rightarrow> nat \<Rightarrow> int \<Rightarrow> ('m, 'u) dirtree \<Rightarrow> ('m, 'u) dirtree option" where
  "dt_next_unseen cf sep 0 delta t = Some t"
| "dt_next_unseen cf sep (Suc n) delta t =
     (case dt_NextPrevDelta cf delta t of
        None \<Rightarrow> None
      | Some t \<Rightarrow>
          if findString (dl_dirs (dt_dl t)) (dt_Selected sep t) \<ge> 0
          then (case dl_Directory (dt_Selected sep t) (dt_dl t) of
                  None \<Rightarrow> None
                | Some d \<Rightarrow> if dir_Unseen d > 0 then Some t else dt_next_unseen cf sep n delta t)
          else dt_next_unseen cf sep n delta t)"

definition dt_NextPrev :: "dir_config \<Rightarrow> char \<Rightarrow> int \<Rightarrow> bool \<Rightarrow> ('m, 'u) dirtree \<Rightarrow> ('m, 'u) dirtree option" where
  "dt_NextPrev cf sep delta unseen t =
     (if unseen then dt_next_unseen cf sep (visibleDirsCount (dt_list t)) delta t
      else dt_NextPrevDelta cf delta t)"

subsection \<open>Folding\<close>

definition set_hidden :: "nat \<Rightarrow> int \<Rightarrow> ('m, 'u) dirtree \<Rightarrow> ('m, 'u) dirtree" where
  "set_hidden i h t = t\<lparr>dt_list := (dt_list t)[i := (dt_list t ! i)\<lparr>tn_Hidden := h\<rparr>]\<rparr>"

definition trim_right_byte :: "char \<Rightarrow> string \<Rightarrow> string" where
  "trim_right_byte sep name = rev (dropWhile (\<lambda>c. c = sep) (rev name))"

definition CollapseFolder :: "dir_config \<Rightarrow> char \<Rightarrow> string \<Rightarrow> ('m, 'u) dirtree \<Rightarrow> ('m, 'u) dirtree option" where
  "CollapseFolder cf sep name t =
     (let name = trim_right_byte sep name;
          index = getTreeNode (dt_list t) name
      in if index < 0 then Some t
         else
           (let node = dt_list t ! nat index
            in case tn_parent node of
                 Some p \<Rightarrow>
                   if tn_Hidden node \<noteq> 0 \<or> \<not> tn_child node
                   then (let t = set_hidden p 1 t
                         in if p < length (dt_list t) \<and> index = dt_listIdx t then selectIndex cf (int p) t else Some t)
                   else Some (set_hidden (nat index) 1 t)
               | None \<Rightarrow> Some (set_hidden (nat index) 1 t)))"

definition ExpandFolder :: "char \<Rightarrow> string \<Rightarrow> ('m, 'u) dirtree \<Rightarrow> ('m, 'u) dirtree" where
  "ExpandFolder sep name t =
     (let index = getTreeNode (dt_list t) (trim_right_byte sep name)
      in if index < 0 then t else set_hidden (nat index) 0 t)"

definition ToggleFolder :: "dir_config \<Rightarrow> char \<Rightarrow> string \<Rightarrow> ('m, 'u) dirtree \<Rightarrow> ('m, 'u) dirtree option" where
  "ToggleFolder cf sep name t =
     (let name = trim_right_byte sep name;
          index = getTreeNode (dt_list t) name
      in if index < 0 then Some t
         else
           (let node = dt_list t ! nat index
            in if \<not> tn_child node
               then (case tn_parent node of
                       None \<Rightarrow> Some t
                     | Some p \<Rightarrow> if tn_Hidden (dt_list t ! p) \<noteq> 0 then Some (set_hidden p 0 t)
                                 else CollapseFolder cf sep name t)
               else if tn_Hidden node \<noteq> 0 then Some (ExpandFolder sep name t)
               else CollapseFolder cf sep name t))"

subsection \<open>The mouse\<close>

text \<open>The loop of \<open>Clicked\<close> stops at the node in the row; a node without a name is folded.\<close>

fun dt_clicked_loop :: "tnode list \<Rightarrow> int \<Rightarrow> int \<Rightarrow> nat list \<Rightarrow> nat option" where
  "dt_clicked_loop ns row visible [] = None"
| "dt_clicked_loop ns row visible (i # is) =
     (let visible = (if isVisible ns i then visible + 1 else visible)
      in if visible = row + 1 then Some i else dt_clicked_loop ns row visible is)"

definition dt_Clicked :: "int \<Rightarrow> ('m, 'u) dirtree \<Rightarrow> ('m, 'u) dirtree \<times> string \<times> bool" where
  "dt_Clicked y t =
     (let ns = dt_list t; row = y + Scroll (dl_scroll (dt_dl t))
      in if length ns = 0 \<or> countVisible ns (length ns) < row then (t, [], False)
         else (case dt_clicked_loop ns row 0 [0..<length ns] of
                 None \<Rightarrow> (t, [], False)
               | Some i \<Rightarrow>
                   if tn_Uid (ns ! i) \<noteq> [] then (t, tn_Uid (ns ! i), True)
                   else (set_hidden i (if tn_Hidden (ns ! i) = 0 then 1 else 0) t, [], False)))"

definition dt_MouseEvent :: "dir_config \<Rightarrow> mouse_event \<Rightarrow> ('m, 'u) dirtree \<Rightarrow> ('m, 'u) dirtree option" where
  "dt_MouseEvent cf ev t =
     (case ev of
        MouseLeftButton y \<Rightarrow> (case dt_Clicked y t of (t, dir, ok) \<Rightarrow> Some (if ok then dt_Select cf dir t else t))
      | MouseWheelDown \<Rightarrow> dt_NextPrevDelta cf 1 t
      | MouseWheelUp \<Rightarrow> dt_NextPrevDelta cf (-1) t
      | MouseOther \<Rightarrow> Some t)"

text \<open>
  The rows of \<open>Draw\<close>: the row, the path of the node and whether it is highlighted.  Drawing stops
  when more rows were drawn than there are.  The count for the scroll position slices the list up to
  the selected node: a panic if the selection is stale and lies beyond the end.
\<close>

definition dt_rows :: "int \<Rightarrow> int \<Rightarrow> tnode list \<Rightarrow> int \<Rightarrow> (int \<times> string \<times> bool) list" where
  "dt_rows scroll height ns listIdx =
     (let shown = filter (\<lambda>i. countVisible ns i \<ge> scroll \<and> isVisible ns i) [0..<length ns]
      in map (\<lambda>(n, i). (int n, tn_Uid (ns ! i), int i = listIdx)) (enumerate 0 (take (nat (height + 1)) shown)))"

definition dt_Draw :: "int \<Rightarrow> int \<Rightarrow> ('m, 'u) dirtree \<Rightarrow> (('m, 'u) dirtree \<times> dirlist_view) option" where
  "dt_Draw width height t =
     (let n = countVisible (dt_list t) (length (dt_list t))
      in if dl_spinning (dt_dl t) then Some (t, ViewSpinner)
         else if n = 0 \<or> dt_listIdx t < 0 then Some (t, ViewEmpty)
         else if dt_listIdx t > int (length (dt_list t)) then None
         else
           (let sc = EnsureScroll (countVisible (dt_list t) (nat (dt_listIdx t)))
                       (UpdateScroller height n (dl_scroll (dt_dl t)));
                t = t\<lparr>dt_dl := (dt_dl t)\<lparr>dl_scroll := sc\<rparr>\<rparr>;
                needScrollbar = (\<not> (of_int height / of_int n :: rat) \<ge> 1);
                textWidth = (if needScrollbar then width - 1 else width)
            in if textWidth < 0 then Some (t, ViewTooNarrow)
               else Some (t, ViewRows (dt_rows (Scroll sc) height (dt_list t) (dt_listIdx t)))))"

subsection \<open>Paths\<close>

definition path_prefix :: "char \<Rightarrow> string \<Rightarrow> string \<Rightarrow> bool" where
  "path_prefix sep q d \<longleftrightarrow> q = d \<or> (\<exists>r. d = q @ sep # r)"

lemma first_sep_eq:
  assumes "b @ sep # r = q @ sep # r'" "sep \<notin> set b"
  shows "q = b \<and> r' = r \<or> (\<exists>q'. q = b @ sep # q' \<and> r = q' @ sep # r')"
proof -
  from assms(1) obtain us where "b = q @ us \<and> us @ sep # r = sep # r' \<or> b @ us = q \<and> sep # r = us @ sep # r'"
    by (auto simp: append_eq_append_conv2)
  then show ?thesis
  proof
    assume "b = q @ us \<and> us @ sep # r = sep # r'"
    then show ?thesis using assms(2) by (cases us) auto
  next
    assume "b @ us = q \<and> sep # r = us @ sep # r'"
    then show ?thesis by (cases us) auto
  qed
qed

lemma path_prefix_cut:
  "path_prefix sep q d \<longleftrightarrow>
     q = dir_base sep d \<or>
     (snd (snd (str_cut d [sep])) \<and> (\<exists>q'. q = dir_base sep d @ sep # q' \<and> path_prefix sep q' (fst (snd (str_cut d [sep])))))"
proof -
  consider "sep \<notin> set d" "str_cut d [sep] = (d, [], False)"
    | b r where "sep \<notin> set b" "d = b @ sep # r" "str_cut d [sep] = (b, r, True)"
    using str_cut_cases[of sep d] by blast
  then show ?thesis
  proof cases
    case 1
    then show ?thesis by (auto simp: path_prefix_def dir_base_def)
  next
    case 2
    have "path_prefix sep q d \<longleftrightarrow> q = b \<or> (\<exists>q'. q = b @ sep # q' \<and> path_prefix sep q' r)"
      using 2 first_sep_eq[of b sep r q] by (auto simp: path_prefix_def)
    then show ?thesis using 2 by (simp add: dir_base_def)
  qed
qed

lemma dir_base_free: "sep \<notin> set (dir_base sep d)"
  using str_cut_cases[of sep d] by (auto simp: dir_base_def)

lemma dir_base_ne: "d \<noteq> [] \<Longrightarrow> hd d \<noteq> sep \<Longrightarrow> dir_base sep d \<noteq> []"
  using str_cut_cases[of sep d] by (auto simp: dir_base_def)

text \<open>The prefixes of some names, by their first elements.\<close>

lemma prefixes_by_base:
  "{q. \<exists>d\<in>set dirs. path_prefix sep q d} =
     (\<Union>b\<in>dir_base sep ` set dirs. insert b {b @ sep # q | q. \<exists>d\<in>set (dir_rests sep b dirs). path_prefix sep q d})"
  (is "?L = ?R")
proof (rule set_eqI)
  fix q
  have "q \<in> ?L \<longleftrightarrow> (\<exists>d\<in>set dirs. q = dir_base sep d \<or> (snd (snd (str_cut d [sep])) \<and>
      (\<exists>q'. q = dir_base sep d @ sep # q' \<and> path_prefix sep q' (fst (snd (str_cut d [sep]))))))"
    by (simp add: path_prefix_cut[of sep q])
  also have "\<dots> \<longleftrightarrow> q \<in> ?R" by (auto simp: dir_rests_def)
  finally show "q \<in> ?L \<longleftrightarrow> q \<in> ?R" .
qed

text \<open>Paths below different elements are different.\<close>

lemma below_element:
  assumes "sep \<notin> set b" "sep \<notin> set b'" "b \<noteq> b'" "x = [] \<or> hd x = sep" "y = [] \<or> hd y = sep"
  shows "b @ x \<noteq> b' @ y"
proof
  assume "b @ x = b' @ y"
  then obtain us where "b = b' @ us \<and> us @ x = y \<or> b @ us = b' \<and> x = us @ y"
    by (auto simp: append_eq_append_conv2)
  then show False using assms by (cases us) auto
qed

subsection \<open>The nodes that are built\<close>

definition tree_uids :: "thread \<Rightarrow> string list" where
  "tree_uids t = map th_Uid (thread_nodes t)"

definition kids_uids :: "thread list \<Rightarrow> string list" where
  "kids_uids ts = concat (map tree_uids ts)"

lemma tree_uids_eq: "tree_uids t = th_Uid t # kids_uids (th_kids t)"
  by (cases t) (simp add: tree_uids_def[abs_def] kids_uids_def map_concat comp_def)

lemma build_kids:
  "th_kids (buildTreeNode collapse sep all path dummy dirs depth) =
     map (\<lambda>b. buildTreeNode collapse sep all (childPath sep path b) (findString all (childPath sep path b) = -1)
            (sort (dir_rests sep b dirs)) (depth + 1)) (sort (remdups (map (dir_base sep) dirs)))"
  by (subst buildTreeNode.simps) (auto simp: Let_def dirmap_eq)

lemma build_uid [simp]:
  "th_Uid (buildTreeNode collapse sep all path dummy dirs depth) = path"
  "th_Dummy (buildTreeNode collapse sep all path dummy dirs depth) = dummy"
  by (subst buildTreeNode.simps, simp add: Let_def)+

lemma build_paths:
  assumes "path \<noteq> []"
  shows "set (kids_uids (th_kids (buildTreeNode collapse sep all path dummy dirs depth))) =
    {path @ sep # q | q. \<exists>d\<in>set dirs. path_prefix sep q d}"
  using assms
proof (induction collapse sep all path dummy dirs depth rule: buildTreeNode.induct)
  case (1 collapse sep all path dummy dirs depth)
  let ?kid = "\<lambda>b. buildTreeNode collapse sep all (childPath sep path b) (findString all (childPath sep path b) = -1)
    (sort (dir_rests sep b dirs)) (depth + 1)"
  have kid: "set (tree_uids (?kid b)) =
      insert (path @ sep # b) {path @ sep # b @ sep # q | q. \<exists>d\<in>set (dir_rests sep b dirs). path_prefix sep q d}"
    if "b \<in> dir_base sep ` set dirs" for b
  proof -
    have "set (kids_uids (th_kids (?kid b))) =
        {childPath sep path b @ sep # q | q. \<exists>d\<in>set (sort (dir_rests sep b dirs)). path_prefix sep q d}"
      using "1.IH"[OF refl refl refl, of b "childPath sep path b"] that "1.prems"
      by (simp add: dirmap_eq childPath_def)
    then show ?thesis using "1.prems" by (auto simp: tree_uids_eq childPath_def)
  qed
  have "set (kids_uids (th_kids (buildTreeNode collapse sep all path dummy dirs depth))) =
      (\<Union>b\<in>dir_base sep ` set dirs. set (tree_uids (?kid b)))"
    unfolding build_kids kids_uids_def by auto
  also have "\<dots> = (\<lambda>q. path @ sep # q) ` (\<Union>b\<in>dir_base sep ` set dirs.
      insert b {b @ sep # q | q. \<exists>d\<in>set (dir_rests sep b dirs). path_prefix sep q d})"
    using kid by (auto simp: image_UN)
  also have "\<dots> = {path @ sep # q | q. \<exists>d\<in>set dirs. path_prefix sep q d}"
    unfolding prefixes_by_base[symmetric] by auto
  finally show ?case .
qed

text \<open>The root has no path: its children have the first elements as theirs.\<close>

definition proper_names :: "char \<Rightarrow> string list \<Rightarrow> bool" where
  "proper_names sep dirs \<longleftrightarrow> (\<forall>d\<in>set dirs. d \<noteq> [] \<and> hd d \<noteq> sep)"

lemma build_root_paths:
  assumes "proper_names sep dirs"
  shows "set (kids_uids (th_kids (buildTreeNode collapse sep all [] dummy dirs depth))) =
    {q. \<exists>d\<in>set dirs. path_prefix sep q d}"
proof -
  let ?kid = "\<lambda>b. buildTreeNode collapse sep all (childPath sep [] b) (findString all (childPath sep [] b) = -1)
    (sort (dir_rests sep b dirs)) (depth + 1)"
  have kid: "set (tree_uids (?kid b)) =
      insert b {b @ sep # q | q. \<exists>d\<in>set (dir_rests sep b dirs). path_prefix sep q d}"
    if "b \<in> dir_base sep ` set dirs" for b
  proof -
    have "b \<noteq> []" using that assms dir_base_ne by (auto simp: proper_names_def)
    then have "set (kids_uids (th_kids (?kid b))) =
        {b @ sep # q | q. \<exists>d\<in>set (sort (dir_rests sep b dirs)). path_prefix sep q d}"
      unfolding childPath_def by (subst build_paths) simp_all
    then show ?thesis by (simp add: tree_uids_eq childPath_def)
  qed
  have "set (kids_uids (th_kids (buildTreeNode collapse sep all [] dummy dirs depth))) =
      (\<Union>b\<in>dir_base sep ` set dirs. set (tree_uids (?kid b)))"
    unfolding build_kids kids_uids_def by auto
  also have "\<dots> = (\<Union>b\<in>dir_base sep ` set dirs.
      insert b {b @ sep # q | q. \<exists>d\<in>set (dir_rests sep b dirs). path_prefix sep q d})"
    using kid by simp
  finally show ?thesis unfolding prefixes_by_base .
qed

lemma distinct_concat_map:
  assumes "distinct xs" "\<And>x. x \<in> set xs \<Longrightarrow> distinct (f x)"
    and "\<And>x y. x \<in> set xs \<Longrightarrow> y \<in> set xs \<Longrightarrow> x \<noteq> y \<Longrightarrow> set (f x) \<inter> set (f y) = {}"
  shows "distinct (concat (map f xs))"
  using assms by (induction xs) auto

text \<open>All paths in the tree of a child start with the child's own.\<close>

lemma kid_paths_below:
  assumes "path \<noteq> []" "u \<in> set (tree_uids (buildTreeNode collapse sep all path dummy dirs depth))"
  shows "\<exists>x. u = path @ x \<and> (x = [] \<or> hd x = sep)"
  using assms by (auto simp: tree_uids_eq build_paths)

lemma kids_distinct:
  assumes bases: "\<And>b. b \<in> dir_base sep ` set dirs \<Longrightarrow> childPath sep path b \<noteq> []"
    and each: "\<And>b. b \<in> dir_base sep ` set dirs \<Longrightarrow>
      distinct (tree_uids (buildTreeNode collapse sep all (childPath sep path b)
        (findString all (childPath sep path b) = -1) (sort (dir_rests sep b dirs)) (depth + 1)))"
  shows "distinct (kids_uids (th_kids (buildTreeNode collapse sep all path dummy dirs depth)))"
  unfolding build_kids kids_uids_def map_map comp_def
proof (rule distinct_concat_map)
  fix b b' assume b: "b \<in> set (sort (remdups (map (dir_base sep) dirs)))" "b' \<in> set (sort (remdups (map (dir_base sep) dirs)))"
    and "b \<noteq> b'"
  have f: "sep \<notin> set b" "sep \<notin> set b'" using b by (auto simp: dir_base_free)
  have "childPath sep path b @ x \<noteq> childPath sep path b' @ y"
    if "x = [] \<or> hd x = sep" "y = [] \<or> hd y = sep" for x y
    using below_element[OF f \<open>b \<noteq> b'\<close> that] by (auto simp: childPath_def)
  then show "set (tree_uids (buildTreeNode collapse sep all (childPath sep path b)
        (findString all (childPath sep path b) = -1) (sort (dir_rests sep b dirs)) (depth + 1))) \<inter>
      set (tree_uids (buildTreeNode collapse sep all (childPath sep path b')
        (findString all (childPath sep path b') = -1) (sort (dir_rests sep b' dirs)) (depth + 1))) = {}"
    using b kid_paths_below[OF bases] by (fastforce dest!: kid_paths_below[OF bases, rotated])
qed (use each in \<open>simp_all\<close>)

lemma build_distinct:
  assumes "path \<noteq> []"
  shows "distinct (tree_uids (buildTreeNode collapse sep all path dummy dirs depth))"
  using assms
proof (induction collapse sep all path dummy dirs depth rule: buildTreeNode.induct)
  case (1 collapse sep all path dummy dirs depth)
  have "distinct (kids_uids (th_kids (buildTreeNode collapse sep all path dummy dirs depth)))"
  proof (rule kids_distinct)
    fix b assume "b \<in> dir_base sep ` set dirs"
    then show "distinct (tree_uids (buildTreeNode collapse sep all (childPath sep path b)
        (findString all (childPath sep path b) = -1) (sort (dir_rests sep b dirs)) (depth + 1)))"
      using "1.IH"[OF refl refl refl, of b "childPath sep path b"] "1.prems" by (simp add: dirmap_eq childPath_def)
  qed (use "1.prems" in \<open>simp add: childPath_def\<close>)
  moreover have "path \<notin> set (kids_uids (th_kids (buildTreeNode collapse sep all path dummy dirs depth)))"
    unfolding build_paths[OF "1.prems"] by auto
  ultimately show ?case by (simp add: tree_uids_eq)
qed

lemma build_root_distinct:
  assumes "proper_names sep dirs"
  shows "distinct (kids_uids (th_kids (buildTreeNode collapse sep all [] dummy dirs depth)))"
proof (rule kids_distinct)
  fix b assume "b \<in> dir_base sep ` set dirs"
  then have "b \<noteq> []" using assms dir_base_ne by (auto simp: proper_names_def)
  then show "childPath sep [] b \<noteq> []" by (simp add: childPath_def)
  then show "distinct (tree_uids (buildTreeNode collapse sep all (childPath sep [] b)
      (findString all (childPath sep [] b) = -1) (sort (dir_rests sep b dirs)) (depth + 1)))"
    by (rule build_distinct)
qed

text \<open>Each node hangs one element below its parent and is a dummy unless it is listed.\<close>

fun hung :: "char \<Rightarrow> string list \<Rightarrow> thread \<Rightarrow> bool" where
  "hung sep all (Thread u h d du c ks) \<longleftrightarrow>
     (\<forall>k\<in>set ks. (\<exists>b. sep \<notin> set b \<and> th_Uid k = childPath sep u b) \<and>
        (th_Dummy k \<longleftrightarrow> th_Uid k \<notin> set all) \<and> hung sep all k)"

lemma hung_kids:
  "hung sep all t \<longleftrightarrow> (\<forall>k\<in>set (th_kids t). (\<exists>b. sep \<notin> set b \<and> th_Uid k = childPath sep (th_Uid t) b) \<and>
     (th_Dummy k \<longleftrightarrow> th_Uid k \<notin> set all) \<and> hung sep all k)"
  by (cases t) simp

lemma findString_none: "findString xs s = -1 \<longleftrightarrow> s \<notin> set xs"
  by (auto simp: findString_def find_idx_facts)

lemma build_hung: "hung sep all (buildTreeNode collapse sep all path dummy dirs depth)"
proof (induction collapse sep all path dummy dirs depth rule: buildTreeNode.induct)
  case (1 collapse sep all path dummy dirs depth)
  show ?case
    unfolding hung_kids[of sep all "buildTreeNode collapse sep all path dummy dirs depth"] build_kids
  proof (intro ballI)
    fix k assume "k \<in> set (map (\<lambda>b. buildTreeNode collapse sep all (childPath sep path b)
      (findString all (childPath sep path b) = -1) (sort (dir_rests sep b dirs)) (depth + 1))
      (sort (remdups (map (dir_base sep) dirs))))"
    then obtain b where b: "b \<in> dir_base sep ` set dirs" and k: "k = buildTreeNode collapse sep all (childPath sep path b)
      (findString all (childPath sep path b) = -1) (sort (dir_rests sep b dirs)) (depth + 1)" by auto
    have "hung sep all k"
      using "1.IH"[OF refl refl refl, of b "childPath sep path b"] b unfolding k by (simp add: dirmap_eq)
    moreover have "sep \<notin> set b" using b by (auto simp: dir_base_free)
    ultimately show "(\<exists>b. sep \<notin> set b \<and> th_Uid k = childPath sep (th_Uid (buildTreeNode collapse sep all path dummy dirs depth)) b) \<and>
        (th_Dummy k \<longleftrightarrow> th_Uid k \<notin> set all) \<and> hung sep all k"
      unfolding k by (intro conjI exI[of _ b]) (simp_all add: findString_none)
  qed
qed

subsection \<open>The list of nodes\<close>

lemma flatten_uids:
  "map tn_Uid (flatten_node par n t) = tree_uids t"
  "map tn_Uid (flatten_nodes par n ts) = kids_uids ts"
  by (induction par n t and par n ts rule: flatten_node_flatten_nodes.induct)
    (simp_all add: tree_uids_eq kids_uids_def Let_def)

text \<open>
  \<open>l\<close> stands from place \<open>n\<close> on: its nodes hang either below the node \<open>par\<close>, whose path is \<open>pu\<close>,
  or below one of them that stands before.
\<close>

definition placed :: "char \<Rightarrow> string list \<Rightarrow> nat \<Rightarrow> nat option \<Rightarrow> string \<Rightarrow> tnode list \<Rightarrow> bool" where
  "placed sep all n par pu l \<longleftrightarrow>
     (\<forall>i<length l. (tn_Dummy (l ! i) \<longleftrightarrow> tn_Uid (l ! i) \<notin> set all) \<and>
        (tn_parent (l ! i) = par \<and> (\<exists>b. sep \<notin> set b \<and> tn_Uid (l ! i) = childPath sep pu b) \<or>
         (\<exists>j<i. tn_parent (l ! i) = Some (n + j) \<and> (\<exists>b. sep \<notin> set b \<and> tn_Uid (l ! i) = childPath sep (tn_Uid (l ! j)) b))))"

lemma placed_Nil: "placed sep all n par pu []"
  by (simp add: placed_def)

lemma placed_list_append:
  assumes "placed sep all n par pu l" "placed sep all (n + length l) par pu l'"
  shows "placed sep all n par pu (l @ l')"
  unfolding placed_def
proof (intro allI impI)
  fix i assume i: "i < length (l @ l')"
  show "(tn_Dummy ((l @ l') ! i) \<longleftrightarrow> tn_Uid ((l @ l') ! i) \<notin> set all) \<and>
      (tn_parent ((l @ l') ! i) = par \<and> (\<exists>b. sep \<notin> set b \<and> tn_Uid ((l @ l') ! i) = childPath sep pu b) \<or>
       (\<exists>j<i. tn_parent ((l @ l') ! i) = Some (n + j) \<and>
          (\<exists>b. sep \<notin> set b \<and> tn_Uid ((l @ l') ! i) = childPath sep (tn_Uid ((l @ l') ! j)) b)))"
  proof (cases "i < length l")
    case True
    have e: "\<And>j. j < i \<Longrightarrow> (l @ l') ! j = l ! j" "(l @ l') ! i = l ! i" using True by (simp_all add: nth_append)
    show ?thesis using assms(1)[unfolded placed_def, rule_format, OF True] e by (metis (no_types, lifting))
  next
    case False
    define k where "k = i - length l"
    have k: "i = length l + k" "k < length l'" using False i by (auto simp: k_def)
    have e: "(l @ l') ! (length l + j) = l' ! j" for j by (rule nth_append_length_plus)
    show ?thesis
    proof (rule conjI)
      show "tn_Dummy ((l @ l') ! i) \<longleftrightarrow> tn_Uid ((l @ l') ! i) \<notin> set all"
        using assms(2)[unfolded placed_def, rule_format, OF k(2)] unfolding k(1) e by blast
      from assms(2)[unfolded placed_def, rule_format, OF k(2)]
      consider "tn_parent (l' ! k) = par" "\<exists>b. sep \<notin> set b \<and> tn_Uid (l' ! k) = childPath sep pu b"
        | j where "j < k" "tn_parent (l' ! k) = Some (n + length l + j)"
            "\<exists>b. sep \<notin> set b \<and> tn_Uid (l' ! k) = childPath sep (tn_Uid (l' ! j)) b"
        by blast
      then show "tn_parent ((l @ l') ! i) = par \<and> (\<exists>b. sep \<notin> set b \<and> tn_Uid ((l @ l') ! i) = childPath sep pu b) \<or>
          (\<exists>j<i. tn_parent ((l @ l') ! i) = Some (n + j) \<and>
            (\<exists>b. sep \<notin> set b \<and> tn_Uid ((l @ l') ! i) = childPath sep (tn_Uid ((l @ l') ! j)) b))"
      proof cases
        case 1
        then show ?thesis unfolding k(1) e by blast
      next
        case 2
        then show ?thesis unfolding k(1)
          by (intro disjI2 exI[of _ "length l + j"]) (simp add: e add.assoc)
      qed
    qed
  qed
qed

lemma placed_Cons:
  assumes "tn_Dummy m \<longleftrightarrow> tn_Uid m \<notin> set all" "tn_parent m = par" "sep \<notin> set b" "tn_Uid m = childPath sep pu b"
    and "placed sep all (n + 1) (Some n) (tn_Uid m) l"
  shows "placed sep all n par pu (m # l)"
  unfolding placed_def
proof (intro allI impI)
  fix i assume i: "i < length (m # l)"
  show "(tn_Dummy ((m # l) ! i) \<longleftrightarrow> tn_Uid ((m # l) ! i) \<notin> set all) \<and>
      (tn_parent ((m # l) ! i) = par \<and> (\<exists>b. sep \<notin> set b \<and> tn_Uid ((m # l) ! i) = childPath sep pu b) \<or>
       (\<exists>j<i. tn_parent ((m # l) ! i) = Some (n + j) \<and>
          (\<exists>b. sep \<notin> set b \<and> tn_Uid ((m # l) ! i) = childPath sep (tn_Uid ((m # l) ! j)) b)))"
  proof (cases i)
    case 0
    then show ?thesis using assms(1-4) by auto
  next
    case (Suc k)
    then have "k < length l" using i by simp
    from assms(5)[unfolded placed_def, rule_format, OF this]
    consider "tn_Dummy (l ! k) \<longleftrightarrow> tn_Uid (l ! k) \<notin> set all" "tn_parent (l ! k) = Some n"
        "\<exists>b. sep \<notin> set b \<and> tn_Uid (l ! k) = childPath sep (tn_Uid m) b"
      | j where "tn_Dummy (l ! k) \<longleftrightarrow> tn_Uid (l ! k) \<notin> set all" "j < k" "tn_parent (l ! k) = Some (n + 1 + j)"
        "\<exists>b. sep \<notin> set b \<and> tn_Uid (l ! k) = childPath sep (tn_Uid (l ! j)) b"
      by blast
    then show ?thesis
    proof cases
      case 1
      then show ?thesis unfolding Suc by (intro conjI disjI2 exI[of _ 0]) simp_all
    next
      case 2
      then show ?thesis unfolding Suc by (intro conjI disjI2 exI[of _ "Suc j"]) simp_all
    qed
  qed
qed

lemma flatten_placed:
  "hung sep all t \<Longrightarrow> (th_Dummy t \<longleftrightarrow> th_Uid t \<notin> set all) \<Longrightarrow> sep \<notin> set b \<Longrightarrow> th_Uid t = childPath sep pu b \<Longrightarrow>
     placed sep all n par pu (flatten_node par n t)"
  "(\<And>k. k \<in> set ts \<Longrightarrow> (\<exists>b. sep \<notin> set b \<and> th_Uid k = childPath sep pu b) \<and>
      (th_Dummy k \<longleftrightarrow> th_Uid k \<notin> set all) \<and> hung sep all k) \<Longrightarrow> placed sep all n par pu (flatten_nodes par n ts)"
proof (induction par n t and par n ts arbitrary: b pu and pu rule: flatten_node_flatten_nodes.induct)
  case (1 par n u h d du c ks)
  then show ?case by (auto intro!: placed_Cons)
next
  case (2 par n)
  then show ?case by (simp add: placed_Nil)
next
  case (3 par n t ts)
  obtain b where "sep \<notin> set b" "th_Uid t = childPath sep pu b" "th_Dummy t \<longleftrightarrow> th_Uid t \<notin> set all" "hung sep all t"
    using "3.prems"[of t] by auto
  then have "placed sep all n par pu (flatten_node par n t)" using "3.IH"(1) by blast
  moreover have "placed sep all (n + length (flatten_node par n t)) par pu (flatten_nodes par (n + length (flatten_node par n t)) ts)"
    using "3.prems" by (intro "3.IH"(2)) auto
  ultimately show ?case by (simp add: Let_def placed_list_append)
qed

text \<open>What is kept of a list of nodes: a tree of paths, whatever is folded.\<close>

definition tree_list_ok :: "char \<Rightarrow> string list \<Rightarrow> tnode list \<Rightarrow> bool" where
  "tree_list_ok sep all ns \<longleftrightarrow>
     distinct (map tn_Uid ns) \<and>
     (\<forall>i<length ns. tn_Uid (ns ! i) \<noteq> [] \<and> (tn_Dummy (ns ! i) \<longleftrightarrow> tn_Uid (ns ! i) \<notin> set all) \<and>
        (case tn_parent (ns ! i) of
           None \<Rightarrow> sep \<notin> set (tn_Uid (ns ! i))
         | Some p \<Rightarrow> p < i \<and> (\<exists>b. sep \<notin> set b \<and> tn_Uid (ns ! i) = tn_Uid (ns ! p) @ sep # b)))"

definition same_shape :: "tnode list \<Rightarrow> tnode list \<Rightarrow> bool" where
  "same_shape ns ns' \<longleftrightarrow> map (\<lambda>n. (tn_Uid n, tn_Dummy n, tn_parent n, tn_child n)) ns
     = map (\<lambda>n. (tn_Uid n, tn_Dummy n, tn_parent n, tn_child n)) ns'"

lemma same_shape_nth:
  assumes "same_shape ns ns'"
  shows "length ns = length ns'" "map tn_Uid ns = map tn_Uid ns'"
    "i < length ns \<Longrightarrow> tn_Uid (ns ! i) = tn_Uid (ns' ! i) \<and> tn_Dummy (ns ! i) = tn_Dummy (ns' ! i)
       \<and> tn_parent (ns ! i) = tn_parent (ns' ! i) \<and> tn_child (ns ! i) = tn_child (ns' ! i)"
proof -
  have m: "map (\<lambda>n. (tn_Uid n, tn_Dummy n, tn_parent n, tn_child n)) ns
      = map (\<lambda>n. (tn_Uid n, tn_Dummy n, tn_parent n, tn_child n)) ns'" using assms by (simp add: same_shape_def)
  then show l: "length ns = length ns'" by (rule map_eq_imp_length_eq)
  show "tn_Uid (ns ! i) = tn_Uid (ns' ! i) \<and> tn_Dummy (ns ! i) = tn_Dummy (ns' ! i)
       \<and> tn_parent (ns ! i) = tn_parent (ns' ! i) \<and> tn_child (ns ! i) = tn_child (ns' ! i)" if "i < length ns" for i
    using arg_cong[OF m, of "\<lambda>l. l ! i"] that l by simp
  then show "map tn_Uid ns = map tn_Uid ns'" using l by (intro nth_equalityI) auto
qed

lemma tree_list_same_shape:
  assumes "same_shape ns ns'" "tree_list_ok sep all ns"
  shows "tree_list_ok sep all ns'"
  unfolding tree_list_ok_def
proof (intro conjI allI impI)
  show "distinct (map tn_Uid ns')" using assms same_shape_nth(2)[OF assms(1)] by (simp add: tree_list_ok_def)
  fix i assume i: "i < length ns'"
  then have j: "i < length ns" using same_shape_nth(1)[OF assms(1)] by simp
  have o: "tn_Uid (ns ! i) \<noteq> [] \<and> (tn_Dummy (ns ! i) \<longleftrightarrow> tn_Uid (ns ! i) \<notin> set all) \<and>
        (case tn_parent (ns ! i) of
           None \<Rightarrow> sep \<notin> set (tn_Uid (ns ! i))
         | Some p \<Rightarrow> p < i \<and> (\<exists>b. sep \<notin> set b \<and> tn_Uid (ns ! i) = tn_Uid (ns ! p) @ sep # b))"
    using assms(2) j by (simp add: tree_list_ok_def)
  note e = same_shape_nth(3)[OF assms(1) j]
  show "tn_Uid (ns' ! i) \<noteq> []" "tn_Dummy (ns' ! i) \<longleftrightarrow> tn_Uid (ns' ! i) \<notin> set all" using o e by simp_all
  show "case tn_parent (ns' ! i) of
           None \<Rightarrow> sep \<notin> set (tn_Uid (ns' ! i))
         | Some p \<Rightarrow> p < i \<and> (\<exists>b. sep \<notin> set b \<and> tn_Uid (ns' ! i) = tn_Uid (ns' ! p) @ sep # b)"
  proof (cases "tn_parent (ns' ! i)")
    case None
    then show ?thesis using o e by simp
  next
    case (Some p)
    then have p: "p < i" "\<exists>b. sep \<notin> set b \<and> tn_Uid (ns ! i) = tn_Uid (ns ! p) @ sep # b" using o e by simp_all
    have "tn_Uid (ns ! p) = tn_Uid (ns' ! p)" using same_shape_nth(3)[OF assms(1), of p] p(1) j by simp
    then show ?thesis using Some p e by simp
  qed
qed

lemma same_shape_hidden: "i < length ns \<Longrightarrow> same_shape ns (ns[i := (ns ! i)\<lparr>tn_Hidden := h\<rparr>])"
  unfolding same_shape_def by (intro nth_equalityI) (auto simp: nth_list_update)

lemma same_shape_refl: "same_shape ns ns"
  by (simp add: same_shape_def)

lemma same_shape_trans: "same_shape a b \<Longrightarrow> same_shape b c \<Longrightarrow> same_shape a c"
  by (simp add: same_shape_def)

lemma same_shape_set: "same_shape ns (setHiddenDirectories sep hidden ns)"
  unfolding same_shape_def setHiddenDirectories_def
  by (rule nth_equalityI) (auto split: option.split)

lemma comparator_on: "comparator cmp \<Longrightarrow> comparator (\<lambda>a b. cmp (f a) (f b))"
  unfolding comparator_def by blast

lemma tree_roots_mset:
  "mset (tree_roots cf sep t) = mset (th_kids (buildTreeNode (\<lambda>dir. dl_UiConfig (dc_DirListCollapse cf) dir (dt_dl t))
     sep (dl_dirs (dt_dl t)) [] False (dl_dirs (dt_dl t)) 1))"
proof -
  have "comparator (\<lambda>a b. folder_compare cf (th_Uid a) (th_Uid b))"
    by (rule comparator_on) (rule comparator_folders)
  from comparator.mset_sort_stable[OF this] show ?thesis by (simp add: tree_roots_def Let_def)
qed

lemma kids_uids_mset: "mset ts = mset ts' \<Longrightarrow> mset (kids_uids ts) = mset (kids_uids ts')"
proof -
  assume m: "mset ts = mset ts'"
  have e: "mset (kids_uids ts) = (\<Sum>t\<in>#mset ts. mset (tree_uids t))" for ts
    by (induction ts) (simp_all add: kids_uids_def)
  show ?thesis unfolding e m ..
qed

lemma buildTree_shape:
  "same_shape (flatten_nodes None 0 (tree_roots cf sep t)) (dt_list (buildTree cf sep t))"
  by (simp add: buildTree_def same_shape_set same_shape_refl Let_def)

lemma buildTree_paths:
  assumes "proper_names sep (dl_dirs (dt_dl t))"
  shows "distinct (map tn_Uid (dt_list (buildTree cf sep t)))"
    "set (map tn_Uid (dt_list (buildTree cf sep t))) = {q. \<exists>d\<in>set (dl_dirs (dt_dl t)). path_prefix sep q d}"
proof -
  let ?kids = "th_kids (buildTreeNode (\<lambda>dir. dl_UiConfig (dc_DirListCollapse cf) dir (dt_dl t))
     sep (dl_dirs (dt_dl t)) [] False (dl_dirs (dt_dl t)) 1)"
  have u: "map tn_Uid (dt_list (buildTree cf sep t)) = kids_uids (tree_roots cf sep t)"
    using same_shape_nth(2)[OF buildTree_shape, of cf sep t] by (simp add: flatten_uids)
  have m: "mset (kids_uids (tree_roots cf sep t)) = mset (kids_uids ?kids)"
    by (rule kids_uids_mset[OF tree_roots_mset])
  show "distinct (map tn_Uid (dt_list (buildTree cf sep t)))"
    unfolding u using build_root_distinct[OF assms] m by (metis mset_eq_imp_distinct_iff)
  show "set (map tn_Uid (dt_list (buildTree cf sep t))) = {q. \<exists>d\<in>set (dl_dirs (dt_dl t)). path_prefix sep q d}"
    unfolding u using build_root_paths[OF assms] mset_eq_setD[OF m] by simp
qed

lemma buildTree_ok:
  assumes "proper_names sep (dl_dirs (dt_dl t))"
  shows "tree_list_ok sep (dl_dirs (dt_dl t)) (dt_list (buildTree cf sep t))"
proof (rule tree_list_same_shape[OF buildTree_shape])
  let ?ns = "flatten_nodes None 0 (tree_roots cf sep t)" and ?all = "dl_dirs (dt_dl t)"
  let ?root = "buildTreeNode (\<lambda>dir. dl_UiConfig (dc_DirListCollapse cf) dir (dt_dl t)) sep ?all [] False ?all 1"
  have "k \<in> set (th_kids ?root) \<Longrightarrow> (\<exists>b. sep \<notin> set b \<and> th_Uid k = childPath sep [] b) \<and>
      (th_Dummy k \<longleftrightarrow> th_Uid k \<notin> set ?all) \<and> hung sep ?all k" for k
    using build_hung[of sep ?all "\<lambda>dir. dl_UiConfig (dc_DirListCollapse cf) dir (dt_dl t)" "[]" False ?all 1]
    unfolding hung_kids[of sep ?all ?root] by simp
  then have "placed sep ?all 0 None [] ?ns"
    by (intro flatten_placed(2)) (simp add: mset_eq_setD[OF tree_roots_mset])
  note pl = this[unfolded placed_def, rule_format]
  have u: "map tn_Uid ?ns = map tn_Uid (dt_list (buildTree cf sep t))"
    by (rule same_shape_nth(2)[OF buildTree_shape])
  have ne: "tn_Uid (?ns ! i) \<noteq> []" if "i < length ?ns" for i
  proof -
    have "tn_Uid (?ns ! i) \<in> set (map tn_Uid ?ns)" using that by simp
    then show ?thesis unfolding u buildTree_paths(2)[OF assms] using assms
      by (auto simp: path_prefix_def proper_names_def)
  qed
  show "tree_list_ok sep ?all ?ns"
    unfolding tree_list_ok_def
  proof (intro conjI allI impI)
    show "distinct (map tn_Uid ?ns)" unfolding u by (rule buildTree_paths(1)[OF assms])
    fix i assume i: "i < length ?ns"
    show "tn_Uid (?ns ! i) \<noteq> []" by (rule ne[OF i])
    show "tn_Dummy (?ns ! i) \<longleftrightarrow> tn_Uid (?ns ! i) \<notin> set ?all" using pl[OF i] by blast
    from pl[OF i] consider "tn_parent (?ns ! i) = None" "\<exists>b. sep \<notin> set b \<and> tn_Uid (?ns ! i) = childPath sep [] b"
      | j where "j < i" "tn_parent (?ns ! i) = Some j" "\<exists>b. sep \<notin> set b \<and> tn_Uid (?ns ! i) = childPath sep (tn_Uid (?ns ! j)) b"
      by auto
    then show "case tn_parent (?ns ! i) of None \<Rightarrow> sep \<notin> set (tn_Uid (?ns ! i))
      | Some p \<Rightarrow> p < i \<and> (\<exists>b. sep \<notin> set b \<and> tn_Uid (?ns ! i) = tn_Uid (?ns ! p) @ sep # b)"
    proof cases
      case 1
      then show ?thesis by (auto simp: childPath_def)
    next
      case 2
      then show ?thesis using ne[of j] i by (auto simp: childPath_def)
    qed
  qed
qed

subsection \<open>Ancestors and levels\<close>

lemma ancestors_below: "p \<in> set (ancestors ns i) \<Longrightarrow> p < i"
proof (induction ns i rule: ancestors.induct)
  case (1 ns i)
  obtain q where q: "tn_parent (ns ! i) = Some q" "q < i" "p = q \<or> p \<in> set (ancestors ns q)"
    using "1.prems" by (cases "tn_parent (ns ! i)") (auto simp: ancestors.simps[of ns i] split: if_splits)
  then show ?case using "1.IH"[OF q(1,2)] by auto
qed

lemma makeVisible_shape: "i < length ns \<Longrightarrow> same_shape ns (makeVisible ns i)"
proof -
  have "same_shape ns ns' \<Longrightarrow> same_shape ns (fold (\<lambda>p ns. ns[p := (ns ! p)\<lparr>tn_Hidden := 0\<rparr>]) ps ns')"
    if "set ps \<subseteq> {..<length ns}" for ps ns'
    using that
  proof (induction ps arbitrary: ns')
    case Nil
    then show ?case by simp
  next
    case (Cons p ps)
    have "p < length ns'" using Cons.prems same_shape_nth(1)[OF Cons.prems(1)] by simp
    then show ?case using Cons same_shape_trans[OF Cons.prems(1) same_shape_hidden] by simp
  qed
  moreover assume "i < length ns"
  then have "set (ancestors ns i) \<subseteq> {..<length ns}" using ancestors_below by fastforce
  ultimately show ?thesis unfolding makeVisible_def using same_shape_refl by blast
qed

lemma ok_ancestors:
  assumes "tree_list_ok sep all ns" "i < length ns"
  shows "ancestors ns i = (case tn_parent (ns ! i) of None \<Rightarrow> [] | Some p \<Rightarrow> p # ancestors ns p)"
proof -
  have "case tn_parent (ns ! i) of None \<Rightarrow> True | Some p \<Rightarrow> p < i"
    using assms by (auto simp: tree_list_ok_def split: option.splits)
  then show ?thesis by (cases "tn_parent (ns ! i)") (simp_all add: ancestors.simps[of ns i])
qed

lemma ok_levels:
  assumes "tree_list_ok sep all ns" "i < length ns"
  shows "countLevels ns i = count_list (tn_Uid (ns ! i)) sep"
  using assms(2)
proof (induction i rule: less_induct)
  case (less i)
  have o: "case tn_parent (ns ! i) of
           None \<Rightarrow> sep \<notin> set (tn_Uid (ns ! i))
         | Some p \<Rightarrow> p < i \<and> (\<exists>b. sep \<notin> set b \<and> tn_Uid (ns ! i) = tn_Uid (ns ! p) @ sep # b)"
    using assms(1) less.prems by (simp add: tree_list_ok_def)
  show ?case
  proof (cases "tn_parent (ns ! i)")
    case None
    then show ?thesis using o by (simp add: countLevels_def ok_ancestors[OF assms(1) less.prems] count_list_0_iff)
  next
    case (Some p)
    then obtain b where b: "p < i" "sep \<notin> set b" "tn_Uid (ns ! i) = tn_Uid (ns ! p) @ sep # b" using o by auto
    have "countLevels ns p = count_list (tn_Uid (ns ! p)) sep" using less.IH[OF b(1)] b(1) less.prems by simp
    then show ?thesis using Some b
      by (simp add: countLevels_def ok_ancestors[OF assms(1) less.prems] count_list_0_iff)
  qed
qed

lemma length_split1: "length (str_split1 c s) = Suc (count_list s c)"
proof (induction s)
  case Nil
  then show ?case by simp
next
  case (Cons d s)
  obtain x xs where "str_split1 c s = x # xs" by (cases "str_split1 c s") auto
  then show ?case using Cons by auto
qed

text \<open>The selected name is the path of the selected node.\<close>

lemma Selected_path:
  assumes "tree_list_ok sep all (dt_list t)" "0 \<le> dt_listIdx t" "dt_listIdx t < int (length (dt_list t))"
  shows "dt_Selected sep t = tn_Uid (dt_list t ! nat (dt_listIdx t))"
proof -
  have "nat (dt_listIdx t) < length (dt_list t)" using assms(2,3) by linarith
  from ok_levels[OF assms(1) this] show ?thesis using assms(2,3)
    by (simp add: dt_Selected_def nodeElems_def length_split1 str_join_split1 Let_def)
qed

end
