(* ===== verification/TreeMoves.thy ===== *)
theory TreeMoves
  imports DirTree
begin

text \<open>
  The selection in the tree of directories (\<open>app/dirtree.go\<close>): the loop that looks for the next
  visible nodes ends and lands where it should; what rebuilding, clicking and drawing get wrong.
\<close>

subsection \<open>Moving\<close>

declare tree_steps.simps [simp del]

definition visible_nodes :: "tnode list \<Rightarrow> nat list" where
  "visible_nodes ns = filter (isVisible ns) [0..<length ns]"

lemma tree_steps_0: "tree_steps ns step 0 i = Some i"
  by (simp add: tree_steps.simps)

lemma forward_scan:
  assumes "isVisible ns t" "t < length ns" "\<And>j. i < int j \<Longrightarrow> j < t \<Longrightarrow> \<not> isVisible ns j" "-1 \<le> i" "i < int t"
  shows "tree_steps ns 1 (Suc k) i = tree_steps ns 1 k (int t)"
  using assms(3-5)
proof (induction "nat (int t - i)" arbitrary: i)
  case 0
  then show ?case by simp
next
  case (Suc d)
  have n: "\<not> i + 1 < 0" "\<not> i + 1 \<ge> int (length ns)" using Suc.prems assms(2) by linarith+
  show ?case
  proof (cases "i + 1 = int t")
    case True
    then show ?thesis using n assms(1) by (simp add: tree_steps.simps[of ns 1 "Suc k"])
  next
    case False
    have "\<not> isVisible ns (nat (i + 1))" using Suc.prems False by (intro Suc.prems(1)) linarith+
    then have "tree_steps ns 1 (Suc k) i = tree_steps ns 1 (Suc k) (i + 1)"
      using n by (simp add: tree_steps.simps[of ns 1 "Suc k" i])
    also have "\<dots> = tree_steps ns 1 k (int t)"
      using Suc.hyps(2) Suc.prems False by (intro Suc.hyps(1)) (auto intro: Suc.prems(1))
    finally show ?thesis .
  qed
qed

lemma forward_wrap:
  assumes "\<And>j. i < int j \<Longrightarrow> j < length ns \<Longrightarrow> \<not> isVisible ns j" "-1 \<le> i" "i < int (length ns)"
  shows "tree_steps ns 1 (Suc k) i = tree_steps ns 1 (Suc k) (-1)"
  using assms
proof (induction "nat (int (length ns) - i)" arbitrary: i)
  case 0
  then show ?case by simp
next
  case (Suc d)
  show ?case
  proof (cases "i + 1 = int (length ns)")
    case True
    then show ?thesis using Suc.prems(2,3)
      by (simp add: tree_steps.simps[of ns 1 "Suc k" i] tree_steps.simps[of ns 1 "Suc k" "-1"])
  next
    case False
    have n: "\<not> i + 1 < 0" "\<not> i + 1 \<ge> int (length ns)" using Suc.prems False by linarith+
    have "\<not> isVisible ns (nat (i + 1))" using Suc.prems False by (intro Suc.prems(1)) linarith+
    then have "tree_steps ns 1 (Suc k) i = tree_steps ns 1 (Suc k) (i + 1)"
      using n by (simp add: tree_steps.simps[of ns 1 "Suc k" i])
    also have "\<dots> = tree_steps ns 1 (Suc k) (-1)"
      using Suc.hyps(2) Suc.prems False by (intro Suc.hyps(1)) (auto intro: Suc.prems(1))
    finally show ?thesis .
  qed
qed

lemma backward_scan:
  assumes "isVisible ns t" "\<And>j. t < j \<Longrightarrow> int j < i \<Longrightarrow> \<not> isVisible ns j" "int t < i" "i \<le> int (length ns)"
  shows "tree_steps ns (-1) (Suc k) i = tree_steps ns (-1) k (int t)"
  using assms(2-4)
proof (induction "nat (i - int t)" arbitrary: i)
  case 0
  then show ?case by simp
next
  case (Suc d)
  have n: "\<not> i - 1 < 0" "\<not> i - 1 \<ge> int (length ns)" using Suc.prems by linarith+
  show ?case
  proof (cases "i - 1 = int t")
    case True
    then show ?thesis using n assms(1) by (simp add: tree_steps.simps[of ns "-1" "Suc k"])
  next
    case False
    have "\<not> isVisible ns (nat (i - 1))" using Suc.prems False by (intro Suc.prems(1)) linarith+
    then have "tree_steps ns (-1) (Suc k) i = tree_steps ns (-1) (Suc k) (i - 1)"
      using n by (simp add: tree_steps.simps[of ns "-1" "Suc k" i])
    also have "\<dots> = tree_steps ns (-1) k (int t)"
      using Suc.hyps(2) Suc.prems False by (intro Suc.hyps(1)) (auto intro: Suc.prems(1))
    finally show ?thesis .
  qed
qed

lemma backward_wrap:
  assumes "\<And>j. int j < i \<Longrightarrow> \<not> isVisible ns j" "0 \<le> i" "i < int (length ns)"
  shows "tree_steps ns (-1) (Suc k) i = tree_steps ns (-1) (Suc k) (int (length ns))"
  using assms
proof (induction "nat i" arbitrary: i)
  case 0
  then show ?case
    by (simp add: tree_steps.simps[of ns "-1" "Suc k" 0] tree_steps.simps[of ns "-1" "Suc k" "int (length ns)"] Let_def)
next
  case (Suc d)
  have n: "\<not> i - 1 < 0" "\<not> i - 1 \<ge> int (length ns)" using Suc by linarith+
  have "\<not> isVisible ns (nat (i - 1))" using Suc by (intro Suc.prems(1)) linarith
  then have "tree_steps ns (-1) (Suc k) i = tree_steps ns (-1) (Suc k) (i - 1)"
    using n by (simp add: tree_steps.simps[of ns "-1" "Suc k" i])
  also have "\<dots> = tree_steps ns (-1) (Suc k) (int (length ns))"
    using Suc by (intro Suc.hyps(1)) (auto intro: Suc.prems(1))
  finally show ?case .
qed

lemma visible_sorted: "sorted_wrt (<) (visible_nodes ns)"
  unfolding visible_nodes_def by (rule sorted_wrt_filter) (simp add: sorted_wrt_iff_nth_less)

lemma visible_nth:
  assumes "r < length (visible_nodes ns)"
  shows "visible_nodes ns ! r < length ns" "isVisible ns (visible_nodes ns ! r)"
  using nth_mem[OF assms] unfolding visible_nodes_def by auto

lemma visible_rank:
  assumes "j < length ns" "isVisible ns j"
  obtains r where "r < length (visible_nodes ns)" "visible_nodes ns ! r = j"
  using assms unfolding visible_nodes_def by (metis (no_types, lifting) atLeastLessThan_iff in_set_conv_nth mem_Collect_eq
      set_filter set_upt zero_le)

lemma visible_less_iff:
  assumes "r < length (visible_nodes ns)" "r' < length (visible_nodes ns)"
  shows "visible_nodes ns ! r < visible_nodes ns ! r' \<longleftrightarrow> r < r'"
  using visible_sorted[of ns, unfolded sorted_wrt_iff_nth_less] assms by (metis linorder_neqE_nat order_less_asym)

text \<open>One step forward, from a visible node or from before the first.\<close>

lemma step_forward:
  assumes "r < length (visible_nodes ns)"
  shows "tree_steps ns 1 (Suc k) (int (visible_nodes ns ! r)) =
    tree_steps ns 1 k (int (visible_nodes ns ! (Suc r mod length (visible_nodes ns))))"
proof (cases "Suc r < length (visible_nodes ns)")
  case True
  have "\<not> isVisible ns j" if "int (visible_nodes ns ! r) < int j" "j < visible_nodes ns ! Suc r" for j
  proof
    assume "isVisible ns j"
    moreover have "j < length ns" using that(2) visible_nth(1)[OF True] by simp
    ultimately obtain q where "q < length (visible_nodes ns)" "visible_nodes ns ! q = j" using visible_rank by metis
    then show False using that visible_less_iff[OF assms, of q] visible_less_iff[of q ns "Suc r"] True by simp
  qed
  then show ?thesis using True forward_scan[of ns "visible_nodes ns ! Suc r" "int (visible_nodes ns ! r)" k]
      visible_nth[OF True] visible_less_iff[OF assms True] by simp
next
  case False
  then have "Suc r = length (visible_nodes ns)" using assms by linarith
  then have z: "Suc r mod length (visible_nodes ns) = 0" by simp
  have l: "0 < length (visible_nodes ns)" using assms by linarith
  have "\<not> isVisible ns j" if j: "int (visible_nodes ns ! r) < int j" "j < length ns" for j
  proof
    assume "isVisible ns j"
    then obtain q where "q < length (visible_nodes ns)" "visible_nodes ns ! q = j" using visible_rank j(2) by metis
    then show False using j(1) visible_less_iff[OF assms, of q] False by simp
  qed
  then have "tree_steps ns 1 (Suc k) (int (visible_nodes ns ! r)) = tree_steps ns 1 (Suc k) (-1)"
    using visible_nth(1)[OF assms] by (intro forward_wrap) auto
  also have "\<dots> = tree_steps ns 1 k (int (visible_nodes ns ! 0))"
  proof (rule forward_scan)
    fix j assume j: "-1 < int j" "j < visible_nodes ns ! 0"
    show "\<not> isVisible ns j"
    proof
      assume "isVisible ns j"
      moreover have "j < length ns" using j(2) visible_nth(1)[OF l] by simp
      ultimately obtain q where "q < length (visible_nodes ns)" "visible_nodes ns ! q = j" using visible_rank by metis
      then show False using j(2) visible_less_iff[of q ns 0] l by simp
    qed
  qed (use visible_nth[OF l] in simp_all)
  finally show ?thesis unfolding z .
qed

lemma step_backward:
  assumes "r < length (visible_nodes ns)"
  shows "tree_steps ns (-1) (Suc k) (int (visible_nodes ns ! r)) =
    tree_steps ns (-1) k (int (visible_nodes ns ! ((r + length (visible_nodes ns) - 1) mod length (visible_nodes ns))))"
proof (cases r)
  case (Suc q)
  then have q: "q < length (visible_nodes ns)" using assms by simp
  have "(r + length (visible_nodes ns) - 1) = q + length (visible_nodes ns)" using Suc by simp
  then have m: "(r + length (visible_nodes ns) - 1) mod length (visible_nodes ns) = q" using q by simp
  have "\<not> isVisible ns j" if "visible_nodes ns ! q < j" "int j < int (visible_nodes ns ! r)" for j
  proof
    assume "isVisible ns j"
    moreover have "j < length ns" using that(2) visible_nth(1)[OF assms] by simp
    ultimately obtain p where "p < length (visible_nodes ns)" "visible_nodes ns ! p = j" using visible_rank by metis
    then show False using that visible_less_iff[OF q, of p] visible_less_iff[of p ns r] assms Suc by simp
  qed
  then show ?thesis unfolding m using visible_nth[OF q] visible_nth(1)[OF assms] visible_less_iff[OF q assms] Suc
    by (intro backward_scan) auto
next
  case 0
  let ?l = "length (visible_nodes ns) - 1"
  have l: "?l < length (visible_nodes ns)" using assms by simp
  have m: "(r + length (visible_nodes ns) - 1) mod length (visible_nodes ns) = ?l" using 0 l by simp
  have "\<not> isVisible ns j" if "int j < int (visible_nodes ns ! r)" for j
  proof
    assume "isVisible ns j"
    moreover have "j < length ns" using that visible_nth(1)[OF assms] by simp
    ultimately obtain p where "p < length (visible_nodes ns)" "visible_nodes ns ! p = j" using visible_rank by metis
    then show False using that visible_less_iff[of p ns r] assms 0 by simp
  qed
  then have "tree_steps ns (-1) (Suc k) (int (visible_nodes ns ! r)) = tree_steps ns (-1) (Suc k) (int (length ns))"
    using visible_nth(1)[OF assms] by (intro backward_wrap) auto
  also have "\<dots> = tree_steps ns (-1) k (int (visible_nodes ns ! ?l))"
  proof (rule backward_scan)
    fix j assume j: "visible_nodes ns ! ?l < j" "int j < int (length ns)"
    show "\<not> isVisible ns j"
    proof
      assume "isVisible ns j"
      moreover have "j < length ns" using j(2) by simp
      ultimately obtain q where "q < length (visible_nodes ns)" "visible_nodes ns ! q = j" using visible_rank by metis
      then show False using j(1) visible_less_iff[OF l, of q] by simp
    qed
  qed (use visible_nth[OF l] in simp_all)
  finally show ?thesis unfolding m .
qed

text \<open>All steps: the place among the visible nodes moves by as many places, around the ends.\<close>

lemma steps_forward:
  assumes "r < length (visible_nodes ns)"
  shows "tree_steps ns 1 k (int (visible_nodes ns ! r)) =
    Some (int (visible_nodes ns ! ((r + k) mod length (visible_nodes ns))))"
  using assms
proof (induction k arbitrary: r)
  case 0
  then show ?case by (simp add: tree_steps_0)
next
  case (Suc k)
  have "Suc r mod length (visible_nodes ns) < length (visible_nodes ns)" using Suc.prems by (intro mod_less_divisor) linarith
  from Suc.IH[OF this] show ?case unfolding step_forward[OF Suc.prems] by (simp add: mod_simps)
qed

lemma steps_backward:
  assumes "r < length (visible_nodes ns)"
  shows "tree_steps ns (-1) k (int (visible_nodes ns ! r)) =
    Some (int (visible_nodes ns ! nat ((int r - int k) mod int (length (visible_nodes ns)))))"
  using assms
proof (induction k arbitrary: r)
  case 0
  then show ?case by (simp add: tree_steps_0)
next
  case (Suc k)
  let ?n = "length (visible_nodes ns)"
  have n: "(r + ?n - 1) mod ?n < ?n" using Suc.prems by (intro mod_less_divisor) linarith
  have "int ((r + ?n - 1) mod ?n) = (int r - 1) mod int ?n"
  proof -
    have "int (r + ?n - 1) = (int r - 1) + int ?n" using Suc.prems by linarith
    then show ?thesis by (simp add: zmod_int)
  qed
  then have "(int ((r + ?n - 1) mod ?n) - int k) mod int ?n = (int r - int (Suc k)) mod int ?n"
    by (simp add: mod_simps algebra_simps)
  with Suc.IH[OF n] show ?case unfolding step_backward[OF Suc.prems] by simp
qed

lemma steps_delta:
  assumes "r < length (visible_nodes ns)"
  shows "tree_steps ns (if delta < 0 then -1 else 1) (nat \<bar>delta\<bar>) (int (visible_nodes ns ! r)) =
    Some (int (visible_nodes ns ! nat ((int r + delta) mod int (length (visible_nodes ns)))))"
proof (cases "delta < 0")
  case True
  then show ?thesis using steps_backward[OF assms, of "nat \<bar>delta\<bar>"] by simp
next
  case False
  then have "int ((r + nat \<bar>delta\<bar>) mod length (visible_nodes ns)) = (int r + delta) mod int (length (visible_nodes ns))"
    by (simp add: zmod_int)
  then have "(r + nat \<bar>delta\<bar>) mod length (visible_nodes ns) = nat ((int r + delta) mod int (length (visible_nodes ns)))"
    by linarith
  then show ?thesis using False steps_forward[OF assms, of "nat \<bar>delta\<bar>"] by simp
qed

text \<open>The first node has no parent, so something is visible.\<close>

lemma first_visible: "isVisible ns 0"
  using ancestors_below[of _ ns 0] by (auto simp: isVisible_def list_all_iff)

lemma step_any_forward:
  assumes "ns \<noteq> []" "-1 \<le> i" "i < int (length ns)"
  shows "\<exists>q<length (visible_nodes ns). tree_steps ns 1 (Suc k) i = tree_steps ns 1 k (int (visible_nodes ns ! q))"
proof -
  have scan: "\<exists>q<length (visible_nodes ns). tree_steps ns 1 (Suc k) i = tree_steps ns 1 k (int (visible_nodes ns ! q))"
    if "\<exists>t. i < int t \<and> t < length ns \<and> isVisible ns t" "-1 \<le> i" for i
  proof -
    define t where "t = (LEAST t. i < int t \<and> t < length ns \<and> isVisible ns t)"
    have t: "i < int t \<and> t < length ns \<and> isVisible ns t" unfolding t_def by (rule LeastI_ex[OF that(1)])
    have "\<not> isVisible ns j" if "i < int j" "j < t" for j
      using not_less_Least[OF that(2)[unfolded t_def]] that t by auto
    then have "tree_steps ns 1 (Suc k) i = tree_steps ns 1 k (int t)" using t that(2) by (intro forward_scan) auto
    moreover obtain q where "q < length (visible_nodes ns)" "visible_nodes ns ! q = t" using t visible_rank by metis
    ultimately show ?thesis by auto
  qed
  show ?thesis
  proof (cases "\<exists>t. i < int t \<and> t < length ns \<and> isVisible ns t")
    case True
    then show ?thesis by (rule scan) (rule assms(2))
  next
    case False
    then have "tree_steps ns 1 (Suc k) i = tree_steps ns 1 (Suc k) (-1)"
      using assms(2,3) by (intro forward_wrap) auto
    moreover have "\<exists>t. -1 < int t \<and> t < length ns \<and> isVisible ns t"
      using first_visible assms(1) by (intro exI[of _ 0]) simp
    ultimately show ?thesis using scan[of "-1"] by simp
  qed
qed

lemma step_any_backward:
  assumes "ns \<noteq> []" "-1 \<le> i" "i < int (length ns)"
  shows "\<exists>q<length (visible_nodes ns). tree_steps ns (-1) (Suc k) i = tree_steps ns (-1) k (int (visible_nodes ns ! q))"
proof -
  have scan: "\<exists>q<length (visible_nodes ns). tree_steps ns (-1) (Suc k) i = tree_steps ns (-1) k (int (visible_nodes ns ! q))"
    if ex: "\<exists>t. int t < i \<and> isVisible ns t" "i \<le> int (length ns)" for i
  proof -
    define t where "t = (GREATEST t. int t < i \<and> isVisible ns t)"
    have b: "\<And>y. int y < i \<and> isVisible ns y \<Longrightarrow> y \<le> length ns" using ex(2) by auto
    have t: "int t < i \<and> isVisible ns t" unfolding t_def by (rule GreatestI_ex_nat[OF ex(1) b])
    have "\<not> isVisible ns j" if "t < j" "int j < i" for j
      using Greatest_le_nat[of "\<lambda>t. int t < i \<and> isVisible ns t" j "length ns"] b that by (auto simp: t_def)
    then have "tree_steps ns (-1) (Suc k) i = tree_steps ns (-1) k (int t)" using t ex(2) by (intro backward_scan) auto
    moreover obtain q where "q < length (visible_nodes ns)" "visible_nodes ns ! q = t"
      using t ex(2) visible_rank[of t ns] by auto
    ultimately show ?thesis by auto
  qed
  have last: "\<exists>q<length (visible_nodes ns). tree_steps ns (-1) (Suc k) (int (length ns)) = tree_steps ns (-1) k (int (visible_nodes ns ! q))"
    using first_visible assms(1) by (intro scan exI[of _ 0]) simp_all
  show ?thesis
  proof (cases "\<exists>t. int t < i \<and> isVisible ns t")
    case True
    then show ?thesis by (rule scan) (use assms(3) in simp)
  next
    case False
    have "tree_steps ns (-1) (Suc k) i = tree_steps ns (-1) (Suc k) (int (length ns))"
    proof (cases "i = -1")
      case True
      then show ?thesis by (simp add: tree_steps.simps[of ns "-1" "Suc k" "-1"] tree_steps.simps[of ns "-1" "Suc k" "int (length ns)"] Let_def)
    next
      case f: False
      then show ?thesis using False assms(2,3) by (intro backward_wrap) auto
    qed
    then show ?thesis using last by simp
  qed
qed

lemma steps_return:
  assumes "ns \<noteq> []" "-1 \<le> i" "i < int (length ns)" "delta \<noteq> 0"
  shows "\<exists>q<length (visible_nodes ns).
    tree_steps ns (if delta < 0 then -1 else 1) (nat \<bar>delta\<bar>) i = Some (int (visible_nodes ns ! q))"
proof -
  obtain k where k: "nat \<bar>delta\<bar> = Suc k" using assms(4) by (cases "nat \<bar>delta\<bar>") auto
  obtain q where q: "q < length (visible_nodes ns)"
    "tree_steps ns (if delta < 0 then -1 else 1) (Suc k) i = tree_steps ns (if delta < 0 then -1 else 1) k (int (visible_nodes ns ! q))"
    using step_any_forward[OF assms(1-3), of k] step_any_backward[OF assms(1-3), of k] by (cases "delta < 0") auto
  have p: "0 < length (visible_nodes ns)" using q(1) by linarith
  show ?thesis
  proof (cases "delta < 0")
    case True
    let ?r = "nat ((int q - int k) mod int (length (visible_nodes ns)))"
    have "?r < length (visible_nodes ns)" using p by (simp add: nat_less_iff)
    then show ?thesis using True q(2) steps_backward[OF q(1), of k] unfolding k by auto
  next
    case False
    have "(q + k) mod length (visible_nodes ns) < length (visible_nodes ns)" using p by (rule mod_less_divisor)
    then show ?thesis using False q(2) steps_forward[OF q(1), of k] unfolding k by auto
  qed
qed

subsection \<open>Selecting a node\<close>

lemma getTreeNode_path:
  assumes "distinct (map tn_Uid ns)" "i < length ns"
  shows "getTreeNode ns (tn_Uid (ns ! i)) = int i"
proof -
  let ?j = "getTreeNode ns (tn_Uid (ns ! i))"
  have j: "0 \<le> ?j" unfolding getTreeNode_def using assms(2) by (auto simp: find_idx_nonneg_iff)
  then have "tn_Uid (ns ! nat ?j) = tn_Uid (ns ! i)" unfolding getTreeNode_def by (rule find_idx_hit)
  moreover have "nat ?j < length ns" using j find_idx_upper[of "\<lambda>n. tn_Uid n = tn_Uid (ns ! i)" ns]
    by (simp add: getTreeNode_def nat_less_iff)
  ultimately have "nat ?j = i" using assms nth_eq_iff_index_eq[OF assms(1), of "nat ?j" i] by simp
  then show ?thesis using j by simp
qed

lemma makeVisible_visible:
  assumes "isVisible ns i"
  shows "makeVisible ns i = ns"
proof -
  have "fold (\<lambda>p ns. ns[p := (ns ! p)\<lparr>tn_Hidden := 0\<rparr>]) ps ns = ns" if "\<forall>p\<in>set ps. tn_Hidden (ns ! p) = 0" for ps
    using that
  proof (induction ps)
    case Nil
    then show ?case by simp
  next
    case (Cons p ps)
    then have "(ns ! p)\<lparr>tn_Hidden := 0\<rparr> = ns ! p" by (cases "ns ! p") simp
    then have "ns[p := (ns ! p)\<lparr>tn_Hidden := 0\<rparr>] = ns" by simp
    then show ?case using Cons by simp
  qed
  then show ?thesis using assms by (simp add: makeVisible_def isVisible_def list_all_iff)
qed

lemma selectIndex_visible:
  assumes "tree_list_ok sep all (dt_list t)" "i < length (dt_list t)" "isVisible (dt_list t) i"
  shows "\<exists>t'. selectIndex cf (int i) t = Some t' \<and> dt_list t' = dt_list t \<and> dt_listIdx t' = int i
    \<and> dt_virtual t' = tn_Dummy (dt_list t ! i)
    \<and> (\<not> tn_Dummy (dt_list t ! i) \<longrightarrow> dl_selecting (dt_dl t') = tn_Uid (dt_list t ! i))"
proof -
  have "distinct (map tn_Uid (dt_list t))" "tn_Uid (dt_list t ! i) \<noteq> []"
    using assms(1,2) by (simp_all add: tree_list_ok_def)
  then show ?thesis using assms(2) getTreeNode_path[OF _ assms(2)] makeVisible_visible[OF assms(3)]
    by (simp add: selectIndex_def dt_Select_def dt_Open_def reindex_def Let_def dl_Open_def dl_NewContext_def)
qed

subsection \<open>Departures\<close>

definition tree_sample :: "string list \<Rightarrow> (unit, unit) dirtree" where
  "tree_sample dirs = buildTree no_folder_config CHR ''/'' (NewDirectoryTree (NewDirectoryList\<lparr>dl_dirs := dirs\<rparr>))"

definition hidden_nodes :: "('m, 'u) dirtree \<Rightarrow> string list" where
  "hidden_nodes t = map tn_Uid (filter (\<lambda>n. tn_Hidden n \<noteq> 0) (dt_list t))"

text \<open>
  Rebuilding the tree is meant to keep what is folded.  But a folded node is remembered by the path
  of its parent: a folded root is forgotten, and below the root all siblings of a folded node that
  have children come back folded with it.
\<close>

lemma rebuild_forgets_roots:
  "map_option hidden_nodes (CollapseFolder no_folder_config CHR ''/'' ''a'' (tree_sample [''a/b'', ''c''])) = Some [''a'']"
  "map_option (\<lambda>t. hidden_nodes (buildTree no_folder_config CHR ''/'' t))
     (CollapseFolder no_folder_config CHR ''/'' ''a'' (tree_sample [''a/b'', ''c''])) = Some []"
  by code_simp+

lemma rebuild_folds_siblings:
  "map_option hidden_nodes (CollapseFolder no_folder_config CHR ''/'' ''a/b'' (tree_sample [''a/b/x'', ''a/c/y''])) = Some [''a/b'']"
  "map_option (\<lambda>t. hidden_nodes (buildTree no_folder_config CHR ''/'' t))
     (CollapseFolder no_folder_config CHR ''/'' ''a/b'' (tree_sample [''a/b/x'', ''a/c/y''])) = Some [''a/b'', ''a/c'']"
  by code_simp+

text \<open>A leading separator is lost: the node of the directory cannot be selected.\<close>

lemma leading_separator_lost:
  "map (\<lambda>n. (tn_Uid n, tn_Dummy n)) (dt_list (tree_sample [''/a''])) = [('''', True), (''a'', True)]"
  by code_simp

text \<open>
  When the folder under the cursor is removed with its parent, the cursor may point beyond the list;
  drawing it is an index out of range.
\<close>

lemma stale_selection_panics:
  "dt_Draw 10 10
     (dt_Update no_folder_config CHR ''/'' [''a''] 1 (Done (Some (RemoveDirectory ''z/y'' True)) :: (unit, unit, unit) wmsg)
        ((reindex ''z/y'' (tree_sample [''a'', ''z/y'']))
           \<lparr>dt_dl := dl_SetMsgStore \<lparr>dir_Name = ''a'', dir_Uid = [], dir_Exists = 0, dir_Recent = 0, dir_Unseen = 0,
             dir_Role = []\<rparr> () (NewDirectoryList\<lparr>dl_spinning := False\<rparr>)\<rparr>)) = None"
  by code_simp

text \<open>Moving by zero before anything is selected is an index out of range.\<close>

lemma move_by_zero_panics:
  "dt_list t \<noteq> [] \<Longrightarrow> dt_listIdx t = -1 \<Longrightarrow> dt_NextPrevDelta cf 0 t = None"
  by (simp add: dt_NextPrevDelta_def tree_steps_0 selectIndex_def Let_def)

subsection \<open>Properties\<close>

text \<open>
  C31. The tree that is built for a list of directories, none of whose names is empty or begins with the
  separator (\<open>leading_separator_lost\<close> shows such a name), has exactly one node for each of their paths
  and of the paths that lead to them; a node is a dummy exactly if its path is no directory of the
  list.  Every node stands after its parent, whose path is its own without the last element, and the
  nodes without a parent are those of one element; so a selected node is known by its full path.
\<close>

theorem tree_of_paths:
  assumes "proper_names sep (dl_dirs (dt_dl t))" and "ns = dt_list (buildTree cf sep t)"
  shows "distinct (map tn_Uid ns) \<and>
    set (map tn_Uid ns) = {q. \<exists>d\<in>set (dl_dirs (dt_dl t)). q = d \<or> (\<exists>r. d = q @ sep # r)} \<and>
    (\<forall>i<length ns. (tn_Dummy (ns ! i) \<longleftrightarrow> tn_Uid (ns ! i) \<notin> set (dl_dirs (dt_dl t))) \<and>
      (case tn_parent (ns ! i) of
         None \<Rightarrow> sep \<notin> set (tn_Uid (ns ! i))
       | Some p \<Rightarrow> p < i \<and> (\<exists>b. sep \<notin> set b \<and> tn_Uid (ns ! i) = tn_Uid (ns ! p) @ sep # b)) \<and>
      dt_Selected sep (t\<lparr>dt_list := ns, dt_listIdx := int i\<rparr>) = tn_Uid (ns ! i))"
proof -
  have ok: "tree_list_ok sep (dl_dirs (dt_dl t)) ns" using buildTree_ok[OF assms(1)] assms(2) by simp
  have "dt_Selected sep (t\<lparr>dt_list := ns, dt_listIdx := int i\<rparr>) = tn_Uid (ns ! i)" if "i < length ns" for i
    using Selected_path[of sep "dl_dirs (dt_dl t)" "t\<lparr>dt_list := ns, dt_listIdx := int i\<rparr>"] ok that by simp
  moreover have "set (map tn_Uid ns) = {q. \<exists>d\<in>set (dl_dirs (dt_dl t)). q = d \<or> (\<exists>r. d = q @ sep # r)}"
    using buildTree_paths(2)[OF assms(1), of cf] assms(2) by (simp only: path_prefix_def)
  ultimately show ?thesis using ok unfolding tree_list_ok_def by blast
qed

lemma tree_of_paths_witness:
  "set (map tn_Uid (dt_list (tree_sample [''a/b'', ''c'']))) =
    {q. \<exists>d\<in>{''a/b'', ''c''}. q = d \<or> (\<exists>r. d = q @ CHR ''/'' # r)}"
proof -
  have "proper_names CHR ''/'' (dl_dirs (dt_dl (NewDirectoryTree (NewDirectoryList\<lparr>dl_dirs := [''a/b'', ''c'']\<rparr>) :: (unit, unit) dirtree)))"
    by (simp add: NewDirectoryTree_def proper_names_def)
  from tree_of_paths[OF this refl, of no_folder_config, THEN conjunct2, THEN conjunct1]
  show ?thesis unfolding tree_sample_def by (simp add: NewDirectoryTree_def)
qed

text \<open>
  C32. Moving the selection always ends, on a visible node, and changes nothing that is folded: the
  loop over the nodes cannot run forever, as the first one is visible.  From a visible node the place
  among the visible nodes moves by the number asked for, around both ends.
\<close>

theorem tree_move_returns:
  assumes "tree_list_ok sep all (dt_list t)" "dt_list t \<noteq> []"
    and "-1 \<le> dt_listIdx t" "dt_listIdx t < int (length (dt_list t))" "delta \<noteq> 0"
  shows "\<exists>t' q. dt_NextPrevDelta cf delta t = Some t' \<and> dt_list t' = dt_list t \<and>
    q < length (visible_nodes (dt_list t)) \<and> dt_listIdx t' = int (visible_nodes (dt_list t) ! q) \<and>
    (\<forall>r<length (visible_nodes (dt_list t)). dt_listIdx t = int (visible_nodes (dt_list t) ! r) \<longrightarrow>
       int q = (int r + delta) mod int (length (visible_nodes (dt_list t))))"
proof -
  let ?vs = "visible_nodes (dt_list t)" and ?s = "if delta < 0 then -1 else 1 :: int"
  have "\<exists>q<length ?vs. tree_steps (dt_list t) ?s (nat \<bar>delta\<bar>) (dt_listIdx t) = Some (int (?vs ! q)) \<and>
    (\<forall>r<length ?vs. dt_listIdx t = int (?vs ! r) \<longrightarrow> int q = (int r + delta) mod int (length ?vs))"
  proof (cases "\<exists>r<length ?vs. dt_listIdx t = int (?vs ! r)")
    case True
    then obtain r where r: "r < length ?vs" "dt_listIdx t = int (?vs ! r)" by blast
    have u: "r' = r" if "r' < length ?vs" "dt_listIdx t = int (?vs ! r')" for r'
      using that r visible_less_iff[of r "dt_list t" r'] visible_less_iff[of r' "dt_list t" r]
      by (metis linorder_neqE_nat nat_int less_irrefl)
    have p: "0 < int (length ?vs)" using r(1) by linarith
    then have "0 \<le> (int r + delta) mod int (length ?vs)" "(int r + delta) mod int (length ?vs) < int (length ?vs)"
      by simp_all
    then show ?thesis using steps_delta[OF r(1), of delta] r(2) u
      by (intro exI[of _ "nat ((int r + delta) mod int (length ?vs))"]) (auto simp: nat_less_iff)
  next
    case False
    then show ?thesis using steps_return[OF assms(2-5)] by blast
  qed
  then obtain q where q: "q < length ?vs" "tree_steps (dt_list t) ?s (nat \<bar>delta\<bar>) (dt_listIdx t) = Some (int (?vs ! q))"
    "\<forall>r<length ?vs. dt_listIdx t = int (?vs ! r) \<longrightarrow> int q = (int r + delta) mod int (length ?vs)" by blast
  obtain t' where "selectIndex cf (int (?vs ! q)) t = Some t'" "dt_list t' = dt_list t" "dt_listIdx t' = int (?vs ! q)"
    using selectIndex_visible[OF assms(1) visible_nth[OF q(1)]] by blast
  then show ?thesis using q assms(2,4)
    by (intro exI[of _ t'] exI[of _ q]) (simp add: dt_NextPrevDelta_def Let_def)
qed

lemma tree_move_returns_witness:
  "\<exists>t' q. dt_NextPrevDelta no_folder_config 1 (tree_sample [''a/b'', ''c'']) = Some t' \<and>
    q < length (visible_nodes (dt_list (tree_sample [''a/b'', ''c'']))) \<and>
    dt_listIdx t' = int (visible_nodes (dt_list (tree_sample [''a/b'', ''c''])) ! q)"
proof -
  have ok: "tree_list_ok CHR ''/'' [''a/b'', ''c''] (dt_list (tree_sample [''a/b'', ''c'']))"
    using buildTree_ok[of "CHR ''/''" "NewDirectoryTree (NewDirectoryList\<lparr>dl_dirs := [''a/b'', ''c'']\<rparr>)" no_folder_config]
    by (simp add: tree_sample_def NewDirectoryTree_def proper_names_def)
  have "length (dt_list (tree_sample [''a/b'', ''c''])) = 3" and i: "dt_listIdx (tree_sample [''a/b'', ''c'']) = -1"
    by code_simp+
  then have ne: "dt_list (tree_sample [''a/b'', ''c'']) \<noteq> []" by auto
  from tree_move_returns[OF ok ne, of 1 no_folder_config] i show ?thesis by auto
qed

end
