(* ===== verification/AccountView.thy ===== *)
theory AccountView
  imports TreeMoves StoreProps Messages
begin

text \<open>
  \<open>app/account.go\<close>: the view of an account, where the messages of its worker arrive.  It keeps the
  list of directories (flat or as a tree, \<open>lister\<close>), a message store for each directory and the
  store that the message list shows.  Stores are shared by reference: they live in \<open>ac_stores\<close> and
  are known by their number.  What is posted to the worker or shown as an error is recorded in
  \<open>ac_out\<close>; titles, the status line and the split view are left out.
\<close>

subsection \<open>The interface to the list of directories\<close>

datatype ('m, 'u) lister = FlatList "('m, 'u) dirlist" | TreeList "('m, 'u) dirtree"

fun li_Update :: "dir_config \<Rightarrow> char \<Rightarrow> string list \<Rightarrow> nat \<Rightarrow> ('h, 'c, 'r) wmsg \<Rightarrow> ('m, 'u) lister \<Rightarrow> ('m, 'u) lister" where
  "li_Update cf sep walk actx msg (FlatList d) = FlatList (dl_Update cf walk actx msg d)"
| "li_Update cf sep walk actx msg (TreeList t) = TreeList (dt_Update cf sep walk actx msg t)"

fun li_store :: "('m, 'u) lister \<Rightarrow> 'm dirstore" where
  "li_store (FlatList d) = dl_store d"
| "li_store (TreeList t) = dl_store (dt_dl t)"

fun li_set_store :: "'m dirstore \<Rightarrow> ('m, 'u) lister \<Rightarrow> ('m, 'u) lister" where
  "li_set_store st (FlatList d) = FlatList (d\<lparr>dl_store := st\<rparr>)"
| "li_set_store st (TreeList t) = TreeList (t\<lparr>dt_dl := (dt_dl t)\<lparr>dl_store := st\<rparr>\<rparr>)"

fun li_out :: "('m, 'u) lister \<Rightarrow> 'm dirlist_out list" where
  "li_out (FlatList d) = dl_out d"
| "li_out (TreeList t) = dl_out (dt_dl t)"

definition li_MsgStore :: "string \<Rightarrow> ('m, 'u) lister \<Rightarrow> 'm option" where
  "li_MsgStore name l = ds_MessageStore name (li_store l)"

definition li_Directory :: "string \<Rightarrow> ('m, 'u) lister \<Rightarrow> directory option" where
  "li_Directory name l = ds_Directory name (li_store l)"

definition li_SetMsgStore :: "directory \<Rightarrow> 'm \<Rightarrow> ('m, 'u) lister \<Rightarrow> ('m, 'u) lister" where
  "li_SetMsgStore dir m l = li_set_store (ds_SetMessageStore dir m (li_store l)) l"

text \<open>A directory is a pointer: changing its counts changes the store's map.\<close>

definition li_set_directory :: "string \<Rightarrow> directory \<Rightarrow> ('m, 'u) lister \<Rightarrow> ('m, 'u) lister" where
  "li_set_directory name d l = li_set_store ((li_store l)\<lparr>ds_dirs := (ds_dirs (li_store l))(name \<mapsto> d)\<rparr>) l"

fun li_SelectedMsgStore :: "dir_config \<Rightarrow> char \<Rightarrow> ('m, 'u) lister \<Rightarrow> ('m, 'u) lister \<times> 'm option" where
  "li_SelectedMsgStore cf sep (FlatList d) = (FlatList d, dl_SelectedMsgStore d)"
| "li_SelectedMsgStore cf sep (TreeList t) = map_prod TreeList id (dt_SelectedMsgStore cf sep t)"

fun li_Selected :: "char \<Rightarrow> ('m, 'u) lister \<Rightarrow> string" where
  "li_Selected sep (FlatList d) = dl_selected d"
| "li_Selected sep (TreeList t) = dt_Selected sep t"

fun li_Select :: "dir_config \<Rightarrow> string \<Rightarrow> ('m, 'u) lister \<Rightarrow> ('m, 'u) lister" where
  "li_Select cf name (FlatList d) = FlatList (dl_Select cf name d)"
| "li_Select cf name (TreeList t) = TreeList (dt_Select cf name t)"

fun li_List :: "('m, 'u) lister \<Rightarrow> string list" where
  "li_List (FlatList d) = dl_dirs d"
| "li_List (TreeList t) = dl_dirs (dt_dl t)"

fun li_ClearList :: "('m, 'u) lister \<Rightarrow> ('m, 'u) lister" where
  "li_ClearList (FlatList d) = FlatList (dl_ClearList d)"
| "li_ClearList (TreeList t) = TreeList (dt_ClearList t)"

subsection \<open>The view\<close>

record account_config =
  ag_Default :: string
  ag_CheckMail :: int
  ag_CheckMailInclude :: "string list"
  ag_CheckMailExclude :: "string list"
  ag_ReconnectMaxWait :: int
  ag_dirs :: dir_config
  ag_sep :: char
  ag_ui :: "string \<Rightarrow> ui_config"
  ag_Sort :: "string \<Rightarrow> string list"
  ag_backendThreads :: bool

datatype account_out = PostListDirectories | PostReconnect int | PostCheckMail "string list" | ShowError string | SortFailed

record ('h, 'u) account =
  ac_dirlist :: "(nat, 'u) lister"
  ac_stores :: "nat \<rightharpoonup> 'h msgstore"
  ac_next :: nat
  ac_msglist :: "nat option"
  ac_scroll :: scrollable
  ac_initializing :: bool
  ac_labels :: "string list"
  ac_newConn :: bool
  ac_connected :: bool
  ac_retries :: nat
  ac_checkingMail :: bool
  ac_out :: "account_out list"

definition NewAccountView :: "(nat, 'u) lister \<Rightarrow> ('h, 'u) account" where
  "NewAccountView l = \<lparr>ac_dirlist = l, ac_stores = Map.empty, ac_next = 0, ac_msglist = None,
     ac_scroll = new_scrollable, ac_initializing = True, ac_labels = [], ac_newConn = False,
     ac_connected = False, ac_retries = 0, ac_checkingMail = False, ac_out = []\<rparr>"

definition ac_emit :: "account_out \<Rightarrow> ('h, 'u) account \<Rightarrow> ('h, 'u) account" where
  "ac_emit e a = a\<lparr>ac_out := ac_out a @ [e]\<rparr>"

text \<open>\<open>MessageList.SetStore\<close>\<close>

definition msglist_SetStore :: "nat option \<Rightarrow> ('h, 'u) account \<Rightarrow> ('h, 'u) account" where
  "msglist_SetStore st a =
     (let a = (if ac_msglist a \<noteq> st then a\<lparr>ac_scroll := new_scrollable\<rparr> else a)
      in a\<lparr>ac_msglist := st\<rparr>)"

text \<open>Criteria that cannot be read are reported and left out.\<close>

definition SortCriteria :: "string list \<Rightarrow> ('h, 'u) account \<Rightarrow> sort_criterion list option \<times> ('h, 'u) account" where
  "SortCriteria srt a =
     (if length srt = 0 then (None, a)
      else (case GetSortCriteria srt of Inl e \<Rightarrow> (None, ac_emit SortFailed a) | Inr cs \<Rightarrow> (Some cs, a)))"

definition newStore :: "account_config \<Rightarrow> string \<Rightarrow> ('h, 'u) account \<Rightarrow> nat \<times> ('h, 'u) account" where
  "newStore g name a =
     (case SortCriteria (ag_Sort g name) a of
        (criteria, a) \<Rightarrow>
          (let s = ms_Configure criteria (ag_backendThreads g) (NewMessageStore name (ag_ui g name));
               s = s\<lparr>ms_marker := Some marker_New\<rparr>
           in (ac_next a, a\<lparr>ac_stores := (ac_stores a)(ac_next a \<mapsto> s), ac_next := ac_next a + 1\<rparr>)))"

text \<open>\<open>store.Update\<close> on a store of the heap.\<close>

definition ac_store_Update :: "'h thread_env \<Rightarrow> nat \<Rightarrow> 'h store_msg \<Rightarrow> ('h, 'u) account \<Rightarrow> ('h, 'u) account option" where
  "ac_store_Update te i m a =
     (case ac_stores a i of
        None \<Rightarrow> None
      | Some s \<Rightarrow> map_option (\<lambda>s. a\<lparr>ac_stores := (ac_stores a)(i \<mapsto> s)\<rparr>) (ms_Update te m s))"

text \<open>
  \<open>dirlist.Update\<close>; it may ask the selected store to sort itself, which is done at once.  The context
  it sets is not part of the modelled store.
\<close>

fun ac_run_outs :: "nat dirlist_out list \<Rightarrow> ('h, 'u) account \<Rightarrow> ('h, 'u) account" where
  "ac_run_outs [] a = a"
| "ac_run_outs (SortStore i # es) a =
     (case ac_stores a i of
        None \<Rightarrow> ac_run_outs es a
      | Some s \<Rightarrow> ac_run_outs es (a\<lparr>ac_stores := (ac_stores a)(i \<mapsto> fst (ms_Sort (ms_sortCriteria s) s))\<rparr>))"
| "ac_run_outs (_ # es) a = ac_run_outs es a"

definition ac_dirlist_Update ::
  "account_config \<Rightarrow> string list \<Rightarrow> nat \<Rightarrow> ('h, 'c, 'r) wmsg \<Rightarrow> ('h, 'u) account \<Rightarrow> ('h, 'u) account" where
  "ac_dirlist_Update g walk actx msg a =
     (let l = li_Update (ag_dirs g) (ag_sep g) walk actx msg (ac_dirlist a);
          new = drop (length (li_out (ac_dirlist a))) (li_out l)
      in ac_run_outs new (a\<lparr>ac_dirlist := l\<rparr>))"

definition ac_SelectedMsgStore :: "account_config \<Rightarrow> ('h, 'u) account \<Rightarrow> ('h, 'u) account \<times> nat option" where
  "ac_SelectedMsgStore g a =
     (case li_SelectedMsgStore (ag_dirs g) (ag_sep g) (ac_dirlist a) of (l, st) \<Rightarrow> (a\<lparr>ac_dirlist := l\<rparr>, st))"

subsection \<open>Checking for new mail\<close>

definition CheckMail_start :: "account_config \<Rightarrow> ('h, 'u) account \<Rightarrow> ('h, 'u) account" where
  "CheckMail_start g a =
     (if ac_checkingMail a then a
      else
        (let exclude = ag_CheckMailExclude g @ [li_Selected (ag_sep g) (ac_dirlist a)];
             dirs = li_List (ac_dirlist a);
             dirs = FilterDirs (ag_dirs g) dirs (ag_CheckMailInclude g) False;
             dirs = FilterDirs (ag_dirs g) dirs exclude True
         in ac_emit (PostCheckMail dirs) (a\<lparr>ac_checkingMail := True\<rparr>)))"

text \<open>The callback of the action, which it shares with the actions for the remaining directories.\<close>

definition CheckMail_reply :: "('h, 'c, 'r) wmsg \<Rightarrow> ('h, 'u) account \<Rightarrow> ('h, 'u) account" where
  "CheckMail_reply msg a =
     (case msg of
        CheckMailDirectories ds \<Rightarrow> ac_emit (PostCheckMail ds) a
      | _ \<Rightarrow> a\<lparr>ac_checkingMail := False\<rparr>)"

definition checkMailOnStartup :: "account_config \<Rightarrow> ('h, 'u) account \<Rightarrow> ('h, 'u) account" where
  "checkMailOnStartup g a = (if ag_CheckMail g > 0 then CheckMail_start g (a\<lparr>ac_newConn := False\<rparr>) else a)"

subsection \<open>Counts\<close>

definition ensurePositive :: "int \<Rightarrow> int" where
  "ensurePositive val = (if val < 0 then 0 else val)"

text \<open>The loop over the messages: recent ones, the change of the unseen ones, and whether all are known.\<close>

fun count_loop :: "(uid \<rightharpoonup> 'h message_info option) \<Rightarrow> bool \<Rightarrow> uid list \<Rightarrow> int \<Rightarrow> int \<Rightarrow> int \<times> int \<times> bool" where
  "count_loop msgs deleted [] recent unseen = (recent, unseen, True)"
| "count_loop msgs deleted (uid # uids) recent unseen =
     (case msgs uid of
        None \<Rightarrow> count_loop msgs deleted uids recent unseen
      | Some None \<Rightarrow> (recent, unseen, False)
      | Some (Some m) \<Rightarrow>
          (let recent = (if flags_Has (mi_Flags m) RecentFlag then recent + 1 else recent);
               seen = flags_Has (mi_Flags m) SeenFlag;
               unseen = (if \<not> seen then (if \<not> deleted then unseen + 1 else unseen - 1) else unseen)
           in count_loop msgs deleted uids recent unseen))"

text \<open>The new counts of a directory.\<close>

definition counted_dir :: "int \<Rightarrow> bool \<Rightarrow> int \<times> int \<times> bool \<Rightarrow> directory \<Rightarrow> directory" where
  "counted_dir n deleted counts d =
     (case counts of
        (recent, unseen, accurate) \<Rightarrow>
          (let d = (if accurate then d\<lparr>dir_Recent := dir_Recent d + recent, dir_Unseen := dir_Unseen d + unseen\<rparr> else d);
               d = (if \<not> deleted then d\<lparr>dir_Exists := dir_Exists d + n\<rparr> else d\<lparr>dir_Exists := dir_Exists d - n\<rparr>)
           in d\<lparr>dir_Unseen := ensurePositive (dir_Unseen d), dir_Recent := ensurePositive (dir_Recent d),
                dir_Exists := ensurePositive (dir_Exists d)\<rparr>))"

definition updateDirCounts :: "string \<Rightarrow> uid list \<Rightarrow> bool \<Rightarrow> ('h, 'u) account \<Rightarrow> ('h, 'u) account" where
  "updateDirCounts destination uids deleted a =
     (case li_Directory destination (ac_dirlist a) of
        None \<Rightarrow> a
      | Some d \<Rightarrow>
          (let counts = (case Option.bind (ac_msglist a) (ac_stores a) of
                           None \<Rightarrow> (0, 0, False)
                         | Some s \<Rightarrow> count_loop (ms_Messages s) deleted uids 0 0);
               d = counted_dir (int (length uids)) deleted counts d
           in a\<lparr>ac_dirlist := li_set_directory destination d (ac_dirlist a)\<rparr>))"

text \<open>
  The wait before the next attempt to connect, in nanoseconds.  The power is exact here; it is
  converted to \<open>int64\<close>, which on amd64 gives the least number when it is out of range, and the
  product wraps around.
\<close>

definition reconnect_wait :: "int \<Rightarrow> nat \<Rightarrow> int" where
  "reconnect_wait maxWait retries =
     (if retries > 0
      then (let backoff = 9 ^ retries div 5 ^ retries;
                backoff = (if backoff \<ge> 2 ^ 63 then - (2 ^ 63) else backoff);
                wait = sint (word_of_int (backoff * 1000000000) :: 64 word)
            in if wait > maxWait then maxWait else wait)
      else 0)"

subsection \<open>Messages of the worker\<close>

text \<open>
  The callbacks of the actions, with what they capture: for a store, what its operation left them
  (the place of a sort, the UIDs that are fetched, deleted or moved, the folder a message is added to, the
  flags and labels); the check for new mail; the list of directories opening one.  A callback of a
  command only shows what came of it; if it opens a directory again, that is another step.
\<close>

datatype account_callback =
    No_callback
  | Sort_callback nat int
  | Headers_callback nat "uid list"
  | Full_callback nat "uid list"
  | Delete_callback nat "uid list"
  | Move_callback nat "uid list" string
  | Added_callback nat string
  | Flag_callback nat flags
  | Labels_callback nat "string list" "string list" "string list"
  | Search_callback nat
  | CheckMail_callback
  | Open_callback string bool
  | Command_callback

fun callback_store :: "account_callback \<Rightarrow> nat option" where
  "callback_store (Sort_callback i idx) = Some i"
| "callback_store (Headers_callback i us) = Some i"
| "callback_store (Full_callback i us) = Some i"
| "callback_store (Delete_callback i us) = Some i"
| "callback_store (Move_callback i us d) = Some i"
| "callback_store (Added_callback i d) = Some i"
| "callback_store (Flag_callback i fl) = Some i"
| "callback_store (Labels_callback i add rem tog) = Some i"
| "callback_store (Search_callback i) = Some i"
| "callback_store _ = None"

text \<open>A store's callbacks look at the kind of the message; that of a sort does the same for all.\<close>

definition reply_of :: "('h, 'c, 'r) wmsg \<Rightarrow> store_reply option" where
  "reply_of msg =
     (case msg of
        ErrorOf x e \<Rightarrow> Some RError
      | Done x \<Rightarrow> Some RDone
      | Cancelled x \<Rightarrow> Some RCancelled
      | Unsupported x \<Rightarrow> Some RUnsupported
      | _ \<Rightarrow> None)"

definition on_reply :: "(store_reply \<Rightarrow> 's \<Rightarrow> 's) \<Rightarrow> ('h, 'c, 'r) wmsg \<Rightarrow> 's \<Rightarrow> 's" where
  "on_reply f msg s = (case reply_of msg of None \<Rightarrow> s | Some r \<Rightarrow> f r s)"

fun store_callback :: "account_callback \<Rightarrow> ('h, 'c, 'r) wmsg \<Rightarrow> 'h msgstore \<Rightarrow> 'h msgstore option" where
  "store_callback (Sort_callback i idx) msg s = sort_reply idx s"
| "store_callback (Headers_callback i us) msg s = Some (on_reply (headers_reply us) msg s)"
| "store_callback (Full_callback i us) msg s = Some (on_reply (full_reply us) msg s)"
| "store_callback (Delete_callback i us) msg s = Some (on_reply (delete_reply us) msg s)"
| "store_callback (Move_callback i us d) msg s = Some (on_reply (move_reply us d) msg s)"
| "store_callback (Added_callback i d) msg s = Some (on_reply (added_reply d) msg s)"
| "store_callback (Flag_callback i fl) msg s = Some (on_reply (flag_reply fl) msg s)"
| "store_callback (Labels_callback i add rem tog) msg s = Some (on_reply (labels_reply add rem tog) msg s)"
| "store_callback (Search_callback i) msg s =
     (case msg of SearchResults d c us \<Rightarrow> ApplySearch (search_results us s) s | _ \<Rightarrow> Some s)"
| "store_callback _ msg s = Some s"

text \<open>
  An opened directory: the callback of the list and, for a tree that was built before the directory
  was known (\<open>again\<close>), that of the tree.
\<close>

fun li_open_reply ::
  "dir_config \<Rightarrow> char \<Rightarrow> string \<Rightarrow> bool \<Rightarrow> ('h, 'c, 'r) wmsg \<Rightarrow> ('m, 'u) lister \<Rightarrow> ('m, 'u) lister" where
  "li_open_reply cf sep name again msg (FlatList d) = FlatList (fst (dl_open_reply None msg d))"
| "li_open_reply cf sep name again msg (TreeList t) =
     TreeList (dt_open_callback cf sep \<lparr>tc_cb = None, tc_name = name, tc_again = again\<rparr> msg
       (t\<lparr>dt_dl := fst (dl_open_reply None msg (dt_dl t))\<rparr>))"

text \<open>
  \<open>worker.ProcessMessage\<close>: the callback of the action that is answered, which WorkerQueue looks up, is
  called before the message is handled.
\<close>

definition ac_callback ::
  "account_config \<Rightarrow> account_callback \<Rightarrow> ('h, 'c, 'r) wmsg \<Rightarrow> ('h, 'u) account \<Rightarrow> ('h, 'u) account option" where
  "ac_callback g cb msg a =
     (case callback_store cb of
        Some i \<Rightarrow>
          (case ac_stores a i of
             None \<Rightarrow> None
           | Some s \<Rightarrow> map_option (\<lambda>s. a\<lparr>ac_stores := (ac_stores a)(i \<mapsto> s)\<rparr>) (store_callback cb msg s))
      | None \<Rightarrow>
          Some (case cb of
             CheckMail_callback \<Rightarrow> CheckMail_reply msg a
           | Open_callback name again \<Rightarrow>
               a\<lparr>ac_dirlist := li_open_reply (ag_dirs g) (ag_sep g) name again msg (ac_dirlist a)\<rparr>
           | _ \<Rightarrow> a))"

text \<open>The list of directories has arrived: the configured or the first one is opened, once.\<close>

definition listed_default :: "string \<Rightarrow> string list \<Rightarrow> string" where
  "listed_default def dirs =
     (let dir = (if def \<in> set dirs then def else [])
      in if dir = [] \<and> length dirs > 0 then dirs ! 0 else dir)"

definition on_listed :: "account_config \<Rightarrow> ('h, 'u) account \<Rightarrow> ('h, 'u) account" where
  "on_listed g a =
     (let dir = li_Selected (ag_sep g) (ac_dirlist a)
      in if dir \<noteq> [] then a\<lparr>ac_dirlist := li_Select (ag_dirs g) dir (ac_dirlist a)\<rparr>
         else
           (let dir = listed_default (ag_Default g) (li_List (ac_dirlist a));
                a = (if dir \<noteq> [] then a\<lparr>ac_dirlist := li_Select (ag_dirs g) dir (ac_dirlist a)\<rparr> else a)
            in a\<lparr>ac_initializing := False, ac_newConn := True\<rparr>))"

definition on_opened :: "account_config \<Rightarrow> 'h thread_env \<Rightarrow> ('h, 'u) account \<Rightarrow> ('h, 'u) account option" where
  "on_opened g te a =
     (case ac_SelectedMsgStore g a of
        (a, Some st) \<Rightarrow>
          (let a = msglist_SetStore (Some st) a
           in case ac_msglist a of None \<Rightarrow> None | Some i \<Rightarrow> ac_store_Update te i store_msg.OpenDirectory a)
      | (a, None) \<Rightarrow> Some (msglist_SetStore None a))"

definition set_msg_store :: "directory \<Rightarrow> nat \<Rightarrow> ('h, 'u) account \<Rightarrow> ('h, 'u) account" where
  "set_msg_store dir st a = a\<lparr>ac_dirlist := li_SetMsgStore dir st (ac_dirlist a)\<rparr>"

definition on_done ::
  "account_config \<Rightarrow> 'h thread_env \<Rightarrow> string list \<Rightarrow> nat \<Rightarrow> ('c, 'r) action \<Rightarrow> ('h, 'u) account \<Rightarrow> ('h, 'u) account option" where
  "on_done g te walk actx resp a =
     (let update = ac_dirlist_Update g walk actx (Done (Some resp) :: ('h, 'c, 'r) wmsg)
      in case resp of
        Connect \<Rightarrow> Some (ac_emit PostListDirectories (a\<lparr>ac_retries := 0, ac_connected := True\<rparr>))
      | Reconnect \<Rightarrow> Some (ac_emit PostListDirectories (a\<lparr>ac_retries := 0, ac_connected := True\<rparr>))
      | Disconnect \<Rightarrow>
          (let a = a\<lparr>ac_dirlist := li_ClearList (ac_dirlist a)\<rparr>;
               a = msglist_SetStore None a
           in Some (a\<lparr>ac_connected := False\<rparr>))
      | action.OpenDirectory d q f \<Rightarrow> on_opened g te (update a)
      | action.CreateDirectory d q \<Rightarrow>
          (case newStore g d a of
             (st, a) \<Rightarrow>
               Some (update (set_msg_store
                 \<lparr>dir_Name = d, dir_Uid = [], dir_Exists = 0, dir_Recent = 0, dir_Unseen = 0, dir_Role = []\<rparr> st a)))
      | RemoveDirectory d q \<Rightarrow> Some (update a)
      | action.FetchMessageHeaders d us \<Rightarrow> Some (if ac_newConn a then checkMailOnStartup g a else a)
      | ListDirectories \<Rightarrow> Some (on_listed g (update a))
      | _ \<Rightarrow> Some a)"

text \<open>\<open>store.Update\<close> for a message about the directory \<open>name\<close>, if the directory has a store.\<close>

definition to_store :: "'h thread_env \<Rightarrow> string \<Rightarrow> 'h store_msg \<Rightarrow> ('h, 'u) account \<Rightarrow> ('h, 'u) account option" where
  "to_store te name m a =
     (case li_MsgStore name (ac_dirlist a) of None \<Rightarrow> Some a | Some st \<Rightarrow> ac_store_Update te st m a)"

text \<open>
  The contents of a directory.  \<open>acct.Store()\<close> is \<open>msglist.Store()\<close>: inside the branch where it is the
  updated store it cannot be nil, and that test of the code never succeeds.
\<close>

definition on_contents ::
  "account_config \<Rightarrow> 'h thread_env \<Rightarrow> string \<Rightarrow> 'h store_msg \<Rightarrow> bool \<Rightarrow> ('h, 'u) account \<Rightarrow> ('h, 'u) account option" where
  "on_contents g te name m none a =
     do {
       a \<leftarrow> (case li_MsgStore name (ac_dirlist a) of
               None \<Rightarrow> Some a
             | Some st \<Rightarrow>
                 do {
                   a \<leftarrow> ac_store_Update te st m a;
                   Some (if Some st = ac_msglist a
                         then (if ac_msglist a = None then msglist_SetStore (Some st) a else a) else a)
                 });
       Some (if ac_newConn a \<and> none then checkMailOnStartup g a else a)
     }"

text \<open>The unseen count follows a server's notice that changes whether a message is seen.\<close>

definition correct_unseen :: "'h message_info \<Rightarrow> nat \<Rightarrow> ('h, 'u) account \<Rightarrow> ('h, 'u) account" where
  "correct_unseen info st a =
     (let seen = flags_Has (mi_Flags info) SeenFlag;
          seen_in_sync =
            (case Option.bind (ac_stores a st) (\<lambda>s. ms_Messages s (mi_Uid info)) of
               Some (Some m) \<Rightarrow> flags_Has (mi_Flags m) SeenFlag = seen
             | _ \<Rightarrow> True)
      in if seen_in_sync then a
         else
           (case li_Directory (mi_Directory info) (ac_dirlist a) of
              None \<Rightarrow> a
            | Some d \<Rightarrow>
                (let d = d\<lparr>dir_Unseen := (if seen then dir_Unseen d - 1 else dir_Unseen d + 1)\<rparr>;
                     d = d\<lparr>dir_Unseen := ensurePositive (dir_Unseen d)\<rparr>
                 in a\<lparr>ac_dirlist := li_set_directory (mi_Directory info) d (ac_dirlist a)\<rparr>)))"

definition on_info ::
  "'h thread_env \<Rightarrow> bool \<Rightarrow> 'h message_info \<Rightarrow> bool \<Rightarrow> bool \<Rightarrow> ('h, 'u) account \<Rightarrow> ('h, 'u) account option" where
  "on_info te inResp info needsFlags replaceFlags a =
     (case li_MsgStore (mi_Directory info) (ac_dirlist a) of
        None \<Rightarrow> Some a
      | Some st \<Rightarrow>
          ac_store_Update te st (store_msg.MessageInfoMsg info inResp replaceFlags needsFlags)
            (if \<not> inResp \<or> replaceFlags then correct_unseen info st a else a))"

definition on_directory :: "account_config \<Rightarrow> directory \<Rightarrow> ('h, 'u) account \<Rightarrow> ('h, 'u) account" where
  "on_directory g dir a =
     (case li_MsgStore (dir_Name dir) (ac_dirlist a) of
        Some st \<Rightarrow> set_msg_store dir st a
      | None \<Rightarrow> (case newStore g (dir_Name dir) a of (st, a) \<Rightarrow> set_msg_store dir st a))"

definition on_conn_error :: "account_config \<Rightarrow> string \<Rightarrow> ('h, 'u) account \<Rightarrow> ('h, 'u) account" where
  "on_conn_error g e a =
     (let a = msglist_SetStore None (ac_emit (ShowError e) (a\<lparr>ac_connected := False\<rparr>));
          wait = reconnect_wait (ag_ReconnectMaxWait g) (ac_retries a)
      in ac_emit (PostReconnect wait) (a\<lparr>ac_retries := ac_retries a + 1\<rparr>))"

text \<open>The switch over the message; \<open>inResp\<close>: the message answers an action.\<close>

definition handle_message ::
  "account_config \<Rightarrow> 'h thread_env \<Rightarrow> string list \<Rightarrow> nat \<Rightarrow> bool \<Rightarrow> ('h, 'c, 'r) wmsg \<Rightarrow> ('h, 'u) account
     \<Rightarrow> ('h, 'u) account option" where
  "handle_message g te walk actx inResp msg a =
     (case msg of
        Done None \<Rightarrow> Some a
      | Done (Some resp) \<Rightarrow> on_done g te walk actx resp a
      | DirectoryMsg dir \<Rightarrow> Some (on_directory g dir a)
      | DirectoryInfoMsg i refetch \<Rightarrow> Some (ac_dirlist_Update g walk actx msg a)
      | wmsg.DirectoryContents d fl uids \<Rightarrow>
          on_contents g te d (store_msg.DirectoryContents d uids) (length uids = 0) a
      | wmsg.DirectoryThreaded d fl ths \<Rightarrow>
          on_contents g te d (store_msg.DirectoryThreaded d ths) (length ths = 0) a
      | wmsg.FullMessage r \<Rightarrow>
          (case ac_SelectedMsgStore g a of
             (a, None) \<Rightarrow> Some a
           | (a, Some st) \<Rightarrow> ac_store_Update te st (store_msg.FullMessage (br_Uid r)) a)
      | wmsg.MessageInfoMsg None nf rf \<Rightarrow> None
      | wmsg.MessageInfoMsg (Some info) nf rf \<Rightarrow> on_info te inResp info nf rf a
      | wmsg.MessagesDeleted d fl uids \<Rightarrow>
          (let a = (case li_Directory d (ac_dirlist a) of
                      None \<Rightarrow> a | Some dir \<Rightarrow> updateDirCounts (dir_Name dir) uids True a)
           in to_store te d (store_msg.MessagesDeleted d uids) a)
      | MessagesCopied dest uids \<Rightarrow> Some (updateDirCounts dest uids False a)
      | MessagesMoved dest uids \<Rightarrow> Some (updateDirCounts dest uids False a)
      | LabelList ls \<Rightarrow> Some (a\<lparr>ac_labels := ls\<rparr>)
      | ConnError e \<Rightarrow> Some (on_conn_error g e a)
      | ErrorOf x e \<Rightarrow> Some (ac_emit (ShowError e) a)
      | _ \<Rightarrow> Some a)"

text \<open>
  \<open>cb\<close>: the callback of the action the message answers, if any.  \<open>None\<close> is a panic: message information
  without contents, a callback of a store that is not there, or threading that does not return.
\<close>

definition onMessage ::
  "account_config \<Rightarrow> 'h thread_env \<Rightarrow> string list \<Rightarrow> nat \<Rightarrow> account_callback \<Rightarrow> bool \<Rightarrow> ('h, 'c, 'r) wmsg
     \<Rightarrow> ('h, 'u) account \<Rightarrow> ('h, 'u) account option" where
  "onMessage g te walk actx cb inResp msg a =
     do {
       a \<leftarrow> ac_callback g cb msg a;
       handle_message g te walk actx inResp msg a
     }"

end
