(* ===== verification/AccountProps.thy ===== *)
theory AccountProps
  imports AccountView
begin

text \<open>
  What the view of an account guarantees: each directory keeps a message store of its own,
  messages reach the store they are about and no other, and the counts of the directories follow
  the messages.
\<close>

subsection \<open>The list of directories and the stores\<close>

named_theorems lister_simps

lemma li_set_store_store [lister_simps]: "li_store (li_set_store st l) = st"
  by (cases l) simp_all

lemma li_SetMsgStore_store [lister_simps]: "li_store (li_SetMsgStore dir m l) = ds_SetMessageStore dir m (li_store l)"
  by (simp add: li_SetMsgStore_def lister_simps)

lemma li_set_directory_store [lister_simps]:
  "li_store (li_set_directory n d l) = (li_store l)\<lparr>ds_dirs := (ds_dirs (li_store l))(n \<mapsto> d)\<rparr>"
  by (simp add: li_set_directory_def lister_simps)

lemma dl_Open_store: "dl_store (dl_Open n q d cb f s) = dl_store s"
  by (simp add: dl_Open_def dl_NewContext_def Let_def)

lemma buildTree_dl: "dt_dl (buildTree cf sep t) = dt_dl t"
  by (simp add: buildTree_def Let_def)

lemma reindex_dl: "dt_dl (reindex n t) = dt_dl t"
  by (simp add: reindex_def Let_def)

lemma li_Select_store [lister_simps]: "li_store (li_Select cf n l) = li_store l"
  by (cases l) (simp_all add: dl_Select_def dl_Open_store dt_Select_def dt_Open_def Let_def reindex_dl)

lemma li_SelectedMsgStore_store [lister_simps]: "li_store (fst (li_SelectedMsgStore cf sep l)) = li_store l"
  by (cases l) (simp_all add: dt_SelectedMsgStore_def Let_def reindex_dl buildTree_dl)

lemma li_SelectedMsgStore_has:
  "snd (li_SelectedMsgStore cf sep l) = Some i \<Longrightarrow> \<exists>d. li_MsgStore d l = Some i"
  by (cases l) (auto simp: dt_SelectedMsgStore_def dl_SelectedMsgStore_def li_MsgStore_def Let_def reindex_dl
      buildTree_dl split: if_splits)

lemma dt_Update_dl: "dt_dl (dt_Update cf sep walk actx msg t) = dl_Update cf walk actx msg (dt_dl t)"
  by (simp add: dt_Update_def Let_def reindex_dl buildTree_dl split: wmsg.split option.split action.split)

text \<open>The directories and stores of a list that belong together.\<close>

definition dirs_ok :: "'m dirstore \<Rightarrow> bool" where
  "dirs_ok st \<longleftrightarrow> dirstore_ok st \<and> (\<forall>d dir. ds_dirs st d = Some dir \<longrightarrow> dir_Name dir = d)"

lemma ds_Set_fields:
  "ds_dirs (ds_SetMessageStore dir m st) = (ds_dirs st)(dir_Name dir \<mapsto> dir)"
  "ds_msgStores (ds_SetMessageStore dir m st) = (ds_msgStores st)(dir_Name dir \<mapsto> m)"
  by (simp_all add: ds_SetMessageStore_def Let_def)

lemma dirs_ok_Set: "dirs_ok st \<Longrightarrow> dirs_ok (ds_SetMessageStore dir m st)"
  using SetMessageStore_ok[of st dir m] by (auto simp: dirs_ok_def ds_Set_fields)

lemma dirs_ok_Remove: "dirs_ok st \<Longrightarrow> dirs_ok (ds_Remove d st)"
  using Remove_ok[of st d] by (auto simp: dirs_ok_def ds_Remove_def split: if_splits)

lemma dirs_ok_update: "dirs_ok st \<Longrightarrow> ds_dirs st n \<noteq> None \<Longrightarrow> dir_Name d = n \<Longrightarrow> dirs_ok (st\<lparr>ds_dirs := (ds_dirs st)(n \<mapsto> d)\<rparr>)"
  by (auto simp: dirs_ok_def dirstore_ok_def)

text \<open>An update of the list removes at most a directory, with its store.\<close>

lemma dl_Update_store:
  assumes "dirs_ok (dl_store s)"
  shows "dirs_ok (dl_store (dl_Update cf walk actx msg s))
    \<and> ds_msgStores (dl_store (dl_Update cf walk actx msg s)) \<subseteq>\<^sub>m ds_msgStores (dl_store s)"
proof (cases msg)
  case (Done x)
  show ?thesis
  proof (cases x)
    case None
    then show ?thesis using assms Done by (simp add: dl_Update_def)
  next
    case (Some b)
    have "ds_msgStores (ds_Remove d st) \<subseteq>\<^sub>m ds_msgStores st" for d and st :: "'a dirstore"
      by (simp add: ds_Remove_def map_le_def)
    then show ?thesis using assms Done Some by (cases b) (simp_all add: update_store dirs_ok_Remove)
  qed
next
  case (DirectoryInfoMsg i r)
  show ?thesis
  proof (cases "dl_Directory (di_Name i) s")
    case None
    then show ?thesis using assms DirectoryInfoMsg by (simp add: dl_Update_def)
  next
    case (Some d)
    then have "ds_dirs (dl_store s) (di_Name i) = Some d" by (simp add: dl_Directory_def ds_Directory_def)
    moreover from this have "dir_Name d = di_Name i" using assms by (simp add: dirs_ok_def)
    ultimately show ?thesis using assms DirectoryInfoMsg Some
      by (auto simp: dl_Update_def dl_emit_def Let_def intro!: dirs_ok_update split: option.split)
  qed
qed (simp_all add: dl_Update_def assms)

lemma li_Update_store:
  "dirs_ok (li_store l) \<Longrightarrow> dirs_ok (li_store (li_Update cf sep walk actx msg l))
    \<and> ds_msgStores (li_store (li_Update cf sep walk actx msg l)) \<subseteq>\<^sub>m ds_msgStores (li_store l)"
  by (cases l) (simp_all add: dl_Update_store dt_Update_dl)

subsection \<open>The heap of stores\<close>

text \<open>Stores may change and be added; none disappears, is renamed or loses its invariant.\<close>

definition heap_ok :: "nat \<Rightarrow> (nat \<rightharpoonup> 'h msgstore) \<Rightarrow> bool" where
  "heap_ok n h \<longleftrightarrow> (\<forall>i s. h i = Some s \<longrightarrow> i < n \<and> list_inv s)"

definition heap_le :: "(nat \<rightharpoonup> 'h msgstore) \<Rightarrow> (nat \<rightharpoonup> 'h msgstore) \<Rightarrow> bool" where
  "heap_le h h' \<longleftrightarrow> (\<forall>i s. h i = Some s \<longrightarrow> (\<exists>s'. h' i = Some s' \<and> ms_Name s' = ms_Name s))"

lemma heap_le_refl [simp]: "heap_le h h"
  by (simp add: heap_le_def)

lemma heap_le_trans: "heap_le h h' \<Longrightarrow> heap_le h' h'' \<Longrightarrow> heap_le h h''"
  unfolding heap_le_def by metis

lemma heap_le_upd: "h i = Some s \<Longrightarrow> ms_Name t = ms_Name s \<Longrightarrow> heap_le h (h(i \<mapsto> t))"
  by (auto simp: heap_le_def)

lemma heap_ok_upd: "heap_ok n h \<Longrightarrow> h i = Some s \<Longrightarrow> list_inv t \<Longrightarrow> heap_ok n (h(i \<mapsto> t))"
  by (auto simp: heap_ok_def)

text \<open>Each directory's store is in the heap, under the directory's name.\<close>

definition stores_ok :: "'m dirstore \<Rightarrow> ('m \<rightharpoonup> 'h msgstore) \<Rightarrow> bool" where
  "stores_ok st h \<longleftrightarrow> (\<forall>d i. ds_msgStores st d = Some i \<longrightarrow> (\<exists>s. h i = Some s \<and> ms_Name s = d))"

lemma stores_ok_le: "stores_ok st h \<Longrightarrow> heap_le h h' \<Longrightarrow> stores_ok st h'"
  unfolding stores_ok_def heap_le_def by metis

lemma stores_ok_map_le: "stores_ok st h \<Longrightarrow> ds_msgStores st' \<subseteq>\<^sub>m ds_msgStores st \<Longrightarrow> stores_ok st' h"
  unfolding stores_ok_def map_le_def by (metis domI)

definition account_ok :: "('h, 'u) account \<Rightarrow> bool" where
  "account_ok a \<longleftrightarrow> heap_ok (ac_next a) (ac_stores a) \<and> dirs_ok (li_store (ac_dirlist a))
     \<and> stores_ok (li_store (ac_dirlist a)) (ac_stores a) \<and> (\<forall>i. ac_msglist a = Some i \<longrightarrow> ac_stores a i \<noteq> None)"

lemma account_ok_store:
  assumes "account_ok a" "li_MsgStore d (ac_dirlist a) = Some i"
  obtains s where "ac_stores a i = Some s" "ms_Name s = d" "list_inv s"
proof -
  from assms have "\<exists>s. ac_stores a i = Some s \<and> ms_Name s = d"
    unfolding account_ok_def stores_ok_def li_MsgStore_def ds_MessageStore_def by blast
  with assms(1) show ?thesis using that by (auto simp: account_ok_def heap_ok_def)
qed

text \<open>Steps that leave the directories alone and keep the heap.\<close>

definition quiet :: "('h, 'u) account \<Rightarrow> ('h, 'u) account \<Rightarrow> bool" where
  "quiet a b \<longleftrightarrow> li_store (ac_dirlist b) = li_store (ac_dirlist a) \<and> ac_stores b = ac_stores a
     \<and> ac_next b = ac_next a \<and> ac_msglist b = ac_msglist a"

lemma quiet_ok: "quiet a b \<Longrightarrow> account_ok b = account_ok a"
  by (simp add: quiet_def account_ok_def)

lemma quiet_trans: "quiet a b \<Longrightarrow> quiet b c \<Longrightarrow> quiet a c"
  by (simp add: quiet_def)

lemma quiet_simps [lister_simps]:
  "quiet a (ac_emit e a)" "quiet a (CheckMail_start g a)" "quiet a (checkMailOnStartup g a)"
  "quiet a (CheckMail_reply msg a)" "quiet a (on_listed g a)"
  by (simp_all add: quiet_def ac_emit_def CheckMail_start_def checkMailOnStartup_def CheckMail_reply_def on_listed_def
      Let_def lister_simps split: wmsg.split)

lemma SortCriteria_quiet: "quiet a (snd (SortCriteria srt a))"
  by (simp add: SortCriteria_def quiet_def ac_emit_def split: sum.split)

lemma newStore_ok:
  fixes a :: "('h, 'u) account"
  assumes "account_ok a" "newStore g name a = (i, b)"
  shows "account_ok b" "\<exists>s. ac_stores b i = Some s \<and> ms_Name s = name" "li_store (ac_dirlist b) = li_store (ac_dirlist a)"
    "ac_stores a i = None" "\<forall>j. j \<noteq> i \<longrightarrow> ac_stores b j = ac_stores a j"
proof -
  obtain cr a1 where sc: "SortCriteria (ag_Sort g name) a = (cr, a1)" by (cases "SortCriteria (ag_Sort g name) a")
  have q: "quiet a a1" using SortCriteria_quiet[of a "ag_Sort g name"] by (simp add: sc)
  define s0 :: "'h msgstore" where "s0 = NewMessageStore name (ag_ui g name)"
  define s where "s = (ms_Configure cr (ag_backendThreads g) s0)\<lparr>ms_marker := Some marker_New\<rparr>"
  have i: "i = ac_next a" and b: "b = a1\<lparr>ac_stores := (ac_stores a1)(i \<mapsto> s), ac_next := ac_next a1 + 1\<rparr>"
    using assms(2) q by (auto simp: newStore_def sc Let_def s_def s0_def quiet_def)
  have new: "ms_Name s0 = name" "ms_uids s0 = []" by (simp_all add: s0_def NewMessageStore_def)
  have n: "ms_Name s = name" "list_inv s"
    using plain_keeps(2)[of s0 cr "ag_backendThreads g"] by (simp_all add: s_def keeps_def list_inv_def new)
  show free: "ac_stores a i = None" using assms(1) by (cases "ac_stores a i") (auto simp: account_ok_def heap_ok_def i)
  then have le: "heap_le (ac_stores a) ((ac_stores a)(i \<mapsto> s))" by (auto simp: heap_le_def)
  from free show "account_ok b" using assms(1) q n stores_ok_le[OF _ le]
    by (auto simp: account_ok_def b quiet_def heap_ok_def i less_Suc_eq)
  show "\<exists>s. ac_stores b i = Some s \<and> ms_Name s = name" "li_store (ac_dirlist b) = li_store (ac_dirlist a)"
    "\<forall>j. j \<noteq> i \<longrightarrow> ac_stores b j = ac_stores a j"
    using n q by (simp_all add: b quiet_def)
qed

lemma set_msg_store_ok:
  "account_ok a \<Longrightarrow> ac_stores a i = Some s \<Longrightarrow> ms_Name s = dir_Name dir \<Longrightarrow> account_ok (set_msg_store dir i a)"
  by (auto simp: account_ok_def set_msg_store_def lister_simps dirs_ok_Set stores_ok_def ds_Set_fields)

lemma msglist_SetStore_fields:
  "ac_msglist (msglist_SetStore st a) = st" "ac_stores (msglist_SetStore st a) = ac_stores a"
  "ac_dirlist (msglist_SetStore st a) = ac_dirlist a" "ac_next (msglist_SetStore st a) = ac_next a"
  by (simp_all add: msglist_SetStore_def Let_def)

lemma msglist_SetStore_ok:
  "account_ok a \<Longrightarrow> (\<forall>i. st = Some i \<longrightarrow> ac_stores a i \<noteq> None) \<Longrightarrow> account_ok (msglist_SetStore st a)"
  by (simp add: account_ok_def msglist_SetStore_fields)

lemma heap_write_ok:
  assumes "account_ok a" "ac_stores a i = Some s" "ms_Name t = ms_Name s" "list_inv t"
  shows "account_ok (a\<lparr>ac_stores := (ac_stores a)(i \<mapsto> t)\<rparr>)"
  using assms heap_le_upd[where h = "ac_stores a", OF assms(2,3)]
    heap_ok_upd[where h = "ac_stores a", OF _ assms(2,4)] stores_ok_le
  by (auto simp: account_ok_def)

lemma ac_store_Update_ok:
  assumes "ac_store_Update te i m a = Some b" "account_ok a"
  shows "account_ok b"
proof -
  from assms(1) obtain s t where s: "ac_stores a i = Some s" "ms_Update te m s = Some t"
    "b = a\<lparr>ac_stores := (ac_stores a)(i \<mapsto> t)\<rparr>" by (auto simp: ac_store_Update_def split: option.splits)
  have "list_inv s" using assms(2) s(1) by (auto simp: account_ok_def heap_ok_def)
  then show ?thesis unfolding s(3)
    by (intro heap_write_ok[OF assms(2) s(1)] ms_Update_name[OF s(2)] ms_Update_inv[OF s(2)])
qed

lemma ac_run_outs_ok:
  "account_ok a \<Longrightarrow> account_ok (ac_run_outs es a) \<and> ac_dirlist (ac_run_outs es a) = ac_dirlist a"
proof (induction es a rule: ac_run_outs.induct)
  case (2 i es a)
  show ?case
  proof (cases "ac_stores a i")
    case None
    with 2 show ?thesis by simp
  next
    case (Some s)
    have "keeps s (fst (ms_Sort (ms_sortCriteria s) s))" by (rule plain_keeps)
    moreover have "list_inv s" using "2.prems" Some by (auto simp: account_ok_def heap_ok_def)
    ultimately have "account_ok (a\<lparr>ac_stores := (ac_stores a)(i \<mapsto> fst (ms_Sort (ms_sortCriteria s) s))\<rparr>)"
      using "2.prems" Some by (intro heap_write_ok) (auto simp: keeps_def list_inv_def)
    with 2(2)[OF Some] Some show ?thesis by simp
  qed
qed simp_all

lemma ac_dirlist_Update_ok: "account_ok a \<Longrightarrow> account_ok (ac_dirlist_Update g walk actx msg a)"
  unfolding ac_dirlist_Update_def Let_def
  using li_Update_store[of "ac_dirlist a" "ag_dirs g" "ag_sep g" walk actx msg] stores_ok_map_le
  by (intro ac_run_outs_ok[THEN conjunct1]) (auto simp: account_ok_def)

lemma li_set_directory_ok:
  assumes "account_ok a" "li_Directory n (ac_dirlist a) \<noteq> None" "dir_Name d = n"
  shows "account_ok (a\<lparr>ac_dirlist := li_set_directory n d (ac_dirlist a)\<rparr>)"
  using assms dirs_ok_update[of "li_store (ac_dirlist a)" n d]
  by (auto simp: account_ok_def lister_simps li_Directory_def ds_Directory_def stores_ok_def)

lemma li_Directory_name: "account_ok a \<Longrightarrow> li_Directory n (ac_dirlist a) = Some d \<Longrightarrow> dir_Name d = n"
  by (simp add: account_ok_def dirs_ok_def li_Directory_def ds_Directory_def)

lemma counted_dir_fields:
  "dir_Name (counted_dir n del (r, u, acc) d) = dir_Name d"
  "dir_Exists (counted_dir n del (r, u, acc) d) = max 0 (dir_Exists d + (if del then - n else n))"
  "dir_Recent (counted_dir n del (r, u, acc) d) = max 0 (dir_Recent d + (if acc then r else 0))"
  "dir_Unseen (counted_dir n del (r, u, acc) d) = max 0 (dir_Unseen d + (if acc then u else 0))"
  by (simp_all add: counted_dir_def ensurePositive_def Let_def max_def)

lemma updateDirCounts_ok:
  assumes "account_ok a"
  shows "account_ok (updateDirCounts d us del a)"
proof (cases "li_Directory d (ac_dirlist a)")
  case (Some dir)
  define c where "c = (case Option.bind (ac_msglist a) (ac_stores a) of
      None \<Rightarrow> (0, 0, False) | Some s \<Rightarrow> count_loop (ms_Messages s) del us 0 0)"
  have "updateDirCounts d us del a
      = a\<lparr>ac_dirlist := li_set_directory d (counted_dir (int (length us)) del c dir) (ac_dirlist a)\<rparr>"
    by (simp add: updateDirCounts_def Some c_def)
  moreover have "dir_Name (counted_dir (int (length us)) del c dir) = d"
    using li_Directory_name[OF assms Some] by (cases c) (simp add: counted_dir_fields)
  ultimately show ?thesis using li_set_directory_ok[OF assms] Some by simp
qed (simp add: updateDirCounts_def assms)

lemma correct_unseen_ok: "account_ok a \<Longrightarrow> account_ok (correct_unseen info st a)"
  using li_set_directory_ok[of a "mi_Directory info"] li_Directory_name[of a "mi_Directory info"]
  by (auto simp: correct_unseen_def Let_def split: option.split)

lemma ac_SelectedMsgStore_ok:
  assumes "account_ok a" "ac_SelectedMsgStore g a = (b, st)"
  shows "account_ok b \<and> (\<forall>i. st = Some i \<longrightarrow> ac_stores b i \<noteq> None)"
proof -
  have b: "b = a\<lparr>ac_dirlist := fst (li_SelectedMsgStore (ag_dirs g) (ag_sep g) (ac_dirlist a))\<rparr>"
    and st: "st = snd (li_SelectedMsgStore (ag_dirs g) (ag_sep g) (ac_dirlist a))"
    using assms(2) by (auto simp: ac_SelectedMsgStore_def split: prod.splits)
  have "quiet a b" by (simp add: b quiet_def lister_simps)
  moreover have "ac_stores a i \<noteq> None" if e: "st = Some i" for i
  proof -
    obtain d where "li_MsgStore d (ac_dirlist a) = Some i"
      using li_SelectedMsgStore_has[of "ag_dirs g" "ag_sep g" "ac_dirlist a" i] e by (auto simp: st)
    with account_ok_store[OF assms(1)] show ?thesis by fastforce
  qed
  ultimately show ?thesis using assms(1) quiet_ok by (auto simp: quiet_def)
qed

lemma on_opened_ok:
  assumes "on_opened g te a = Some b" "account_ok a"
  shows "account_ok b"
proof -
  obtain a1 st where s: "ac_SelectedMsgStore g a = (a1, st)" by (cases "ac_SelectedMsgStore g a")
  from ac_SelectedMsgStore_ok[OF assms(2) s] have ok: "account_ok (msglist_SetStore st a1)"
    by (intro msglist_SetStore_ok) simp_all
  show ?thesis
  proof (cases st)
    case None
    then show ?thesis using assms(1) ok by (simp add: on_opened_def s)
  next
    case (Some i)
    then have "ac_store_Update te i store_msg.OpenDirectory (msglist_SetStore st a1) = Some b"
      using assms(1) by (simp add: on_opened_def s Let_def msglist_SetStore_fields)
    then show ?thesis by (rule ac_store_Update_ok) (rule ok)
  qed
qed

lemma on_directory_ok: "account_ok a \<Longrightarrow> account_ok (on_directory g dir a)"
proof (cases "li_MsgStore (dir_Name dir) (ac_dirlist a)")
  case None
  assume "account_ok a"
  obtain i b where n: "newStore g (dir_Name dir) a = (i, b)" by (cases "newStore g (dir_Name dir) a")
  from newStore_ok[OF \<open>account_ok a\<close> n] show ?thesis
    by (auto simp: on_directory_def None n intro: set_msg_store_ok)
next
  case (Some i)
  assume "account_ok a"
  from account_ok_store[OF this Some] \<open>account_ok a\<close> show ?thesis
    by (auto simp: on_directory_def Some intro: set_msg_store_ok)
qed

lemma ClearList_ok:
  assumes "account_ok a"
  shows "account_ok (a\<lparr>ac_dirlist := li_ClearList (ac_dirlist a)\<rparr>)"
proof -
  have "dirs_ok (NewDirStore :: nat dirstore)" "stores_ok (NewDirStore :: nat dirstore) h" for h
    using NewDirStore_ok[where ?'a = nat] by (simp_all add: dirs_ok_def stores_ok_def) (simp_all add: NewDirStore_def)
  moreover have "li_store (li_ClearList (ac_dirlist a)) \<in> {li_store (ac_dirlist a), NewDirStore}"
    by (cases "ac_dirlist a") (simp_all add: dl_ClearList_def dt_ClearList_def)
  ultimately show ?thesis using assms by (auto simp: account_ok_def)
qed

lemma account_ok_fields [lister_simps]:
  "account_ok (a\<lparr>ac_retries := n\<rparr>) = account_ok a" "account_ok (a\<lparr>ac_connected := b\<rparr>) = account_ok a"
  "account_ok (a\<lparr>ac_labels := ls\<rparr>) = account_ok a" "account_ok (ac_emit e a) = account_ok a"
  by (simp_all add: account_ok_def ac_emit_def)

lemma on_done_ok:
  assumes "on_done g te walk actx resp a = Some b" "account_ok a"
  shows "account_ok b"
proof (cases resp)
  case (CreateDirectory d q)
  obtain i c where n: "newStore g d a = (i, c)" by (cases "newStore g d a")
  from newStore_ok[OF assms(2) n] show ?thesis using assms(1) CreateDirectory
    by (auto simp: on_done_def n Let_def intro!: ac_dirlist_Update_ok set_msg_store_ok)
next
  case (OpenDirectory d q f)
  then show ?thesis using assms by (auto simp: on_done_def Let_def ac_dirlist_Update_ok dest!: on_opened_ok)
next
  case Disconnect
  then show ?thesis using assms ClearList_ok
    by (auto simp: on_done_def Let_def lister_simps intro!: msglist_SetStore_ok)
next
  case (FetchMessageHeaders d us)
  have "account_ok (checkMailOnStartup g a)" using assms(2) by (simp add: quiet_ok[OF quiet_simps(3)])
  then show ?thesis using assms FetchMessageHeaders by (auto simp: on_done_def split: if_splits)
next
  case ListDirectories
  then show ?thesis using assms by (auto simp: on_done_def Let_def ac_dirlist_Update_ok quiet_ok[OF quiet_simps(5)])
next
  case (RemoveDirectory d q)
  then show ?thesis using assms by (auto simp: on_done_def Let_def ac_dirlist_Update_ok)
qed (use assms in \<open>auto simp: on_done_def lister_simps\<close>)

lemma on_contents_ok: "on_contents g te d m none a = Some b \<Longrightarrow> account_ok a \<Longrightarrow> account_ok b"
  using quiet_ok[OF quiet_simps(3)]
  by (auto simp: on_contents_def bind_eq_Some_conv split: option.splits if_splits dest: ac_store_Update_ok)

lemma handle_message_ok:
  assumes "handle_message g te walk actx inResp msg a = Some b" "account_ok a"
  shows "account_ok b"
proof (cases msg)
  case (Done x)
  then show ?thesis using assms on_done_ok by (auto simp: handle_message_def split: option.splits)
next
  case (FullMessage r)
  then show ?thesis using assms
    by (auto simp: handle_message_def split: prod.splits option.splits dest: ac_SelectedMsgStore_ok ac_store_Update_ok)
next
  case (MessageInfoMsg info nf rf)
  then show ?thesis using assms correct_unseen_ok
    by (auto simp: handle_message_def on_info_def split: option.splits if_splits dest: ac_store_Update_ok)
next
  case (MessagesDeleted d fl us)
  then show ?thesis using assms updateDirCounts_ok
    by (auto simp: handle_message_def to_store_def Let_def split: option.splits dest: ac_store_Update_ok)
next
  case (DirectoryContents d fl us)
  then show ?thesis using assms by (auto simp: handle_message_def dest: on_contents_ok)
next
  case (DirectoryThreaded d fl ths)
  then show ?thesis using assms by (auto simp: handle_message_def dest: on_contents_ok)
next
  case (ConnError e)
  then show ?thesis using assms
    by (auto simp: handle_message_def on_conn_error_def Let_def lister_simps intro!: msglist_SetStore_ok)
qed (use assms in \<open>auto simp: handle_message_def lister_simps on_directory_ok updateDirCounts_ok ac_dirlist_Update_ok\<close>)

text \<open>A callback of a store is a step of that store; the others leave the stores alone.\<close>

lemma store_callback_step:
  assumes "callback_store cb = Some i" "store_callback cb msg s = Some t"
  shows "t = s \<or> store_step te s t"
proof (cases "reply_of msg")
  case None
  then show ?thesis
    using assms by (cases cb) (auto simp: on_reply_def intro: store_step.intros split: wmsg.splits)
next
  case (Some r)
  then show ?thesis
    using assms by (cases cb) (auto simp: on_reply_def intro: store_step.intros split: wmsg.splits)
qed

lemma open_reply_store: "dl_store (fst (dl_open_reply cb msg s)) = dl_store s"
  by (cases msg) (simp_all add: dl_open_reply_def)

lemma li_open_reply_store [lister_simps]: "li_store (li_open_reply cf sep n ag msg l) = li_store l"
proof (cases l)
  case (TreeList t)
  then show ?thesis
    by (cases msg) (simp_all add: dt_open_callback_def open_reply_store reindex_dl buildTree_dl Let_def)
qed (simp add: open_reply_store)

lemma ac_callback_effect:
  assumes "ac_callback g cb msg a = Some b"
  shows "(case callback_store cb of None \<Rightarrow> quiet a b
    | Some i \<Rightarrow> \<exists>s t. ac_stores a i = Some s \<and> store_callback cb msg s = Some t
        \<and> b = a\<lparr>ac_stores := (ac_stores a)(i \<mapsto> t)\<rparr>)"
proof (cases "callback_store cb")
  case None
  have "quiet a (a\<lparr>ac_dirlist := li_open_reply cf sep n ag msg (ac_dirlist a)\<rparr>)" for cf sep n ag
    by (simp add: quiet_def lister_simps)
  then show ?thesis using assms None quiet_simps(4)[of a msg]
    by (cases cb) (auto simp: ac_callback_def quiet_def)
next
  case (Some i)
  then show ?thesis using assms by (auto simp: ac_callback_def split: option.splits)
qed

lemma ac_callback_ok:
  assumes "ac_callback g cb msg a = Some b" "account_ok a"
  shows "account_ok b"
proof (cases "callback_store cb")
  case None
  then show ?thesis using ac_callback_effect[OF assms(1)] assms(2) quiet_ok by auto
next
  case (Some i)
  then obtain s t where s: "ac_stores a i = Some s" "store_callback cb msg s = Some t"
    "b = a\<lparr>ac_stores := (ac_stores a)(i \<mapsto> t)\<rparr>" using ac_callback_effect[OF assms(1)] by auto
  have "list_inv s" using assms(2) s(1) by (auto simp: account_ok_def heap_ok_def)
  moreover have "t = s \<or> store_step undefined s t" by (rule store_callback_step[OF Some s(2)])
  ultimately show ?thesis unfolding s(3)
    by (intro heap_write_ok[OF assms(2) s(1)]) (auto dest: store_step_name store_step_inv)
qed

lemma onMessage_ok: "onMessage g te walk actx cb inResp msg a = Some b \<Longrightarrow> account_ok a \<Longrightarrow> account_ok b"
  by (auto simp: onMessage_def bind_eq_Some_conv intro: handle_message_ok ac_callback_ok)

subsection \<open>What can happen to an account\<close>

text \<open>
  Messages of the worker with the callbacks of the actions they answer, the mail check and its replies,
  changes of any store (by its timers, its replies and the user's commands) and every operation of the list of directories that leaves the
  directories themselves alone: selecting, moving, folding, drawing.
\<close>

inductive account_step :: "account_config \<Rightarrow> 'h thread_env \<Rightarrow> ('h, 'u) account \<Rightarrow> ('h, 'u) account \<Rightarrow> bool"
  for g :: account_config and te :: "'h thread_env" where
  Acct_message: "onMessage g te walk actx cb inResp (msg :: ('h, unit, unit) wmsg) a = Some b \<Longrightarrow> account_step g te a b"
| Acct_check: "account_step g te a (CheckMail_start g a)"
| Acct_reply: "account_step g te a (CheckMail_reply (msg :: ('h, unit, unit) wmsg) a)"
| Acct_store: "ac_stores a i = Some s \<Longrightarrow> store_step te s t \<Longrightarrow> account_step g te a (a\<lparr>ac_stores := (ac_stores a)(i \<mapsto> t)\<rparr>)"
| Acct_list: "li_store l = li_store (ac_dirlist a) \<Longrightarrow> account_step g te a (a\<lparr>ac_dirlist := l\<rparr>)"
| Acct_show: "st = None \<or> st = snd (ac_SelectedMsgStore g a) \<Longrightarrow> account_step g te a (msglist_SetStore st a)"

inductive account_reachable :: "account_config \<Rightarrow> 'h thread_env \<Rightarrow> ('h, 'u) account \<Rightarrow> bool"
  for g :: account_config and te :: "'h thread_env" where
  Acct_New: "li_store l = NewDirStore \<Longrightarrow> account_reachable g te (NewAccountView l)"
| Acct_step: "account_reachable g te a \<Longrightarrow> account_step g te a b \<Longrightarrow> account_reachable g te b"

lemma account_step_ok: "account_step g te a b \<Longrightarrow> account_ok a \<Longrightarrow> account_ok b"
proof (induction rule: account_step.induct)
  case (Acct_message walk actx cb inResp msg a b)
  then show ?case by (rule onMessage_ok)
next
  case (Acct_store a i s t)
  then have "list_inv s" by (auto simp: account_ok_def heap_ok_def)
  then show ?case using Acct_store store_step_name store_step_inv by (blast intro: heap_write_ok)
next
  case (Acct_list l a)
  then show ?case by (simp add: account_ok_def)
next
  case (Acct_show st a)
  obtain b st' where s: "ac_SelectedMsgStore g a = (b, st')" by (cases "ac_SelectedMsgStore g a")
  have "ac_stores b = ac_stores a" using s by (auto simp: ac_SelectedMsgStore_def split: prod.splits)
  with ac_SelectedMsgStore_ok[OF Acct_show(2) s] Acct_show(1) show ?case
    by (intro msglist_SetStore_ok Acct_show(2)) (auto simp: s)
qed (simp_all only: quiet_ok[OF quiet_simps(2)] quiet_ok[OF quiet_simps(4)])

lemma reachable_ok: "account_reachable g te a \<Longrightarrow> account_ok a"
proof (induction rule: account_reachable.induct)
  case (Acct_New l)
  then show ?case using NewDirStore_ok[where ?'a = nat]
    by (auto simp: account_ok_def NewAccountView_def heap_ok_def dirs_ok_def stores_ok_def NewDirStore_def)
next
  case (Acct_step a b)
  then show ?case by (blast intro: account_step_ok)
qed

subsection \<open>Properties\<close>

text \<open>
  C33. In every state of an account, each directory of the list has a message store in memory, which
  bears the directory's name and knows every message it lists; so no two directories share one.
  The message list shows a store in memory or none, and the counts kept under a name are those of
  the directory of that name.
\<close>

theorem directories_have_stores:
  assumes "account_reachable g te a"
  shows "(\<forall>d i. li_MsgStore d (ac_dirlist a) = Some i \<longrightarrow>
            (\<exists>s. ac_stores a i = Some s \<and> ms_Name s = d \<and> set (ms_uids s) \<subseteq> dom (ms_Messages s)))
    \<and> (\<forall>d d' i. li_MsgStore d (ac_dirlist a) = Some i \<and> li_MsgStore d' (ac_dirlist a) = Some i \<longrightarrow> d = d')
    \<and> (\<forall>d. li_Directory d (ac_dirlist a) = None \<longleftrightarrow> li_MsgStore d (ac_dirlist a) = None)
    \<and> (\<forall>d dir. li_Directory d (ac_dirlist a) = Some dir \<longrightarrow> dir_Name dir = d)
    \<and> (\<forall>i. ac_msglist a = Some i \<longrightarrow> ac_stores a i \<noteq> None)"
proof -
  have ok: "account_ok a" using assms by (rule reachable_ok)
  then have "dom (ds_msgStores (li_store (ac_dirlist a))) = dom (ds_dirs (li_store (ac_dirlist a)))"
    by (simp add: account_ok_def dirs_ok_def dirstore_ok_def)
  then have "\<forall>d. li_Directory d (ac_dirlist a) = None \<longleftrightarrow> li_MsgStore d (ac_dirlist a) = None"
    unfolding li_Directory_def li_MsgStore_def ds_Directory_def ds_MessageStore_def by (metis domIff)
  moreover have "\<forall>d i. li_MsgStore d (ac_dirlist a) = Some i \<longrightarrow>
      (\<exists>s. ac_stores a i = Some s \<and> ms_Name s = d \<and> set (ms_uids s) \<subseteq> dom (ms_Messages s))"
    using account_ok_store[OF ok] unfolding list_inv_def by metis
  moreover from this have "\<forall>d d' i. li_MsgStore d (ac_dirlist a) = Some i \<and> li_MsgStore d' (ac_dirlist a) = Some i \<longrightarrow> d = d'"
    by (metis option.inject)
  moreover have "\<forall>i. ac_msglist a = Some i \<longrightarrow> ac_stores a i \<noteq> None" using ok by (simp add: account_ok_def)
  ultimately show ?thesis using li_Directory_name[OF ok] by (intro conjI) blast+
qed



text \<open>What comes before the store's own handler changes at most the counts of the directory.\<close>

definition routed :: "string \<Rightarrow> ('h, 'u) account \<Rightarrow> ('h, 'u) account \<Rightarrow> bool" where
  "routed d a b \<longleftrightarrow> ac_stores b = ac_stores a \<and> ac_msglist b = ac_msglist a
     \<and> (\<forall>e. li_MsgStore e (ac_dirlist b) = li_MsgStore e (ac_dirlist a)
           \<and> (e \<noteq> d \<longrightarrow> li_Directory e (ac_dirlist b) = li_Directory e (ac_dirlist a)))"





lemma routed_quiet: "quiet b c \<Longrightarrow> routed d a b \<Longrightarrow> routed d a c"
  by (simp add: routed_def quiet_def li_MsgStore_def li_Directory_def)











subsection \<open>Counts\<close>

definition recent_among :: "(uid \<rightharpoonup> 'h message_info option) \<Rightarrow> uid list \<Rightarrow> int" where
  "recent_among msgs us =
     int (length (filter (\<lambda>u. case msgs u of Some (Some m) \<Rightarrow> flags_Has (mi_Flags m) RecentFlag | _ \<Rightarrow> False) us))"

definition unseen_among :: "(uid \<rightharpoonup> 'h message_info option) \<Rightarrow> uid list \<Rightarrow> int" where
  "unseen_among msgs us =
     int (length (filter (\<lambda>u. case msgs u of Some (Some m) \<Rightarrow> \<not> flags_Has (mi_Flags m) SeenFlag | _ \<Rightarrow> False) us))"

lemma count_loop_spec:
  "count_loop msgs del us r u = (r', u', acc) \<Longrightarrow>
     acc = (\<forall>x \<in> set us. msgs x \<noteq> Some None)
     \<and> (acc \<longrightarrow> r' = r + recent_among msgs us \<and> u' = u + (if del then - unseen_among msgs us else unseen_among msgs us))"
proof (induction msgs del us r u rule: count_loop.induct)
  case (1 msgs del r u)
  then show ?case by (auto simp: recent_among_def unseen_among_def)
next
  case (2 msgs del x us r u)
  show ?case
  proof (cases "msgs x")
    case None
    with 2 show ?thesis by (simp add: recent_among_def unseen_among_def)
  next
    case (Some o')
    show ?thesis
    proof (cases o')
      case None
      then show ?thesis using 2(3) Some by simp
    next
      case m: (Some m)
      from 2(2)[OF Some m refl refl refl] 2(3) Some m show ?thesis
        by (auto simp: recent_among_def unseen_among_def Let_def)
    qed
  qed
qed

text \<open>
  C34. The counts after messages were copied to or deleted from a directory: the number of messages
  changes by the number of UIDs and the unseen ones by those of them that the store on the screen
  knows as unseen, unless one of them is still to be loaded; no count becomes negative and no
  other directory changes.  The recent ones are added, also when they are deleted.
\<close>

theorem counts_follow_messages:
  assumes "li_Directory d (ac_dirlist a) = Some dir" "ac_msglist a = Some i" "ac_stores a i = Some s"
    and "\<forall>u \<in> set us. ms_Messages s u \<noteq> Some None"
    and "0 \<le> dir_Exists dir" "0 \<le> dir_Unseen dir" "0 \<le> dir_Recent dir"
  shows "\<exists>dir'. li_Directory d (ac_dirlist (updateDirCounts d us deleted a)) = Some dir'
    \<and> dir_Exists dir' = (if deleted then max 0 (dir_Exists dir - int (length us)) else dir_Exists dir + int (length us))
    \<and> dir_Unseen dir' = (if deleted then max 0 (dir_Unseen dir - unseen_among (ms_Messages s) us)
                         else dir_Unseen dir + unseen_among (ms_Messages s) us)
    \<and> dir_Recent dir' = dir_Recent dir + recent_among (ms_Messages s) us
    \<and> (\<forall>e. e \<noteq> d \<longrightarrow> li_Directory e (ac_dirlist (updateDirCounts d us deleted a)) = li_Directory e (ac_dirlist a))"
proof -
  obtain r u acc where c: "count_loop (ms_Messages s) deleted us 0 0 = (r, u, acc)" by (metis prod_cases3)
  have acc: "acc" and r: "r = recent_among (ms_Messages s) us"
    and u: "u = (if deleted then - unseen_among (ms_Messages s) us else unseen_among (ms_Messages s) us)"
    using count_loop_spec[OF c] assms(4) by auto
  let ?d = "counted_dir (int (length us)) deleted (r, u, acc) dir"
  have up: "updateDirCounts d us deleted a = a\<lparr>ac_dirlist := li_set_directory d ?d (ac_dirlist a)\<rparr>"
    by (simp add: updateDirCounts_def assms(1-3) c)
  have n: "0 \<le> recent_among (ms_Messages s) us" "0 \<le> unseen_among (ms_Messages s) us"
    by (simp_all add: recent_among_def unseen_among_def)
  have "dir_Recent ?d = dir_Recent dir + recent_among (ms_Messages s) us"
    using n assms(7) by (simp add: counted_dir_fields acc r)
  moreover have "dir_Unseen ?d = (if deleted then max 0 (dir_Unseen dir - unseen_among (ms_Messages s) us)
      else dir_Unseen dir + unseen_among (ms_Messages s) us)"
    using n assms(6) by (simp add: counted_dir_fields acc u)
  moreover have "dir_Exists ?d = (if deleted then max 0 (dir_Exists dir - int (length us)) else dir_Exists dir + int (length us))"
    using assms(5) by (simp add: counted_dir_fields)
  ultimately show ?thesis by (auto simp: up li_Directory_def ds_Directory_def lister_simps)
qed

subsection \<open>Connecting again\<close>

lemma backoff_small: "r < 40 \<Longrightarrow> 9 ^ r div 5 ^ r < (9223372036 :: int)"
proof -
  have "\<forall>r \<in> set [0..<40]. 9 ^ r div 5 ^ r < (9223372036 :: int)" by (simp add: upt_rec)
  then show "r < 40 \<Longrightarrow> ?thesis" by (metis atLeastLessThan_iff set_upt zero_le)
qed

lemma sint_64_small: "0 \<le> x \<Longrightarrow> x < 2 ^ 63 \<Longrightarrow> sint (word_of_int x :: 64 word) = x"
  by (simp add: sint_sbintrunc' signed_take_bit_int_eq_self)

text \<open>
  C35. The wait before connecting again is that of the comment, 1.8 to the number of failed
  attempts in seconds, at most the configured time, for the first 39 of them.  At the next one the
  product overflows: the wait is negative, so the timer fires at once and so do the following ones.
\<close>

theorem reconnect_backoff:
  assumes "0 \<le> maxWait"
  shows "(\<forall>n < 40. reconnect_wait maxWait n = (if n = 0 then 0 else min maxWait (9 ^ n div 5 ^ n * 1000000000)))
    \<and> reconnect_wait maxWait 40 < 0 \<and> reconnect_wait maxWait 41 < 0"
proof (intro conjI allI impI)
  fix n :: nat
  assume n: "n < 40"
  let ?b = "9 ^ n div 5 ^ n :: int"
  have b: "0 \<le> ?b" "?b < 9223372036" using backoff_small[OF n] by (simp_all add: pos_imp_zdiv_nonneg_iff)
  then have "\<not> ?b \<ge> 2 ^ 63" "?b * 1000000000 < 2 ^ 63" by simp_all
  moreover from b(1) have "0 \<le> ?b * 1000000000" by simp
  ultimately have "sint (word_of_int (?b * 1000000000) :: 64 word) = ?b * 1000000000" by (intro sint_64_small)
  with \<open>\<not> ?b \<ge> 2 ^ 63\<close> show "reconnect_wait maxWait n = (if n = 0 then 0 else min maxWait (?b * 1000000000))"
    by (simp only: reconnect_wait_def Let_def if_False min_def not_le split: if_split) auto
next
  show "reconnect_wait maxWait 40 < 0" "reconnect_wait maxWait 41 < 0"
    using assms by (simp_all add: reconnect_wait_def Let_def)
qed

lemma reconnect_backoff_witness: "reconnect_wait 60000000000 2 = 3000000000"
  using reconnect_backoff[of 60000000000] by simp

subsection \<open>A sample account\<close>

definition sample_dir :: "string \<Rightarrow> directory" where
  "sample_dir n = \<lparr>dir_Name = n, dir_Uid = [], dir_Exists = 5, dir_Recent = 0, dir_Unseen = 2, dir_Role = []\<rparr>"

definition sample_conf :: account_config where
  "sample_conf = \<lparr>ag_Default = ''A'', ag_CheckMail = 60, ag_CheckMailInclude = [], ag_CheckMailExclude = [],
     ag_ReconnectMaxWait = 60000000000, ag_dirs = no_folder_config, ag_sep = CHR ''/'', ag_ui = (\<lambda>_. sample_ui),
     ag_Sort = (\<lambda>_. []), ag_backendThreads = False\<rparr>"

definition sample_account :: "(unit, unit) account" where
  "sample_account = on_directory sample_conf (sample_dir ''B'')
     (on_directory sample_conf (sample_dir ''A'') (NewAccountView (FlatList NewDirectoryList)))"

lemma sample_reachable: "account_reachable sample_conf sample_env sample_account"
proof -
  have m: "onMessage sample_conf sample_env [] 0 No_callback False (DirectoryMsg d :: (unit, unit, unit) wmsg) a
      = Some (on_directory sample_conf d a)" for d and a :: "(unit, unit) account"
    by (simp add: onMessage_def ac_callback_def handle_message_def)
  have "account_reachable sample_conf sample_env (NewAccountView (FlatList NewDirectoryList) :: (unit, unit) account)"
    by (rule Acct_New) (simp add: NewDirectoryList_def dl_NewContext_def)
  from Acct_step[OF Acct_step[OF this Acct_message[OF m]] Acct_message[OF m]] show ?thesis
    by (simp add: sample_account_def)
qed

lemma sample_stores:
  "li_MsgStore ''A'' (ac_dirlist sample_account) = Some 0" "li_MsgStore ''B'' (ac_dirlist sample_account) = Some 1"
  "li_Directory ''B'' (ac_dirlist sample_account) = Some (sample_dir ''B'')"
  by (simp_all add: sample_account_def on_directory_def newStore_def SortCriteria_def sample_conf_def NewAccountView_def
      NewDirectoryList_def dl_NewContext_def NewDirStore_def li_MsgStore_def ds_MessageStore_def sample_dir_def
      set_msg_store_def li_SetMsgStore_def ds_Set_fields li_Directory_def ds_Directory_def)


lemma directories_have_stores_witness:
  "\<exists>s. ac_stores sample_account 1 = Some s \<and> ms_Name s = ''B''"
  using directories_have_stores[OF sample_reachable] sample_stores(2) by blast


text \<open>A is on the screen, with a recent and unseen message \<open>7\<close>.\<close>

definition sample_info :: "unit message_info" where
  "sample_info = \<lparr>mi_BodyStructure = None, mi_Envelope = None, mi_Flags = RecentFlag, mi_Directory = ''A'', mi_Labels = [],
     mi_Filenames = [], mi_InternalDate = 0, mi_RFC822Headers = None, mi_Refs = None, mi_Size = 0, mi_Uid = ''7'',
     mi_Index = None, mi_Error = None\<rparr>"

definition displayed_account :: "(unit, unit) account" where
  "displayed_account = sample_account\<lparr>ac_msglist := Some 0,
     ac_stores := [0 \<mapsto> (sample_store [''7''] ''7'')\<lparr>ms_Messages := [''7'' \<mapsto> Some sample_info]\<rparr>]\<rparr>"

text \<open>
  The messages that are counted are those of the store on the screen: deleting the message \<open>7\<close> of B
  takes one off B's unseen count because of the message of that UID in A, and adds a recent one.
\<close>

lemma counts_follow_messages_witness:
  "\<exists>dir. li_Directory ''B'' (ac_dirlist (updateDirCounts ''B'' [''7''] True displayed_account)) = Some dir
    \<and> dir_Exists dir = 4 \<and> dir_Unseen dir = 1 \<and> dir_Recent dir = 1"
proof -
  have "recent_among [''7'' \<mapsto> Some sample_info] [''7''] = 1" "unseen_among [''7'' \<mapsto> Some sample_info] [''7''] = 1"
    by (simp_all add: recent_among_def unseen_among_def sample_info_def flags_Has_def flag_defs)
  then show ?thesis
    using counts_follow_messages[of "''B''" displayed_account "sample_dir ''B''" 0
        "(sample_store [''7''] ''7'')\<lparr>ms_Messages := [''7'' \<mapsto> Some sample_info]\<rparr>" "[''7'']" True]
    by (auto simp: displayed_account_def sample_stores sample_dir_def)
qed

subsection \<open>Checks for new mail\<close>

text \<open>
  After a reconnection a directory is still selected, so the list of directories returns before it
  marks the connection as new, and no check is made on it.
\<close>

lemma reconnection_not_new:
  "li_Selected (ag_sep g) (ac_dirlist a) \<noteq> [] \<Longrightarrow> ac_newConn (on_listed g a) = ac_newConn a"
  by (simp add: on_listed_def Let_def)

text \<open>
  A check that goes on with the remaining directories counts as over when its first part is done:
  another one may start beside it.
\<close>

lemma checks_overlap:
  "\<exists>ds'. ac_out (CheckMail_start g (CheckMail_reply (Done x) (CheckMail_reply (CheckMailDirectories ds) a)))
     = ac_out a @ [PostCheckMail ds, PostCheckMail ds']"
  by (simp add: CheckMail_reply_def CheckMail_start_def ac_emit_def Let_def)

end
