(* ===== verification/MboxWorker.thy ===== *)
theory MboxWorker
  imports Messages "HOL-Library.Monad_Syntax"
begin

text \<open>
  \<open>worker/mbox\<close>: a worker that keeps mailboxes in memory.  The containers are shared by reference
  between the table of mailboxes and the opened folder, so they live in \<open>mw_heap\<close> and are known by
  their number; the messages of a container belong to it alone and are values.  The digest of a
  message's contents, the reading of a message by the rfc822 package and the readers and writers
  (\<open>'r\<close>) are parts of \<open>mbox_env\<close>.  \<open>None\<close> is a panic (a nil pointer that is followed).
\<close>

unbundle bit_operations_syntax

subsection \<open>State\<close>

record mbox_message =
  mb_uid :: uid
  mb_flags :: flags
  mb_content :: string

record mbox_container =
  ct_filename :: string
  ct_messages :: "mbox_message list"

record mbox_worker =
  mw_heap :: "mbox_container list"
  mw_data :: "(string \<rightharpoonup> nat) option"
  mw_name :: string
  mw_folder :: "nat option"
  mw_headers :: "string list"
  mw_headersExclude :: "string list"

text \<open>
  What opening the configured source gives: an error in its URL, an error of the file system, or
  the files that could be opened, each with the messages in it or a read error.
\<close>

datatype mbox_source = BadSource string | NoFile string | MboxFiles "(string \<times> (string + string list)) list"

record ('h, 'c, 'r) mbox_env =
  me_source :: "'c \<Rightarrow> mbox_source"
  me_Headers :: "'c \<Rightarrow> string list"
  me_HeadersExclude :: "'c \<Rightarrow> string list"
  me_digest :: "string \<Rightarrow> uid"
  me_info :: "mbox_message \<Rightarrow> string + 'h message_info"
  me_part :: "string \<Rightarrow> int list \<Rightarrow> string + string"
  me_limit :: "'h \<Rightarrow> string list \<Rightarrow> bool \<Rightarrow> 'h"
  me_read :: "'r \<Rightarrow> string + string"
  me_reader :: "string \<Rightarrow> 'r"
  me_search :: "'h search_env"

datatype mbox_error = ErrUnsupported | MailboxNotFound string | UidNotFound uid | NoUids | EmptyDestination
  | OtherError string | SearchError search_error

definition NewWorker :: mbox_worker where
  "NewWorker = \<lparr>mw_heap = [], mw_data = None, mw_name = [], mw_folder = None, mw_headers = [], mw_headersExclude = []\<rparr>"

subsection \<open>Containers\<close>

definition ct_Uids :: "mbox_container \<Rightarrow> uid list" where
  "ct_Uids f = map mb_uid (ct_messages f)"

definition ct_Message :: "uid \<Rightarrow> mbox_container \<Rightarrow> mbox_message option" where
  "ct_Message uid f = find (\<lambda>m. uid = mb_uid m) (ct_messages f)"

definition ct_Delete :: "uid list \<Rightarrow> mbox_container \<Rightarrow> mbox_container \<times> uid list" where
  "ct_Delete uids f =
     (f\<lparr>ct_messages := filter (\<lambda>m. mb_uid m \<notin> set uids) (ct_messages f)\<rparr>,
      map mb_uid (filter (\<lambda>m. mb_uid m \<in> set uids) (ct_messages f)))"

definition ct_Append :: "(string \<Rightarrow> uid) \<Rightarrow> string \<Rightarrow> flags \<Rightarrow> mbox_container \<Rightarrow> mbox_container" where
  "ct_Append digest data fl f =
     f\<lparr>ct_messages := ct_messages f @ [\<lparr>mb_uid = digest data, mb_flags = fl, mb_content = data\<rparr>]\<rparr>"

definition SetFlag :: "flags \<Rightarrow> bool \<Rightarrow> mbox_message \<Rightarrow> mbox_message" where
  "SetFlag fl state m =
     (if state then m\<lparr>mb_flags := mb_flags m OR fl\<rparr> else m\<lparr>mb_flags := mb_flags m AND NOT fl\<rparr>)"

text \<open>The change of the first message with a UID (\<open>Message\<close> returns a pointer).\<close>

fun set_first :: "uid \<Rightarrow> (mbox_message \<Rightarrow> mbox_message) \<Rightarrow> mbox_message list \<Rightarrow> mbox_message list" where
  "set_first uid f [] = []"
| "set_first uid f (m # ms) = (if uid = mb_uid m then f m # ms else m # set_first uid f ms)"

subsection \<open>The table of mailboxes\<close>

definition mw_Create :: "string \<Rightarrow> (string \<rightharpoonup> nat) \<Rightarrow> mbox_worker \<Rightarrow> mbox_worker \<times> nat" where
  "mw_Create file t w =
     (w\<lparr>mw_heap := mw_heap w @ [\<lparr>ct_filename = file, ct_messages = []\<rparr>],
        mw_data := Some (t(file \<mapsto> length (mw_heap w)))\<rparr>, length (mw_heap w))"

definition mw_DirectoryInfo :: "string \<Rightarrow> (string \<rightharpoonup> nat) \<Rightarrow> mbox_worker \<Rightarrow> directory_info" where
  "mw_DirectoryInfo file t w =
     \<lparr>di_Name = file, di_Uid = [],
      di_Exists = (case t file of None \<Rightarrow> 0 | Some i \<Rightarrow> int (length (ct_Uids (mw_heap w ! i)))),
      di_Recent = 0, di_Unseen = 0\<rparr>"

definition with_container :: "nat \<Rightarrow> mbox_container \<Rightarrow> mbox_worker \<Rightarrow> mbox_worker" where
  "with_container i c w = w\<lparr>mw_heap := (mw_heap w)[i := c]\<rparr>"

text \<open>
  The loop of \<open>Copy\<close> runs over the UIDs the source had at its start; the message and the
  destination are looked up as they are then.
\<close>

fun copy_loop :: "(string \<Rightarrow> uid) \<Rightarrow> nat \<Rightarrow> nat \<Rightarrow> uid list \<Rightarrow> uid list \<Rightarrow> mbox_worker \<Rightarrow> mbox_error option \<times> mbox_worker" where
  "copy_loop digest dest src uids [] w = (None, w)"
| "copy_loop digest dest src uids (u # us) w =
     (if u \<in> set uids
      then (case ct_Message u (mw_heap w ! src) of
              None \<Rightarrow> (Some (UidNotFound u), w)
            | Some m \<Rightarrow>
                copy_loop digest dest src uids us
                  (with_container dest (ct_Append digest (mb_content m) (mb_flags m) (mw_heap w ! dest)) w))
      else copy_loop digest dest src uids us w)"

definition mw_Copy ::
  "(string \<Rightarrow> uid) \<Rightarrow> string \<Rightarrow> string \<Rightarrow> uid list \<Rightarrow> (string \<rightharpoonup> nat) \<Rightarrow> mbox_worker \<Rightarrow> mbox_error option \<times> mbox_worker" where
  "mw_Copy digest dest src uids t w =
     (case t src of
        None \<Rightarrow> (Some (MailboxNotFound src), w)
      | Some s \<Rightarrow>
          (case t dest of
             None \<Rightarrow> (Some (MailboxNotFound dest), w)
           | Some d \<Rightarrow> copy_loop digest d s uids (ct_Uids (mw_heap w ! s)) w))"

subsection \<open>Reading messages\<close>

definition raw_of :: "('h, 'c, 'r) mbox_env \<Rightarrow> mbox_message \<Rightarrow> 'h raw_message" where
  "raw_of env m = \<lparr>rm_UID = mb_uid m, rm_Flags = Inr (mb_flags m), rm_Info = map_sum ReadFailed id (me_info env m),
     rm_Part = (\<lambda>p. map_sum ReadFailed id (me_part env (mb_content m) p)), rm_All = Inr (mb_content m)\<rparr>"

text \<open>A nil filter is followed by \<open>GetRequiredParts\<close>: a panic.\<close>

definition filterUids ::
  "('h, 'c, 'r) mbox_env \<Rightarrow> mbox_container \<Rightarrow> uid list \<Rightarrow> search_criteria option \<Rightarrow> (search_error + uid list) option" where
  "filterUids env f uids criteria =
     (case criteria of
        None \<Rightarrow> None
      | Some c \<Rightarrow> Some (snd (search_messages (me_search env) (map (raw_of env) (List.map_filter (\<lambda>u. ct_Message u f) uids)) c)))"

definition messageInfo :: "('h, 'c, 'r) mbox_env \<Rightarrow> mbox_message \<Rightarrow> bool \<Rightarrow> string + 'h message_info" where
  "messageInfo env m needSize =
     (case me_info env m of
        Inl e \<Rightarrow> Inl e
      | Inr info \<Rightarrow> Inr (if needSize then info\<lparr>mi_Size := word_of_nat (length (mb_content m))\<rparr> else info))"

text \<open>The size is read when it is a criterion; messages that cannot be read are left out.\<close>

definition sortUids ::
  "('h, 'c, 'r) mbox_env \<Rightarrow> mbox_container \<Rightarrow> uid list \<Rightarrow> sort_criterion list \<Rightarrow> uid list option" where
  "sortUids env f uids criteria =
     (let needSize = list_ex (\<lambda>c. sc_Field c = SortSize) criteria;
          infos = List.map_filter (\<lambda>u. case ct_Message u f of
                      None \<Rightarrow> None
                    | Some m \<Rightarrow> (case messageInfo env m needSize of Inl e \<Rightarrow> None | Inr i \<Rightarrow> Some i)) uids
      in sort_messages infos criteria)"

subsection \<open>Opening the source\<close>

definition mbox_Read :: "(string \<Rightarrow> uid) \<Rightarrow> string list \<Rightarrow> mbox_message list" where
  "mbox_Read digest contents = map (\<lambda>c. \<lparr>mb_uid = digest c, mb_flags = SeenFlag, mb_content = c\<rparr>) contents"

text \<open>The last element of a path: \<open>filepath.Split\<close>.\<close>

definition path_file :: "string \<Rightarrow> string" where
  "path_file p = rev (takeWhile (\<lambda>c. c \<noteq> CHR ''/'') (rev p))"

fun open_mbox_files ::
  "(string \<Rightarrow> uid) \<Rightarrow> (string \<times> (string + string list)) list \<Rightarrow> mbox_worker \<Rightarrow> (string \<rightharpoonup> nat)
     \<Rightarrow> (string + (string \<rightharpoonup> nat)) \<times> mbox_worker" where
  "open_mbox_files digest [] w t = (Inr t, w)"
| "open_mbox_files digest ((path, r) # files) w t =
     (case r of
        Inl e \<Rightarrow> (Inl e, w)
      | Inr contents \<Rightarrow>
          open_mbox_files digest files
            (w\<lparr>mw_heap := mw_heap w @ [\<lparr>ct_filename = path, ct_messages = mbox_Read digest contents\<rparr>]\<rparr>)
            (t(trim_suffix (path_file path) ''.mbox'' \<mapsto> length (mw_heap w))))"

definition mw_Configure :: "('h, 'c, 'r) mbox_env \<Rightarrow> 'c \<Rightarrow> mbox_worker \<Rightarrow> mbox_worker \<times> mbox_error option" where
  "mw_Configure env c w =
     (case me_source env c of
        BadSource e \<Rightarrow> (w, Some (OtherError e))
      | src \<Rightarrow>
          (let w = w\<lparr>mw_headers := me_Headers env c, mw_headersExclude := me_HeadersExclude env c\<rparr>
           in case (case src of MboxFiles fs \<Rightarrow> open_mbox_files (me_digest env) fs w Map.empty
                       | NoFile e \<Rightarrow> (Inl e, w) | BadSource e \<Rightarrow> (Inl e, w)) of
                (Inl e, w) \<Rightarrow> (w\<lparr>mw_data := Some Map.empty\<rparr>, Some (OtherError e))
              | (Inr t, w) \<Rightarrow> (w\<lparr>mw_data := Some t\<rparr>, None)))"

subsection \<open>Actions\<close>

definition mw_dir :: "string \<Rightarrow> mbox_worker \<Rightarrow> nat option option" where
  "mw_dir name w =
     (if name \<noteq> []
      then (case mw_data w of None \<Rightarrow> None | Some t \<Rightarrow> Some (case t name of Some i \<Rightarrow> Some i | None \<Rightarrow> mw_folder w))
      else Some (mw_folder w))"

definition mw_dirName :: "string \<Rightarrow> mbox_worker \<Rightarrow> string" where
  "mw_dirName name w = (if name \<noteq> [] then name else mw_name w)"

text \<open>A container that is followed: a nil one is a panic.\<close>

definition mw_container :: "string \<Rightarrow> mbox_worker \<Rightarrow> (nat \<times> mbox_container) option" where
  "mw_container name w = map_option (\<lambda>i. (i, mw_heap w ! i)) (Option.bind (mw_dir name w) id)"

definition empty_envelope :: envelope where
  "empty_envelope = \<lparr>env_Date = 0, env_Subject = [], env_From = [], env_ReplyTo = [], env_Sender = [], env_To = [],
     env_Cc = [], env_Bcc = [], env_MessageId = [], env_InReplyTo = []\<rparr>"

definition broken_info :: "string \<Rightarrow> uid \<Rightarrow> string \<Rightarrow> 'h message_info" where
  "broken_info d uid e = \<lparr>mi_BodyStructure = None, mi_Envelope = Some empty_envelope, mi_Flags = SeenFlag, mi_Directory = d,
     mi_Labels = [], mi_Filenames = [], mi_InternalDate = 0, mi_RFC822Headers = None, mi_Refs = None, mi_Size = 0,
     mi_Uid = uid, mi_Index = None, mi_Error = Some e\<rparr>"

text \<open>\<open>LimitHeaders\<close> follows the header of the information: nil is a panic.\<close>

definition limited :: "('h, 'c, 'r) mbox_env \<Rightarrow> mbox_worker \<Rightarrow> 'h message_info \<Rightarrow> 'h message_info option" where
  "limited env w info =
     (let lim = (\<lambda>fields ex. case mi_RFC822Headers info of None \<Rightarrow> None
                   | Some h \<Rightarrow> Some (info\<lparr>mi_RFC822Headers := Some (me_limit env h fields ex)\<rparr>))
      in if length (mw_headersExclude w) > 0 then lim (mw_headersExclude w) True
         else if length (mw_headers w) > 0 then lim (mw_headers w) False
         else Some info)"

text \<open>The loops over UIDs; the one over headers ends at the first unknown UID.\<close>

fun headers_loop ::
  "('h, 'c, 'r) mbox_env \<Rightarrow> mbox_worker \<Rightarrow> string \<Rightarrow> mbox_container \<Rightarrow> uid list
     \<Rightarrow> (('h, 'c, 'r) wmsg list \<times> mbox_error option) option" where
  "headers_loop env w d f [] = Some ([], None)"
| "headers_loop env w d f (u # us) =
     (case ct_Message u f of
        None \<Rightarrow> Some ([], Some (UidNotFound u))
      | Some m \<Rightarrow>
          do {
            info \<leftarrow> (case messageInfo env m True of
                       Inl e \<Rightarrow> Some (broken_info d u e)
                     | Inr info \<Rightarrow> map_option (\<lambda>i. i\<lparr>mi_Directory := d\<rparr>) (limited env w info));
            (msgs, err) \<leftarrow> headers_loop env w d f us;
            Some (MessageInfoMsg (Some info) False False # msgs, err)
          })"

definition full_loop :: "('h, 'c, 'r) mbox_env \<Rightarrow> mbox_container \<Rightarrow> uid list \<Rightarrow> ('h, 'c, 'r) wmsg list" where
  "full_loop env f uids =
     List.map_filter (\<lambda>u. map_option (\<lambda>m. FullMessage \<lparr>br_Reader = me_reader env (mb_content m), br_Uid = u\<rparr>) (ct_Message u f)) uids"

fun flag_loop ::
  "('h, 'c, 'r) mbox_env \<Rightarrow> string \<Rightarrow> flags \<Rightarrow> bool \<Rightarrow> uid list \<Rightarrow> mbox_container \<Rightarrow> ('h, 'c, 'r) wmsg list \<times> mbox_container" where
  "flag_loop env d fl enable [] f = ([], f)"
| "flag_loop env d fl enable (u # us) f =
     (case ct_Message u f of
        None \<Rightarrow> flag_loop env d fl enable us f
      | Some m \<Rightarrow>
          (let f = f\<lparr>ct_messages := set_first u (SetFlag fl enable) (ct_messages f)\<rparr>;
               (msgs, f') = flag_loop env d fl enable us f
           in case me_info env (SetFlag fl enable m) of
                Inl e \<Rightarrow> (msgs, f')
              | Inr info \<Rightarrow> (MessageInfoMsg (Some (info\<lparr>mi_Directory := d\<rparr>)) False False # msgs, f')))"

definition deleted_msgs :: "string \<Rightarrow> uid list \<Rightarrow> ('h, 'c, 'r) wmsg list" where
  "deleted_msgs d deleted = (if length deleted > 0 then [MessagesDeleted d None deleted] else [])"

definition info_msg :: "string \<Rightarrow> (string \<rightharpoonup> nat) \<Rightarrow> mbox_worker \<Rightarrow> ('h, 'c, 'r) wmsg" where
  "info_msg file t w = DirectoryInfoMsg (mw_DirectoryInfo file t w) False"

text \<open>
  The handler: the worker afterwards, the messages posted and the error returned.  Only
  \<open>Configure\<close>, the connection messages and unsupported actions work before a source is configured.
\<close>

type_synonym ('h, 'c, 'r) mbox_result = "(mbox_worker \<times> ('h, 'c, 'r) wmsg list \<times> mbox_error option) option"

definition list_directories :: "(string \<rightharpoonup> nat) \<Rightarrow> string list \<Rightarrow> mbox_worker \<Rightarrow> ('h, 'c, 'r) wmsg list" where
  "list_directories t names w =
     concat (map (\<lambda>name.
       [DirectoryMsg \<lparr>dir_Name = name, dir_Uid = [], dir_Exists = 0, dir_Recent = 0, dir_Unseen = 0, dir_Role = []\<rparr>,
        info_msg name t w]) (sort_stable go_compare names))"

definition open_directory :: "string \<Rightarrow> (string \<rightharpoonup> nat) \<Rightarrow> mbox_worker \<Rightarrow> ('h, 'c, 'r) mbox_result" where
  "open_directory d t w =
     (let w = w\<lparr>mw_name := d\<rparr>;
          (w, i) = (case t d of Some i \<Rightarrow> (w, i) | None \<Rightarrow> mw_Create d t w);
          w = w\<lparr>mw_folder := Some i\<rparr>
      in Some (w, [info_msg d (the (mw_data w)) w], None))"

definition fetch_contents ::
  "('h, 'c, 'r) mbox_env \<Rightarrow> string \<Rightarrow> sort_criterion list \<Rightarrow> search_criteria option \<Rightarrow> mbox_worker \<Rightarrow> ('h, 'c, 'r) mbox_result" where
  "fetch_contents env d criteria fl w =
     do {
       (i, f) \<leftarrow> mw_container d w;
       r \<leftarrow> filterUids env f (ct_Uids f) fl;
       case r of
         Inl e \<Rightarrow> Some (w, [], Some (SearchError e))
       | Inr uids \<Rightarrow>
           do {
             uids \<leftarrow> sortUids env f uids criteria;
             Some (if length uids = 0 then (w, [], Some NoUids) else (w, [DirectoryContents d fl uids], None))
           }
     }"

definition fetch_part ::
  "('h, 'c, 'r) mbox_env \<Rightarrow> string \<Rightarrow> uid \<Rightarrow> int list \<Rightarrow> mbox_worker \<Rightarrow> ('h, 'c, 'r) mbox_result" where
  "fetch_part env d uid p w =
     do {
       (i, f) \<leftarrow> mw_container d w;
       Some (case ct_Message uid f of
               None \<Rightarrow> (w, [], Some (UidNotFound uid))
             | Some m \<Rightarrow>
                 (case me_part env (mb_content m) p of
                    Inl e \<Rightarrow> (w, [], Some (OtherError e))
                  | Inr b \<Rightarrow> (w, [MessageBodyPart \<lparr>br_Reader = me_reader env b, br_Uid = uid\<rparr>], None)))
     }"

definition delete_messages :: "string \<Rightarrow> uid list \<Rightarrow> (string \<rightharpoonup> nat) \<Rightarrow> mbox_worker \<Rightarrow> ('h, 'c, 'r) mbox_result" where
  "delete_messages d uids t w =
     do {
       (i, f) \<leftarrow> mw_container d w;
       let (f, deleted) = ct_Delete uids f;
       let w = with_container i f w;
       Some (w, deleted_msgs d deleted @ [info_msg (mw_dirName d w) t w], None)
     }"

definition flag_messages ::
  "('h, 'c, 'r) mbox_env \<Rightarrow> bool \<Rightarrow> flags \<Rightarrow> string \<Rightarrow> uid list \<Rightarrow> (string \<rightharpoonup> nat) \<Rightarrow> mbox_worker \<Rightarrow> ('h, 'c, 'r) mbox_result" where
  "flag_messages env enable fl d uids t w =
     (if uids = [] then Some (w, [info_msg (mw_dirName d w) t w], None)
      else do {
        (i, f) \<leftarrow> mw_container d w;
        let (msgs, f) = flag_loop env d fl enable uids f;
        let w = with_container i f w;
        Some (w, msgs @ [info_msg (mw_dirName d w) t w], None)
      })"

definition copy_messages ::
  "('h, 'c, 'r) mbox_env \<Rightarrow> string \<Rightarrow> string \<Rightarrow> uid list \<Rightarrow> (string \<rightharpoonup> nat) \<Rightarrow> mbox_worker \<Rightarrow> ('h, 'c, 'r) mbox_result" where
  "copy_messages env source dest uids t w =
     (let src = mw_dirName source w
      in case mw_Copy (me_digest env) dest src uids t w of
           (Some e, w) \<Rightarrow> Some (w, [], Some e)
         | (None, w) \<Rightarrow> Some (w, [info_msg src t w, info_msg dest t w], None))"

definition move_messages ::
  "('h, 'c, 'r) mbox_env \<Rightarrow> string \<Rightarrow> string \<Rightarrow> uid list \<Rightarrow> (string \<rightharpoonup> nat) \<Rightarrow> mbox_worker \<Rightarrow> ('h, 'c, 'r) mbox_result" where
  "move_messages env source dest uids t w =
     (let src = mw_dirName source w;
          srcFolder = mw_dir source w
      in case mw_Copy (me_digest env) dest src uids t w of
           (Some e, w) \<Rightarrow> Some (w, [], Some e)
         | (None, w) \<Rightarrow>
             do {
               i \<leftarrow> Option.bind srcFolder id;
               let (f, deleted) = ct_Delete uids (mw_heap w ! i);
               let w = with_container i f w;
               Some (w, deleted_msgs source deleted @ [info_msg dest t w], None)
             })"

definition search_directory ::
  "('h, 'c, 'r) mbox_env \<Rightarrow> string \<Rightarrow> search_criteria option \<Rightarrow> mbox_worker \<Rightarrow> ('h, 'c, 'r) mbox_result" where
  "search_directory env d c w =
     do {
       (i, f) \<leftarrow> mw_container d w;
       r \<leftarrow> filterUids env f (ct_Uids f) c;
       Some (case r of Inl e \<Rightarrow> (w, [], Some (SearchError e)) | Inr uids \<Rightarrow> (w, [SearchResults d c uids], None))
     }"

definition append_message ::
  "('h, 'c, 'r) mbox_env \<Rightarrow> string \<Rightarrow> flags \<Rightarrow> 'r \<Rightarrow> (string \<rightharpoonup> nat) \<Rightarrow> mbox_worker \<Rightarrow> ('h, 'c, 'r) mbox_result" where
  "append_message env dest fl r t w =
     (if dest = [] then Some (w, [], Some EmptyDestination)
      else
        (let (w, i) = (case t dest of Some i \<Rightarrow> (w, i) | None \<Rightarrow> mw_Create dest t w)
         in case me_read env r of
              Inl e \<Rightarrow> Some (w, [], Some (OtherError e))
            | Inr data \<Rightarrow>
                (let w = with_container i (ct_Append (me_digest env) data fl (mw_heap w ! i)) w
                 in Some (w, [info_msg dest (the (mw_data w)) w], None))))"

text \<open>\<open>names\<close>: the names of the mailboxes in the order in which the table is walked.\<close>

definition handleMessage ::
  "('h, 'c, 'r) mbox_env \<Rightarrow> string list \<Rightarrow> ('c, 'r) action \<Rightarrow> mbox_worker \<Rightarrow> ('h, 'c, 'r) mbox_result" where
  "handleMessage env names a w =
     (let with_data = (\<lambda>k. Option.bind (mw_data w) k)
      in case a of
        Configure c \<Rightarrow> (case mw_Configure env c w of (w, e) \<Rightarrow> Some (w, [], e))
      | Connect \<Rightarrow> Some (w, [], None)
      | Reconnect \<Rightarrow> Some (w, [], None)
      | Disconnect \<Rightarrow> Some (w, [], None)
      | ListDirectories \<Rightarrow> with_data (\<lambda>t. Some (w, list_directories t names w, None))
      | OpenDirectory d q f \<Rightarrow> with_data (\<lambda>t. open_directory d t w)
      | FetchDirectoryContents d cs fl \<Rightarrow> fetch_contents env d cs fl w
      | CreateDirectory d q \<Rightarrow> with_data (\<lambda>t. Some (fst (mw_Create d t w), [], None))
      | RemoveDirectory d q \<Rightarrow> with_data (\<lambda>t. Some (w\<lparr>mw_data := Some (t(d := None))\<rparr>, [], None))
      | FetchMessageHeaders d uids \<Rightarrow>
          (if uids = [] then map_option (\<lambda>i. (w, [], None)) (mw_dir d w)
           else do { (i, f) \<leftarrow> mw_container d w; map_option (Pair w) (headers_loop env w d f uids) })
      | FetchMessageBodyPart d uid p \<Rightarrow> fetch_part env d uid p w
      | FetchFullMessages d uids \<Rightarrow>
          (if uids = [] then map_option (\<lambda>i. (w, [], None)) (mw_dir d w)
           else do { (i, f) \<leftarrow> mw_container d w; Some (w, full_loop env f uids, None) })
      | DeleteMessages d uids s \<Rightarrow> with_data (\<lambda>t. delete_messages d uids t w)
      | FlagMessages enable fl d uids \<Rightarrow> with_data (\<lambda>t. flag_messages env enable fl d uids t w)
      | CopyMessages s d uids m \<Rightarrow> with_data (\<lambda>t. copy_messages env s d uids t w)
      | MoveMessages s d uids m \<Rightarrow> with_data (\<lambda>t. move_messages env s d uids t w)
      | SearchDirectory d c \<Rightarrow> search_directory env d c w
      | AppendMessage d fl tm r n \<Rightarrow> with_data (\<lambda>t. append_message env d fl r t w)
      | _ \<Rightarrow> Some (w, [], Some ErrUnsupported))"

text \<open>One turn of \<open>Run\<close>: the messages of the handler and the outcome of the action.\<close>

definition mbox_Run ::
  "('h, 'c, 'r) mbox_env \<Rightarrow> (mbox_error \<Rightarrow> string) \<Rightarrow> string list \<Rightarrow> ('c, 'r) action \<Rightarrow> mbox_worker
     \<Rightarrow> (mbox_worker \<times> ('h, 'c, 'r) wmsg list) option" where
  "mbox_Run env show names a w =
     map_option (\<lambda>(w, msgs, err).
       (w, msgs @ [case err of
                     None \<Rightarrow> Done (Some a)
                   | Some ErrUnsupported \<Rightarrow> Unsupported (Some a)
                   | Some e \<Rightarrow> ErrorOf (Some a) (show e)]))
       (handleMessage env names a w)"

end
