(* ===== verification/MboxProps.thy ===== *)
theory MboxProps
  imports MboxWorker StoreProps
begin

text \<open>
  What the mbox worker guarantees: the invariant of its mailboxes along all actions, the effect of
  moving and appending, and how its answers to changes of flags meet the message store.
\<close>

subsection \<open>The invariant\<close>

definition ct_ok :: "(string \<Rightarrow> uid) \<Rightarrow> mbox_container \<Rightarrow> bool" where
  "ct_ok digest f \<longleftrightarrow> (\<forall>m \<in> set (ct_messages f). mb_uid m = digest (mb_content m))"

definition names_ok :: "nat \<Rightarrow> (string \<rightharpoonup> nat) \<Rightarrow> bool" where
  "names_ok n t \<longleftrightarrow> (\<forall>d i. t d = Some i \<longrightarrow> i < n) \<and> (\<forall>d e i. t d = Some i \<and> t e = Some i \<longrightarrow> d = e)"

definition mbox_ok :: "(string \<Rightarrow> uid) \<Rightarrow> mbox_worker \<Rightarrow> bool" where
  "mbox_ok digest w \<longleftrightarrow> (\<forall>f \<in> set (mw_heap w). ct_ok digest f)
     \<and> (\<forall>t. mw_data w = Some t \<longrightarrow> names_ok (length (mw_heap w)) t)
     \<and> (\<forall>i. mw_folder w = Some i \<longrightarrow> i < length (mw_heap w))"

lemma names_ok_new: "names_ok n t \<Longrightarrow> names_ok (Suc n) (t(d \<mapsto> n))"
  unfolding names_ok_def by (intro conjI allI impI) (force split: if_splits)+

lemma names_ok_remove: "names_ok n t \<Longrightarrow> names_ok n (t(d := None))"
  by (auto simp: names_ok_def)

lemma names_ok_later: "names_ok n t \<Longrightarrow> n \<le> m \<Longrightarrow> names_ok m t"
  unfolding names_ok_def by (meson less_le_trans)

lemma mbox_ok_Create: "mbox_ok dg w \<Longrightarrow> mw_data w = Some t \<Longrightarrow> mbox_ok dg (fst (mw_Create d t w))"
  by (auto simp: mbox_ok_def mw_Create_def ct_ok_def names_ok_new less_Suc_eq)

lemma mbox_ok_with: "mbox_ok dg w \<Longrightarrow> ct_ok dg f \<Longrightarrow> mbox_ok dg (with_container i f w)"
  by (auto simp: mbox_ok_def with_container_def dest: subsetD[OF set_update_subset_insert])

lemma ct_ok_Append: "ct_ok dg f \<Longrightarrow> ct_ok dg (ct_Append dg data fl f)"
  by (auto simp: ct_ok_def ct_Append_def)

lemma ct_ok_Delete: "ct_ok dg f \<Longrightarrow> ct_ok dg (fst (ct_Delete us f))"
  by (auto simp: ct_ok_def ct_Delete_def)

lemma SetFlag_fields [simp]: "mb_uid (SetFlag fl b m) = mb_uid m" "mb_content (SetFlag fl b m) = mb_content m"
  by (simp_all add: SetFlag_def)

lemma map_set_first:
  "map mb_uid (set_first u (SetFlag fl b) ms) = map mb_uid ms" "map mb_content (set_first u (SetFlag fl b) ms) = map mb_content ms"
  by (induction ms) auto

lemma ct_ok_map: "ct_ok dg f \<longleftrightarrow> map mb_uid (ct_messages f) = map dg (map mb_content (ct_messages f))"
  by (auto simp: ct_ok_def)

lemma flag_loop_ok: "flag_loop env d fl b us f = (msgs, f') \<Longrightarrow> ct_ok dg f \<Longrightarrow> ct_ok dg f'"
proof (induction env d fl b us f arbitrary: msgs rule: flag_loop.induct)
  case (2 env d fl enable u us f)
  show ?case
  proof (cases "ct_Message u f")
    case None
    then show ?thesis using 2 by simp
  next
    case (Some m)
    have "ct_ok dg (f\<lparr>ct_messages := set_first u (SetFlag fl enable) (ct_messages f)\<rparr>)"
      using "2.prems"(2) by (simp add: ct_ok_map map_set_first)
    moreover obtain ms f2 where l: "flag_loop env d fl enable us (f\<lparr>ct_messages := set_first u (SetFlag fl enable) (ct_messages f)\<rparr>) = (ms, f2)"
      by (cases "flag_loop env d fl enable us (f\<lparr>ct_messages := set_first u (SetFlag fl enable) (ct_messages f)\<rparr>)")
    moreover have "f' = f2" using "2.prems"(1) by (cases "me_info env (SetFlag fl enable m)") (simp_all add: Some l Let_def)
    ultimately show ?thesis using "2.IH"(2)[OF Some refl] by simp
  qed
qed simp

lemma mw_dir_bound: "mbox_ok dg w \<Longrightarrow> mw_dir d w = Some (Some i) \<Longrightarrow> i < length (mw_heap w)"
  by (auto simp: mbox_ok_def mw_dir_def names_ok_def split: if_splits option.splits)

lemma mw_container_ok:
  assumes "mbox_ok dg w" "mw_container d w = Some (i, f)"
  shows "i < length (mw_heap w) \<and> f = mw_heap w ! i \<and> ct_ok dg f"
proof -
  have d: "mw_dir d w = Some (Some i)" "f = mw_heap w ! i"
    using assms(2) by (cases "mw_dir d w"; simp add: mw_container_def)+
  have i: "i < length (mw_heap w)" using mw_dir_bound[OF assms(1) d(1)] .
  then have "f \<in> set (mw_heap w)" by (simp add: d(2))
  then show ?thesis using assms(1) i d(2) by (simp add: mbox_ok_def)
qed

text \<open>Fetching and searching leave the worker alone.\<close>

lemma fetch_contents_same: "fetch_contents env d cs fl w = Some (w', r) \<Longrightarrow> w' = w"
proof -
  assume a: "fetch_contents env d cs fl w = Some (w', r)"
  then obtain i f x where f: "mw_container d w = Some (i, f)" "filterUids env f (ct_Uids f) fl = Some x"
    by (auto simp: fetch_contents_def bind_eq_Some_conv)
  show ?thesis using a by (cases x) (auto simp: fetch_contents_def f bind_eq_Some_conv split: if_splits)
qed

lemma fetch_part_same: "fetch_part env d u p w = Some (w', r) \<Longrightarrow> w' = w"
proof -
  assume a: "fetch_part env d u p w = Some (w', r)"
  then obtain i f where f: "mw_container d w = Some (i, f)" by (auto simp: fetch_part_def bind_eq_Some_conv)
  show ?thesis using a by (auto simp: fetch_part_def f split: option.splits sum.splits)
qed

lemma search_directory_same: "search_directory env d c w = Some (w', r) \<Longrightarrow> w' = w"
proof -
  assume a: "search_directory env d c w = Some (w', r)"
  then obtain i f x where f: "mw_container d w = Some (i, f)" "filterUids env f (ct_Uids f) c = Some x"
    by (auto simp: search_directory_def bind_eq_Some_conv)
  show ?thesis using a by (cases x) (auto simp: search_directory_def f)
qed

text \<open>Copying only appends to the destination.\<close>

lemma copy_loop_ok:
  "mbox_ok dg w \<Longrightarrow> dest < length (mw_heap w) \<Longrightarrow>
     mbox_ok dg (snd (copy_loop dg dest src uids us w)) \<and> mw_data (snd (copy_loop dg dest src uids us w)) = mw_data w
     \<and> mw_folder (snd (copy_loop dg dest src uids us w)) = mw_folder w
     \<and> mw_name (snd (copy_loop dg dest src uids us w)) = mw_name w
     \<and> length (mw_heap (snd (copy_loop dg dest src uids us w))) = length (mw_heap w)"
proof (induction dg dest src uids us w rule: copy_loop.induct)
  case (2 dg dest src uids u us w)
  show ?case
  proof (cases "u \<in> set uids")
    case False
    then show ?thesis using 2 by simp
  next
    case True
    show ?thesis
    proof (cases "ct_Message u (mw_heap w ! src)")
      case None
      then show ?thesis using 2 True by simp
    next
      case (Some m)
      let ?w = "with_container dest (ct_Append dg (mb_content m) (mb_flags m) (mw_heap w ! dest)) w"
      have "mbox_ok dg ?w" using "2.prems" by (intro mbox_ok_with ct_ok_Append) (auto simp: mbox_ok_def)
      moreover have "dest < length (mw_heap ?w)" "mw_data ?w = mw_data w" "mw_folder ?w = mw_folder w" "mw_name ?w = mw_name w"
          "length (mw_heap ?w) = length (mw_heap w)"
        using "2.prems" by (simp_all add: with_container_def)
      ultimately show ?thesis using "2.IH"(1)[OF True Some] True Some by simp
    qed
  qed
qed simp

lemma mw_Copy_ok:
  assumes "mbox_ok dg w" "mw_data w = Some t" "mw_Copy dg dest src uids t w = (e, w')"
  shows "mbox_ok dg w' \<and> mw_data w' = Some t \<and> mw_folder w' = mw_folder w \<and> length (mw_heap w') = length (mw_heap w)"
proof -
  have "\<And>d. t dest = Some d \<Longrightarrow> d < length (mw_heap w)" using assms(1,2) by (auto simp: mbox_ok_def names_ok_def)
  with assms copy_loop_ok[OF assms(1)] show ?thesis
    by (auto simp: mw_Copy_def split: option.splits) (metis snd_conv)+
qed

lemma open_files_ok:
  "\<forall>f \<in> set (mw_heap w). ct_ok dg f \<Longrightarrow> (\<forall>i. mw_folder w = Some i \<longrightarrow> i < length (mw_heap w)) \<Longrightarrow>
     names_ok (length (mw_heap w)) t \<Longrightarrow> open_mbox_files dg fs w t = (r, w') \<Longrightarrow>
     (\<forall>f \<in> set (mw_heap w'). ct_ok dg f) \<and> (\<forall>i. mw_folder w' = Some i \<longrightarrow> i < length (mw_heap w'))
     \<and> (\<forall>t'. r = Inr t' \<longrightarrow> names_ok (length (mw_heap w')) t')"
proof (induction dg fs w t rule: open_mbox_files.induct)
  case (2 dg path c fs w t)
  show ?case
  proof (cases c)
    case (Inl e)
    then show ?thesis using 2 by auto
  next
    case (Inr contents)
    let ?w = "w\<lparr>mw_heap := mw_heap w @ [\<lparr>ct_filename = path, ct_messages = mbox_Read dg contents\<rparr>]\<rparr>"
    have "\<forall>f \<in> set (mw_heap ?w). ct_ok dg f" using "2.prems"(1) by (auto simp: ct_ok_def mbox_Read_def)
    moreover have "\<forall>i. mw_folder ?w = Some i \<longrightarrow> i < length (mw_heap ?w)" using "2.prems"(2) by auto
    moreover have "names_ok (length (mw_heap ?w)) (t(trim_suffix (path_file path) ''.mbox'' \<mapsto> length (mw_heap w)))"
      using names_ok_new[OF "2.prems"(3)] by simp
    moreover have "open_mbox_files dg fs ?w (t(trim_suffix (path_file path) ''.mbox'' \<mapsto> length (mw_heap w))) = (r, w')"
      using "2.prems"(4) Inr by simp
    ultimately show ?thesis by (rule "2.IH"[OF Inr])
  qed
qed auto

lemma Configure_ok:
  assumes "mbox_ok (me_digest env) w" "mw_Configure env c w = (w', e)"
  shows "mbox_ok (me_digest env) w'"
proof (cases "me_source env c")
  case (MboxFiles fs)
  let ?w = "w\<lparr>mw_headers := me_Headers env c, mw_headersExclude := me_HeadersExclude env c\<rparr>"
  obtain r w1 where o: "open_mbox_files (me_digest env) fs ?w Map.empty = (r, w1)"
    by (cases "open_mbox_files (me_digest env) fs ?w Map.empty")
  have "names_ok n Map.empty" for n by (simp add: names_ok_def)
  with open_files_ok[OF _ _ _ o] assms(1) show ?thesis using assms(2)
    by (cases r) (auto simp: mw_Configure_def MboxFiles o Let_def mbox_ok_def)
qed (use assms in \<open>auto simp: mw_Configure_def Let_def mbox_ok_def names_ok_def\<close>)

text \<open>
  C36. Along any actions, each mailbox of the table has a container of its own, the opened folder is
  a container, and every message is kept under the digest of its contents.
\<close>

theorem mbox_invariant:
  assumes "mbox_ok (me_digest env) w" "handleMessage env names a w = Some (w', msgs, e)"
  shows "mbox_ok (me_digest env) w'"
proof (cases a)
  case (Configure c)
  then show ?thesis using assms Configure_ok by (auto simp: handleMessage_def split: prod.splits)
next
  case (OpenDirectory d q f)
  then obtain t where t: "mw_data w = Some t" "open_directory d t w = Some (w', msgs, e)"
    using assms(2) by (auto simp: handleMessage_def bind_eq_Some_conv)
  show ?thesis
  proof (cases "t d")
    case None
    have "mbox_ok (me_digest env) (fst (mw_Create d t (w\<lparr>mw_name := d\<rparr>)))"
      using assms(1) t(1) by (intro mbox_ok_Create) (simp_all add: mbox_ok_def)
    then show ?thesis using t None by (auto simp: open_directory_def Let_def mw_Create_def mbox_ok_def)
  next
    case (Some i)
    then have "i < length (mw_heap w)" using assms(1) t(1) by (auto simp: mbox_ok_def names_ok_def)
    then show ?thesis using t Some assms(1) by (auto simp: open_directory_def Let_def mbox_ok_def)
  qed
next
  case (CreateDirectory d q)
  then show ?thesis using assms mbox_ok_Create by (auto simp: handleMessage_def bind_eq_Some_conv)
next
  case (RemoveDirectory d q)
  then show ?thesis using assms by (auto simp: handleMessage_def bind_eq_Some_conv mbox_ok_def names_ok_remove)
next
  case (FetchDirectoryContents d cs fl)
  then show ?thesis using assms by (auto simp: handleMessage_def dest: fetch_contents_same)
next
  case (FetchMessageBodyPart d uid p)
  then show ?thesis using assms by (auto simp: handleMessage_def dest: fetch_part_same)
next
  case (SearchDirectory d c)
  then show ?thesis using assms by (auto simp: handleMessage_def dest: search_directory_same)
next
  case (FetchMessageHeaders d uids)
  then show ?thesis using assms
    by (auto simp: handleMessage_def bind_eq_Some_conv split: if_splits)
next
  case (FetchFullMessages d uids)
  then show ?thesis using assms
    by (auto simp: handleMessage_def bind_eq_Some_conv split: if_splits)
next
  case (DeleteMessages d uids s)
  then obtain t i f where f: "mw_container d w = Some (i, f)" "w' = with_container i (fst (ct_Delete uids f)) w"
    using assms(2) by (auto simp: handleMessage_def delete_messages_def bind_eq_Some_conv Let_def case_prod_unfold)
  have "ct_ok (me_digest env) f" using mw_container_ok[OF assms(1) f(1)] by blast
  then show ?thesis unfolding f(2) by (intro mbox_ok_with[OF assms(1)] ct_ok_Delete)
next
  case (FlagMessages enable fl d uids)
  show ?thesis
  proof (cases "uids = []")
    case True
    then show ?thesis using assms FlagMessages by (auto simp: handleMessage_def flag_messages_def bind_eq_Some_conv)
  next
    case False
    with FlagMessages obtain i f where f: "mw_container d w = Some (i, f)"
      "w' = with_container i (snd (flag_loop env d fl enable uids f)) w"
      using assms(2) by (auto simp: handleMessage_def flag_messages_def bind_eq_Some_conv Let_def case_prod_unfold)
    moreover obtain ms f' where l: "flag_loop env d fl enable uids f = (ms, f')" by (cases "flag_loop env d fl enable uids f")
    moreover have "ct_ok (me_digest env) f" using mw_container_ok[OF assms(1) f(1)] by blast
    ultimately have "w' = with_container i f' w" "ct_ok (me_digest env) f'" using flag_loop_ok[OF l] by simp_all
    then show ?thesis using mbox_ok_with[OF assms(1)] by simp
  qed
next
  case (CopyMessages s d uids m)
  then obtain t where t: "mw_data w = Some t" "copy_messages env s d uids t w = Some (w', msgs, e)"
    using assms(2) by (auto simp: handleMessage_def bind_eq_Some_conv)
  obtain e1 w1 where c: "mw_Copy (me_digest env) d (mw_dirName s w) uids t w = (e1, w1)"
    by (cases "mw_Copy (me_digest env) d (mw_dirName s w) uids t w")
  have "w' = w1" using t(2) by (cases e1) (auto simp: copy_messages_def c)
  then show ?thesis using mw_Copy_ok[OF assms(1) t(1) c] by simp
next
  case (MoveMessages s d uids m)
  then obtain t where t: "mw_data w = Some t" "move_messages env s d uids t w = Some (w', msgs, e)"
    using assms(2) by (auto simp: handleMessage_def bind_eq_Some_conv)
  obtain e1 w1 where c: "mw_Copy (me_digest env) d (mw_dirName s w) uids t w = (e1, w1)" by (cases "mw_Copy (me_digest env) d (mw_dirName s w) uids t w")
  have ok: "mbox_ok (me_digest env) w1" "length (mw_heap w1) = length (mw_heap w)"
    using mw_Copy_ok[OF assms(1) t(1) c] by simp_all
  show ?thesis
  proof (cases e1)
    case (Some x)
    then show ?thesis using t(2) ok(1) by (simp add: move_messages_def c)
  next
    case None
    then obtain i where i: "mw_dir s w = Some (Some i)" "w' = with_container i (fst (ct_Delete uids (mw_heap w1 ! i))) w1"
      using t(2) by (auto simp: move_messages_def c bind_eq_Some_conv Let_def case_prod_unfold)
    have "mw_heap w1 ! i \<in> set (mw_heap w1)" using mw_dir_bound[OF assms(1) i(1)] ok(2) by simp
    then have "ct_ok (me_digest env) (mw_heap w1 ! i)" using ok(1) by (simp add: mbox_ok_def)
    then show ?thesis unfolding i(2) by (intro mbox_ok_with[OF ok(1)] ct_ok_Delete)
  qed
next
  case (AppendMessage d fl tm r n)
  then obtain t where t: "mw_data w = Some t" "append_message env d fl r t w = Some (w', msgs, e)"
    using assms(2) by (auto simp: handleMessage_def bind_eq_Some_conv)
  show ?thesis
  proof (cases "t d")
    case None
    have "mbox_ok (me_digest env) (fst (mw_Create d t w))" by (rule mbox_ok_Create[OF assms(1) t(1)])
    then show ?thesis using t(2) None assms(1)
      by (auto simp: append_message_def Let_def mw_Create_def split: if_splits sum.splits
          intro!: mbox_ok_with ct_ok_Append) (simp_all add: ct_ok_def)
  next
    case (Some i)
    then have "mw_heap w ! i \<in> set (mw_heap w)" using assms(1) t(1) by (auto simp: mbox_ok_def names_ok_def)
    then have "ct_ok (me_digest env) (mw_heap w ! i)" using assms(1) by (auto simp: mbox_ok_def)
    then show ?thesis using t(2) Some assms(1)
      by (auto simp: append_message_def Let_def split: if_splits sum.splits intro!: mbox_ok_with ct_ok_Append)
  qed
qed (use assms in \<open>auto simp: handleMessage_def bind_eq_Some_conv\<close>)

subsection \<open>Moving\<close>

definition copies :: "uid list \<Rightarrow> uid list \<Rightarrow> mbox_container \<Rightarrow> mbox_message list" where
  "copies uids us f = map (\<lambda>u. the (ct_Message u f)) (filter (\<lambda>u. u \<in> set uids) us)"

lemma ct_Message_member:
  "u \<in> set (ct_Uids f) \<Longrightarrow> \<exists>m. ct_Message u f = Some m \<and> m \<in> set (ct_messages f) \<and> mb_uid m = u"
proof -
  assume "u \<in> set (ct_Uids f)"
  then have "ct_Message u f \<noteq> None" by (auto simp: ct_Message_def ct_Uids_def find_None_iff)
  then obtain m where "ct_Message u f = Some m" by blast
  then show ?thesis by (auto simp: ct_Message_def find_Some_iff intro!: nth_mem)
qed

lemma copy_loop_other:
  assumes "src \<noteq> dest" "dest < length (mw_heap w)" "ct_ok dg (mw_heap w ! src)" "set us \<subseteq> set (ct_Uids (mw_heap w ! src))"
  shows "copy_loop dg dest src uids us w = (None, with_container dest
    ((mw_heap w ! dest)\<lparr>ct_messages := ct_messages (mw_heap w ! dest) @ copies uids us (mw_heap w ! src)\<rparr>) w)"
  using assms
proof (induction us arbitrary: w)
  case Nil
  then show ?case by (cases w) (simp add: copies_def with_container_def)
next
  case (Cons u us)
  show ?case
  proof (cases "u \<in> set uids")
    case False
    then show ?thesis using Cons by (simp add: copies_def)
  next
    case True
    from ct_Message_member[of u "mw_heap w ! src"] Cons.prems(4) obtain m where
      m: "ct_Message u (mw_heap w ! src) = Some m" "m \<in> set (ct_messages (mw_heap w ! src))" "mb_uid m = u" by auto
    then have d: "dg (mb_content m) = u" using Cons.prems(3) by (auto simp: ct_ok_def)
    let ?w = "with_container dest (ct_Append dg (mb_content m) (mb_flags m) (mw_heap w ! dest)) w"
    have h: "mw_heap ?w ! src = mw_heap w ! src" "dest < length (mw_heap ?w)"
      "mw_heap ?w ! dest = ct_Append dg (mb_content m) (mb_flags m) (mw_heap w ! dest)"
      using Cons.prems(1,2) by (simp_all add: with_container_def)
    have me: "\<lparr>mb_uid = dg (mb_content m), mb_flags = mb_flags m, mb_content = mb_content m\<rparr> = m"
      using m(3) d by (cases m) simp
    have "copy_loop dg dest src uids us ?w = (None, with_container dest
        ((mw_heap ?w ! dest)\<lparr>ct_messages := ct_messages (mw_heap ?w ! dest) @ copies uids us (mw_heap w ! src)\<rparr>) ?w)"
      using Cons.IH[of ?w] Cons.prems(1,3,4) h by simp
    then show ?thesis using True m(1) h(3) me
      by (simp add: copies_def) (simp add: with_container_def ct_Append_def me)
  qed
qed

lemma copies_uids: "set us \<subseteq> set (ct_Uids f) \<Longrightarrow> map mb_uid (copies uids us f) = filter (\<lambda>u. u \<in> set uids) us"
proof (induction us)
  case (Cons u us)
  then show ?case using ct_Message_member[of u f] by (auto simp: copies_def)
qed (simp add: copies_def)

text \<open>
  C37. Moving messages between two mailboxes: the source keeps the others in their order, copies of
  the moved ones with their flags stand at the end of the destination, no other mailbox changes
  and no message is lost or doubled.  The removed UIDs are announced.
\<close>

theorem move_conserves_messages:
  assumes "mbox_ok (me_digest env) w" "mw_data w = Some t" "t source = Some s" "t dest = Some d"
    and "source \<noteq> dest" "source \<noteq> []"
  shows "\<exists>w' msgs. handleMessage env names (action.MoveMessages source dest uids strat) w = Some (w', msgs, None)
    \<and> ct_messages (mw_heap w' ! s) = filter (\<lambda>m. mb_uid m \<notin> set uids) (ct_messages (mw_heap w ! s))
    \<and> ct_messages (mw_heap w' ! d) = ct_messages (mw_heap w ! d) @ copies uids (ct_Uids (mw_heap w ! s)) (mw_heap w ! s)
    \<and> (\<forall>i. i \<noteq> s \<and> i \<noteq> d \<longrightarrow> mw_heap w' ! i = mw_heap w ! i)
    \<and> mset (ct_Uids (mw_heap w' ! s)) + mset (ct_Uids (mw_heap w' ! d))
        = mset (ct_Uids (mw_heap w ! s)) + mset (ct_Uids (mw_heap w ! d))
    \<and> (\<forall>u \<in> set uids \<inter> set (ct_Uids (mw_heap w ! s)). \<exists>us. wmsg.MessagesDeleted source None us \<in> set msgs \<and> u \<in> set us)"
proof -
  have sd: "s \<noteq> d" "s < length (mw_heap w)" "d < length (mw_heap w)"
    using assms by (auto simp: mbox_ok_def names_ok_def)
  then have ok: "ct_ok (me_digest env) (mw_heap w ! s)" using assms(1) by (auto simp: mbox_ok_def)
  let ?src = "mw_heap w ! s" and ?dst = "mw_heap w ! d"
  let ?c = "copies uids (ct_Uids ?src) ?src"
  let ?w1 = "with_container d (?dst\<lparr>ct_messages := ct_messages ?dst @ ?c\<rparr>) w"
  let ?keep = "filter (\<lambda>m. mb_uid m \<notin> set uids) (ct_messages ?src)"
  let ?gone = "map mb_uid (filter (\<lambda>m. mb_uid m \<in> set uids) (ct_messages ?src))"
  let ?w2 = "with_container s (?src\<lparr>ct_messages := ?keep\<rparr>) ?w1"
  have c: "mw_Copy (me_digest env) dest source uids t w = (None, ?w1)"
    using copy_loop_other[OF sd(1,3) ok, of "ct_Uids ?src" uids] assms(3,4) by (simp add: mw_Copy_def)
  have h: "mw_heap ?w2 ! s = ?src\<lparr>ct_messages := ?keep\<rparr>" "mw_heap ?w2 ! d = ?dst\<lparr>ct_messages := ct_messages ?dst @ ?c\<rparr>"
    "\<forall>i. i \<noteq> s \<and> i \<noteq> d \<longrightarrow> mw_heap ?w2 ! i = mw_heap w ! i"
    using sd by (simp_all add: with_container_def)
  have m: "handleMessage env names (action.MoveMessages source dest uids strat) w
      = Some (?w2, deleted_msgs source ?gone @ [info_msg dest t ?w2], None)"
    using assms(2,3,6) sd by (simp add: handleMessage_def move_messages_def mw_dirName_def mw_dir_def c ct_Delete_def Let_def)
      (simp add: with_container_def)
  have "map mb_uid ?c = filter (\<lambda>u. u \<in> set uids) (ct_Uids ?src)" by (rule copies_uids) simp
  moreover have "map mb_uid ?keep = filter (\<lambda>u. \<not> u \<in> set uids) (ct_Uids ?src)"
    by (simp add: ct_Uids_def filter_map comp_def)
  ultimately have "mset (ct_Uids (mw_heap ?w2 ! s)) + mset (ct_Uids (mw_heap ?w2 ! d)) = mset (ct_Uids ?src) + mset (ct_Uids ?dst)"
    unfolding h by (simp add: ct_Uids_def flip: mset_filter) (simp add: ct_Uids_def)
  moreover have "\<forall>u \<in> set uids \<inter> set (ct_Uids ?src). \<exists>us.
      wmsg.MessagesDeleted source None us \<in> set (deleted_msgs source ?gone @ [info_msg dest t ?w2]) \<and> u \<in> set us"
    by (auto simp: deleted_msgs_def ct_Uids_def filter_empty_conv)
  moreover have "ct_messages (mw_heap ?w2 ! s) = ?keep" "ct_messages (mw_heap ?w2 ! d) = ct_messages ?dst @ ?c"
    using h by simp_all
  ultimately show ?thesis using m h(3) by blast
qed

text \<open>Two mailboxes, the first of them opened, and a digest that is the contents themselves.\<close>

definition plain_env :: "(unit, unit, string) mbox_env" where
  "plain_env = \<lparr>me_source = (\<lambda>_. MboxFiles [(''/m/A.mbox'', Inr [''x'', ''y'']), (''/m/B.mbox'', Inr [''z''])]),
     me_Headers = (\<lambda>_. []), me_HeadersExclude = (\<lambda>_. []), me_digest = id, me_info = (\<lambda>_. Inl []),
     me_part = (\<lambda>_ _. Inl []), me_limit = (\<lambda>h _ _. h), me_read = Inr, me_reader = id,
     me_search = \<lparr>se_Get = (\<lambda>_ _. []), se_Date = (\<lambda>_. None), se_LexArgs = (\<lambda>_. [])\<rparr>\<rparr>"

definition sample_mbox :: mbox_worker where
  "sample_mbox = fst (the (handleMessage plain_env [] (action.OpenDirectory ''A'' [] False)
     (fst (the (handleMessage plain_env [] (Configure ()) NewWorker)))))"

lemma sample_mbox_eq:
  "sample_mbox = \<lparr>mw_heap = [\<lparr>ct_filename = ''/m/A.mbox'', ct_messages = [\<lparr>mb_uid = ''x'', mb_flags = SeenFlag, mb_content = ''x''\<rparr>,
      \<lparr>mb_uid = ''y'', mb_flags = SeenFlag, mb_content = ''y''\<rparr>]\<rparr>,
      \<lparr>ct_filename = ''/m/B.mbox'', ct_messages = [\<lparr>mb_uid = ''z'', mb_flags = SeenFlag, mb_content = ''z''\<rparr>]\<rparr>],
    mw_data = Some [''A'' \<mapsto> 0, ''B'' \<mapsto> 1], mw_name = ''A'', mw_folder = Some 0, mw_headers = [], mw_headersExclude = []\<rparr>"
  by (simp add: sample_mbox_def handleMessage_def mw_Configure_def plain_env_def NewWorker_def Let_def path_file_def
      trim_suffix_def has_suffix_def mbox_Read_def open_directory_def)

lemma sample_mbox_ok: "mbox_ok (me_digest plain_env) sample_mbox"
  by (auto simp: sample_mbox_eq mbox_ok_def ct_ok_def names_ok_def plain_env_def split: if_splits)

lemma mbox_invariant_witness: "mbox_ok (me_digest plain_env) (fst (the (handleMessage plain_env [] (action.CreateDirectory ''C'' False) sample_mbox)))"
  using mbox_invariant[OF sample_mbox_ok, of "[]" "action.CreateDirectory ''C'' False"]
  by (simp add: handleMessage_def sample_mbox_eq mw_Create_def)

lemma move_conserves_messages_witness:
  "\<exists>w' msgs. handleMessage plain_env [] (action.MoveMessages ''A'' ''B'' [''x''] None) sample_mbox = Some (w', msgs, None)
    \<and> ct_messages (mw_heap w' ! 0) = [\<lparr>mb_uid = ''y'', mb_flags = SeenFlag, mb_content = ''y''\<rparr>]"
  using move_conserves_messages[OF sample_mbox_ok, of "[''A'' \<mapsto> 0, ''B'' \<mapsto> 1]" "''A''" 0 "''B''" 1 "[]" "[''x'']" None]
  by (auto simp: sample_mbox_eq)

subsection \<open>Appending\<close>

text \<open>
  C38. A message that is appended to a mailbox, which is created if there is none, is what a later
  fetch of its digest returns; the messages of the mailbox with other contents must not have the
  same digest.
\<close>

theorem append_then_fetch:
  assumes "mbox_ok (me_digest env) w" "mw_data w = Some t" "dest \<noteq> []" "me_read env r = Inr data"
    and "\<forall>i. t dest = Some i \<longrightarrow> (\<forall>m \<in> set (ct_messages (mw_heap w ! i)). mb_uid m = me_digest env data \<longrightarrow> mb_content m = data)"
  shows "\<exists>w' msgs. handleMessage env names (action.AppendMessage dest fl tm r n) w = Some (w', msgs, None)
    \<and> handleMessage env names (action.FetchFullMessages dest [me_digest env data]) w'
       = Some (w', [wmsg.FullMessage \<lparr>br_Reader = me_reader env data, br_Uid = me_digest env data\<rparr>], None)"
proof -
  obtain w1 i where c: "(case t dest of Some i \<Rightarrow> (w, i) | None \<Rightarrow> mw_Create dest t w) = (w1, i)"
    by (cases "case t dest of Some i \<Rightarrow> (w, i) | None \<Rightarrow> mw_Create dest t w")
  have w1: "i < length (mw_heap w1)" "\<exists>t'. mw_data w1 = Some t' \<and> t' dest = Some i"
    "\<forall>m \<in> set (ct_messages (mw_heap w1 ! i)). mb_uid m = me_digest env data \<longrightarrow> mb_content m = data"
    using c assms by (cases "t dest"; auto simp: mw_Create_def mbox_ok_def names_ok_def)+
  let ?f = "ct_Append (me_digest env) data fl (mw_heap w1 ! i)"
  let ?w2 = "with_container i ?f w1"
  have a: "handleMessage env names (action.AppendMessage dest fl tm r n) w = Some (?w2, [info_msg dest (the (mw_data ?w2)) ?w2], None)"
    using assms(2-4) c by (simp add: handleMessage_def append_message_def Let_def)
  have "mw_container dest ?w2 = Some (i, ?f)"
    using w1(1,2) assms(3) by (auto simp: mw_container_def mw_dir_def with_container_def)
  moreover have "me_digest env data \<in> set (ct_Uids ?f)" by (simp add: ct_Uids_def ct_Append_def)
  from ct_Message_member[OF this] obtain m where "ct_Message (me_digest env data) ?f = Some m" "mb_content m = data"
    using w1(3) by (auto simp: ct_Append_def)
  ultimately have "handleMessage env names (action.FetchFullMessages dest [me_digest env data]) ?w2
       = Some (?w2, [wmsg.FullMessage \<lparr>br_Reader = me_reader env data, br_Uid = me_digest env data\<rparr>], None)"
    by (simp add: handleMessage_def full_loop_def List.map_filter_def)
  with a show ?thesis by blast
qed

lemma append_then_fetch_witness:
  "\<exists>w'. handleMessage plain_env [] (action.FetchFullMessages ''C'' [''new'']) w'
     = Some (w', [wmsg.FullMessage \<lparr>br_Reader = ''new'', br_Uid = ''new''\<rparr>], None)"
proof -
  have e: "me_read plain_env ''new'' = Inr ''new''" "me_digest plain_env ''new'' = ''new''" "me_reader plain_env ''new'' = ''new''"
    by (simp_all add: plain_env_def)
  have "mw_data sample_mbox = Some [''A'' \<mapsto> 0, ''B'' \<mapsto> 1]" by (simp add: sample_mbox_eq)
  from append_then_fetch[OF sample_mbox_ok this _ e(1), of "''C''" "[]" 0 0 0] show ?thesis
    unfolding e by auto
qed

subsection \<open>Observations\<close>

text \<open>The list of a mailbox is asked for without a filter when none is set: the search follows it.\<close>

lemma list_without_filter_panics: "handleMessage env names (action.FetchDirectoryContents d cs None) w = None"
  by (cases "mw_container d w") (auto simp: handleMessage_def fetch_contents_def filterUids_def)

text \<open>Creating a mailbox that exists empties it.\<close>

lemma recreated_mailbox_empty:
  "mw_data w = Some t \<Longrightarrow> \<exists>w' t' i. handleMessage env names (action.CreateDirectory d q) w = Some (w', [], None)
     \<and> mw_data w' = Some t' \<and> t' d = Some i \<and> ct_messages (mw_heap w' ! i) = []"
  by (simp add: handleMessage_def mw_Create_def)

text \<open>Moving messages to the mailbox they are in deletes them, the copies included.\<close>

lemma move_to_itself_deletes:
  assumes "handleMessage env names (action.MoveMessages d d uids strat) w = Some (w', msgs, None)" "mw_dir d w = Some (Some i)"
    "i < length (mw_heap w')"
  shows "set (ct_Uids (mw_heap w' ! i)) \<inter> set uids = {}"
proof -
  from assms(1,2) obtain w1 where "w' = with_container i (fst (ct_Delete uids (mw_heap w1 ! i))) w1"
    by (auto simp: handleMessage_def move_messages_def Let_def bind_eq_Some_conv case_prod_unfold split: option.splits)
  then show ?thesis using assms(3) by (auto simp: with_container_def ct_Delete_def ct_Uids_def)
qed

text \<open>An unknown name stands for the opened folder: a deletion there deletes from that one.\<close>

lemma unknown_name_is_opened_folder:
  "d \<noteq> [] \<Longrightarrow> mw_data w = Some t \<Longrightarrow> t d = None \<Longrightarrow> mw_folder w = Some i \<Longrightarrow>
     \<exists>msgs. handleMessage env names (action.DeleteMessages d uids strat) w
       = Some (with_container i (fst (ct_Delete uids (mw_heap w ! i))) w, msgs, None)"
  by (simp add: handleMessage_def delete_messages_def mw_container_def mw_dir_def Let_def case_prod_unfold)

text \<open>
  The answer to a change of flags does not say that it replaces the flags, so the store adds them:
  a flag that was cleared stays on the screen.
\<close>

lemma answers_never_replace:
  "flag_loop env d fl enable us f = (msgs, f') \<Longrightarrow> \<forall>m \<in> set msgs. \<exists>info. m = wmsg.MessageInfoMsg (Some info) False False"
proof (induction env d fl enable us f arbitrary: msgs rule: flag_loop.induct)
  case (2 env d fl enable u us f)
  then show ?case by (auto simp: Let_def split: option.splits prod.splits sum.splits)
qed simp

lemma cleared_flag_stays:
  assumes "ms_Messages s (mi_Uid info) = Some (Some old)" "flags_Has (mi_Flags old) fl"
  shows "\<exists>m. ms_Messages (store_info info True False s) (mi_Uid info) = Some (Some m) \<and> flags_Has (mi_Flags m) fl"
  using assms by (auto simp: store_info_def flags_Has_bits bit_or_iff)

end
