(* ===== verification/Keyboard.thy ===== *)
theory Keyboard
  imports Binds TextInput "HOL-Library.AList" "HOL-Library.Monad_Syntax"
begin

text \<open>
  How a key becomes a command: \<open>Aerc.Event\<close>, \<open>simulate\<close>, \<open>getBindings\<close> and the command line of
  \<open>app/aerc.go\<close>, \<open>app/exline.go\<close>, the hints of \<open>app/keyhint.go\<close> and the history of
  \<open>commands/history.go\<close>.  The rest of the application, \<open>'a\<close>, is known by the functions of
  \<open>aerc_env\<close>: what is in the selected tab, how it takes an event and what a command does to it.  So
  are the third-party parts: how a key matches, the graphemes of a text, quoting.  Focus and prompts
  are lists of command lines; completion, drawing and timers are left out.
\<close>

subsection \<open>The history of commands\<close>

record cmd_history =
  ch_cmdList :: "string list"
  ch_current :: int

definition cmdLimit :: nat where "cmdLimit = 1000"

definition ch_Reset :: "cmd_history \<Rightarrow> cmd_history" where
  "ch_Reset h = h\<lparr>ch_current := int (length (ch_cmdList h))\<rparr>"

text \<open>The lines of the history file, the last command of another kind than \<open>repeat\<close>.\<close>

definition ch_initialize :: "string list \<Rightarrow> cmd_history" where
  "ch_initialize ls = ch_Reset \<lparr>ch_cmdList = ls, ch_current = 0\<rparr>"

definition ch_Last :: "(string \<Rightarrow> string) \<Rightarrow> cmd_history \<Rightarrow> string" where
  "ch_Last trim h = (case find (\<lambda>c. trim c \<noteq> ''repeat'') (rev (ch_cmdList h)) of None \<Rightarrow> [] | Some c \<Rightarrow> c)"

definition ch_Add :: "string \<Rightarrow> cmd_history \<Rightarrow> cmd_history" where
  "ch_Add cmd h =
     (let l = (if length (ch_cmdList h) \<ge> cmdLimit then drop 1 (ch_cmdList h) else ch_cmdList h);
          l = (if length l = 0 \<or> l ! (length l - 1) \<noteq> cmd then l @ [cmd] else l)
      in ch_Reset (h\<lparr>ch_cmdList := l\<rparr>))"

definition ch_Prev :: "cmd_history \<Rightarrow> cmd_history \<times> string" where
  "ch_Prev h =
     (if ch_current h \<le> 0 \<or> length (ch_cmdList h) = 0 then (h\<lparr>ch_current := -1\<rparr>, ''(Already at beginning)'')
      else (h\<lparr>ch_current := ch_current h - 1\<rparr>, ch_cmdList h ! nat (ch_current h - 1)))"

definition ch_Next :: "cmd_history \<Rightarrow> cmd_history \<times> string" where
  "ch_Next h =
     (if ch_current h \<ge> int (length (ch_cmdList h)) - 1 \<or> length (ch_cmdList h) = 0
      then (h\<lparr>ch_current := int (length (ch_cmdList h))\<rparr>, ''(Already at end)'')
      else (h\<lparr>ch_current := ch_current h + 1\<rparr>, ch_cmdList h ! nat (ch_current h + 1)))"

subsection \<open>Events\<close>

record vkey =
  vk_Keycode :: rune
  vk_ShiftedCode :: rune
  vk_Modifiers :: "modifier set"
  vk_Text :: "string list"

datatype aerc_event = EvKey vkey | EvMouse int int | EvPasteStart | EvPasteEnd | EvFocusIn | EvFocusOut | EvColorTheme

text \<open>What a command line makes of a key.\<close>

datatype ex_key = ExEnter | ExUp | ExDown | ExEsc | ExInput ti_key

text \<open>A command line, the prompt of a command (with the command so far) and a prompt with choices.\<close>

datatype ex_kind = ExCommand | ExPrompt string | ExChoices "(string \<times> string) list"

record exline =
  xl_kind :: ex_kind
  xl_input :: text_input

record 'a aerc =
  ae_app :: 'a
  ae_focused :: "exline list"
  ae_prompts :: "exline list"
  ae_history :: cmd_history
  ae_simulating :: nat
  ae_pasting :: bool
  ae_pending :: "key_stroke list"
  ae_keyhint :: "(string \<times> string) list option"
  ae_hintPending :: bool
  ae_errors :: "string list"

record 'a aerc_env =
  en_bindings :: "'a \<Rightarrow> key_bindings"
  en_global :: key_bindings
  en_hints :: "'a \<Rightarrow> bool"
  en_quake :: "vkey \<Rightarrow> bool"
  en_toggleQuake :: "'a \<Rightarrow> 'a"
  en_dialog :: "aerc_event \<Rightarrow> 'a \<Rightarrow> ('a \<times> bool) option"
  en_content :: "aerc_event \<Rightarrow> 'a \<Rightarrow> ('a \<times> bool) option"
  en_mouse :: "int \<Rightarrow> int \<Rightarrow> 'a \<Rightarrow> 'a"
  en_focus :: "bool \<Rightarrow> 'a \<Rightarrow> ('a \<times> bool) option"
  en_theme :: "'a \<Rightarrow> 'a \<times> bool"
  en_cmd :: "string \<Rightarrow> 'a \<Rightarrow> 'a \<times> string option"
  en_exkey :: "vkey \<Rightarrow> ex_key"
  en_matches :: "vkey \<Rightarrow> rune \<Rightarrow> modifier set \<Rightarrow> bool"
  en_upper :: "rune \<Rightarrow> bool"
  en_lower :: "rune \<Rightarrow> rune"
  en_text :: "rune \<Rightarrow> string list"
  en_chars :: "string \<Rightarrow> string list"
  en_quote :: "string \<Rightarrow> string"
  en_format :: "key_stroke list \<Rightarrow> string"

definition new_aerc :: "'a \<Rightarrow> 'a aerc" where
  "new_aerc app = \<lparr>ae_app = app, ae_focused = [], ae_prompts = [], ae_history = ch_initialize [], ae_simulating = 0,
     ae_pasting = False, ae_pending = [], ae_keyhint = None, ae_hintPending = False, ae_errors = []\<rparr>"

subsection \<open>The binding table of a tab\<close>

record bindings_config =
  bn_Global :: key_bindings
  bn_AccountWizard :: key_bindings
  bn_Compose :: key_bindings
  bn_ComposeEditor :: key_bindings
  bn_ComposeReview :: key_bindings
  bn_MessageList :: key_bindings
  bn_MessageView :: key_bindings
  bn_MessageViewPassthrough :: key_bindings
  bn_Terminal :: key_bindings

text \<open>The content of a tab: for composers and viewers, the state that \<open>Bindings()\<close> reports.\<close>

datatype tab_content = TabAccount | TabWizard | TabComposer string | TabViewer string | TabTerminal | TabOther

definition getBindings :: "bindings_config \<Rightarrow> tab_content \<Rightarrow> string \<Rightarrow> string \<Rightarrow> key_bindings" where
  "getBindings cf content selectedAccountName folder =
     (case content of
        TabAccount \<Rightarrow> ForFolder (ForAccount (bn_MessageList cf) selectedAccountName) folder
      | TabWizard \<Rightarrow> bn_AccountWizard cf
      | TabComposer b \<Rightarrow>
          (let binds = (if b = ''compose::editor'' then ForAccount (bn_ComposeEditor cf) selectedAccountName
                        else if b = ''compose::review'' then ForAccount (bn_ComposeReview cf) selectedAccountName
                        else ForAccount (bn_Compose cf) selectedAccountName)
           in ForFolder binds folder)
      | TabViewer b \<Rightarrow>
          (let binds = (if b = ''view::passthrough'' then ForAccount (bn_MessageViewPassthrough cf) selectedAccountName
                        else ForAccount (bn_MessageView cf) selectedAccountName)
           in ForFolder binds folder)
      | TabTerminal \<Rightarrow> bn_Terminal cf
      | TabOther \<Rightarrow> bn_Global cf)"

subsection \<open>Hints\<close>

definition ascii_space :: "char \<Rightarrow> bool" where
  "ascii_space c \<longleftrightarrow> c = CHR '' '' \<or> c \<in> {CHR 0x09, CHR 0x0A, CHR 0x0B, CHR 0x0C, CHR 0x0D}"

definition trim_space :: "string \<Rightarrow> string" where
  "trim_space s = rev (dropWhile ascii_space (rev (dropWhile ascii_space s)))"

definition hint_desc :: "(key_stroke list \<Rightarrow> string) \<Rightarrow> key_stroke list \<Rightarrow> string" where
  "hint_desc format strokes =
     (let s = format strokes;
          s = trim_prefix s '':'';
          s = trim_suffix s ''<enter>'';
          s = trim_suffix s ''<Enter>''
      in trim_space s)"

fun hint_loop ::
  "(key_stroke list \<Rightarrow> string) \<Rightarrow> key_stroke list \<Rightarrow> binding list \<Rightarrow> (string \<times> string) list \<Rightarrow> (string \<times> string) list" where
  "hint_loop format pfx [] entries = entries"
| "hint_loop format pfx (b # bs) entries =
     (if length (bd_Input b) \<le> length pfx then hint_loop format pfx bs entries
      else if \<not> list_all2 stroke_eq pfx (take (length pfx) (bd_Input b)) then hint_loop format pfx bs entries
      else
        (let remaining = format (drop (length pfx) (bd_Input b))
         in if remaining \<in> fst ` set entries then hint_loop format pfx bs entries
            else
              (let desc = (if bd_Annotation b = [] then hint_desc format (bd_Output b) else bd_Annotation b)
               in hint_loop format pfx bs (entries @ [(remaining, desc)]))))"

text \<open>The keys are distinct: any sorting by them gives this order.\<close>

definition NewKeyHint :: "(key_stroke list \<Rightarrow> string) \<Rightarrow> binding list \<Rightarrow> key_stroke list \<Rightarrow> (string \<times> string) list" where
  "NewKeyHint format bindings pfx = sort_key fst (hint_loop format pfx bindings [])"

subsection \<open>Command lines\<close>

definition new_exline :: "'a aerc_env \<Rightarrow> ex_kind \<Rightarrow> string \<Rightarrow> string \<Rightarrow> exline" where
  "new_exline env kind prompt cmd =
     \<lparr>xl_kind = kind, xl_input = ti_Set (en_chars env) cmd (Prompt prompt (NewTextInput (en_chars env) []))\<rparr>"

text \<open>Focus of the new line, the tab's content losing it.\<close>

definition BeginExCommand :: "'a aerc_env \<Rightarrow> string \<Rightarrow> 'a aerc \<Rightarrow> 'a aerc" where
  "BeginExCommand env cmd a = a\<lparr>ae_focused := new_exline env ExCommand '':'' cmd # ae_focused a\<rparr>"

definition RegisterPrompt :: "'a aerc_env \<Rightarrow> string \<Rightarrow> string \<Rightarrow> 'a aerc \<Rightarrow> 'a aerc" where
  "RegisterPrompt env prompt cmd a = a\<lparr>ae_prompts := ae_prompts a @ [new_exline env (ExPrompt cmd) prompt []]\<rparr>"

record choice =
  cc_Key :: string
  cc_Text :: string
  cc_Command :: string

definition choice_text :: "choice \<Rightarrow> string" where
  "choice_text c =
     (if str_contains (cc_Text c) (cc_Key c)
      then str_replace1 (cc_Text c) (cc_Key c) (''['' @ cc_Key c @ '']'')
      else ''['' @ cc_Key c @ ''] '' @ cc_Text c)"

definition RegisterChoices :: "'a aerc_env \<Rightarrow> choice list \<Rightarrow> 'a aerc \<Rightarrow> 'a aerc" where
  "RegisterChoices env choices a =
     (let cmds = fold (\<lambda>c m. AList.update (cc_Key c) (cc_Command c) m) choices [];
          prompt = str_join '', '' (map choice_text choices) @ ''? ''
      in a\<lparr>ae_prompts := ae_prompts a @ [new_exline env (ExChoices cmds) prompt []]\<rparr>)"

text \<open>Drawing shows the prompt registered last.\<close>

definition show_prompt :: "'a aerc \<Rightarrow> 'a aerc" where
  "show_prompt a =
     (if length (ae_prompts a) > 0
      then a\<lparr>ae_prompts := butlast (ae_prompts a), ae_focused := last (ae_prompts a) # ae_focused a\<rparr>
      else a)"

definition run_cmd :: "'a aerc_env \<Rightarrow> string \<Rightarrow> 'a aerc \<Rightarrow> 'a aerc" where
  "run_cmd env cmd a =
     (case en_cmd env cmd (ae_app a) of
        (app, err) \<Rightarrow> a\<lparr>ae_app := app, ae_errors := ae_errors a @ (case err of None \<Rightarrow> [] | Some e \<Rightarrow> [e])\<rparr>)"

text \<open>The commit callbacks; only a typed command is added to the history.\<close>

definition ex_commit :: "'a aerc_env \<Rightarrow> ex_kind \<Rightarrow> string \<Rightarrow> 'a aerc \<Rightarrow> 'a aerc" where
  "ex_commit env kind text a =
     (case kind of
        ExCommand \<Rightarrow>
          (let a = run_cmd env text a
           in if ae_simulating a = 0 then a\<lparr>ae_history := ch_Add text (ae_history a)\<rparr> else a)
      | ExPrompt cmd \<Rightarrow> run_cmd env (if text \<noteq> [] then cmd @ '' '' @ en_quote env text else cmd) a
      | ExChoices cmds \<Rightarrow> (case map_of cmds text of None \<Rightarrow> a | Some cmd \<Rightarrow> run_cmd env cmd a))"

text \<open>A prompt has no history: its own text stands for every entry.\<close>

definition ex_recall :: "'a aerc_env \<Rightarrow> bool \<Rightarrow> exline \<Rightarrow> 'a aerc \<Rightarrow> 'a aerc \<times> string" where
  "ex_recall env back x a =
     (case xl_kind x of
        ExCommand \<Rightarrow>
          (case (if back then ch_Prev (ae_history a) else ch_Next (ae_history a)) of
             (h, t) \<Rightarrow> (a\<lparr>ae_history := h\<rparr>, t))
      | _ \<Rightarrow> (a, ti_String (xl_input x)))"

text \<open>
  \<open>ExLine.Event\<close> on the line \<open>x\<close> that has the focus, before \<open>rest\<close>.  \<open>finish\<close> gives the focus back;
  commands are taken not to change the focus.
\<close>

definition ex_Event :: "'a aerc_env \<Rightarrow> exline \<Rightarrow> exline list \<Rightarrow> aerc_event \<Rightarrow> 'a aerc \<Rightarrow> 'a aerc" where
  "ex_Event env x rest ev a =
     (case ev of
        EvKey k \<Rightarrow>
          (case en_exkey env k of
             ExEnter \<Rightarrow> (ex_commit env (xl_kind x) (ti_String (xl_input x)) a)\<lparr>ae_focused := rest\<rparr>
           | ExUp \<Rightarrow>
               (case ex_recall env True x a of
                  (a, t) \<Rightarrow> a\<lparr>ae_focused := x\<lparr>xl_input := ti_Set (en_chars env) t (xl_input x)\<rparr> # rest\<rparr>)
           | ExDown \<Rightarrow>
               (case ex_recall env False x a of
                  (a, t) \<Rightarrow> a\<lparr>ae_focused := x\<lparr>xl_input := ti_Set (en_chars env) t (xl_input x)\<rparr> # rest\<rparr>)
           | ExEsc \<Rightarrow>
               (let a = (if xl_kind x = ExCommand then a\<lparr>ae_history := ch_Reset (ae_history a)\<rparr> else a)
                in a\<lparr>ae_focused := rest\<rparr>)
           | ExInput tk \<Rightarrow> a\<lparr>ae_focused := x\<lparr>xl_input := ti_Event tk (xl_input x)\<rparr> # rest\<rparr>)
      | _ \<Rightarrow> a)"

subsection \<open>Keys and bindings\<close>

definition clearKeyhint :: "'a aerc \<Rightarrow> 'a aerc" where
  "clearKeyhint a = a\<lparr>ae_keyhint := None, ae_hintPending := False\<rparr>"

text \<open>The key event that stands for a stroke of a binding's output.\<close>

definition simulated_key :: "'a aerc_env \<Rightarrow> key_stroke \<Rightarrow> vkey" where
  "simulated_key env stroke =
     (let k = \<lparr>vk_Keycode = ks_Key stroke, vk_ShiftedCode = 0, vk_Modifiers = ks_Modifiers stroke, vk_Text = []\<rparr>;
          k = (if en_upper env (ks_Key stroke)
               then k\<lparr>vk_Keycode := en_lower env (ks_Key stroke), vk_Modifiers := insert ModShift (vk_Modifiers k)\<rparr> else k)
      in if ks_Modifiers stroke \<inter> {ModCtrl, ModAlt, ModOther 0, ModOther 1} = {}
         then k\<lparr>vk_Text := en_text env (ks_Key stroke)\<rparr> else k)"

definition event_stroke :: "vkey \<Rightarrow> key_stroke" where
  "event_stroke k =
     (if vk_ShiftedCode k \<noteq> 0 then \<lparr>ks_Modifiers = vk_Modifiers k - {ModShift}, ks_Key = vk_ShiftedCode k\<rparr>
      else \<lparr>ks_Modifiers = vk_Modifiers k, ks_Key = vk_Keycode k\<rparr>)"

definition to_content :: "'a aerc_env \<Rightarrow> aerc_event \<Rightarrow> 'a aerc \<Rightarrow> 'a aerc \<times> bool" where
  "to_content env ev a =
     (case en_content env ev (ae_app a) of None \<Rightarrow> (a, False) | Some (app, r) \<Rightarrow> (a\<lparr>ae_app := app\<rparr>, r))"

text \<open>The hint box when the keys so far are the beginning of a binding.\<close>

definition hint_pending :: "'a aerc_env \<Rightarrow> 'a aerc \<Rightarrow> 'a aerc" where
  "hint_pending env a =
     (if ae_simulating a = 0 \<and> en_hints env (ae_app a) then
        (case ae_keyhint a of
           Some _ \<Rightarrow>
             (let kb = en_bindings env (ae_app a);
                  allBindings = kb_Bindings kb @ (if kb_Globals kb then kb_Bindings (en_global env) else [])
              in a\<lparr>ae_keyhint := Some (NewKeyHint (en_format env) allBindings (ae_pending a))\<rparr>)
         | None \<Rightarrow> a\<lparr>ae_hintPending := True\<rparr>)
      else a)"

text \<open>A key when nothing has the focus; \<open>sim\<close> is \<open>simulate\<close> with what fuel is left.\<close>

definition bound_key ::
  "'a aerc_env \<Rightarrow> (key_stroke list \<Rightarrow> 'a aerc \<Rightarrow> 'a aerc option) \<Rightarrow> vkey \<Rightarrow> 'a aerc \<Rightarrow> ('a aerc \<times> bool) option" where
  "bound_key env sim k a =
     (let a = a\<lparr>ae_pending := ae_pending a @ [event_stroke k]\<rparr>;
          kb = en_bindings env (ae_app a);
          found = (\<lambda>strokes. map_option (\<lambda>a. (a, True)) (sim strokes (clearKeyhint a)));
          r1 = GetBinding kb (ae_pending a);
          r2 = (if kb_Globals kb then GetBinding (en_global env) (ae_pending a) else BINDING_NOT_FOUND)
      in case r1 of
           BINDING_FOUND strokes \<Rightarrow> found strokes
         | _ \<Rightarrow>
             (case r2 of
                BINDING_FOUND strokes \<Rightarrow> found strokes
              | _ \<Rightarrow>
                  (let incomplete = (r1 = BINDING_INCOMPLETE \<or> r2 = BINDING_INCOMPLETE)
                   in if \<not> incomplete then
                        (let a = clearKeyhint (a\<lparr>ae_pending := []\<rparr>);
                             exKey = (if ae_simulating a > 0 then kb_ExKey (en_global env) else kb_ExKey kb)
                         in if en_matches env k (ks_Key exKey) (ks_Modifiers exKey) then Some (BeginExCommand env [] a, True)
                            else Some (to_content env (EvKey k) a))
                      else Some (hint_pending env a, False))))"

definition other_event :: "'a aerc_env \<Rightarrow> aerc_event \<Rightarrow> 'a aerc \<Rightarrow> 'a aerc \<times> bool" where
  "other_event env ev a =
     (case ev of
        EvKey k \<Rightarrow> (a, False)
      | EvMouse col row \<Rightarrow> (a\<lparr>ae_app := en_mouse env col row (ae_app a)\<rparr>, True)
      | EvPasteStart \<Rightarrow> to_content env ev (a\<lparr>ae_pasting := True\<rparr>)
      | EvPasteEnd \<Rightarrow> to_content env ev (a\<lparr>ae_pasting := False\<rparr>)
      | EvFocusIn \<Rightarrow> (case en_focus env True (ae_app a) of None \<Rightarrow> (a, False) | Some (app, r) \<Rightarrow> (a\<lparr>ae_app := app\<rparr>, True))
      | EvFocusOut \<Rightarrow> (case en_focus env False (ae_app a) of None \<Rightarrow> (a, False) | Some (app, r) \<Rightarrow> (a\<lparr>ae_app := app\<rparr>, True))
      | EvColorTheme \<Rightarrow> (case en_theme env (ae_app a) of (app, r) \<Rightarrow> (a\<lparr>ae_app := app\<rparr>, r)))"

definition dispatch ::
  "'a aerc_env \<Rightarrow> (key_stroke list \<Rightarrow> 'a aerc \<Rightarrow> 'a aerc option) \<Rightarrow> aerc_event \<Rightarrow> 'a aerc \<Rightarrow> ('a aerc \<times> bool) option" where
  "dispatch env sim ev a =
     (if (case ev of EvKey k \<Rightarrow> en_quake env k | _ \<Rightarrow> False) then Some (a\<lparr>ae_app := en_toggleQuake env (ae_app a)\<rparr>, True)
      else (case en_dialog env ev (ae_app a) of
              Some (app, r) \<Rightarrow> Some (a\<lparr>ae_app := app\<rparr>, r)
            | None \<Rightarrow>
                (case ae_focused a of
                   x # rest \<Rightarrow> Some (ex_Event env x rest ev a, True)
                 | [] \<Rightarrow>
                     (case ev of
                        EvKey k \<Rightarrow>
                          if ae_pasting a then Some (to_content env ev a) else bound_key env sim k a
                      | _ \<Rightarrow> Some (other_event env ev a)))))"

fun sim_strokes ::
  "'a aerc_env \<Rightarrow> (aerc_event \<Rightarrow> 'a aerc \<Rightarrow> ('a aerc \<times> bool) option) \<Rightarrow> key_stroke list \<Rightarrow> 'a aerc \<Rightarrow> 'a aerc option" where
  "sim_strokes env event [] a = Some a"
| "sim_strokes env event (s # ss) a =
     do { (a, r) \<leftarrow> event (EvKey (simulated_key env s)) a; sim_strokes env event ss a }"

definition simulate_with ::
  "'a aerc_env \<Rightarrow> (aerc_event \<Rightarrow> 'a aerc \<Rightarrow> ('a aerc \<times> bool) option) \<Rightarrow> key_stroke list \<Rightarrow> 'a aerc \<Rightarrow> 'a aerc option" where
  "simulate_with env event strokes a =
     map_option (\<lambda>a. a\<lparr>ae_simulating := ae_simulating a - 1\<rparr>)
       (sim_strokes env event strokes
          (clearKeyhint (a\<lparr>ae_pending := []\<rparr>)\<lparr>ae_simulating := ae_simulating a + 1\<rparr>))"

text \<open>
  A binding simulates keys, which may be bound again: \<open>n\<close> bounds how deep.  \<open>None\<close> is that bound; a
  binding that leads back to itself exceeds every bound, and the code's stack.
\<close>

fun aerc_Event :: "nat \<Rightarrow> 'a aerc_env \<Rightarrow> aerc_event \<Rightarrow> 'a aerc \<Rightarrow> ('a aerc \<times> bool) option" where
  "aerc_Event 0 env ev a = dispatch env (\<lambda>_ _. None) ev a"
| "aerc_Event (Suc n) env ev a = dispatch env (simulate_with env (aerc_Event n env)) ev a"

end
