(* ===== verification/KeyboardProps.thy ===== *)
theory KeyboardProps
  imports Keyboard
begin

text \<open>
  What pressing keys does: bound command lines run their command, unfinished keys are the beginning
  of a binding, and the history stays bounded.
\<close>

subsection \<open>Typing into a command line\<close>

lemma insert_at_end:
  "ti_index ti = length (ti_text ti) \<Longrightarrow>
     ti_text (ti_insert c ti) = ti_text ti @ [c] \<and> ti_index (ti_insert c ti) = length (ti_text (ti_insert c ti))"
  by (simp add: ti_insert_def Let_def)

lemma text_at_end:
  "ti_index ti = length (ti_text ti) \<Longrightarrow>
     ti_text (foldl (\<lambda>ti ch. ti_insert ch ti) ti gs) = ti_text ti @ gs
     \<and> ti_index (foldl (\<lambda>ti ch. ti_insert ch ti) ti gs) = length (ti_text ti @ gs)"
proof (induction gs arbitrary: ti)
  case (Cons g gs)
  then show ?case using insert_at_end[OF Cons.prems, of g] by simp
qed simp

lemma typed_at_end:
  assumes "ti_index ti = length (ti_text ti)"
  shows "ti_text (ti_Event (KText gs) ti) = ti_text ti @ gs" "ti_index (ti_Event (KText gs) ti) = length (ti_text ti @ gs)"
proof -
  have "ti_index (invalidateCompletions ti) = length (ti_text (invalidateCompletions ti))" "ti_text (invalidateCompletions ti) = ti_text ti"
    using assms by (simp_all add: invalidateCompletions_def)
  with text_at_end[of "invalidateCompletions ti" gs]
  show "ti_text (ti_Event (KText gs) ti) = ti_text ti @ gs" "ti_index (ti_Event (KText gs) ti) = length (ti_text ti @ gs)"
    by (simp_all add: ti_Event_def)
qed

lemma String_concat: "ti_String ti = concat (ti_text ti)"
proof -
  have "foldl (@) s cs = s @ concat cs" for s :: string and cs by (induction cs arbitrary: s) auto
  then show ?thesis by (simp add: ti_String_def charactersToString_def)
qed

text \<open>The keys of a command line, typed one after the other into the line with the focus.\<close>

definition free :: "'a aerc_env \<Rightarrow> 'a \<Rightarrow> vkey \<Rightarrow> bool" where
  "free env app k \<longleftrightarrow> \<not> en_quake env k \<and> en_dialog env (EvKey k) app = None"

lemma focused_event:
  "free env (ae_app a) k \<Longrightarrow> ae_focused a = x # rest \<Longrightarrow> aerc_Event n env (EvKey k) a = Some (ex_Event env x rest (EvKey k) a, True)"
  by (cases n) (simp_all add: dispatch_def free_def)

lemma type_strokes:
  assumes "ae_focused a = x # rest" "ti_index (xl_input x) = length (ti_text (xl_input x))"
    and "\<forall>s \<in> set ss. free env (ae_app a) (simulated_key env s) \<and> en_exkey env (simulated_key env s) = ExInput (KText (en_text env (ks_Key s)))"
  shows "\<exists>y. sim_strokes env (aerc_Event n env) ss a = Some (a\<lparr>ae_focused := y # rest\<rparr>) \<and> xl_kind y = xl_kind x
    \<and> ti_text (xl_input y) = ti_text (xl_input x) @ concat (map (\<lambda>s. en_text env (ks_Key s)) ss)"
  using assms
proof (induction ss arbitrary: a x)
  case Nil
  have "a = a\<lparr>ae_focused := x # rest\<rparr>" using Nil.prems(1) by (cases a) simp
  then show ?case by (intro exI[of _ x]) simp
next
  case (Cons s ss)
  let ?k = "simulated_key env s" and ?gs = "en_text env (ks_Key s)"
  let ?y = "x\<lparr>xl_input := ti_Event (KText ?gs) (xl_input x)\<rparr>"
  let ?a = "a\<lparr>ae_focused := ?y # rest\<rparr>"
  have e: "aerc_Event n env (EvKey ?k) a = Some (?a, True)"
    using focused_event[of env a ?k x rest n] Cons.prems(1,3) by (simp add: ex_Event_def)
  have y: "ti_text (xl_input ?y) = ti_text (xl_input x) @ ?gs" "ti_index (xl_input ?y) = length (ti_text (xl_input ?y))"
    using typed_at_end[OF Cons.prems(2), of ?gs] by simp_all
  have "\<exists>z. sim_strokes env (aerc_Event n env) ss ?a = Some (?a\<lparr>ae_focused := z # rest\<rparr>) \<and> xl_kind z = xl_kind ?y
      \<and> ti_text (xl_input z) = ti_text (xl_input ?y) @ concat (map (\<lambda>s. en_text env (ks_Key s)) ss)"
    by (rule Cons.IH[of ?a ?y]) (use Cons.prems(3) y(2) in simp_all)
  then show ?case using e y(1) by auto
qed

lemma sim_append:
  "sim_strokes env ev (xs @ ys) a = Option.bind (sim_strokes env ev xs a) (sim_strokes env ev ys)"
proof (induction xs arbitrary: a)
  case (Cons x xs)
  then show ?case by (cases "ev (EvKey (simulated_key env x)) a") (auto split: prod.split)
qed simp

subsection \<open>Properties\<close>

text \<open>The output of a binding that types a command: the key of the command line, text and Enter.\<close>

definition types_command :: "'a aerc_env \<Rightarrow> 'a \<Rightarrow> key_stroke \<Rightarrow> key_stroke list \<Rightarrow> key_stroke \<Rightarrow> bool" where
  "types_command env app colon ss enter \<longleftrightarrow>
     (\<forall>s \<in> set (colon # ss @ [enter]). free env app (simulated_key env s))
     \<and> (\<forall>s \<in> set ss. en_exkey env (simulated_key env s) = ExInput (KText (en_text env (ks_Key s))))
     \<and> en_exkey env (simulated_key env enter) = ExEnter
     \<and> en_matches env (simulated_key env colon) (ks_Key (kb_ExKey (en_global env))) (ks_Modifiers (kb_ExKey (en_global env)))
     \<and> GetBinding (en_bindings env app) [event_stroke (simulated_key env colon)] = BINDING_NOT_FOUND
     \<and> (kb_Globals (en_bindings env app) \<longrightarrow> GetBinding (en_global env) [event_stroke (simulated_key env colon)] = BINDING_NOT_FOUND)"

text \<open>
  C39. A key that completes a binding to a command line runs that command: the command line opens,
  receives the text and is committed with exactly the text of the binding; afterwards no key is
  pending, the focus is back, and the history does not have the command.
\<close>

theorem bound_command_runs:
  assumes "ae_focused a = []" "\<not> ae_pasting a" "free env (ae_app a) k"
    and "GetBinding (en_bindings env (ae_app a)) (ae_pending a @ [event_stroke k]) = BINDING_FOUND (colon # ss @ [enter])"
    and "types_command env (ae_app a) colon ss enter" "en_chars env [] = []"
  shows "\<exists>b. aerc_Event (Suc n) env (EvKey k) a = Some (b, True)
    \<and> ae_app b = fst (en_cmd env (concat (concat (map (\<lambda>s. en_text env (ks_Key s)) ss))) (ae_app a))
    \<and> ae_pending b = [] \<and> ae_focused b = [] \<and> ae_history b = ae_history a \<and> ae_simulating b = ae_simulating a"
proof -
  let ?cmd = "concat (concat (map (\<lambda>s. en_text env (ks_Key s)) ss))"
  let ?ev = "aerc_Event n env"
  define a0 where "a0 = clearKeyhint (clearKeyhint (a\<lparr>ae_pending := ae_pending a @ [event_stroke k]\<rparr>)\<lparr>ae_pending := []\<rparr>)
      \<lparr>ae_simulating := ae_simulating a + 1\<rparr>"
  have a0: "ae_app a0 = ae_app a" "ae_focused a0 = []" "ae_pending a0 = []" "ae_simulating a0 = Suc (ae_simulating a)"
    "\<not> ae_pasting a0" "ae_history a0 = ae_history a" using assms(1,2) by (simp_all add: a0_def clearKeyhint_def)
  let ?x = "new_exline env ExCommand '':'' []"
  define a1 where "a1 = (clearKeyhint (a0\<lparr>ae_pending := []\<rparr>))\<lparr>ae_focused := [?x]\<rparr>"
  have c: "?ev (EvKey (simulated_key env colon)) a0 = Some (a1, True)"
  proof -
    have "bound_key env sim (simulated_key env colon) a0 = Some (a1, True)" for sim
      using assms(5) a0 unfolding types_command_def
      by (auto simp: bound_key_def Let_def clearKeyhint_def a1_def BeginExCommand_def)
    then show ?thesis using assms(5) a0 by (cases n) (auto simp: dispatch_def types_command_def free_def)
  qed
  have a1: "ae_app a1 = ae_app a" "ae_focused a1 = [?x]" "ae_simulating a1 = Suc (ae_simulating a)" "ae_history a1 = ae_history a"
    "ae_pending a1 = []" using a0 by (simp_all add: a1_def clearKeyhint_def)
  have x: "ti_text (xl_input ?x) = []" "ti_index (xl_input ?x) = length (ti_text (xl_input ?x))" "xl_kind ?x = ExCommand"
    using assms(6) by (simp_all add: new_exline_def ti_Set_def Prompt_def)
  obtain y where y: "sim_strokes env ?ev ss a1 = Some (a1\<lparr>ae_focused := [y]\<rparr>)" "xl_kind y = ExCommand"
    "ti_text (xl_input y) = concat (map (\<lambda>s. en_text env (ks_Key s)) ss)"
    using type_strokes[OF a1(2) x(2), of ss env n] assms(5) a1(1) x(1,3) by (auto simp: types_command_def)
  let ?a2 = "a1\<lparr>ae_focused := [y]\<rparr>"
  let ?a3 = "(run_cmd env ?cmd ?a2)\<lparr>ae_focused := []\<rparr>"
  have "ex_Event env y [] (EvKey (simulated_key env enter)) ?a2 = ?a3"
    using assms(5) y a1(3) by (simp add: ex_Event_def types_command_def ex_commit_def String_concat run_cmd_def split: prod.split)
  then have e: "?ev (EvKey (simulated_key env enter)) ?a2 = Some (?a3, True)"
    using focused_event[of env ?a2 "simulated_key env enter" y "[]" n] assms(5) a1(1) by (simp add: types_command_def)
  have s: "sim_strokes env ?ev (colon # ss @ [enter]) a0 = Some ?a3" using c y(1) e by (simp add: sim_append)
  have "dispatch env (simulate_with env ?ev) (EvKey k) a = Some (?a3\<lparr>ae_simulating := ae_simulating ?a3 - 1\<rparr>, True)"
    using assms(1-4) s
    by (simp add: dispatch_def free_def bound_key_def Let_def simulate_with_def a0_def clearKeyhint_def)
  then show ?thesis using a1 by (auto simp: run_cmd_def split: prod.split)
qed

text \<open>An application that records the commands it runs; \<open>q\<close> is bound to \<open>:hi<Enter>\<close>.\<close>

definition key_of :: "rune \<Rightarrow> key_stroke" where
  "key_of r = \<lparr>ks_Modifiers = {}, ks_Key = r\<rparr>"

definition press :: "rune \<Rightarrow> vkey" where
  "press r = \<lparr>vk_Keycode = r, vk_ShiftedCode = 0, vk_Modifiers = {}, vk_Text = []\<rparr>"

definition sample_table :: "key_stroke list \<Rightarrow> key_bindings" where
  "sample_table out =
     KeyBindings [\<lparr>bd_Output = out, bd_Input = [key_of 113], bd_Annotation = []\<rparr>] True (key_of 58) (key_of 9) [] (\<lambda>_. 0)"

definition recorder :: "key_stroke list \<Rightarrow> string list aerc_env" where
  "recorder out =
    \<lparr>en_bindings = (\<lambda>_. sample_table out), en_global = NewKeyBindings (\<lambda>_. 9), en_hints = (\<lambda>_. False),
     en_quake = (\<lambda>_. False), en_toggleQuake = id, en_dialog = (\<lambda>_ _. None), en_content = (\<lambda>_ _. None),
     en_mouse = (\<lambda>_ _ a. a), en_focus = (\<lambda>_ _. None), en_theme = (\<lambda>a. (a, False)), en_cmd = (\<lambda>c a. (a @ [c], None)),
     en_exkey = (\<lambda>k. if vk_Keycode k = 13 then ExEnter else ExInput (KText (vk_Text k))),
     en_matches = (\<lambda>k r m. vk_Keycode k = r \<and> vk_Modifiers k = m), en_upper = (\<lambda>r. 65 \<le> r \<and> r \<le> 90),
     en_lower = (\<lambda>r. r + 32), en_text = (\<lambda>r. if r = 104 then [''h''] else if r = 105 then [''i''] else [''q'']), en_chars = map (\<lambda>c. [c]), en_quote = id,
     en_format = (\<lambda>_. [])\<rparr>"

lemma bound_command_runs_witness:
  "\<exists>b. aerc_Event 1 (recorder (map key_of [58, 104, 105, 13])) (EvKey (press 113)) (new_aerc []) = Some (b, True) \<and> ae_app b = [''hi'']"
proof -
  let ?env = "recorder (map key_of [58, 104, 105, 13])"
  have f: "GetBinding (en_bindings ?env []) (ae_pending (new_aerc []) @ [event_stroke (press 113)])
      = BINDING_FOUND (key_of 58 # [key_of 104, key_of 105] @ [key_of 13])"
    by (simp add: recorder_def sample_table_def GetBinding_def new_aerc_def event_stroke_def press_def key_of_def stroke_eq_def)
  have t: "types_command ?env [] (key_of 58) [key_of 104, key_of 105] (key_of 13)"
    by (simp add: types_command_def free_def recorder_def simulated_key_def key_of_def sample_table_def NewKeyBindings_def
        GetBinding_def event_stroke_def stroke_eq_def rune_of_def Let_def)
  have w: "concat (concat (map (\<lambda>s. en_text ?env (ks_Key s)) [key_of 104, key_of 105])) = ''hi''"
    by (simp add: recorder_def key_of_def)
  have c: "fst (en_cmd ?env ''hi'' []) = [''hi'']" "en_chars ?env [] = []" by (simp_all add: recorder_def)
  have fr: "ae_focused (new_aerc []) = []" "\<not> ae_pasting (new_aerc [])" "free ?env (ae_app (new_aerc [])) (press 113)"
    by (simp_all add: new_aerc_def free_def recorder_def)
  have ap: "ae_app (new_aerc []) = []" by (simp add: new_aerc_def)
  show ?thesis
    using bound_command_runs[OF fr, of "key_of 58" "[key_of 104, key_of 105]" "key_of 13" 0] f t
    unfolding ap w c by auto
qed

subsection \<open>Bindings of bindings\<close>

text \<open>
  A key bound to itself is looked up again when it is simulated: no amount of fuel is enough, the
  code recurses until its stack is exhausted.
\<close>

lemma self_binding_loops:
  "ae_focused a = [] \<Longrightarrow> \<not> ae_pasting a \<Longrightarrow> ae_pending a = [] \<Longrightarrow> aerc_Event n (recorder [key_of 113]) (EvKey (press 113)) a = None"
proof (induction n arbitrary: a)
  case 0
  then show ?case
    by (simp add: dispatch_def recorder_def bound_key_def Let_def GetBinding_def sample_table_def event_stroke_def press_def
        key_of_def stroke_eq_def)
next
  case (Suc n)
  have k: "simulated_key (recorder [key_of 113]) (key_of 113) = (press 113)\<lparr>vk_Text := [''q'']\<rparr>"
    by (simp add: simulated_key_def recorder_def key_of_def press_def)
  have same: "aerc_Event n (recorder [key_of 113]) (EvKey ((press 113)\<lparr>vk_Text := [''q'']\<rparr>)) b = None"
    if "ae_focused b = []" "\<not> ae_pasting b" "ae_pending b = []" for b
    using Suc.IH[OF that] that
    by (cases n) (simp_all add: dispatch_def recorder_def bound_key_def Let_def GetBinding_def sample_table_def event_stroke_def
        press_def key_of_def stroke_eq_def)
  have "simulate_with (recorder [key_of 113]) (aerc_Event n (recorder [key_of 113])) [key_of 113] b = None"
    if "ae_focused b = []" "\<not> ae_pasting b" for b
    using same[of "clearKeyhint (b\<lparr>ae_pending := []\<rparr>)\<lparr>ae_simulating := ae_simulating b + 1\<rparr>"] that
    by (simp add: simulate_with_def k clearKeyhint_def)
  then have "simulate_with (recorder [key_of 113]) (aerc_Event n (recorder [key_of 113])) [key_of 113]
      (clearKeyhint (a\<lparr>ae_pending := [key_of 113]\<rparr>)) = None" using Suc.prems by (simp add: clearKeyhint_def)
  moreover have "GetBinding (en_bindings (recorder [key_of 113]) (ae_app a)) [key_of 113] = BINDING_FOUND [key_of 113]"
    "event_stroke (press 113) = key_of 113" "\<not> en_quake (recorder [key_of 113]) (press 113)"
    "en_dialog (recorder [key_of 113]) (EvKey (press 113)) (ae_app a) = None"
    by (simp_all add: recorder_def GetBinding_def sample_table_def event_stroke_def press_def key_of_def stroke_eq_def)
  ultimately show ?case using Suc.prems by (simp add: dispatch_def bound_key_def Let_def)
qed

text \<open>
  A simulated capital is the small letter with shift, without the shifted code that a terminal
  sends: it is no longer the stroke of a binding on the capital.
\<close>

lemma simulated_capital_unbound:
  "en_upper env (ks_Key s) \<Longrightarrow> en_lower env (ks_Key s) \<noteq> ks_Key s \<Longrightarrow> \<not> stroke_eq (event_stroke (simulated_key env s)) s"
  by (simp add: event_stroke_def simulated_key_def stroke_eq_def Let_def)

subsection \<open>The history\<close>

text \<open>Going back through the history gives the commands, the last one first.\<close>

definition ch_back :: "nat \<Rightarrow> cmd_history \<Rightarrow> cmd_history" where
  "ch_back k = ((fst \<circ> ch_Prev) ^^ k)"

lemma back_steps: "ch_current h = int (length (ch_cmdList h)) \<Longrightarrow> k \<le> length (ch_cmdList h) \<Longrightarrow>
    ch_back k h = h\<lparr>ch_current := int (length (ch_cmdList h)) - int k\<rparr>"
proof (induction k)
  case 0
  then show ?case by (cases h) (simp add: ch_back_def)
next
  case (Suc k)
  then have "ch_back k h = h\<lparr>ch_current := int (length (ch_cmdList h)) - int k\<rparr>" by simp
  then show ?case using Suc.prems by (auto simp: ch_back_def ch_Prev_def)
qed

lemma ch_Add_list:
  "ch_cmdList (ch_Add cmd h) \<noteq> [] \<and> last (ch_cmdList (ch_Add cmd h)) = cmd
     \<and> ch_current (ch_Add cmd h) = int (length (ch_cmdList (ch_Add cmd h)))"
  by (auto simp: ch_Add_def ch_Reset_def Let_def last_conv_nth)

text \<open>
  C40. After a command was entered the history is at its end and the command is its last; the k-th
  step back recalls the k-th last command, a step forward from there the one after it, and the
  history holds at most a thousand commands when it did before.
\<close>

theorem history_recalls:
  assumes "0 < k" "k \<le> length (ch_cmdList (ch_Add cmd h))"
  shows "snd (ch_Prev (ch_back (k - 1) (ch_Add cmd h))) = ch_cmdList (ch_Add cmd h) ! (length (ch_cmdList (ch_Add cmd h)) - k)
    \<and> (1 < k \<longrightarrow> snd (ch_Next (ch_back k (ch_Add cmd h))) = ch_cmdList (ch_Add cmd h) ! (length (ch_cmdList (ch_Add cmd h)) - k + 1))
    \<and> last (ch_cmdList (ch_Add cmd h)) = cmd
    \<and> (length (ch_cmdList h) \<le> cmdLimit \<longrightarrow> length (ch_cmdList (ch_Add cmd h)) \<le> cmdLimit)"
proof -
  let ?h = "ch_Add cmd h"
  let ?n = "length (ch_cmdList ?h)"
  have c: "ch_current ?h = int ?n" and l: "last (ch_cmdList ?h) = cmd" using ch_Add_list by blast+
  have b: "ch_back (k - 1) ?h = ?h\<lparr>ch_current := int ?n - int (k - 1)\<rparr>" "ch_back k ?h = ?h\<lparr>ch_current := int ?n - int k\<rparr>"
    using back_steps[OF c] assms by simp_all
  have i: "nat (int ?n - int (k - 1) - 1) = ?n - k" "nat (int ?n - int k + 1) = ?n - k + 1" using assms by linarith+
  have "snd (ch_Prev (ch_back (k - 1) ?h)) = ch_cmdList ?h ! (?n - k)"
    using assms i(1) by (simp only: b(1)) (auto simp: ch_Prev_def)
  moreover have "1 < k \<longrightarrow> snd (ch_Next (ch_back k ?h)) = ch_cmdList ?h ! (?n - k + 1)"
    using assms i(2) by (auto simp: b(2) ch_Next_def)
  moreover have "length (ch_cmdList h) \<le> cmdLimit \<longrightarrow> ?n \<le> cmdLimit"
    by (auto simp: ch_Add_def ch_Reset_def Let_def cmdLimit_def)
  ultimately show ?thesis using l by simp
qed

lemma history_recalls_witness:
  "snd (ch_Prev (ch_back 1 (ch_Add ''quit'' (ch_initialize [''open A'', ''close''])))) = ''close''"
  using history_recalls[of 2 "''quit''" "ch_initialize [''open A'', ''close'']"]
  by (simp add: ch_Add_def ch_initialize_def ch_Reset_def cmdLimit_def)

text \<open>A full history loses its oldest command also when the new one repeats the last and is not added.\<close>

lemma repeated_command_shrinks:
  assumes "length (ch_cmdList h) = cmdLimit" "last (ch_cmdList h) = cmd"
  shows "length (ch_cmdList (ch_Add cmd h)) = cmdLimit - 1"
proof -
  have "ch_cmdList h \<noteq> []" "1 < length (ch_cmdList h)" using assms(1) by (auto simp: cmdLimit_def)
  then have "drop 1 (ch_cmdList h) ! (length (drop 1 (ch_cmdList h)) - 1) = cmd"
    using assms(2) last_drop[of 1 "ch_cmdList h"] last_conv_nth[of "drop 1 (ch_cmdList h)"] by simp
  then show ?thesis using assms(1) by (simp add: ch_Add_def ch_Reset_def Let_def cmdLimit_def)
qed

end
