(* ===== verification/Spec2Isabelle.thy ===== *)
theory Spec2Isabelle
  imports Prelude Unicode GoStrings SeqMap Expunge Models BodyParts Marker Tabs TextInput
    Binds JwzHeap JwzBuild JwzThread JwzUtils Iterators Threads ThreadBuilder
    JwzTrees JwzGather JwzRun Sorting Search MsgStore StoreProps WorkerQueue
    Scrollable Messages FolderMapper DirList DirTree TreeMoves AccountView
    AccountProps MboxWorker MboxProps Keyboard KeyboardProps
begin

text \<open>
  A verification library for aerc, the terminal mail client.

  The program.  The user interface (app/, lib/ui) owns tabs, text inputs and key bindings
  and shows one message store per mailbox (lib/msgstore.go).  A store keeps the UIDs of the
  mailbox and the messages fetched so far, posts requests to a worker (worker/) and is fed
  the worker's messages by its Update method.  It orders the UIDs (lib/sort), moves through
  them with iterators (lib/iterator), marks them (lib/marker) and, when threading is on,
  hands the fetched messages to the thread builder (lib/threadbuilder.go), which runs the
  threading algorithm (lib/jwz) and turns its result into trees of UIDs
  (worker/types/thread.go).  Workers translate between UIDs and the numbers of the server
  (worker/imap) and search and sort local messages (worker/lib).

  The theories.
  \<^item> Prelude, Unicode, GoStrings: slices and indexing with Go's panics as \<open>None\<close>, the string
    functions of Go's library that the code calls, lists as slices; the lemmas shared by all theories.
    Unicode holds the runes of byte strings and Go's tables of cases.
  \<^item> SeqMap, Expunge: worker/imap/seqmap.go and expungehandler.go.
  \<^item> Models, BodyParts: models/models.go and lib/structure_helpers.go.
  \<^item> Marker: lib/marker/marker.go; the maps live in a store, since the code shares them.
  \<^item> Tabs, TextInput: lib/ui/tab.go and textinput.go; the editor refines a zipper.
  \<^item> Binds: config/binds.go.
  \<^item> JwzHeap, JwzBuild, JwzThread, JwzUtils: lib/jwz, on a heap of containers linked by the
    code's pointers.  JwzBuild shows that building keeps a forest; JwzTrees reads the heap
    as ordered trees and follows pruning and reversing, JwzGather the merging of roots by
    subject, JwzRun the whole run up to the links written into the messages.
  \<^item> Iterators, Threads, ThreadBuilder: lib/iterator, worker/types/thread.go,
    lib/threadbuilder.go.
  \<^item> Sorting, Search: lib/sort, worker/lib/sort.go, worker/types/sort.go, worker/lib/search.go
    and worker/types/search.go.
  \<^item> MsgStore, StoreProps: lib/msgstore.go and what holds of it, also along every sequence of
    operations and worker messages (\<open>store_reachable\<close>).

  \<^item> WorkerQueue: worker/types/worker.go and the header of worker/types/messages.go: the
    queues between the interface and a worker and the callbacks of the requests.
  \<^item> Messages, FolderMapper: the actions and messages of worker/types/messages.go and the layer
    of worker/middleware/foldermapper.go that renames the folders in them.
  \<^item> Scrollable, DirList: app/scrollable.go, lib/dirstore.go and app/dirlist.go, the flat list of
    directories of the side bar and what it draws.
  \<^item> DirTree, TreeMoves: app/dirtree.go, the same directories as a tree of paths, and the
    movement of the selection in it.
  \<^item> AccountView, AccountProps: app/account.go, where the messages of a worker arrive: they
    update the directory list and the message stores, which live in a heap since the list of
    directories and the message list share them.  A message first runs the callback of the action it
    answers, where that callback changes the stores, and then the handler, as in onMessage.
  \<^item> MboxWorker, MboxProps: worker/mbox, a whole worker: every action on mailboxes in memory.
  \<^item> Keyboard, KeyboardProps: the keyboard part of app/aerc.go with app/exline.go, app/keyhint.go and
    commands/history.go, on the binding tables of Binds and the editor of TextInput.

  Conventions.  A struct is a record, a pointer that may be nil an option, a pointer that is
  shared an index into an explicit heap or store.  A panic, or a loop that would not end, is
  \<open>None\<close>; an error is a value of a sum type.  What a component calls of code that is not part
  of the repository (the mail header parsers, \<open>slices.SortFunc\<close>, the order in which Go walks
  a map) is an argument, and theorems about it name what they rely on.  Messages to the user
  interface and requests to workers are recorded in the state in the order they are sent.
  Locking is not modelled: every operation is one atomic step.

  Fuel.  The recursions over the pointers of lib/jwz take fuel.  \<open>jwz_fuel\<close>, one more than the
  number of containers, is enough for the loops over a chain; the fuel argument of the
  recursive functions is enough from \<open>2 * n + 2\<close> on, for \<open>n\<close> containers (\<open>threadRoot_ok\<close>), and
  the properties state that some amount is enough and any larger one gives the result.

  The lemmas.  For each component: what its operations return on every branch, the
  invariant they keep (forest of containers, selected tab, known messages), the refinement
  or equivalence with a simpler description where there is one, and the places where the
  code departs from its documentation, each with the theorem that shows it.

  Not modelled: drawing, the composer and the viewer (widgets around terminals, files and
  libraries), the commands and the configuration files (parsed by
  third-party packages), the protocol parts of the IMAP, JMAP, Maildir, mbox and notmuch
  workers, cryptography, account discovery, sending, hooks and logging: they call services,
  files or libraries that are not part of the repository.
\<close>

end
